(* ===== verification/Prelude.thy ===== *)
theory Prelude
  imports Main "HOL-Library.Sublist" "HOL-Library.Multiset"
begin

text \<open>
  What every component shares: the named collections the component proofs feed to \<open>simp\<close>,
  a few facts on lists and options the library does not state in this form, and the
  interface of "paths that form a tree". The collections: \<open>path_simps\<close> (how the path
  functions act on canonical paths), \<open>guard_simps\<close> (what a decision function answers on
  each of its branches), \<open>frame_simps\<close> (what an operation leaves alone).
\<close>

named_theorems path_simps
named_theorems guard_simps
named_theorems frame_simps

type_synonym millis = int
type_synonym nanos = int

section \<open>64-bit integers\<close>

text \<open>What Go's \<open>int64\<close> makes of an integer.\<close>

definition wrap64 :: "int \<Rightarrow> int" where
  "wrap64 i = (i + 2 ^ 63) mod 2 ^ 64 - 2 ^ 63"

lemma wrap64_small: "- (2 ^ 63) \<le> i \<Longrightarrow> i < 2 ^ 63 \<Longrightarrow> wrap64 i = i"
  by (simp add: wrap64_def)

section \<open>Lists and options\<close>

lemma find_Some_in_set: "find P xs = Some x \<Longrightarrow> x \<in> set xs \<and> P x"
  by (induction xs) (auto split: if_splits)

lemma find_None_all: "find P xs = None \<longleftrightarrow> (\<forall>x \<in> set xs. \<not> P x)"
  by (induction xs) auto

lemma find_cong_set: "(\<And>x. x \<in> set xs \<Longrightarrow> P x = Q x) \<Longrightarrow> find P xs = find Q xs"
  by (induction xs) auto

lemma list_ex_find: "list_ex P xs \<longleftrightarrow> find P xs \<noteq> None"
  by (induction xs) auto

lemma dropWhile_idem [simp]: "dropWhile P (dropWhile P xs) = dropWhile P xs"
  by (induction xs) auto

lemma map_of_filter_key:
  "map_of (filter (\<lambda>(k, v). P k) m) k = (if P k then map_of m k else None)"
  by (induction m) auto

lemma map_of_Some_key: "map_of kvs k = Some v \<Longrightarrow> k \<in> fst ` set kvs"
  by (induction kvs) (auto split: if_splits)

lemma foldl_max_ge: "a \<le> foldl (\<lambda>b x. max b (f x)) (a :: 'a :: linorder) xs"
  by (induction xs arbitrary: a) (auto intro: order_trans [OF max.cobounded1])

lemma foldl_max_le_iff:
  "foldl (\<lambda>b x. max b (f x)) (a :: 'a :: linorder) xs \<le> c \<longleftrightarrow> a \<le> c \<and> (\<forall>x \<in> set xs. f x \<le> c)"
  by (induction xs arbitrary: a) auto

section \<open>sort.SliceStable\<close>

text \<open>
  A stable sort by a "less" test, as Go's \<open>sort.SliceStable\<close> specifies it: an element goes
  in front of the first one it is less than, so equal elements keep their order.
\<close>

fun ins :: "('a \<Rightarrow> 'a \<Rightarrow> bool) \<Rightarrow> 'a \<Rightarrow> 'a list \<Rightarrow> 'a list" where
  "ins lt x [] = [x]"
| "ins lt x (y # ys) = (if lt x y then x # y # ys else y # ins lt x ys)"

definition stable_sort :: "('a \<Rightarrow> 'a \<Rightarrow> bool) \<Rightarrow> 'a list \<Rightarrow> 'a list" where
  "stable_sort lt xs = foldl (\<lambda>acc x. ins lt x acc) [] xs"

lemma mset_ins [simp]: "mset (ins lt x ys) = add_mset x (mset ys)"
  by (induction ys) auto

lemma mset_stable_sort [simp]: "mset (stable_sort lt xs) = mset xs"
proof -
  have "mset (foldl (\<lambda>acc x. ins lt x acc) acc xs) = mset acc + mset xs" for acc
    by (induction xs arbitrary: acc) auto
  then show ?thesis by (simp add: stable_sort_def)
qed

lemma set_stable_sort [simp]: "set (stable_sort lt xs) = set xs"
  by (metis mset_stable_sort set_mset_mset)

lemma set_ins [simp]: "set (ins lt x ys) = insert x (set ys)"
  by (induction ys) auto

lemma sorted_ins:
  assumes "\<And>a b. lt a b \<Longrightarrow> \<not> lt b a"
    and "\<And>a b c. \<not> lt b a \<Longrightarrow> \<not> lt c b \<Longrightarrow> \<not> lt c a"
    and "sorted_wrt (\<lambda>a b. \<not> lt b a) ys"
  shows "sorted_wrt (\<lambda>a b. \<not> lt b a) (ins lt x ys)"
  using assms(3)
proof (induction ys)
  case (Cons y ys)
  show ?case
  proof (cases "lt x y")
    case True
    have "\<not> lt z x" if "z \<in> set (y # ys)" for z
      using that assms(1) [OF True] assms(2) [OF assms(1) [OF True]] Cons.prems by auto
    then show ?thesis using True Cons.prems by simp
  next
    case False
    then show ?thesis using Cons by auto
  qed
qed simp

lemma sorted_stable_sort:
  assumes "\<And>a b. lt a b \<Longrightarrow> \<not> lt b a"
    and "\<And>a b c. \<not> lt b a \<Longrightarrow> \<not> lt c b \<Longrightarrow> \<not> lt c a"
  shows "sorted_wrt (\<lambda>a b. \<not> lt b a) (stable_sort lt xs)"
proof -
  have "sorted_wrt (\<lambda>a b. \<not> lt b a) acc \<Longrightarrow>
    sorted_wrt (\<lambda>a b. \<not> lt b a) (foldl (\<lambda>acc x. ins lt x acc) acc xs)" for acc
    using sorted_ins [of lt, OF assms] by (induction xs arbitrary: acc) auto
  then show ?thesis by (simp add: stable_sort_def)
qed

lemma filter_ins:
  assumes "\<And>a b c. \<not> lt b a \<Longrightarrow> \<not> lt c b \<Longrightarrow> \<not> lt c a"
    and "sorted_wrt (\<lambda>a b. \<not> lt b a) ys" and "\<forall>z \<in> set ys. P z \<and> P x \<longrightarrow> \<not> lt x z"
  shows "filter P (ins lt x ys) = filter P ys @ (if P x then [x] else [])"
  using assms(2,3)
proof (induction ys)
  case (Cons y ys)
  show ?case
  proof (cases "lt x y")
    case True
    have "\<not> P z" if "z \<in> set (y # ys)" "P x" for z
      using that True Cons.prems assms(1) [of z y x] by auto
    then have "P x \<longrightarrow> filter P (y # ys) = []" by (metis filter_False)
    then show ?thesis using True by (cases "P x") auto
  next
    case False
    then show ?thesis using Cons by simp
  qed
qed simp

text \<open>Stability: elements none of which is less than another keep their order.\<close>

lemma filter_stable_sort:
  assumes "\<And>a b. lt a b \<Longrightarrow> \<not> lt b a"
    and "\<And>a b c. \<not> lt b a \<Longrightarrow> \<not> lt c b \<Longrightarrow> \<not> lt c a"
    and "\<And>a b. P a \<Longrightarrow> P b \<Longrightarrow> \<not> lt a b"
  shows "filter P (stable_sort lt xs) = filter P xs"
proof -
  have "sorted_wrt (\<lambda>a b. \<not> lt b a) acc \<Longrightarrow>
    filter P (foldl (\<lambda>acc x. ins lt x acc) acc xs) = filter P acc @ filter P xs" for acc
  proof (induction xs arbitrary: acc)
    case (Cons x xs)
    have "filter P (ins lt x acc) = filter P acc @ (if P x then [x] else [])"
    proof (rule filter_ins [where lt = lt])
      show "\<not> lt c a" if "\<not> lt b a" "\<not> lt c b" for a b c using that by (rule assms(2))
      show "sorted_wrt (\<lambda>a b. \<not> lt b a) acc" by (rule Cons.prems)
      show "\<forall>z \<in> set acc. P z \<and> P x \<longrightarrow> \<not> lt x z" using assms(3) by simp
    qed
    moreover have "sorted_wrt (\<lambda>a b. \<not> lt b a) (ins lt x acc)"
      by (rule sorted_ins [of lt, OF assms(1,2) Cons.prems])
    ultimately show ?case using Cons.IH by simp
  qed simp
  from this [of "[]"] show ?thesis by (simp add: stable_sort_def)
qed

section \<open>Paths that form a tree\<close>

text \<open>
  Access control, the write gate and the WebDAV lock table all ask one question of two
  paths: is one at or above the other? Each asks it with its own function on its own
  spelling of a path. The contract they share is that, on well-formed paths, the answer is
  the prefix order of the paths' segments; what the clients use of it is proved once here.
\<close>

locale path_tree =
  fixes covers :: "'p \<Rightarrow> 'p \<Rightarrow> bool"
    and segs :: "'p \<Rightarrow> 's list"
    and ok :: "'p \<Rightarrow> bool"
  assumes covers_segs: "ok p \<Longrightarrow> ok q \<Longrightarrow> covers p q \<longleftrightarrow> prefix (segs p) (segs q)"
    and segs_inj: "ok p \<Longrightarrow> ok q \<Longrightarrow> segs p = segs q \<Longrightarrow> p = q"
begin

lemma covers_refl: "ok p \<Longrightarrow> covers p p"
  by (simp add: covers_segs)

lemma covers_trans: "ok p \<Longrightarrow> ok q \<Longrightarrow> ok r \<Longrightarrow> covers p q \<Longrightarrow> covers q r \<Longrightarrow> covers p r"
  using prefix_order.trans by (auto simp: covers_segs)

lemma covers_antisym: "ok p \<Longrightarrow> ok q \<Longrightarrow> covers p q \<Longrightarrow> covers q p \<Longrightarrow> p = q"
  using prefix_order.antisym segs_inj by (auto simp: covers_segs)

lemma covers_comparable:
  "ok p \<Longrightarrow> ok q \<Longrightarrow> ok r \<Longrightarrow> covers p r \<Longrightarrow> covers q r \<Longrightarrow> covers p q \<or> covers q p"
  using prefix_same_cases by (auto simp: covers_segs)

end

end
