(* ===== verification/GoStrings.thy ===== *)
theory GoStrings
  imports Prelude
begin

text \<open>
  The functions of Go's \<open>strings\<close> and \<open>path\<close> packages the modelled code calls. A Go
  string is a sequence of bytes, so it is a \<open>string\<close> here (a list of 8-bit characters);
  nothing below assumes valid UTF-8. \<open>path.Clean\<close> is given on slash-separated segments,
  which is what its byte loop computes. The second half is the theory of canonical
  storage-relative paths: \<open>norm_rel\<close> maps any spelling to its list of proper segments.
\<close>

abbreviation slash :: char where "slash \<equiv> CHR ''/''"

section \<open>strings\<close>

definition has_prefix :: "string \<Rightarrow> string \<Rightarrow> bool" where
  "has_prefix s p \<longleftrightarrow> take (length p) s = p"

definition has_suffix :: "string \<Rightarrow> string \<Rightarrow> bool" where
  "has_suffix s p \<longleftrightarrow> length p \<le> length s \<and> drop (length s - length p) s = p"

definition trim_prefix :: "string \<Rightarrow> string \<Rightarrow> string" where
  "trim_prefix s p = (if has_prefix s p then drop (length p) s else s)"

definition trim_suffix :: "string \<Rightarrow> string \<Rightarrow> string" where
  "trim_suffix s p = (if has_suffix s p then take (length s - length p) s else s)"

definition trim_right :: "(char \<Rightarrow> bool) \<Rightarrow> string \<Rightarrow> string" where
  "trim_right P s = rev (dropWhile P (rev s))"

definition trim :: "(char \<Rightarrow> bool) \<Rightarrow> string \<Rightarrow> string" where
  "trim P s = trim_right P (dropWhile P s)"

abbreviation trim_slash :: "string \<Rightarrow> string" where
  "trim_slash \<equiv> trim (\<lambda>c. c = slash)"

fun split_on :: "char \<Rightarrow> string \<Rightarrow> string list" where
  "split_on c [] = [[]]"
| "split_on c (x # xs) =
     (if x = c then [] # split_on c xs
      else (case split_on c xs of [] \<Rightarrow> [[x]] | y # ys \<Rightarrow> (x # y) # ys))"

fun join :: "char \<Rightarrow> string list \<Rightarrow> string" where
  "join c [] = []"
| "join c [x] = x"
| "join c (x # y # ys) = x @ c # join c (y # ys)"

fun index_of :: "string \<Rightarrow> string \<Rightarrow> nat option" where
  "index_of s sub =
     (if has_prefix s sub then Some 0
      else (case s of [] \<Rightarrow> None | _ # t \<Rightarrow> map_option Suc (index_of t sub)))"

declare index_of.simps [simp del]

definition index_byte :: "string \<Rightarrow> char \<Rightarrow> nat option" where
  "index_byte s c = index_of s [c]"

definition last_index :: "char \<Rightarrow> string \<Rightarrow> nat option" where
  "last_index c s = (case index_byte (rev s) c of None \<Rightarrow> None | Some i \<Rightarrow> Some (length s - 1 - i))"

definition count_byte :: "char \<Rightarrow> string \<Rightarrow> nat" where
  "count_byte c s = length (filter (\<lambda>x. x = c) s)"

text \<open>
  \<open>strings.TrimSpace\<close>: the six ASCII blanks, and the UTF-8 spellings of the other code
  points for which \<open>unicode.IsSpace\<close> holds (U+0085, U+00A0, U+1680, U+2000 to U+200A,
  U+2028, U+2029, U+202F, U+205F, U+3000).
\<close>

definition ascii_space :: "char \<Rightarrow> bool" where
  "ascii_space c \<longleftrightarrow> (let n = (of_char c :: nat) in n = 32 \<or> 9 \<le> n \<and> n \<le> 13)"

fun wide_space :: "string \<Rightarrow> nat" where
  "wide_space (a # b # rest) =
     (let x = (of_char a :: nat); y = (of_char b :: nat) in
      if x = 194 \<and> (y = 133 \<or> y = 160) then 2
      else (case rest of [] \<Rightarrow> 0 | c # _ \<Rightarrow>
        (let z = (of_char c :: nat) in
         if x = 225 \<and> y = 154 \<and> z = 128 \<or>
            x = 226 \<and> y = 128 \<and> (128 \<le> z \<and> z \<le> 138 \<or> z = 168 \<or> z = 169 \<or> z = 175) \<or>
            x = 226 \<and> y = 129 \<and> z = 159 \<or>
            x = 227 \<and> y = 128 \<and> z = 128
         then 3 else 0)))"
| "wide_space _ = 0"

definition space_len :: "string \<Rightarrow> nat" where
  "space_len s = (case s of [] \<Rightarrow> 0 | c # _ \<Rightarrow> if ascii_space c then 1 else wide_space s)"

function trim_space_left :: "string \<Rightarrow> string" where
  "trim_space_left s = (if space_len s = 0 then s else trim_space_left (drop (space_len s) s))"
  by pat_completeness auto
termination
  by (relation "measure length") (auto simp: space_len_def split: list.splits if_splits)

declare trim_space_left.simps [simp del]

definition space_len_right :: "string \<Rightarrow> nat" where
  "space_len_right s =
     (let n = length s in
      if n \<ge> 1 \<and> ascii_space (last s) then 1
      else if n \<ge> 2 \<and> wide_space (drop (n - 2) s) = 2 then 2
      else if n \<ge> 3 \<and> wide_space (drop (n - 3) s) = 3 then 3 else 0)"

function trim_space_right :: "string \<Rightarrow> string" where
  "trim_space_right s =
     (if space_len_right s = 0 then s
      else trim_space_right (take (length s - space_len_right s) s))"
  by pat_completeness auto
termination
  by (relation "measure length")
     (auto simp: space_len_right_def Let_def split: if_splits)

declare trim_space_right.simps [simp del]

definition trim_space :: "string \<Rightarrow> string" where
  "trim_space s = trim_space_right (trim_space_left s)"

lemma trim_space_plain: "space_len s = 0 \<Longrightarrow> space_len_right s = 0 \<Longrightarrow> trim_space s = s"
  by (simp add: trim_space_def trim_space_left.simps trim_space_right.simps)

text \<open>
  \<open>strings.ToLower\<close>: bytes when the whole string is ASCII; otherwise Unicode's case tables,
  which are the argument \<open>uni\<close>.
\<close>

definition lower_byte :: "char \<Rightarrow> char" where
  "lower_byte c = (let n = (of_char c :: nat) in if 65 \<le> n \<and> n \<le> 90 then char_of (n + 32) else c)"

definition to_lower :: "(string \<Rightarrow> string) \<Rightarrow> string \<Rightarrow> string" where
  "to_lower uni s = (if list_all (\<lambda>c. (of_char c :: nat) < 128) s then map lower_byte s else uni s)"

text \<open>The order of strings: byte by byte.\<close>

fun str_less :: "string \<Rightarrow> string \<Rightarrow> bool" where
  "str_less a [] \<longleftrightarrow> False"
| "str_less [] (y # ys) \<longleftrightarrow> True"
| "str_less (x # xs) (y # ys) \<longleftrightarrow> (of_char x :: nat) < of_char y \<or> x = y \<and> str_less xs ys"

section \<open>path\<close>

text \<open>
  \<open>path.Clean\<close>: empty and \<open>.\<close> segments are dropped, \<open>..\<close> removes the segment before
  it, at the root it is dropped, and in front of a relative path it stays. The accumulator
  is the output so far, last segment first.
\<close>

fun clean_segs :: "bool \<Rightarrow> string list \<Rightarrow> string list \<Rightarrow> string list" where
  "clean_segs rooted out [] = rev out"
| "clean_segs rooted out (s # ss) =
     (if s = [] \<or> s = ''.'' then clean_segs rooted out ss
      else if s = ''..'' then
        (case out of
           o1 # os \<Rightarrow> if o1 \<noteq> ''..'' then clean_segs rooted os ss
                       else clean_segs rooted (s # out) ss
         | [] \<Rightarrow> if rooted then clean_segs rooted out ss else clean_segs rooted [s] ss)
      else clean_segs rooted (s # out) ss)"

definition path_clean :: "string \<Rightarrow> string" where
  "path_clean p =
     (case p of [] \<Rightarrow> ''.''
      | c # _ \<Rightarrow>
        (if c = slash then slash # join slash (clean_segs True [] (split_on slash p))
         else let ss = clean_segs False [] (split_on slash p)
              in if ss = [] then ''.'' else join slash ss))"

definition path_base :: "string \<Rightarrow> string" where
  "path_base p =
     (if p = [] then ''.''
      else let q = trim_right (\<lambda>c. c = slash) p
           in if q = [] then [slash] else last (split_on slash q))"

definition path_dir :: "string \<Rightarrow> string" where
  "path_dir p = path_clean (rev (dropWhile (\<lambda>c. c \<noteq> slash) (rev p)))"

definition path_ext :: "string \<Rightarrow> string" where
  "path_ext p =
     (let b = last (split_on slash p)
      in if CHR ''.'' \<in> set b then CHR ''.'' # last (split_on (CHR ''.'') b) else [])"

section \<open>Canonical storage-relative paths\<close>

definition seg_ok :: "string \<Rightarrow> bool" where
  "seg_ok s \<longleftrightarrow> s \<noteq> [] \<and> s \<noteq> ''.'' \<and> s \<noteq> ''..'' \<and> slash \<notin> set s"

definition norm_rel :: "string \<Rightarrow> string list" where
  "norm_rel rel = clean_segs True [] (split_on slash rel)"

text \<open>\<open>strings.Trim(path.Clean("/"+rel), "/")\<close>, the expression nearly every caller writes.\<close>

definition clean_slash :: "string \<Rightarrow> string" where
  "clean_slash rel = trim_slash (path_clean (slash # rel))"

lemma split_on_nonempty [simp]: "split_on c s \<noteq> []"
  by (induction s) (auto split: list.splits)

lemma split_on_no_sep: "x \<in> set (split_on c s) \<Longrightarrow> c \<notin> set x"
proof (induction s arbitrary: x)
  case (Cons a s)
  then show ?case by (fastforce split: if_splits list.splits)
qed simp

lemma split_on_notin: "c \<notin> set s \<Longrightarrow> split_on c s = [s]"
  by (induction s) auto

lemma split_on_append_sep: "c \<notin> set x \<Longrightarrow> split_on c (x @ c # s) = x # split_on c s"
  by (induction x) auto

lemma split_on_append: "split_on c (x @ c # s) = split_on c x @ split_on c s"
  by (induction x) (auto split: list.splits)

lemma join_Cons: "join c (x # xs) = (if xs = [] then x else x @ c # join c xs)"
  by (cases xs) auto

lemma join_split: "join c (split_on c s) = s"
proof (induction s)
  case (Cons a s)
  then show ?case by (cases "split_on c s") (auto simp: join_Cons)
qed simp

lemma split_join:
  assumes "xs \<noteq> []" and "\<And>x. x \<in> set xs \<Longrightarrow> c \<notin> set x"
  shows "split_on c (join c xs) = xs"
  using assms
proof (induction xs rule: join.induct)
  case (3 c x y ys)
  then show ?case by (simp add: split_on_append_sep)
qed (auto simp: split_on_notin)

lemma clean_segs_all_ok:
  "\<forall>s \<in> set out. seg_ok s \<Longrightarrow> \<forall>s \<in> set ss. slash \<notin> set s \<Longrightarrow>
   \<forall>s \<in> set (clean_segs True out ss). seg_ok s"
proof (induction ss arbitrary: out)
  case (Cons s ss)
  note out = Cons.prems(1)
  have ss: "\<forall>s \<in> set ss. slash \<notin> set s" and s: "slash \<notin> set s" using Cons.prems(2) by simp_all
  note IH = Cons.IH [OF _ ss]
  have tl: "\<forall>s \<in> set os. seg_ok s" "o1 \<noteq> ''..''" if "out = o1 # os" for o1 os
    using out that by (simp_all add: seg_ok_def)
  consider "s = [] \<or> s = ''.''" | "s = ''..''" | "s \<noteq> []" "s \<noteq> ''.''" "s \<noteq> ''..''" by blast
  then show ?case
  proof cases
    case 1
    then have "clean_segs True out (s # ss) = clean_segs True out ss" by simp
    then show ?thesis using IH [OF out] by (simp only:)
  next
    case 2
    then have "clean_segs True out (s # ss) = clean_segs True (case out of [] \<Rightarrow> [] | _ # os \<Rightarrow> os) ss"
      using tl(2) by (simp split: list.split)
    moreover have "\<forall>s \<in> set (case out of [] \<Rightarrow> [] | _ # os \<Rightarrow> os). seg_ok s"
      by (cases out) (simp_all add: tl(1))
    ultimately show ?thesis using IH by (simp only:)
  next
    case 3
    then have "clean_segs True out (s # ss) = clean_segs True (s # out) ss" by simp
    moreover have "\<forall>s \<in> set (s # out). seg_ok s" using 3 s out by (simp add: seg_ok_def)
    ultimately show ?thesis using IH by (simp only:)
  qed
qed simp

lemma clean_segs_id:
  "\<forall>s \<in> set ss. seg_ok s \<Longrightarrow> clean_segs True out ss = rev out @ ss"
  by (induction ss arbitrary: out) (auto simp: seg_ok_def)

lemma norm_rel_ok [path_simps]: "s \<in> set (norm_rel rel) \<Longrightarrow> seg_ok s"
  using clean_segs_all_ok [of "[]" "split_on slash rel"] split_on_no_sep
  unfolding norm_rel_def by (metis empty_iff empty_set)

lemma norm_rel_Nil [simp]: "norm_rel [] = []"
  by (simp add: norm_rel_def)

lemma norm_rel_join [path_simps]: "\<forall>s \<in> set ss. seg_ok s \<Longrightarrow> norm_rel (join slash ss) = ss"
proof (cases "ss = []")
  case False
  assume ok: "\<forall>s \<in> set ss. seg_ok s"
  then have "split_on slash (join slash ss) = ss"
    using False by (intro split_join) (auto simp: seg_ok_def)
  then show ?thesis using clean_segs_id [OF ok, of "[]"] by (simp add: norm_rel_def)
qed simp

lemma path_clean_rooted: "path_clean (slash # rel) = slash # join slash (norm_rel rel)"
  by (simp add: path_clean_def norm_rel_def)

lemma join_append: "xs \<noteq> [] \<Longrightarrow> ys \<noteq> [] \<Longrightarrow> join c (xs @ ys) = join c xs @ c # join c ys"
  by (induction xs) (auto simp: join_Cons)

lemma join_last_ok:
  assumes "ss \<noteq> []" "\<forall>s \<in> set ss. seg_ok s"
  shows "join slash ss \<noteq> [] \<and> hd (join slash ss) \<noteq> slash \<and> last (join slash ss) \<noteq> slash"
  using assms
proof (induction ss)
  case (Cons s ss)
  then have s: "s \<noteq> []" "slash \<notin> set s" by (auto simp: seg_ok_def)
  then have "hd s \<noteq> slash" "last s \<noteq> slash" by (auto dest: hd_in_set last_in_set)
  with Cons s show ?case by (auto simp: join_Cons hd_append)
qed simp

lemma trim_slash_join:
  assumes "\<forall>s \<in> set ss. seg_ok s"
  shows "trim_slash (slash # join slash ss) = join slash ss"
proof (cases "ss = []")
  case False
  note j = join_last_ok [OF False assms]
  have "dropWhile (\<lambda>c. c = slash) (join slash ss) = join slash ss"
    using j by (cases "join slash ss") auto
  moreover have "dropWhile (\<lambda>c. c = slash) (rev (join slash ss)) = rev (join slash ss)"
    using j by (cases "join slash ss" rule: rev_cases) auto
  ultimately show ?thesis by (simp add: trim_def trim_right_def)
qed (simp add: trim_def trim_right_def)

lemma clean_slash_join [path_simps]: "clean_slash rel = join slash (norm_rel rel)"
  unfolding clean_slash_def path_clean_rooted by (intro trim_slash_join) (auto simp: norm_rel_ok)

lemma norm_clean [path_simps]: "norm_rel (clean_slash rel) = norm_rel rel"
  by (simp add: clean_slash_join norm_rel_join norm_rel_ok)

lemma clean_slash_idem [path_simps]: "clean_slash (clean_slash rel) = clean_slash rel"
  by (metis clean_slash_join norm_clean)

lemma join_eq_Nil: "\<forall>s \<in> set ss. seg_ok s \<Longrightarrow> join slash ss = [] \<longleftrightarrow> ss = []"
  using join_last_ok by auto

lemma clean_slash_Nil: "clean_slash rel = [] \<longleftrightarrow> norm_rel rel = []"
  by (simp add: clean_slash_join join_eq_Nil norm_rel_ok)

lemma clean_slash_not_dot: "clean_slash rel \<noteq> ''.''"
proof
  assume "clean_slash rel = ''.''"
  then have "norm_rel rel = norm_rel ''.''" by (metis norm_clean)
  also have "\<dots> = []" by (simp add: norm_rel_def)
  finally show False using \<open>clean_slash rel = ''.''\<close> clean_slash_Nil by force
qed

lemma split_clean_slash: "norm_rel rel \<noteq> [] \<Longrightarrow> split_on slash (clean_slash rel) = norm_rel rel"
  unfolding clean_slash_join by (rule split_join) (auto simp: seg_ok_def dest: norm_rel_ok)

text \<open>
  On canonical paths, "equal, or starts with the other and a slash" is the prefix order of
  the segments.
\<close>

lemma has_prefix_iff: "has_prefix s p \<longleftrightarrow> prefix p s"
  unfolding has_prefix_def by (metis append_take_drop_id prefixI prefixE append_eq_conv_conj)

lemma prefix_join_slash:
  assumes a: "\<forall>s \<in> set a. seg_ok s" and b: "\<forall>s \<in> set b. seg_ok s" and "a \<noteq> []"
  shows "join slash b = join slash a \<or> has_prefix (join slash b) (join slash a @ [slash]) \<longleftrightarrow> prefix a b"
proof
  assume "join slash b = join slash a \<or> has_prefix (join slash b) (join slash a @ [slash])"
  then show "prefix a b"
  proof
    assume "join slash b = join slash a"
    then show ?thesis by (metis a b norm_rel_join prefix_order.order_refl)
  next
    assume "has_prefix (join slash b) (join slash a @ [slash])"
    then obtain r where r: "join slash b = join slash a @ slash # r"
      by (auto simp: has_prefix_iff prefix_def)
    then have "split_on slash (join slash b) = a @ split_on slash r"
      using a \<open>a \<noteq> []\<close> by (simp add: split_on_append split_join seg_ok_def)
    moreover have "b \<noteq> []" using r by auto
    ultimately have "b = a @ split_on slash r" using b by (simp add: split_join seg_ok_def)
    then show ?thesis by auto
  qed
next
  assume "prefix a b"
  then obtain c where "b = a @ c" by (auto elim: prefixE)
  then show "join slash b = join slash a \<or> has_prefix (join slash b) (join slash a @ [slash])"
    using \<open>a \<noteq> []\<close> by (cases "c = []") (auto simp: join_append has_prefix_iff)
qed

lemma trim_space_ascii:
  assumes "\<And>c. c \<in> set s \<Longrightarrow> 32 < (of_char c :: nat) \<and> (of_char c :: nat) < 128"
  shows "trim_space s = s"
proof (rule trim_space_plain)
  have w: "wide_space t = 0" if "set t \<subseteq> set s" for t
  proof (cases t rule: wide_space.cases)
    case (1 a b rest)
    then have "(of_char a :: nat) < 128" using that assms by auto
    then have "of_char a \<noteq> (194 :: nat)" "of_char a \<noteq> (225 :: nat)" "of_char a \<noteq> (226 :: nat)" "of_char a \<noteq> (227 :: nat)"
      by linarith+
    then show ?thesis unfolding 1 wide_space.simps Let_def by (simp split: list.split)
  qed simp_all
  show "space_len s = 0"
  proof (cases s)
    case (Cons c t)
    then show ?thesis using assms [of c] w [of s] by (simp add: space_len_def ascii_space_def Let_def)
  qed (simp add: space_len_def)
  show "space_len_right s = 0"
  proof (cases "s = []")
    case False
    then have "\<not> ascii_space (last s)" using assms [of "last s"] by (simp add: ascii_space_def Let_def)
    moreover have "wide_space (drop n s) = 0" for n by (rule w) (rule set_drop_subset)
    ultimately show ?thesis by (simp add: space_len_right_def Let_def)
  qed (simp add: space_len_right_def)
qed

lemma index_byte_simps:
  "index_byte [] c = None"
  "index_byte (x # s) c = (if x = c then Some 0 else map_option Suc (index_byte s c))"
  by (simp_all add: index_byte_def index_of.simps has_prefix_def)

lemma index_byte_append: "c \<notin> set s \<Longrightarrow> index_byte (s @ c # t) c = Some (length s)"
  by (induction s) (auto simp: index_byte_simps)

lemma index_byte_None: "c \<notin> set s \<Longrightarrow> index_byte s c = None"
  by (induction s) (auto simp: index_byte_simps)

lemma last_index_append: "c \<notin> set t \<Longrightarrow> last_index c (s @ c # t) = Some (length s)"
  using index_byte_append [of c "rev t" "rev s"] by (simp add: last_index_def)

lemma norm_slash: "norm_rel (slash # s) = norm_rel s" "norm_rel (s @ [slash]) = norm_rel s"
proof -
  show "norm_rel (slash # s) = norm_rel s" by (simp add: norm_rel_def)
  have "clean_segs True out (ss @ [[]]) = clean_segs True out ss" for out ss
    by (induction ss arbitrary: out) (auto split: list.split)
  then show "norm_rel (s @ [slash]) = norm_rel s"
    using split_on_append [of slash s "[]"] by (simp add: norm_rel_def)
qed

lemma norm_trim_slash: "norm_rel (trim_slash s) = norm_rel s"
proof -
  have l: "norm_rel (dropWhile (\<lambda>c. c = slash) s) = norm_rel s" for s
    by (induction s) (auto simp: norm_slash)
  have r: "norm_rel (rev (dropWhile (\<lambda>c. c = slash) (rev s))) = norm_rel s" for s
    by (induction s rule: rev_induct) (auto simp: norm_slash)
  show ?thesis by (simp add: trim_def trim_right_def l r)
qed

text \<open>\<open>TrimSpace\<close> of a string that was trimmed changes nothing, and it only leaves out characters.\<close>

lemma trim_space_left_done: "space_len (trim_space_left s) = 0"
  by (induction s rule: trim_space_left.induct) (subst trim_space_left.simps, simp)

lemma trim_space_right_done: "space_len_right (trim_space_right s) = 0"
  by (induction s rule: trim_space_right.induct) (subst trim_space_right.simps, simp)

lemma trim_space_right_prefix: "prefix (trim_space_right s) s"
proof (induction s rule: trim_space_right.induct)
  case (1 s)
  then show ?case
    by (subst trim_space_right.simps) (auto intro: prefix_order.trans [OF _ take_is_prefix])
qed

lemma wide_space_front: "wide_space (t @ u) = 0 \<Longrightarrow> wide_space t = 0"
proof (cases t rule: wide_space.cases)
  case (1 a b rest)
  assume "wide_space (t @ u) = 0"
  then show ?thesis unfolding 1 append_Cons wide_space.simps Let_def by (cases rest) (simp_all split: if_split_asm list.split_asm)
qed simp_all

lemma space_len_prefix:
  assumes "space_len s = 0" "prefix t s" shows "space_len t = 0"
proof (cases t)
  case (Cons c r)
  obtain u where u: "s = t @ u" using assms(2) by (auto elim: prefixE)
  then have "wide_space (t @ u) = 0" "\<not> ascii_space c" using assms(1) Cons by (simp_all add: space_len_def split: if_split_asm)
  then show ?thesis using wide_space_front [of t u] Cons by (simp add: space_len_def)
qed (simp add: space_len_def)

lemma trim_space_idem [simp]: "trim_space (trim_space s) = trim_space s"
  by (rule trim_space_plain)
    (simp_all add: trim_space_def trim_space_right_done space_len_prefix [OF trim_space_left_done trim_space_right_prefix])

lemma set_trim_space: "set (trim_space s) \<subseteq> set s"
proof -
  have "set (trim_space_left s) \<subseteq> set s" for s
  proof (induction s rule: trim_space_left.induct)
    case (1 s)
    then show ?case by (subst trim_space_left.simps) (auto dest: in_set_dropD)
  qed
  then show ?thesis using set_mono_prefix [OF trim_space_right_prefix [of "trim_space_left s"]] by (auto simp: trim_space_def)
qed

definition visible_char :: "char \<Rightarrow> bool" where
  "visible_char c \<longleftrightarrow> 32 < (of_char c :: nat) \<and> (of_char c :: nat) < 128"

lemma wide_space_bytes: "x \<in> set (List.take (wide_space s) s) \<Longrightarrow> \<not> visible_char x"
proof (cases s rule: wide_space.cases)
  case (1 a b rest)
  assume x: "x \<in> set (List.take (wide_space s) s)"
  show ?thesis
  proof (cases rest)
    case Nil
    then show ?thesis using x unfolding 1 by (auto simp: Let_def visible_char_def split: if_split_asm)
  next
    case (Cons c r)
    then show ?thesis using x unfolding 1 by (auto simp: Let_def visible_char_def numeral_2_eq_2 numeral_3_eq_3 split: if_split_asm)
  qed
qed simp_all

lemma space_len_bytes: "x \<in> set (List.take (space_len s) s) \<Longrightarrow> \<not> visible_char x"
  using wide_space_bytes [of x s]
  by (auto simp: space_len_def visible_char_def ascii_space_def Let_def split: list.splits if_split_asm)

lemma space_len_right_bytes: "x \<in> set (drop (length s - space_len_right s) s) \<Longrightarrow> \<not> visible_char x"
proof -
  assume x: "x \<in> set (drop (length s - space_len_right s) s)"
  have one: "drop (length s - 1) s = [last s]" if "1 \<le> length s" using that by (cases s rule: rev_cases) simp_all
  have two: "x \<in> set (drop (length s - k) s) \<Longrightarrow> k \<le> length s \<Longrightarrow> wide_space (drop (length s - k) s) = k \<Longrightarrow> \<not> visible_char x" for k
    using wide_space_bytes [of x "drop (length s - k) s"] by simp
  show ?thesis
  proof (cases "1 \<le> length s \<and> ascii_space (last s)")
    case True
    then have "x = last s" using x one by (simp add: space_len_right_def Let_def)
    then show ?thesis using True by (auto simp: visible_char_def ascii_space_def Let_def)
  next
    case False
    then show ?thesis using x two [of 2] two [of 3] by (auto simp: space_len_right_def Let_def split: if_split_asm)
  qed
qed

lemma trim_space_keeps: "c \<in> set s \<Longrightarrow> visible_char c \<Longrightarrow> c \<in> set (trim_space s)"
proof -
  have l: "c \<in> set s \<Longrightarrow> visible_char c \<Longrightarrow> c \<in> set (trim_space_left s)" for s
  proof (induction s rule: trim_space_left.induct)
    case (1 s)
    have "c \<in> set (drop (space_len s) s)"
      using 1(2,3) space_len_bytes [of c s] by (metis Un_iff append_take_drop_id set_append)
    then show ?case using 1 by (subst trim_space_left.simps) simp
  qed
  have r: "c \<in> set s \<Longrightarrow> visible_char c \<Longrightarrow> c \<in> set (trim_space_right s)" for s
  proof (induction s rule: trim_space_right.induct)
    case (1 s)
    have "c \<in> set (List.take (length s - space_len_right s) s)"
      using 1(2,3) space_len_right_bytes [of c s] by (metis Un_iff append_take_drop_id set_append)
    then show ?case using 1 by (subst trim_space_right.simps) simp
  qed
  show "c \<in> set s \<Longrightarrow> visible_char c \<Longrightarrow> c \<in> set (trim_space s)" using l r by (simp add: trim_space_def)
qed

end
