(* ===== verification/PathMatch.thy ===== *)
theory PathMatch
  imports GoStrings
begin

text \<open>
  \<open>path.Match\<close> of Go's standard library, which the folder conditions of a role are matched
  with: UTF-8 decoding of one rune, the chunks between stars, one chunk against the start of
  a name, and the search over the positions a star may skip to. \<open>None\<close> is
  \<open>ErrBadPattern\<close>.
\<close>

definition byte :: "char \<Rightarrow> nat" where
  "byte c = of_char c"

definition cont :: "nat \<Rightarrow> bool" where
  "cont b \<longleftrightarrow> 128 \<le> b \<and> b \<le> 191"

text \<open>\<open>utf8.DecodeRuneInString\<close>: the rune and its width; (65533, 1) for a bad byte.\<close>

definition decode_rune :: "string \<Rightarrow> nat \<times> nat" where
  "decode_rune s =
     (case map byte s of
        [] \<Rightarrow> (65533, 0)
      | a # r1 \<Rightarrow>
        if a < 128 then (a, 1)
        else if 194 \<le> a \<and> a \<le> 223 then
          (case r1 of b # _ \<Rightarrow> if cont b then ((a - 192) * 64 + (b - 128), 2) else (65533, 1)
           | [] \<Rightarrow> (65533, 1))
        else if 224 \<le> a \<and> a \<le> 239 then
          (case r1 of b # c # _ \<Rightarrow>
             if (if a = 224 then 160 else 128) \<le> b \<and> b \<le> (if a = 237 then 159 else 191) \<and> cont c
             then ((a - 224) * 4096 + (b - 128) * 64 + (c - 128), 3) else (65533, 1)
           | _ \<Rightarrow> (65533, 1))
        else if 240 \<le> a \<and> a \<le> 244 then
          (case r1 of b # c # d # _ \<Rightarrow>
             if (if a = 240 then 144 else 128) \<le> b \<and> b \<le> (if a = 244 then 143 else 191) \<and> cont c \<and> cont d
             then ((a - 240) * 262144 + (b - 128) * 4096 + (c - 128) * 64 + (d - 128), 4)
             else (65533, 1)
           | _ \<Rightarrow> (65533, 1))
        else (65533, 1))"

lemma decode_rune_width: "s \<noteq> [] \<Longrightarrow> 1 \<le> snd (decode_rune s)"
  by (auto simp: decode_rune_def split: list.splits)

text \<open>The runes of a string, each as its bytes; a bad byte becomes U+FFFD, as \<open>strings.Map\<close> writes it.\<close>

definition bad_rune :: string where
  "bad_rune = [char_of (239 :: nat), char_of (191 :: nat), char_of (189 :: nat)]"

function runes :: "string \<Rightarrow> (nat \<times> string) list" where
  "runes s =
     (if s = [] then []
      else let (r, w) = decode_rune s in
        (r, if r = 65533 \<and> w = 1 then bad_rune else take w s) # runes (drop w s))"
  by pat_completeness auto
termination
proof (relation "measure length")
  show "(drop w s, s) \<in> measure length" if "s \<noteq> []" "p = decode_rune s" "(r, w) = p" for s :: string and r w p
    using decode_rune_width [OF that(1)] that by (cases "decode_rune s") auto
qed simp

declare runes.simps [simp del]

definition get_esc :: "string \<Rightarrow> (nat \<times> string) option" where
  "get_esc chunk =
     (if chunk = [] \<or> hd chunk = CHR ''-'' \<or> hd chunk = CHR '']'' then None
      else let c = (if hd chunk = CHR 0x5C then tl chunk else chunk) in
        if c = [] then None
        else let (r, n) = decode_rune c in
          if r = 65533 \<and> n = 1 then None
          else if drop n c = [] then None else Some (r, drop n c))"

lemma get_esc_length: "get_esc chunk = Some (r, rest) \<Longrightarrow> length rest < length chunk"
proof -
  assume a: "get_esc chunk = Some (r, rest)"
  let ?c = "if hd chunk = CHR 0x5C then tl chunk else chunk"
  from a have "?c \<noteq> []" "chunk \<noteq> []" "rest = drop (snd (decode_rune ?c)) ?c"
    by (auto simp: get_esc_def Let_def split: if_splits prod.splits)
  moreover have "length ?c \<le> length chunk" by simp
  ultimately show ?thesis using decode_rune_width [of ?c] by (cases ?c) (auto simp del: drop_eq_Nil)
qed

text \<open>The ranges of a class after \<open>[\<close> and \<open>^\<close>: whether the rune is in one, and the rest.\<close>

function match_ranges :: "nat \<Rightarrow> string \<Rightarrow> nat \<Rightarrow> bool \<Rightarrow> (bool \<times> string) option" where
  "match_ranges r chunk nrange m =
     (if chunk \<noteq> [] \<and> hd chunk = CHR '']'' \<and> nrange > 0 then Some (m, tl chunk)
      else case get_esc chunk of
        None \<Rightarrow> None
      | Some (lo, c1) \<Rightarrow>
          if hd c1 = CHR ''-'' then
            (case get_esc (tl c1) of
               None \<Rightarrow> None
             | Some (hi, c2) \<Rightarrow> match_ranges r c2 (Suc nrange) (m \<or> lo \<le> r \<and> r \<le> hi))
          else match_ranges r c1 (Suc nrange) (m \<or> lo \<le> r \<and> r \<le> lo))"
  by pat_completeness auto
termination
proof (relation "measure (\<lambda>(r, c, n, m). length c)", goal_cases)
  case 1 show ?case by simp
next
  case (2 r chunk n m p lo c1 q hi c2)
  have "length (tl c1) \<le> length c1" by simp
  with 2 get_esc_length [of chunk lo c1] get_esc_length [of "tl c1" hi c2] show ?case by simp
next
  case (3 r chunk n m p lo c1)
  with get_esc_length [of chunk lo c1] show ?case by simp
qed

declare match_ranges.simps [simp del]

lemma match_ranges_length: "match_ranges r c n m = Some (b, rest) \<Longrightarrow> length rest \<le> length c"
proof (induction r c n m rule: match_ranges.induct)
  case (1 r chunk n m)
  show ?case
  proof (cases "chunk \<noteq> [] \<and> hd chunk = CHR '']'' \<and> n > 0")
    case True
    with "1.prems" show ?thesis by (auto simp: match_ranges.simps [of r chunk])
  next
    case False
    with "1.prems" obtain lo c1 where g: "get_esc chunk = Some (lo, c1)"
      by (auto simp: match_ranges.simps [of r chunk] split: option.splits)
    note l = get_esc_length [OF g]
    show ?thesis
    proof (cases "hd c1 = CHR ''-''")
      case True
      with "1.prems" False g obtain hi c2 where h: "get_esc (tl c1) = Some (hi, c2)"
        by (auto simp: match_ranges.simps [of r chunk] split: option.splits)
      have "length rest \<le> length c2"
        using 1(1) [OF False g refl True h refl] "1.prems" False g True h
        by (simp add: match_ranges.simps [of r chunk])
      with l get_esc_length [OF h] show ?thesis by simp
    next
      case 2: False
      then have "length rest \<le> length c1"
        using 1(2) [OF False g refl 2] "1.prems" False g by (simp add: match_ranges.simps [of r chunk])
      with l show ?thesis by simp
    qed
  qed
qed

text \<open>
  \<open>matchChunk\<close>: \<open>None\<close> for a bad pattern, \<open>Some None\<close> for no match, \<open>Some (Some t)\<close>
  when the chunk matches and \<open>t\<close> of the name is left.
\<close>

function match_chunk :: "string \<Rightarrow> string \<Rightarrow> bool \<Rightarrow> string option option" where
  "match_chunk chunk s failed0 =
     (case chunk of
        [] \<Rightarrow> Some (if failed0 then None else Some s)
      | c # rest \<Rightarrow>
        let failed = (failed0 \<or> s = []) in
        if c = CHR ''['' then
          (let (r, n) = (if failed then (0, 0) else decode_rune s);
               s' = drop n s;
               negated = (rest \<noteq> [] \<and> hd rest = CHR ''^'');
               body = (if negated then tl rest else rest)
           in case match_ranges r body 0 False of
                None \<Rightarrow> None
              | Some (m, rest') \<Rightarrow> match_chunk rest' s' (failed \<or> m = negated))
        else if c = CHR ''?'' then
          (if failed then match_chunk rest s failed
           else match_chunk rest (drop (snd (decode_rune s)) s) (hd s = slash))
        else if c = CHR 0x5C then
          (case rest of
             [] \<Rightarrow> None
           | d # rest' \<Rightarrow>
               if failed then match_chunk rest' s failed
               else match_chunk rest' (tl s) (d \<noteq> hd s))
        else if failed then match_chunk rest s failed
        else match_chunk rest (tl s) (c \<noteq> hd s))"
  by pat_completeness auto
termination
proof (relation "measure (\<lambda>(c, s, f). length c)", goal_cases)
  case (2 chunk s failed0 c rest failed p r n s' negated body q m rest')
  have "length body \<le> length rest" using 2 by (cases rest) auto
  with 2 match_ranges_length [of r body 0 False m rest'] show ?case by simp
qed auto

declare match_chunk.simps [simp del]

fun scan_chunk :: "bool \<Rightarrow> string \<Rightarrow> string \<times> string" where
  "scan_chunk inrange [] = ([], [])"
| "scan_chunk inrange (c # cs) =
     (if c = CHR 0x5C then
        (case cs of [] \<Rightarrow> ([c], [])
         | d # ds \<Rightarrow> map_prod (\<lambda>ch. c # d # ch) id (scan_chunk inrange ds))
      else if c = CHR ''*'' \<and> \<not> inrange then ([], c # cs)
      else map_prod (Cons c) id
             (scan_chunk (if c = CHR ''['' then True else if c = CHR '']'' then False else inrange) cs))"

lemma scan_chunk_rest: "length (snd (scan_chunk b p)) \<le> length p"
proof (induction b p rule: scan_chunk.induct)
  case (2 b c cs)
  consider "c = CHR 0x5C" | "c \<noteq> CHR 0x5C" "c = CHR ''*''" "\<not> b" | "c \<noteq> CHR 0x5C" "\<not> (c = CHR ''*'' \<and> \<not> b)"
    by blast
  then show ?case
  proof cases
    case 1
    then show ?thesis using "2.IH"(1) [OF 1] by (cases cs) (simp_all add: le_SucI)
  next
    case 3
    then show ?thesis using "2.IH"(2) [OF 3] by (simp add: le_SucI del: if_split)
  qed simp
qed simp

definition next_chunk :: "string \<Rightarrow> bool \<times> string \<times> string" where
  "next_chunk p = (let q = dropWhile (\<lambda>c. c = CHR ''*'') p
                   in (length q < length p, scan_chunk False q))"

lemma scan_chunk_shrinks:
  assumes "c \<noteq> CHR ''*''"
  shows "length (snd (scan_chunk False (c # cs))) < length (c # cs)"
proof -
  have "length (snd (scan_chunk b cs)) \<le> length cs" "length (snd (scan_chunk b (tl cs))) \<le> length cs" for b
    using scan_chunk_rest [of b cs] scan_chunk_rest [of b "tl cs"] by simp_all
  then show ?thesis using assms by (cases cs) (simp_all add: le_imp_less_Suc del: if_split)
qed

lemma next_chunk_shrinks:
  assumes "p \<noteq> []"
  shows "length (snd (snd (next_chunk p))) < length p"
proof (cases "hd p = CHR ''*''")
  case True
  have "length (snd (scan_chunk False (dropWhile (\<lambda>c. c = CHR ''*'') p))) \<le> length (tl p)"
    using True assms scan_chunk_rest [of False "dropWhile (\<lambda>c. c = CHR ''*'') p"]
      length_dropWhile_le [of "\<lambda>c. c = CHR ''*''" "tl p"] by (cases p) auto
  then show ?thesis using assms by (cases p) (auto simp: next_chunk_def Let_def)
next
  case False
  then show ?thesis using assms scan_chunk_shrinks by (cases p) (simp_all add: next_chunk_def Let_def)
qed

function chunks :: "string \<Rightarrow> (bool \<times> string) list" where
  "chunks p = (if p = [] then []
     else case next_chunk p of (star, chunk, rest) \<Rightarrow> (star, chunk) # chunks rest)"
  by pat_completeness auto
termination
proof (relation "measure length", goal_cases)
  case (2 p star x chunk rest)
  then show ?case using next_chunk_shrinks [of p] by (metis in_measure snd_conv)
qed simp

declare chunks.simps [simp del]

text \<open>\<open>Match\<close> over the chunks still to come. The first position at which the chunk matches
  wins, at the name's start or after a skip the star allows; then the remaining chunks must
  match. With no position left, the rest of the pattern is only checked for well-formedness.\<close>

definition skips :: "string \<Rightarrow> string list" where
  "skips name = map (\<lambda>i. drop (Suc i) name) [0 ..< length (takeWhile (\<lambda>c. c \<noteq> slash) name)]"

fun first_fit :: "string \<Rightarrow> bool \<Rightarrow> string list \<Rightarrow> string option option" where
  "first_fit chunk is_last [] = Some None"
| "first_fit chunk is_last (n # ns) =
     (case match_chunk chunk n False of
        None \<Rightarrow> None
      | Some None \<Rightarrow> first_fit chunk is_last ns
      | Some (Some t) \<Rightarrow> if is_last \<and> t \<noteq> [] then first_fit chunk is_last ns else Some (Some t))"

fun match_chunks :: "(bool \<times> string) list \<Rightarrow> string \<Rightarrow> bool option" where
  "match_chunks [] name = Some (name = [])"
| "match_chunks ((star, chunk) # rest) name =
     (if star \<and> chunk = [] then Some (slash \<notin> set name)
      else case first_fit chunk (rest = []) (name # (if star then skips name else [])) of
        None \<Rightarrow> None
      | Some (Some t) \<Rightarrow> match_chunks rest t
      | Some None \<Rightarrow>
          if list_all (\<lambda>(_, c). match_chunk c [] False \<noteq> None) rest then Some False else None)"

definition path_match :: "string \<Rightarrow> string \<Rightarrow> bool option" where
  "path_match pattern name = match_chunks (chunks pattern) name"

end
