(* ===== verification/Syspath.thy ===== *)
theory Syspath
  imports GoStrings
begin

text \<open>
  \<open>internal/syspath\<close>: the names filex keeps for itself inside a storage, and the rules by
  which a path is judged against them (hidden, sealed, refused for a given verb). The three
  regular expressions of the package are written out as the scans they denote. A person's
  id is an \<open>int64\<close>; it is an \<open>int\<close> here and the range appears where it matters.
\<close>

section \<open>strconv, for the ids in a drafts path\<close>

fun digits :: "nat \<Rightarrow> string" where
  "digits n = (if n < 10 then [char_of (48 + n)] else digits (n div 10) @ [char_of (48 + n mod 10)])"

declare digits.simps [simp del]

definition format_int :: "int \<Rightarrow> string" where
  "format_int n = (if n < 0 then CHR ''-'' # digits (nat (- n)) else digits (nat n))"

definition is_digit :: "char \<Rightarrow> bool" where
  "is_digit c \<longleftrightarrow> (let n = (of_char c :: nat) in 48 \<le> n \<and> n \<le> 57)"

definition digits_value :: "string \<Rightarrow> int" where
  "digits_value s = foldl (\<lambda>v c. 10 * v + (int (of_char c) - 48)) 0 s"

definition parse_int64 :: "string \<Rightarrow> int option" where
  "parse_int64 s =
     (let neg = (s \<noteq> [] \<and> hd s = CHR ''-'');
          body = (if s \<noteq> [] \<and> (hd s = CHR ''-'' \<or> hd s = CHR ''+'') then tl s else s)
      in if body = [] \<or> \<not> list_all is_digit body then None
         else let v = (if neg then - digits_value body else digits_value body)
              in if - (2 ^ 63) \<le> v \<and> v < 2 ^ 63 then Some v else None)"

section \<open>The names\<close>

definition Trash :: string where "Trash = ''.filex-trash''"
definition Versions :: string where "Versions = ''.versions''"
definition Thumbs :: string where "Thumbs = ''.thumbs''"
definition OpenWith :: string where "OpenWith = ''.filex-open''"
definition Drafts :: string where "Drafts = ''.filex-drafts''"
definition KeepMarker :: string where "KeepMarker = ''.keepdir''"
definition E2EKeyFile :: string where "E2EKeyFile = ''.filex-e2e.json''"

lemmas sys_names = Trash_def Versions_def Thumbs_def OpenWith_def Drafts_def KeepMarker_def
  E2EKeyFile_def

definition dirs :: "string list" where
  "dirs = [Trash, Versions, Thumbs, OpenWith, Drafts]"

definition is_dir_name :: "string \<Rightarrow> bool" where
  "is_dir_name name \<longleftrightarrow> (let n = trim_space name in
     n = Trash \<or> n = Versions \<or> n = Thumbs \<or> n = OpenWith \<or> n = Drafts)"

definition is_name :: "string \<Rightarrow> bool" where
  "is_name name \<longleftrightarrow> is_dir_name name \<or> trim_space name = KeepMarker"

definition unlisted :: "string \<Rightarrow> bool" where
  "unlisted name \<longleftrightarrow> is_name name \<or> trim_space name = E2EKeyFile"

definition strip_wire :: "string \<Rightarrow> string" where
  "strip_wire rel =
     (let p = map (\<lambda>c. if c = CHR 0x5C then slash else c) (trim_space rel)
      in case index_of p ''://'' of Some i \<Rightarrow> drop (i + 3) p | None \<Rightarrow> p)"

definition segments :: "string \<Rightarrow> string list" where
  "segments rel =
     (let p = clean_slash (strip_wire rel) in if p = [] then [] else split_on slash p)"

definition is_key_file :: "string \<Rightarrow> bool" where
  "is_key_file rel \<longleftrightarrow> (let segs = segments rel in segs \<noteq> [] \<and> last segs = E2EKeyFile)"

definition in_dir :: "string \<Rightarrow> bool" where
  "in_dir rel \<longleftrightarrow> list_ex is_dir_name (segments rel)"

definition in_trash :: "string \<Rightarrow> bool" where
  "in_trash rel \<longleftrightarrow> (let clean = trim_slash rel in
     clean = Trash \<or> has_prefix clean (Trash @ ''/''))"

definition hidden :: "string \<Rightarrow> bool" where
  "hidden rel \<longleftrightarrow> (let segs = segments rel in
     list_ex is_dir_name segs \<or> segs \<noteq> [] \<and> last segs = KeepMarker)"

definition sealed :: "string \<Rightarrow> bool" where
  "sealed rel \<longleftrightarrow>
     list_ex (\<lambda>seg. seg = Trash \<or> seg = Versions \<or> seg = Thumbs \<or> seg = Drafts) (segments rel)"

section \<open>The drafts area\<close>

definition is_hex :: "char \<Rightarrow> bool" where
  "is_hex c \<longleftrightarrow> (let n = (of_char c :: nat) in 48 \<le> n \<and> n \<le> 57 \<or> 97 \<le> n \<and> n \<le> 102)"

definition draft_key :: "string \<Rightarrow> bool" where
  "draft_key s \<longleftrightarrow> 8 \<le> length s \<and> length s \<le> 32 \<and> list_all is_hex s"

definition draft_dir :: "int \<Rightarrow> string \<Rightarrow> string" where
  "draft_dir person key = Drafts @ ''/'' @ format_int person @ ''/'' @ key"

definition draft_owner :: "string \<Rightarrow> int option" where
  "draft_owner rel =
     (let segs = segments rel in
      if length segs < 2 \<or> segs ! 0 \<noteq> Drafts then None
      else case parse_int64 (segs ! 1) of
             None \<Rightarrow> None
           | Some i \<Rightarrow> if i \<le> 0 \<or> format_int i \<noteq> segs ! 1 then None else Some i)"

definition in_drafts :: "string \<Rightarrow> bool" where
  "in_drafts rel \<longleftrightarrow> (let segs = segments rel in segs \<noteq> [] \<and> hd segs = Drafts)"

definition is_draft_of :: "string \<Rightarrow> int \<Rightarrow> bool" where
  "is_draft_of rel person \<longleftrightarrow>
     (if person \<le> 0 then False
      else let segs = segments rel in
        if length segs \<noteq> 4 \<or> segs ! 0 \<noteq> Drafts \<or> segs ! 1 \<noteq> format_int person then False
        else draft_key (segs ! 2) \<and> \<not> is_name (segs ! 3))"

definition sealed_for :: "string \<Rightarrow> int \<Rightarrow> bool" where
  "sealed_for rel person \<longleftrightarrow> sealed rel \<and> \<not> is_draft_of rel person"

text \<open>
  \<open>openWithSession\<close>, \<open>^[0-9a-f]{1,32}-\<close>: where the match ends. A dash is no hex digit, so
  the run of hex digits is the only one the pattern can take.
\<close>

definition open_with_session :: "string \<Rightarrow> nat option" where
  "open_with_session s =
     (let n = length (takeWhile is_hex s)
      in if 1 \<le> n \<and> n \<le> 32 \<and> n < length s \<and> s ! n = CHR ''-'' then Some (n + 1) else None)"

definition open_with_original :: "string \<Rightarrow> string option" where
  "open_with_original rel =
     (let segs = segments rel in
      if length segs \<noteq> 2 \<or> segs ! 0 \<noteq> OpenWith then None
      else case open_with_session (segs ! 1) of
             None \<Rightarrow> None
           | Some n \<Rightarrow> let name = drop n (segs ! 1) in if name = [] then None else Some name)"

section \<open>What a person may write\<close>

datatype verb = Change | MakeWorkArea | PutWorkCopy | DropWorkCopy | Mounted | OwnDraft | Keyless

definition is_work_copy :: "string list \<Rightarrow> bool" where
  "is_work_copy segs \<longleftrightarrow>
     (if length segs \<noteq> 2 \<or> segs ! 0 \<noteq> OpenWith then False
      else case open_with_session (segs ! 1) of
             None \<Rightarrow> False
           | Some n \<Rightarrow> let rest = drop n (segs ! 1)
                       in rest \<noteq> [] \<and> \<not> is_name rest \<and> \<not> is_name (segs ! 1))"

definition refused :: "verb \<Rightarrow> string \<Rightarrow> bool" where
  "refused v rel =
     (if v = Keyless \<and> is_key_file rel then True
      else if \<not> hidden rel then False
      else let segs = segments rel in
        case v of
          Mounted \<Rightarrow> in_dir rel
        | MakeWorkArea \<Rightarrow> \<not> (length segs = 1 \<and> segs ! 0 = OpenWith)
        | PutWorkCopy \<Rightarrow> \<not> is_work_copy segs
        | DropWorkCopy \<Rightarrow> \<not> is_work_copy segs
        | _ \<Rightarrow> True)"

definition refused_by :: "verb \<Rightarrow> string \<Rightarrow> int \<Rightarrow> bool" where
  "refused_by v rel person =
     (if v = OwnDraft \<and> is_draft_of rel person then False else refused v rel)"

definition save_verb :: "string \<Rightarrow> verb" where
  "save_verb rel = (case draft_owner rel of Some _ \<Rightarrow> OwnDraft | None \<Rightarrow> PutWorkCopy)"

definition reserved :: "string \<Rightarrow> string" where
  "reserved rel =
     (let segs = segments rel in
      case find is_dir_name segs of
        Some seg \<Rightarrow> seg
      | None \<Rightarrow>
        if segs \<noteq> [] \<and> last segs = KeepMarker then KeepMarker
        else if is_key_file rel then E2EKeyFile else [])"

text \<open>\<open>Check\<close> answers the first refused path (the path a \<open>ReservedError\<close> carries).\<close>

definition check_reserved :: "verb \<Rightarrow> string list \<Rightarrow> string option" where
  "check_reserved v rels = find (refused v) rels"

section \<open>Segments are canonical\<close>

lemma segments_norm [path_simps]: "segments rel = norm_rel (strip_wire rel)"
  by (simp add: segments_def Let_def clean_slash_Nil split_clean_slash)

lemma segments_ok [path_simps]: "s \<in> set (segments rel) \<Longrightarrow> seg_ok s"
  by (simp add: segments_norm norm_rel_ok)

section \<open>Ids print and parse back\<close>

lemma of_char_digit [simp]: "n < 10 \<Longrightarrow> (of_char (char_of (48 + n) :: char) :: nat) = 48 + n"
  by (simp add: of_char_of)

lemma digits_props: "digits n \<noteq> [] \<and> list_all is_digit (digits n) \<and> digits_value (digits n) = int n"
proof (induction n rule: digits.induct)
  case (1 n)
  show ?case
  proof (cases "n < 10")
    case True
    then show ?thesis by (subst (1 2 3) digits.simps) (simp add: is_digit_def Let_def digits_value_def)
  next
    case False
    then have IH: "list_all is_digit (digits (n div 10))" "digits_value (digits (n div 10)) = int (n div 10)"
      using 1 by auto
    have "(of_char (char_of (48 + n mod 10) :: char) :: nat) = 48 + n mod 10" by simp
    moreover have "10 * int (n div 10) + int (n mod 10) = int n"
      by (metis mult_div_mod_eq of_nat_add of_nat_mult of_nat_numeral)
    ultimately show ?thesis
      using False IH by (subst (1 2 3) digits.simps) (simp add: is_digit_def Let_def digits_value_def)
  qed
qed

lemma digit_no_sign: "is_digit c \<Longrightarrow> c \<noteq> CHR ''-'' \<and> c \<noteq> CHR ''+''"
  by (auto simp: is_digit_def Let_def)

lemma parse_format_int:
  assumes "- (2 ^ 63) \<le> p" "p < 2 ^ 63"
  shows "parse_int64 (format_int p) = Some p"
proof -
  have hd: "hd (digits n) \<noteq> CHR ''-''" "hd (digits n) \<noteq> CHR ''+''" for n
    using digits_props [of n] digit_no_sign by (cases "digits n"; auto)+
  show ?thesis
    using assms hd digits_props [of "nat p"] digits_props [of "nat (- p)"]
    by (simp add: parse_int64_def format_int_def Let_def)
qed

lemma format_int_inj: "- (2 ^ 63) \<le> p \<Longrightarrow> p < 2 ^ 63 \<Longrightarrow> - (2 ^ 63) \<le> q \<Longrightarrow> q < 2 ^ 63 \<Longrightarrow>
    format_int p = format_int q \<Longrightarrow> p = q"
  using parse_format_int by (metis option.inject)

section \<open>How the rules relate\<close>

lemma in_dir_hidden: "in_dir rel \<Longrightarrow> hidden rel"
  by (simp add: in_dir_def hidden_def Let_def)

lemma hidden_iff: "hidden rel \<longleftrightarrow> in_dir rel \<or> segments rel \<noteq> [] \<and> last (segments rel) = KeepMarker"
  by (simp add: in_dir_def hidden_def Let_def)

lemma dir_names: "d \<in> set dirs \<Longrightarrow> is_dir_name d"
proof -
  have "trim_space d = d" if "d \<in> set dirs" for d
    using that by (intro trim_space_plain)
      (auto simp: dirs_def sys_names space_len_def space_len_right_def ascii_space_def Let_def)
  then show "d \<in> set dirs \<Longrightarrow> is_dir_name d"
    by (auto simp: is_dir_name_def dirs_def Let_def)
qed

lemma sealed_in_dir: "sealed rel \<Longrightarrow> in_dir rel"
  unfolding sealed_def in_dir_def list_ex_iff using dir_names by (auto simp: dirs_def)

lemma in_drafts_sealed: "in_drafts rel \<Longrightarrow> sealed rel"
  by (auto simp: in_drafts_def sealed_def Let_def list_ex_iff intro!: bexI [where x = Drafts] dest: hd_in_set)

lemma is_draft_of_segs:
  "is_draft_of rel p \<longleftrightarrow> 0 < p \<and> (\<exists>k n. segments rel = [Drafts, format_int p, k, n] \<and> draft_key k \<and> \<not> is_name n)"
proof -
  have "length s = 4 \<longleftrightarrow> (\<exists>a b c d. s = [a, b, c, d])" for s :: "string list"
    by (auto simp: numeral_eq_Suc length_Suc_conv)
  then show ?thesis by (auto simp: is_draft_of_def Let_def)
qed

lemma is_draft_of_owner:
  assumes "is_draft_of rel p" "p < 2 ^ 63"
  shows "draft_owner rel = Some p"
proof -
  from assms obtain k n where "0 < p" "segments rel = [Drafts, format_int p, k, n]"
    by (auto simp: is_draft_of_segs)
  then show ?thesis using assms(2) parse_format_int [of p] by (simp add: draft_owner_def Let_def)
qed

lemma draft_owner_in_drafts: "draft_owner rel = Some p \<Longrightarrow> in_drafts rel \<and> 0 < p"
  by (cases "segments rel")
     (auto simp: draft_owner_def in_drafts_def Let_def split: if_splits option.splits)

lemma refused_hidden: "refused v rel \<Longrightarrow> hidden rel \<or> v = Keyless \<and> is_key_file rel"
  by (auto simp: refused_def split: if_splits)

section \<open>Properties\<close>

lemma is_work_copy_segs:
  "is_work_copy segs \<Longrightarrow> \<exists>name. segs = [OpenWith, name] \<and> open_with_session name \<noteq> None"
  by (auto simp: is_work_copy_def numeral_eq_Suc length_Suc_conv split: if_splits option.splits)

text \<open>C1. What can be written under filex's own directories: nothing, except the work area
  itself, a work copy directly inside it, and a draft file by the person whose draft it is -
  each only under its own verb.\<close>
theorem internal_writes_exact:
  assumes "in_dir rel" and "\<not> refused_by v rel person"
  shows "v = MakeWorkArea \<and> segments rel = [OpenWith] \<or>
    (v = PutWorkCopy \<or> v = DropWorkCopy) \<and>
      (\<exists>name. segments rel = [OpenWith, name] \<and> open_with_session name \<noteq> None) \<or>
    v = OwnDraft \<and> is_draft_of rel person"
proof (cases "v = OwnDraft \<and> is_draft_of rel person")
  case False
  then have r: "\<not> refused v rel" using assms(2) by (simp add: refused_by_def split: if_splits)
  note h = in_dir_hidden [OF assms(1)]
  show ?thesis
  proof (cases v)
    case MakeWorkArea
    then show ?thesis using r h by (cases "segments rel") (auto simp: refused_def Let_def)
  qed (use r h assms(1) False is_work_copy_segs in \<open>auto simp: refused_def Let_def split: if_splits\<close>)
qed simp

theorem internal_writes_exact_witness:
  "in_dir ''.filex-open'' \<and> \<not> refused_by MakeWorkArea ''.filex-open'' 0 \<and>
   segments ''.filex-open'' = [OpenWith]"
proof -
  have segs: "segments ''.filex-open'' = [OpenWith]" by code_simp
  then have 1: "in_dir ''.filex-open''" by (simp add: in_dir_def dir_names dirs_def)
  have 2: "\<not> refused_by MakeWorkArea ''.filex-open'' 0"
    using segs by (simp add: refused_by_def refused_def Let_def is_key_file_def)
  show ?thesis using internal_writes_exact [OF 1 2] 1 2 segs by simp
qed

text \<open>A draft is one person's: whatever the verb, a write the gate lets into the drafts area
  is its owner's own-draft save, and everybody else is refused the write and sealed out of
  reading the path.\<close>
theorem drafts_isolated:
  assumes "in_drafts rel" and "\<not> refused_by v rel p" and "p < 2 ^ 63"
  shows "v = OwnDraft \<and> draft_owner rel = Some p \<and>
    (q \<noteq> p \<and> q < 2 ^ 63 \<longrightarrow> sealed_for rel q \<and> (\<forall>w. refused_by w rel q))"
proof -
  note s = in_drafts_sealed [OF assms(1)]
  note d = sealed_in_dir [OF s]
  have notow: "segments rel \<noteq> [OpenWith]" "\<nexists>n. segments rel = [OpenWith, n]"
    using assms(1) by (auto simp: in_drafts_def Let_def sys_names)
  from internal_writes_exact [OF d assms(2)] notow
  have v: "v = OwnDraft" and own: "is_draft_of rel p" by auto
  moreover have other: "sealed_for rel q \<and> (\<forall>w. refused_by w rel q)" if "q \<noteq> p" "q < 2 ^ 63"
  proof -
    have "\<not> is_draft_of rel q"
      using own that assms(3) is_draft_of_owner by (metis option.inject)
    moreover from this have "refused_by w rel q" for w
      using internal_writes_exact [OF d, of w q] notow by blast
    ultimately show ?thesis using s by (simp add: sealed_for_def)
  qed
  ultimately show ?thesis using is_draft_of_owner [OF own assms(3)] by blast
qed

theorem drafts_isolated_witness:
  "sealed_for ''.filex-drafts/7/0a1b2c3d/plan.docx'' 8 \<and>
   refused_by Change ''.filex-drafts/7/0a1b2c3d/plan.docx'' 8"
proof -
  let ?r = "''.filex-drafts/7/0a1b2c3d/plan.docx''"
  have 1: "in_drafts ?r" by code_simp
  have 2: "\<not> refused_by OwnDraft ?r 7" by code_simp
  show ?thesis using drafts_isolated [OF 1 2, of 8] by simp
qed

end
