(* ===== verification/Netip.thy ===== *)
theory Netip
  imports Syspath "HOL-Library.Word"
begin

unbundle bit_operations_syntax

text \<open>
  Network addresses as Go's \<open>net/netip\<close> and \<open>net\<close> give them to the modelled code: parsing and
  printing, networks in CIDR notation, the classes of address, and \<open>net.SplitHostPort\<close>. An
  address is a word of its family's width; an IPv6 address carries its zone. The zero
  \<open>netip.Prefix\<close>, which is no network, is None.
\<close>

section \<open>Addresses\<close>

datatype addr = V4 "32 word" | V6 "128 word" string

definition is_4in6 :: "addr \<Rightarrow> bool" where
  "is_4in6 a = (case a of V4 _ \<Rightarrow> False | V6 w _ \<Rightarrow> drop_bit 32 w = 0xFFFF)"

definition unmap :: "addr \<Rightarrow> addr" where
  "unmap a = (case a of V4 w \<Rightarrow> V4 w | V6 w z \<Rightarrow> if drop_bit 32 w = 0xFFFF then V4 (ucast w) else V6 w z)"

definition without_zone :: "addr \<Rightarrow> addr" where
  "without_zone a = (case a of V4 w \<Rightarrow> V4 w | V6 w _ \<Rightarrow> V6 w [])"

definition zone_of :: "addr \<Rightarrow> string" where
  "zone_of a = (case a of V4 _ \<Rightarrow> [] | V6 _ z \<Rightarrow> z)"

definition plain_addr :: "addr \<Rightarrow> addr" where
  "plain_addr a = without_zone (unmap a)"

definition bit_len :: "addr \<Rightarrow> nat" where
  "bit_len a = (case a of V4 _ \<Rightarrow> 32 | V6 _ _ \<Rightarrow> 128)"

section \<open>netip.ParseAddr\<close>

definition octet_ok :: "string \<Rightarrow> bool" where
  "octet_ok f \<longleftrightarrow> f \<noteq> [] \<and> list_all is_digit f \<and> (length f = 1 \<or> hd f \<noteq> CHR ''0'') \<and> digits_value f \<le> 255"

definition parse_ipv4 :: "string \<Rightarrow> 32 word option" where
  "parse_ipv4 s =
     (case split_on CHR ''.'' s of
        [a, b, c, d] \<Rightarrow>
          if octet_ok a \<and> octet_ok b \<and> octet_ok c \<and> octet_ok d
          then Some (of_int (((digits_value a * 256 + digits_value b) * 256 + digits_value c) * 256 + digits_value d))
          else None
      | _ \<Rightarrow> None)"

definition hex_val :: "char \<Rightarrow> int option" where
  "hex_val c = (let n = (of_char c :: int) in
     if 48 \<le> n \<and> n \<le> 57 then Some (n - 48)
     else if 97 \<le> n \<and> n \<le> 102 then Some (n - 87)
     else if 65 \<le> n \<and> n \<le> 70 then Some (n - 55) else None)"

definition hex_value :: "string \<Rightarrow> int" where
  "hex_value s = foldl (\<lambda>v c. 16 * v + (case hex_val c of None \<Rightarrow> 0 | Some d \<Rightarrow> d)) 0 s"

definition hex_run :: "string \<Rightarrow> string" where "hex_run s = takeWhile (\<lambda>c. hex_val c \<noteq> None) s"
definition hex_rest :: "string \<Rightarrow> string" where "hex_rest s = dropWhile (\<lambda>c. hex_val c \<noteq> None) s"

text \<open>The groups so far, the place of the \<open>::\<close> among them, and what is left of the text.\<close>

function v6_fields :: "int list \<Rightarrow> nat option \<Rightarrow> string \<Rightarrow> (int list \<times> nat option \<times> string) option" where
  "v6_fields gs el s =
     (if length gs \<ge> 8 then Some (gs, el, s)
      else if hex_run s = [] \<or> length (hex_run s) > 4 then None
      else if hex_rest s \<noteq> [] \<and> hd (hex_rest s) = CHR ''.'' then
        (if el = None \<and> length gs \<noteq> 6 \<or> length gs > 6 then None
         else case parse_ipv4 s of
                None \<Rightarrow> None
              | Some w \<Rightarrow> Some (gs @ [uint (drop_bit 16 w), uint (take_bit 16 w)], el, []))
      else
        let gs' = gs @ [hex_value (hex_run s)] in
        case hex_rest s of
          [] \<Rightarrow> Some (gs', el, [])
        | c # r \<Rightarrow>
          if c \<noteq> CHR '':'' \<or> r = [] then None
          else if hd r = CHR '':'' then
            (if el \<noteq> None then None
             else if tl r = [] then Some (gs', Some (length gs'), [])
             else v6_fields gs' (Some (length gs')) (tl r))
          else v6_fields gs' el r)"
  by pat_completeness auto
termination by (relation "measure (\<lambda>(gs, el, s). 8 - length gs)") auto

declare v6_fields.simps [simp del]

definition of_groups :: "int list \<Rightarrow> 128 word" where
  "of_groups gs = of_int (foldl (\<lambda>v g. v * 65536 + g) 0 gs)"

definition v6_finish :: "string \<Rightarrow> (int list \<times> nat option \<times> string) option \<Rightarrow> addr option" where
  "v6_finish zone r =
     (case r of
        None \<Rightarrow> None
      | Some (gs, el, s) \<Rightarrow>
        if s \<noteq> [] then None
        else if length gs < 8 then
          (case el of
             None \<Rightarrow> None
           | Some e \<Rightarrow> Some (V6 (of_groups (take e gs @ replicate (8 - length gs) 0 @ drop e gs)) zone))
        else if el \<noteq> None then None
        else Some (V6 (of_groups gs) zone))"

definition parse_ipv6 :: "string \<Rightarrow> addr option" where
  "parse_ipv6 t =
     (let (s, zone, zoned) =
        (case index_byte t CHR ''%'' of None \<Rightarrow> (t, [], False) | Some i \<Rightarrow> (take i t, drop (i + 1) t, True))
      in if zoned \<and> zone = [] then None
         else if has_prefix s ''::'' then
           (if drop 2 s = [] then Some (V6 0 zone) else v6_finish zone (v6_fields [] (Some 0) (drop 2 s)))
         else v6_finish zone (v6_fields [] None s))"

definition parse_addr :: "string \<Rightarrow> addr option" where
  "parse_addr s =
     (case find (\<lambda>c. c = CHR ''.'' \<or> c = CHR '':'' \<or> c = CHR ''%'') s of
        None \<Rightarrow> None
      | Some c \<Rightarrow>
        if c = CHR ''.'' then map_option V4 (parse_ipv4 s)
        else if c = CHR '':'' then parse_ipv6 s
        else None)"

section \<open>netip.Addr.String\<close>

definition v4_string :: "32 word \<Rightarrow> string" where
  "v4_string w = join CHR ''.''
     [digits (unat (drop_bit 24 w)), digits (unat (take_bit 8 (drop_bit 16 w))),
      digits (unat (take_bit 8 (drop_bit 8 w))), digits (unat (take_bit 8 w))]"

function hex_digits :: "int \<Rightarrow> string" where
  "hex_digits n =
     (let d = char_of (if n mod 16 < 10 then 48 + n mod 16 else 87 + n mod 16)
      in if n < 16 then [d] else hex_digits (n div 16) @ [d])"
  by pat_completeness auto
termination by (relation "measure nat") auto

declare hex_digits.simps [simp del]

definition groups_of :: "128 word \<Rightarrow> int list" where
  "groups_of w = map (\<lambda>i. uint w div 65536 ^ (7 - i) mod 65536) [0 ..< 8]"

text \<open>The longest run of at least two zero groups, the first of equally long ones.\<close>

definition zero_run :: "int list \<Rightarrow> (nat \<times> nat) option" where
  "zero_run gs = foldl (\<lambda>best i.
     let j = i + length (takeWhile (\<lambda>g. g = 0) (drop i gs))
     in if j - i \<ge> 2 \<and> (case best of None \<Rightarrow> True | Some (s, e) \<Rightarrow> j - i > e - s) then Some (i, j) else best)
     None [0 ..< length gs]"

definition v6_string :: "128 word \<Rightarrow> string" where
  "v6_string w =
     (let gs = groups_of w in
      case zero_run gs of
        None \<Rightarrow> join CHR '':'' (map hex_digits gs)
      | Some (s, e) \<Rightarrow>
        join CHR '':'' (map hex_digits (take s gs)) @ ''::'' @ join CHR '':'' (map hex_digits (drop e gs)))"

definition addr_string :: "addr \<Rightarrow> string" where
  "addr_string a =
     (case a of
        V4 w \<Rightarrow> v4_string w
      | V6 w z \<Rightarrow>
        (if is_4in6 a then ''::ffff:'' @ v4_string (ucast w) else v6_string w) @
        (if z = [] then [] else CHR ''%'' # z))"

section \<open>Networks\<close>

type_synonym network = "(addr \<times> nat) option"

definition net_contains :: "network \<Rightarrow> addr \<Rightarrow> bool" where
  "net_contains n ip =
     (case n of
        Some (V4 p, k) \<Rightarrow> (case ip of V4 w \<Rightarrow> drop_bit (32 - k) w = drop_bit (32 - k) p | _ \<Rightarrow> False)
      | Some (V6 p _, k) \<Rightarrow>
        (case ip of V6 w z \<Rightarrow> z = [] \<and> drop_bit (128 - k) w = drop_bit (128 - k) p | _ \<Rightarrow> False)
      | None \<Rightarrow> False)"

text \<open>\<open>netip.PrefixFrom(a, bits).Masked()\<close>: no network when the length does not fit the family.\<close>

definition masked_prefix :: "addr \<Rightarrow> int \<Rightarrow> network" where
  "masked_prefix a bits =
     (if bits < 0 \<or> bits > int (bit_len a) then None
      else let k = nat bits in
        case a of
          V4 w \<Rightarrow> Some (V4 (push_bit (32 - k) (drop_bit (32 - k) w)), k)
        | V6 w _ \<Rightarrow> Some (V6 (push_bit (128 - k) (drop_bit (128 - k) w)) [], k))"

definition parse_prefix :: "string \<Rightarrow> (addr \<times> int) option" where
  "parse_prefix s =
     (case last_index slash s of
        None \<Rightarrow> None
      | Some i \<Rightarrow>
        case parse_addr (take i s) of
          None \<Rightarrow> None
        | Some a \<Rightarrow>
          if zone_of a \<noteq> [] then None
          else let bs = drop (i + 1) s in
            if length bs > 1 \<and> \<not> (is_digit (hd bs) \<and> hd bs \<noteq> CHR ''0'') then None
            else case parse_int64 bs of
                   None \<Rightarrow> None
                 | Some n \<Rightarrow> if n < 0 \<or> n > int (bit_len a) then None else Some (a, n))"

section \<open>Classes of address\<close>

definition net4 :: "32 word \<Rightarrow> nat \<Rightarrow> 32 word \<Rightarrow> bool" where
  "net4 p k w \<longleftrightarrow> drop_bit (32 - k) w = drop_bit (32 - k) p"

definition net6 :: "128 word \<Rightarrow> nat \<Rightarrow> 128 word \<Rightarrow> bool" where
  "net6 p k w \<longleftrightarrow> drop_bit (128 - k) w = drop_bit (128 - k) p"

definition is_loopback :: "addr \<Rightarrow> bool" where
  "is_loopback a = (case unmap a of V4 w \<Rightarrow> net4 0x7F000000 8 w | V6 w _ \<Rightarrow> w = 1)"

definition is_private :: "addr \<Rightarrow> bool" where
  "is_private a = (case unmap a of
     V4 w \<Rightarrow> net4 0x0A000000 8 w \<or> net4 0xAC100000 12 w \<or> net4 0xC0A80000 16 w
   | V6 w _ \<Rightarrow> net6 0xFC000000000000000000000000000000 7 w)"

definition is_link_local_unicast :: "addr \<Rightarrow> bool" where
  "is_link_local_unicast a = (case unmap a of
     V4 w \<Rightarrow> net4 0xA9FE0000 16 w
   | V6 w _ \<Rightarrow> net6 0xFE800000000000000000000000000000 10 w)"

section \<open>net.SplitHostPort\<close>

definition split_host_port :: "string \<Rightarrow> (string \<times> string) option" where
  "split_host_port hp =
     (case last_index CHR '':'' hp of
        None \<Rightarrow> None
      | Some i \<Rightarrow>
        if hd hp = CHR ''['' then
          (case index_byte hp CHR '']'' of
             None \<Rightarrow> None
           | Some e \<Rightarrow>
             if e + 1 \<noteq> i then None
             else if CHR ''['' \<in> set (drop 1 hp) \<or> CHR '']'' \<in> set (drop (e + 1) hp) then None
             else Some (take (e - 1) (drop 1 hp), drop (i + 1) hp))
        else if CHR '':'' \<in> set (take i hp) then None
        else if CHR ''['' \<in> set hp \<or> CHR '']'' \<in> set hp then None
        else Some (take i hp, drop (i + 1) hp))"

section \<open>What is printed parses back\<close>

lemma digits_hd: "1 \<le> n \<Longrightarrow> hd (digits n) \<noteq> CHR ''0''"
proof (induction n rule: digits.induct)
  case (1 n)
  show ?case
  proof (cases "n < 10")
    case True
    then have "(of_char (hd (digits n)) :: nat) = 48 + n" by (subst digits.simps) simp
    then show ?thesis using 1(2) by auto
  next
    case False
    then have "hd (digits (n div 10)) \<noteq> CHR ''0''" using 1 by auto
    then show ?thesis using False digits_props [of "n div 10"] by (subst digits.simps) simp
  qed
qed

lemma octet_digits:
  assumes "n < 256"
  shows "octet_ok (digits n)"
proof -
  have "length (digits n) = 1 \<or> hd (digits n) \<noteq> CHR ''0''"
    by (cases "n = 0") (simp_all add: digits.simps [of 0] digits_hd)
  then show ?thesis using assms digits_props [of n] by (simp add: octet_ok_def)
qed

lemma digits_no_dot: "CHR ''.'' \<notin> set (digits n)"
  using digits_props [of n] by (auto simp: list_all_iff is_digit_def)

lemma parse_v4_string [simp]: "parse_ipv4 (v4_string w) = Some w"
proof -
  define u where "u = uint w"
  have u: "0 \<le> u" "u < 2 ^ 32" using uint_lt2p [of w] by (simp_all add: u_def)
  have b: "unat (take_bit 8 x) < 256" for x :: "32 word"
    using take_bit_nat_less_exp [of 8 "unat x"] by (simp add: unsigned_take_bit_eq)
  have a: "unat (drop_bit 24 w) < 256"
  proof -
    have "uint (drop_bit 24 w) < 256" unfolding unsigned_drop_bit_eq u_def [symmetric] using u by (simp add: drop_bit_eq_div take_bit_eq_mod)
    then show ?thesis using uint_nat [of "drop_bit 24 w"] by linarith
  qed
  have s: "split_on CHR ''.'' (v4_string w) =
      [digits (unat (drop_bit 24 w)), digits (unat (take_bit 8 (drop_bit 16 w))),
       digits (unat (take_bit 8 (drop_bit 8 w))), digits (unat (take_bit 8 w))]"
    unfolding v4_string_def by (rule split_join) (auto simp: digits_no_dot)
  have d: "int (unat (drop_bit 24 w)) = u div 16777216"
    "int (unat (take_bit 8 (drop_bit k w))) = u div 2 ^ k mod 256" "int (unat (take_bit 8 w)) = u mod 256" for k
    unfolding uint_nat [symmetric] unfolding unsigned_take_bit_eq unsigned_drop_bit_eq u_def [symmetric]
    using u by (simp_all add: drop_bit_eq_div take_bit_eq_mod)
  have h: "x div (c * 256) * 256 + x div c mod 256 = x div c" for x c :: int
    by (simp add: zdiv_zmult2_eq)
  have "((int (unat (drop_bit 24 w)) * 256 + int (unat (take_bit 8 (drop_bit 16 w)))) * 256 +
      int (unat (take_bit 8 (drop_bit 8 w)))) * 256 + int (unat (take_bit 8 w)) = u"
    unfolding d using h [of u 65536] h [of u 256] h [of u 1] by simp
  then have "(of_int (((int (unat (drop_bit 24 w)) * 256 + int (unat (take_bit 8 (drop_bit 16 w)))) * 256 +
      int (unat (take_bit 8 (drop_bit 8 w)))) * 256 + int (unat (take_bit 8 w))) :: 32 word) = w"
    by (simp only: u_def word_of_int_uint)
  then show ?thesis unfolding parse_ipv4_def s
    using a b digits_props by (simp add: octet_digits)
qed

lemma v4_string_chars: "c \<in> set (v4_string w) \<Longrightarrow> is_digit c \<or> c = CHR ''.''"
  using digits_props by (auto simp: v4_string_def list_all_iff)

text \<open>Groups of an IPv6 address.\<close>

lemma hex_digit_val: "0 \<le> d \<Longrightarrow> d < 16 \<Longrightarrow> hex_val (char_of (if d < 10 then 48 + d else 87 + d)) = Some d"
  by (simp add: hex_val_def Let_def of_char_of)

lemma hex_digits_props:
  "0 \<le> n \<Longrightarrow> hex_digits n \<noteq> [] \<and> list_all (\<lambda>c. hex_val c \<noteq> None) (hex_digits n) \<and> hex_value (hex_digits n) = n"
proof (induction n rule: hex_digits.induct)
  case (1 n)
  let ?d = "char_of (if n mod 16 < 10 then 48 + n mod 16 else 87 + n mod 16) :: char"
  have d: "hex_val ?d = Some (n mod 16)" by (rule hex_digit_val) simp_all
  show ?case
  proof (cases "n < 16")
    case True
    then show ?thesis using d 1(2) by (subst (1 2 3) hex_digits.simps) (simp add: Let_def hex_value_def)
  next
    case False
    then have "hex_digits n = hex_digits (n div 16) @ [?d]" by (subst hex_digits.simps) (simp add: Let_def)
    moreover have "hex_digits (n div 16) \<noteq> [] \<and> list_all (\<lambda>c. hex_val c \<noteq> None) (hex_digits (n div 16)) \<and>
        hex_value (hex_digits (n div 16)) = n div 16"
      using 1 False by simp
    ultimately show ?thesis using d by (simp add: hex_value_def)
  qed
qed

lemma hex_digits_length: "0 \<le> n \<Longrightarrow> n < 16 ^ Suc k \<Longrightarrow> length (hex_digits n) \<le> Suc k"
proof (induction k arbitrary: n)
  case 0
  then show ?case by (subst hex_digits.simps) (simp add: Let_def)
next
  case (Suc k)
  then show ?case using Suc.IH [of "n div 16"]
    by (subst hex_digits.simps) (auto simp: Let_def)
qed


lemma hex_val_chars: "hex_val c \<noteq> None \<Longrightarrow> c \<noteq> CHR '':'' \<and> c \<noteq> CHR ''.'' \<and> c \<noteq> CHR ''%''"
  by (auto simp: hex_val_def Let_def)

lemma hex_run_append:
  assumes "list_all (\<lambda>c. hex_val c \<noteq> None) h" and "r = [] \<or> hex_val (hd r) = None"
  shows "hex_run (h @ r) = h" and "hex_rest (h @ r) = r"
  using assms by (cases r; auto simp: hex_run_def hex_rest_def list_all_iff takeWhile_eq_all_conv)+

abbreviation colons :: "int list \<Rightarrow> string" where
  "colons gs \<equiv> join CHR '':'' (map hex_digits gs)"

definition group_ok :: "int \<Rightarrow> bool" where
  "group_ok g \<longleftrightarrow> 0 \<le> g \<and> g < 65536"

lemma group_digits:
  assumes "group_ok g"
  shows "hex_digits g \<noteq> []" "list_all (\<lambda>c. hex_val c \<noteq> None) (hex_digits g)" "hex_value (hex_digits g) = g"
    "length (hex_digits g) \<le> 4"
  using assms hex_digits_props [of g] hex_digits_length [of g 3] by (simp_all add: group_ok_def)

lemma v6_fields_step:
  assumes "group_ok g" "length gs < 8" "r = [] \<or> hd r = CHR '':''"
  shows "v6_fields gs el (hex_digits g @ r) =
     (case r of
        [] \<Rightarrow> Some (gs @ [g], el, [])
      | _ # r \<Rightarrow>
        if r = [] then None
        else if hd r = CHR '':'' then
          (if el \<noteq> None then None
           else if tl r = [] then Some (gs @ [g], Some (length gs + 1), [])
           else v6_fields (gs @ [g]) (Some (length gs + 1)) (tl r))
        else v6_fields (gs @ [g]) el r)"
proof -
  have "r = [] \<or> hex_val (hd r) = None" using assms(3) by (auto simp: hex_val_def Let_def)
  note run = hex_run_append [OF group_digits(2) [OF assms(1)] this]
  show ?thesis using assms group_digits [OF assms(1)]
    by (subst v6_fields.simps) (auto simp: run Let_def split: list.split)
qed

lemma colons_hd:
  assumes "xs \<noteq> []" "\<forall>g \<in> set xs. group_ok g"
  shows "colons xs \<noteq> [] \<and> hd (colons xs) \<noteq> CHR '':''"
proof -
  obtain g gs where xs: "xs = g # gs" using assms(1) by (cases xs) auto
  obtain c h where c: "hex_digits g = c # h" using group_digits(1) [of g] assms xs by (cases "hex_digits g") auto
  then have "hex_val c \<noteq> None" using group_digits(2) [of g] assms xs by simp
  then show ?thesis using hex_val_chars [of c] by (simp add: xs join_Cons c)
qed

lemma v6_fields_colons:
  assumes "xs \<noteq> []" "\<forall>g \<in> set xs. group_ok g" "length gs + length xs \<le> 8"
  shows "v6_fields gs el (colons xs) = Some (gs @ xs, el, [])"
  using assms
proof (induction xs arbitrary: gs)
  case (Cons g xs)
  show ?case
  proof (cases "xs = []")
    case True
    then show ?thesis using v6_fields_step [of g gs "[]" el] Cons.prems by simp
  next
    case False
    then have h: "colons xs \<noteq> []" "hd (colons xs) \<noteq> CHR '':''" using colons_hd Cons.prems by auto
    have "v6_fields gs el (colons (g # xs)) = v6_fields (gs @ [g]) el (colons xs)"
      using v6_fields_step [of g gs "CHR '':'' # colons xs" el] Cons.prems h False by (simp add: join_Cons)
    then show ?thesis using Cons.IH [of "gs @ [g]"] Cons.prems False by simp
  qed
qed simp

lemma v6_fields_gap:
  assumes "xs \<noteq> []" "\<forall>g \<in> set xs. group_ok g" "\<forall>g \<in> set ys. group_ok g" "length gs + length xs + length ys < 8"
  shows "v6_fields gs None (colons xs @ ''::'' @ colons ys) = Some (gs @ xs @ ys, Some (length gs + length xs), [])"
  using assms
proof (induction xs arbitrary: gs)
  case (Cons g xs)
  show ?case
  proof (cases "xs = []")
    case True
    show ?thesis
    proof (cases "ys = []")
      case True
      then show ?thesis using \<open>xs = []\<close> v6_fields_step [of g gs "''::''" None] Cons.prems by simp
    next
      case False
      then have "colons ys \<noteq> []" using colons_hd Cons.prems by auto
      then show ?thesis using \<open>xs = []\<close> v6_fields_step [of g gs "''::'' @ colons ys" None] Cons.prems
          v6_fields_colons [of ys "gs @ [g]" "Some (length gs + 1)"] False by simp
    qed
  next
    case False
    then have h: "colons xs \<noteq> []" "hd (colons xs) \<noteq> CHR '':''" using colons_hd Cons.prems by auto
    have "v6_fields gs None (colons (g # xs) @ ''::'' @ colons ys) =
        v6_fields (gs @ [g]) None (colons xs @ ''::'' @ colons ys)"
      using v6_fields_step [of g gs "CHR '':'' # colons xs @ ''::'' @ colons ys" None] Cons.prems h False
      by (simp add: join_Cons)
    then show ?thesis using Cons.IH [of "gs @ [g]"] Cons.prems False by simp
  qed
qed simp

lemma zero_run_spec:
  assumes "zero_run gs = Some (s, e)"
  shows "s + 2 \<le> e" "e \<le> length gs" "gs = take s gs @ replicate (e - s) 0 @ drop e gs"
proof -
  let ?P = "\<lambda>best. \<forall>s e. best = Some (s, e) \<longrightarrow> s + 2 \<le> e \<and> e \<le> length gs \<and> (\<forall>x \<in> set (take (e - s) (drop s gs)). x = 0)"
  let ?step = "\<lambda>best i. let j = i + length (takeWhile (\<lambda>g. g = 0) (drop i gs))
     in if j - i \<ge> 2 \<and> (case best of None \<Rightarrow> True | Some (s, e) \<Rightarrow> j - i > e - s) then Some (i, j) else best"
  have one: "?P (?step best i)" if "?P best" "i < length gs" for best i
  proof -
    let ?l = "length (takeWhile (\<lambda>g. g = 0) (drop i gs))"
    have l: "i + ?l \<le> length gs" using length_takeWhile_le [of _ "drop i gs"] that(2) by (metis add.commute le_diff_conv length_drop less_imp_le Nat.le_diff_conv2)
    have z: "\<forall>x \<in> set (take ?l (drop i gs)). x = 0" using set_takeWhileD takeWhile_eq_take by metis
    have "?step best i = Some (i, i + ?l) \<and> ?l \<ge> 2 \<or> ?step best i = best" by (simp add: Let_def)
    then show ?thesis
    proof
      assume "?step best i = Some (i, i + ?l) \<and> ?l \<ge> 2"
      then show ?thesis using l z by (metis Pair_inject add_diff_cancel_left' nat_add_left_cancel_le option.inject)
    next
      assume "?step best i = best"
      then show ?thesis using that(1) by metis
    qed
  qed
  have all: "?P (foldl ?step best is)" if "?P best" "\<forall>i \<in> set is. i < length gs" for best "is"
    using that
  proof (induction "is" arbitrary: best)
    case (Cons i "is")
    have step: "?P (?step best i)" by (rule one [OF Cons.prems(1)]) (use Cons.prems(2) in simp)
    have "\<forall>i \<in> set is. i < length gs" using Cons.prems(2) by simp
    then show ?case unfolding foldl.simps by (rule Cons.IH [OF step])
  qed simp
  have "?P (zero_run gs)" unfolding zero_run_def by (rule all) simp_all
  then have P: "s + 2 \<le> e" "e \<le> length gs" "\<forall>x \<in> set (take (e - s) (drop s gs)). x = 0"
    using assms by blast+
  then show "s + 2 \<le> e" "e \<le> length gs" by simp_all
  have r: "take (e - s) (drop s gs) = replicate (e - s) 0"
    using P by (intro replicate_eqI) auto
  have "gs = take s gs @ drop s gs" by simp
  also have "drop s gs = take (e - s) (drop s gs) @ drop (e - s) (drop s gs)" by (rule append_take_drop_id [symmetric])
  also have "drop (e - s) (drop s gs) = drop e gs" using P(1) by simp
  finally show "gs = take s gs @ replicate (e - s) 0 @ drop e gs" unfolding r .
qed


lemma horner_groups:
  "0 \<le> u \<Longrightarrow> foldl (\<lambda>v g. v * B + g) 0 (map (\<lambda>i. u div B ^ (n - 1 - i) mod B) [0 ..< n]) = u mod B ^ n"
  if "0 < B" for u B :: int
proof (induction n arbitrary: u)
  case (Suc n)
  have m: "map (\<lambda>i. u div B ^ (n - i) mod B) [0 ..< n] = map (\<lambda>i. u div B div B ^ (n - 1 - i) mod B) [0 ..< n]"
  proof (rule map_cong [OF refl])
    fix i assume "i \<in> set [0 ..< n]"
    then have "n - i = Suc (n - 1 - i)" by auto
    then show "u div B ^ (n - i) mod B = u div B div B ^ (n - 1 - i) mod B"
      using that by (simp add: zdiv_zmult2_eq)
  qed
  have r: "u div B mod B ^ n * B + u mod B = u mod B ^ Suc n"
    using that by (simp add: zmod_zmult2_eq algebra_simps)
  have "0 \<le> u div B" using Suc.prems that by (simp add: pos_imp_zdiv_nonneg_iff)
  note IH = Suc.IH [OF this]
  have "foldl (\<lambda>v g. v * B + g) 0 (map (\<lambda>i. u div B ^ (Suc n - 1 - i) mod B) [0 ..< Suc n]) =
      foldl (\<lambda>v g. v * B + g) 0 (map (\<lambda>i. u div B ^ (n - i) mod B) [0 ..< n]) * B + u mod B"
    by simp
  also have "\<dots> = u mod B ^ Suc n" unfolding m IH by (rule r)
  finally show ?case .
qed simp

lemma of_groups_of [simp]: "of_groups (groups_of w) = w"
proof -
  have "foldl (\<lambda>v g. v * 65536 + g) 0 (groups_of w) = uint w mod 65536 ^ 8"
    using horner_groups [of 65536 "uint w" 8] by (simp add: groups_of_def)
  also have "\<dots> = uint w" using uint_lt2p [of w] by (simp add: mod_pos_pos_trivial)
  finally show ?thesis by (simp add: of_groups_def)
qed

lemma groups_of_ok: "\<forall>g \<in> set (groups_of w). group_ok g" "length (groups_of w) = 8"
  by (auto simp: groups_of_def group_ok_def)

declare index_byte_simps [simp]

lemma parse_ipv6_zoned:
  assumes "CHR ''%'' \<notin> set s"
  shows "parse_ipv6 (s @ (if z = [] then [] else CHR ''%'' # z)) =
    (if has_prefix s ''::'' then
       (if drop 2 s = [] then Some (V6 0 z) else v6_finish z (v6_fields [] (Some 0) (drop 2 s)))
     else v6_finish z (v6_fields [] None s))"
  using assms by (simp add: parse_ipv6_def index_byte_append index_byte_None)

lemma parse_colons_text:
  assumes "\<forall>c \<in> set s. hex_val c \<noteq> None \<or> c = CHR '':''" "CHR '':'' \<in> set s"
  shows "parse_addr (s @ (if z = [] then [] else CHR ''%'' # z)) =
    (if has_prefix s ''::'' then
       (if drop 2 s = [] then Some (V6 0 z) else v6_finish z (v6_fields [] (Some 0) (drop 2 s)))
     else v6_finish z (v6_fields [] None s))"
proof -
  have f: "find (\<lambda>c. c = CHR ''.'' \<or> c = CHR '':'' \<or> c = CHR ''%'') (s @ t) = Some CHR '':''" for t
    using assms
  proof (induction s)
    case (Cons c s)
    then show ?case using hex_val_chars [of c] by (cases "c = CHR '':''") auto
  qed simp
  have np: "CHR ''%'' \<notin> set s" using assms(1) hex_val_chars by blast
  have "parse_addr (s @ t) = parse_ipv6 (s @ t)" for t by (simp add: parse_addr_def f)
  then show ?thesis by (simp only: parse_ipv6_zoned [OF np])
qed

lemma colons_chars: "\<forall>g \<in> set gs. group_ok g \<Longrightarrow> c \<in> set (colons gs) \<Longrightarrow> hex_val c \<noteq> None \<or> c = CHR '':''"
  using group_digits(2) by (induction gs) (auto simp: join_Cons list_all_iff split: if_splits)

lemma colons_has_colon: "2 \<le> length gs \<Longrightarrow> CHR '':'' \<in> set (colons gs)"
  by (cases gs) (auto simp: join_Cons split: if_splits)

lemma colons_no_gap: "gs \<noteq> [] \<Longrightarrow> \<forall>g \<in> set gs. group_ok g \<Longrightarrow> \<not> has_prefix (colons gs @ t) ''::''"
  using colons_hd [of gs] by (cases "colons gs") (auto simp: has_prefix_def)

lemma parse_v6_string:
  "parse_addr (v6_string w @ (if z = [] then [] else CHR ''%'' # z)) = Some (V6 w z)"
proof (cases "zero_run (groups_of w)")
  case None
  let ?gs = "groups_of w"
  note ok = groups_of_ok [of w]
  have ne: "?gs \<noteq> []" using ok(2) by auto
  have t: "v6_string w = colons ?gs" using None by (simp add: v6_string_def Let_def)
  have "v6_fields [] None (colons ?gs) = Some (?gs, None, [])"
    using v6_fields_colons [OF ne ok(1), of "[]"] ok(2) by simp
  then show ?thesis unfolding t
    using colons_chars [OF ok(1)] colons_has_colon [of ?gs] ok(2) colons_no_gap [OF ne ok(1), of "[]"]
    by (subst parse_colons_text) (auto simp: v6_finish_def)
next
  case (Some p)
  let ?gs = "groups_of w"
  note ok = groups_of_ok [of w]
  obtain s e where p: "zero_run ?gs = Some (s, e)" using Some by (cases p) auto
  define xs where "xs = take s ?gs"
  define ys where "ys = drop e ?gs"
  note z = zero_run_spec [OF p]
  have gs: "?gs = xs @ replicate (e - s) 0 @ ys" using z(3) by (simp add: xs_def ys_def)
  have xy: "\<forall>g \<in> set xs. group_ok g" "\<forall>g \<in> set ys. group_ok g"
    using ok(1) by (auto simp: xs_def ys_def dest: in_set_takeD in_set_dropD)
  have len: "length xs = s" "length ys = 8 - e" "e \<le> 8" using z ok(2) by (simp_all add: xs_def ys_def)
  have t: "v6_string w = colons xs @ ''::'' @ colons ys" using p by (simp add: v6_string_def xs_def ys_def Let_def)
  have gap: "8 - (s + (8 - e)) = e - s" using len z(1) by simp
  have fin: "v6_finish z (Some (xs @ ys, Some s, [])) = Some (V6 w z)"
    using len z(1) gs of_groups_of [of w] by (simp add: v6_finish_def gap)
  have chars: "\<forall>c \<in> set (v6_string w). hex_val c \<noteq> None \<or> c = CHR '':''"
    unfolding t using colons_chars [OF xy(1)] colons_chars [OF xy(2)] by auto
  have colon: "CHR '':'' \<in> set (v6_string w)" unfolding t by simp
  show ?thesis
  proof (cases "xs = []")
    case True
    then have s0: "s = 0" using len by simp
    have pre: "has_prefix (v6_string w) ''::''" "drop 2 (v6_string w) = colons ys"
      using True by (simp_all add: t has_prefix_def)
    show ?thesis
    proof (cases "ys = []")
      case True
      then have "w = of_groups (replicate (e - s) 0)" using \<open>xs = []\<close> gs of_groups_of [of w] by simp
      also have "e - s = 8" using True len s0 by simp
      also have "of_groups (replicate 8 0) = 0" by (simp add: of_groups_def numeral_eq_Suc)
      finally show ?thesis using parse_colons_text [OF chars colon, of z] pre True by simp
    next
      case False
      then have "colons ys \<noteq> []" using colons_hd xy by auto
      moreover have "v6_fields [] (Some 0) (colons ys) = Some (ys, Some 0, [])"
        using v6_fields_colons [OF False xy(2), of "[]"] len by simp
      ultimately show ?thesis using parse_colons_text [OF chars colon, of z] pre fin s0 \<open>xs = []\<close> by simp
    qed
  next
    case False
    have "v6_fields [] None (v6_string w) = Some (xs @ ys, Some s, [])"
      unfolding t using v6_fields_gap [OF False xy, of "[]"] len z(1) by simp
    moreover have "\<not> has_prefix (v6_string w) ''::''" unfolding t by (rule colons_no_gap [OF False xy(1)])
    ultimately show ?thesis using parse_colons_text [OF chars colon, of z] fin by simp
  qed
qed

lemma digits_length: "n < 10 ^ Suc k \<Longrightarrow> length (digits n) \<le> Suc k"
proof (induction k arbitrary: n)
  case 0
  then show ?case by (subst digits.simps) simp
next
  case (Suc k)
  then show ?case using Suc.IH [of "n div 10"] by (subst digits.simps) auto
qed

lemma digit_hex: "is_digit c \<Longrightarrow> hex_val c \<noteq> None"
proof -
  have "(of_char c :: int) = int (of_char c)" by (rule of_nat_of_char [symmetric])
  then show "is_digit c \<Longrightarrow> hex_val c \<noteq> None" unfolding is_digit_def hex_val_def Let_def by auto
qed

lemma v4_fields:
  assumes "length gs \<le> 6" "el \<noteq> None"
  shows "v6_fields gs el (v4_string w) =
    Some (gs @ [uint (drop_bit 16 w), uint (take_bit 16 w)], el, [])"
proof -
  obtain h t where v: "v4_string w = h @ CHR ''.'' # t" "h = digits (unat (drop_bit 24 w))"
    by (simp add: v4_string_def)
  have "uint (drop_bit 24 w) < 256" using uint_lt2p [of w]
    unfolding unsigned_drop_bit_eq by (simp add: drop_bit_eq_div take_bit_eq_mod)
  then have "unat (drop_bit 24 w) < 256" using uint_nat [of "drop_bit 24 w"] by linarith
  then have h: "h \<noteq> []" "length h \<le> 4" "list_all (\<lambda>c. hex_val c \<noteq> None) h"
    using digits_props [of "unat (drop_bit 24 w)"] digits_length [of "unat (drop_bit 24 w)" 2]
    using digit_hex by (auto simp: v(2) list_all_iff simp del: not_None_eq)
  have "hex_run (v4_string w) = h" "hex_rest (v4_string w) = CHR ''.'' # t"
    using hex_run_append [OF h(3), of "CHR ''.'' # t"] by (simp_all add: v(1) hex_val_def)
  then show ?thesis using assms h by (subst v6_fields.simps) auto
qed


lemma v4_text_chars: "CHR ''%'' \<notin> set (v4_string w)" "v4_string w \<noteq> []" "hd (v4_string w) \<noteq> CHR '':''"
proof -
  have *: "c \<noteq> CHR ''%'' \<and> c \<noteq> CHR '':''" if "c \<in> set (v4_string w)" for c
    using v4_string_chars [OF that] by (auto simp: is_digit_def)
  show "CHR ''%'' \<notin> set (v4_string w)" using * by blast
  show n: "v4_string w \<noteq> []" by (simp add: v4_string_def)
  show "hd (v4_string w) \<noteq> CHR '':''" using * hd_in_set [OF n] by blast
qed

lemma mapped_groups:
  assumes "drop_bit 32 w = (0xFFFF :: 128 word)"
  shows "of_groups [0, 0, 0, 0, 0, 65535, uint (drop_bit 16 (ucast w :: 32 word)), uint (take_bit 16 (ucast w :: 32 word))] = w"
proof -
  define u where "u = uint w"
  have u: "0 \<le> u" "u < 2 ^ 128" using uint_lt2p [of w] by (simp_all add: u_def)
  have "uint (drop_bit 32 w) = 0xFFFF" using assms by simp
  then have hi: "u div 2 ^ 32 = 65535" using u
    unfolding unsigned_drop_bit_eq u_def [symmetric] by (simp add: drop_bit_eq_div take_bit_eq_mod)
  have c: "uint (ucast w :: 32 word) = u mod 2 ^ 32" by (simp add: u_def unsigned_ucast_eq take_bit_eq_mod)
  have "uint (drop_bit 16 (ucast w :: 32 word)) = u mod 2 ^ 32 div 65536"
    "uint (take_bit 16 (ucast w :: 32 word)) = u mod 2 ^ 32 mod 65536"
    unfolding unsigned_drop_bit_eq unsigned_take_bit_eq c by (simp_all add: drop_bit_eq_div take_bit_eq_mod)
  moreover have "(65535 * 65536 + x div 65536) * 65536 + x mod 65536 = 65535 * 2 ^ 32 + x" for x :: int
    using div_mult_mod_eq [of x 65536] by (simp add: algebra_simps)
  ultimately have "(65535 * 65536 + uint (drop_bit 16 (ucast w :: 32 word))) * 65536 +
      uint (take_bit 16 (ucast w :: 32 word)) = u div 2 ^ 32 * 2 ^ 32 + u mod 2 ^ 32"
    by (simp only: hi)
  then show ?thesis by (simp add: of_groups_def u_def)
qed

lemma parse_mapped:
  assumes "drop_bit 32 w = 0xFFFF"
  shows "parse_addr ((''::ffff:'' @ v4_string (ucast w)) @ (if z = [] then [] else CHR ''%'' # z)) = Some (V6 w z)"
proof -
  let ?v = "v4_string (ucast w)"
  note t = v4_text_chars [of "ucast w"]
  have h: "list_all (\<lambda>c. hex_val c \<noteq> None) ''ffff''" "hex_val CHR '':'' = None" by (simp_all add: hex_val_def)
  have r: "hex_run (''ffff'' @ CHR '':'' # ?v) = ''ffff''" "hex_rest (''ffff'' @ CHR '':'' # ?v) = CHR '':'' # ?v"
    using hex_run_append [OF h(1), of "CHR '':'' # ?v"] h(2) by simp_all
  have "v6_fields [] (Some 0) (''ffff'' @ CHR '':'' # ?v) = v6_fields [65535] (Some 0) ?v"
    using t by (subst v6_fields.simps) (simp add: r [simplified] hex_value_def hex_val_def)
  also have "\<dots> = Some ([65535, uint (drop_bit 16 (ucast w :: 32 word)), uint (take_bit 16 (ucast w :: 32 word))], Some 0, [])"
    using v4_fields [of "[65535]" "Some 0" "ucast w"] by simp
  finally have "v6_finish z (v6_fields [] (Some 0) (''ffff'' @ CHR '':'' # ?v)) = Some (V6 w z)"
    using mapped_groups [OF assms] by (simp add: v6_finish_def numeral_eq_Suc)
  moreover have "CHR ''%'' \<notin> set (''::ffff:'' @ ?v)" using t by simp
  note z = parse_ipv6_zoned [OF this, of z]
  ultimately show ?thesis unfolding parse_addr_def using z by (simp add: has_prefix_def)
qed

lemma addr_text_roundtrip: "parse_addr (addr_string a) = Some a"
proof (cases a)
  case (V4 w)
  have "find (\<lambda>c. c = CHR ''.'' \<or> c = CHR '':'' \<or> c = CHR ''%'') (d @ CHR ''.'' # t) = Some CHR ''.''"
    if "list_all is_digit d" for d t
    using that by (induction d) (auto simp: is_digit_def)
  then have "find (\<lambda>c. c = CHR ''.'' \<or> c = CHR '':'' \<or> c = CHR ''%'') (v4_string w) = Some CHR ''.''"
    using digits_props by (simp add: v4_string_def)
  then show ?thesis using V4 by (simp add: addr_string_def parse_addr_def)
next
  case (V6 w z)
  show ?thesis
  proof (cases "drop_bit 32 w = 0xFFFF")
    case True
    then have "addr_string a = (''::ffff:'' @ v4_string (ucast w)) @ (if z = [] then [] else CHR ''%'' # z)"
      using V6 by (simp add: addr_string_def is_4in6_def)
    then show ?thesis using parse_mapped [OF True, of z] V6 by (simp only:)
  next
    case False
    then have "addr_string a = v6_string w @ (if z = [] then [] else CHR ''%'' # z)"
      using V6 by (simp add: addr_string_def is_4in6_def)
    then show ?thesis using parse_v6_string [of w z] V6 by (simp only:)
  qed
qed

end
