(* ===== verification/Clientip.thy ===== *)
theory Clientip
  imports Netip
begin

unbundle bit_operations_syntax

text \<open>
  \<open>internal/clientip\<close>: the address a request came from. A trusted set is a list of networks and
  the classes it takes in whole; the automatic class is what \<open>auto.go\<close> resolved to (the networks
  of the container filex runs in and the addresses carved out of them), an argument here. A
  request is its peer and the headers that are read; \<open>uni\<close> are Unicode's case tables (\<open>to_lower\<close>).
\<close>

section \<open>Sets\<close>

record classes =
  cl_auto :: bool
  cl_loopback :: bool
  cl_private :: bool
  cl_link_local :: bool

record cset =
  cs_prefixes :: "network list"
  cs_classes :: classes

record auto_set =
  as_nets :: "network list"
  as_excl :: "addr list"

definition auto_contains :: "auto_set \<Rightarrow> addr \<Rightarrow> bool" where
  "auto_contains a ip \<longleftrightarrow>
     is_loopback ip \<or> ip \<notin> set (as_excl a) \<and> list_ex (\<lambda>p. net_contains p ip) (as_nets a)"

definition is_relay :: "auto_set \<Rightarrow> addr \<Rightarrow> bool" where
  "is_relay a ip \<longleftrightarrow> plain_addr ip \<in> set (as_excl a)"

definition no_classes :: classes where
  "no_classes = \<lparr>cl_auto = False, cl_loopback = False, cl_private = False, cl_link_local = False\<rparr>"

definition default_classes :: classes where
  "default_classes = no_classes\<lparr>cl_auto := True\<rparr>"

definition class_words :: "classes \<Rightarrow> string list" where
  "class_words c =
     (if cl_auto c then [''auto''] else []) @ (if cl_loopback c then [''loopback''] else []) @
     (if cl_private c then [''private''] else []) @ (if cl_link_local c then [''link-local''] else [])"

definition class_has :: "auto_set \<Rightarrow> classes \<Rightarrow> addr \<Rightarrow> bool" where
  "class_has auto c ip \<longleftrightarrow>
     cl_loopback c \<and> is_loopback ip \<or> cl_private c \<and> is_private ip \<or>
     cl_link_local c \<and> is_link_local_unicast ip \<or> cl_auto c \<and> auto_contains auto ip"

definition default_set :: cset where
  "default_set = \<lparr>cs_prefixes = [], cs_classes = default_classes\<rparr>"

definition unmap_bits :: "addr \<times> int \<Rightarrow> int" where
  "unmap_bits p = (if is_4in6 (fst p) \<and> snd p \<ge> 96 then snd p - 96 else snd p)"

definition parse_entry :: "string \<Rightarrow> network option" where
  "parse_entry s =
     (if slash \<in> set s then
        (case parse_prefix s of
           None \<Rightarrow> None
         | Some p \<Rightarrow> Some (masked_prefix (unmap (fst p)) (unmap_bits p)))
      else
        (case parse_addr s of
           None \<Rightarrow> None
         | Some a \<Rightarrow> Some (Some (plain_addr a, bit_len (plain_addr a)))))"

definition list_separator :: "char \<Rightarrow> bool" where
  "list_separator c \<longleftrightarrow> c \<in> {CHR '','', CHR '';'', CHR '' '', CHR 0x0A, CHR 0x0D, CHR 0x09}"

fun fields_func :: "(char \<Rightarrow> bool) \<Rightarrow> string \<Rightarrow> string \<Rightarrow> string list" where
  "fields_func P field [] = (if field = [] then [] else [field])"
| "fields_func P field (c # s) =
     (if P c then (if field = [] then fields_func P [] s else field # fields_func P [] s)
      else fields_func P (field @ [c]) s)"

definition add_field :: "(string \<Rightarrow> string) \<Rightarrow> string \<Rightarrow> cset \<Rightarrow> cset option" where
  "add_field uni f st =
     (let w = to_lower uni f; c = cs_classes st in
      if w = ''none'' then Some st
      else if w = ''auto'' then Some (st\<lparr>cs_classes := c\<lparr>cl_auto := True\<rparr>\<rparr>)
      else if w = ''loopback'' then Some (st\<lparr>cs_classes := c\<lparr>cl_loopback := True\<rparr>\<rparr>)
      else if w = ''private'' then Some (st\<lparr>cs_classes := c\<lparr>cl_private := True\<rparr>\<rparr>)
      else if w = ''link-local'' \<or> w = ''link_local'' then Some (st\<lparr>cs_classes := c\<lparr>cl_link_local := True\<rparr>\<rparr>)
      else (case parse_entry f of
              None \<Rightarrow> None
            | Some p \<Rightarrow> Some (st\<lparr>cs_prefixes := cs_prefixes st @ [p]\<rparr>)))"

fun add_fields :: "(string \<Rightarrow> string) \<Rightarrow> string list \<Rightarrow> cset \<Rightarrow> cset option" where
  "add_fields uni [] st = Some st"
| "add_fields uni (f # fs) st = (case add_field uni f st of None \<Rightarrow> None | Some st \<Rightarrow> add_fields uni fs st)"

definition empty_set :: cset where
  "empty_set = \<lparr>cs_prefixes = [], cs_classes = no_classes\<rparr>"

text \<open>None: a bad entry. Some None: a blank list, "not set".\<close>

definition parse_list :: "(string \<Rightarrow> string) \<Rightarrow> string \<Rightarrow> cset option option" where
  "parse_list uni text =
     (let fs = fields_func list_separator [] text in
      if fs = [] then Some None
      else case add_fields uni fs empty_set of None \<Rightarrow> None | Some st \<Rightarrow> Some (Some st))"

fun add_entries :: "string list \<Rightarrow> cset \<Rightarrow> cset option" where
  "add_entries [] st = Some st"
| "add_entries (e # es) st =
     (let t = trim_space e in
      if t = [] then add_entries es st
      else case parse_entry t of
             None \<Rightarrow> None
           | Some p \<Rightarrow> add_entries es (st\<lparr>cs_prefixes := cs_prefixes st @ [p]\<rparr>))"

definition parse_entries :: "string list \<Rightarrow> cset option" where
  "parse_entries es = add_entries es empty_set"

definition contains :: "auto_set \<Rightarrow> cset option \<Rightarrow> addr \<Rightarrow> bool" where
  "contains auto s ip =
     (case s of
        None \<Rightarrow> False
      | Some s \<Rightarrow>
        let ip = plain_addr ip in
        class_has auto (cs_classes s) ip \<or> list_ex (\<lambda>p. net_contains p ip) (cs_prefixes s))"

definition contains_string :: "auto_set \<Rightarrow> cset option \<Rightarrow> string \<Rightarrow> bool" where
  "contains_string auto s t =
     (case parse_addr (trim_space t) of None \<Rightarrow> False | Some a \<Rightarrow> contains auto s a)"

section \<open>Which address a request came from\<close>

record request =
  rq_remote :: string
  rq_forwarded_for :: "string list"
  rq_real_ip :: string
  rq_forwarded :: string

definition trusted :: "cset option \<Rightarrow> cset" where
  "trusted src = (case src of Some s \<Rightarrow> s | None \<Rightarrow> default_set)"

definition parse_client_addr :: "string \<Rightarrow> addr option" where
  "parse_client_addr s = map_option plain_addr (parse_addr (trim (\<lambda>c. c = CHR ''['' \<or> c = CHR '']'') s))"

definition parse_host_port :: "string \<Rightarrow> addr option" where
  "parse_host_port s0 =
     (let s = trim_space s0
      in parse_client_addr (case split_host_port s of Some (host, _) \<Rightarrow> host | None \<Rightarrow> s))"

definition forwarded_chain :: "string list \<Rightarrow> string list" where
  "forwarded_chain ls = filter (\<lambda>p. p \<noteq> []) (map trim_space (concat (map (split_on CHR '','') ls)))"

text \<open>The chain from its trusted end: the hop seen last, and the hops before it.\<close>

fun walk_back :: "(addr \<Rightarrow> bool) \<Rightarrow> addr \<Rightarrow> addr \<Rightarrow> string list \<Rightarrow> addr" where
  "walk_back is_trusted peer seen [] = seen"
| "walk_back is_trusted peer seen (hop # hops) =
     (case parse_host_port hop of
        None \<Rightarrow> peer
      | Some a \<Rightarrow> if \<not> is_trusted a then a else walk_back is_trusted peer a hops)"

definition from_request :: "auto_set \<Rightarrow> cset option \<Rightarrow> request \<Rightarrow> string" where
  "from_request auto src r =
     (case parse_host_port (rq_remote r) of
        None \<Rightarrow> trim_space (rq_remote r)
      | Some peer \<Rightarrow>
        let st = contains auto (Some (trusted src)) in
        if \<not> st peer then addr_string peer
        else let chain = forwarded_chain (rq_forwarded_for r) in
          if chain \<noteq> [] then addr_string (walk_back st peer peer (rev chain))
          else let v = trim_space (rq_real_ip r) in
            if v \<noteq> [] then
              (case parse_host_port v of Some a \<Rightarrow> addr_string a | None \<Rightarrow> addr_string peer)
            else addr_string peer)"

definition first_value :: "string list \<Rightarrow> string" where
  "first_value vs = (case vs of [] \<Rightarrow> [] | v # _ \<Rightarrow> v)"

definition proxy_itself :: "auto_set \<Rightarrow> cset option \<Rightarrow> request \<Rightarrow> bool" where
  "proxy_itself auto src r =
     (case parse_host_port (rq_remote r) of
        None \<Rightarrow> False
      | Some peer \<Rightarrow>
        contains auto (Some (trusted src)) peer \<and>
        first_value (rq_forwarded_for r) = [] \<and> rq_real_ip r = [] \<and> rq_forwarded r = [])"

definition peer_trusted :: "auto_set \<Rightarrow> cset option \<Rightarrow> request \<Rightarrow> bool" where
  "peer_trusted auto src r =
     (case parse_host_port (rq_remote r) of
        None \<Rightarrow> False
      | Some peer \<Rightarrow> contains auto (Some (trusted src)) peer)"

definition peer_of :: "string \<Rightarrow> string" where
  "peer_of remote = (case parse_host_port remote of Some a \<Rightarrow> addr_string a | None \<Rightarrow> trim_space remote)"

section \<open>What a set answers for a text\<close>

lemma plain_addr_idem [simp]: "plain_addr (plain_addr a) = plain_addr a"
  by (cases a) (auto simp: plain_addr_def unmap_def without_zone_def)

section \<open>Headers are believed from proxies only\<close>

lemma forwarded_chain_append: "forwarded_chain (ls @ ms) = forwarded_chain ls @ forwarded_chain ms"
  by (simp add: forwarded_chain_def)

lemma forwarded_chain_line:
  "forwarded_chain ((f @ CHR '','' # w) # ws) = forwarded_chain [f] @ forwarded_chain (w # ws)"
  by (simp add: forwarded_chain_def split_on_append)

text \<open>A hop the walk cannot pass: it cannot be read, or it is no proxy of ours.\<close>

definition stops_walk :: "(addr \<Rightarrow> bool) \<Rightarrow> string \<Rightarrow> bool" where
  "stops_walk is_trusted hop \<longleftrightarrow> (case parse_host_port hop of None \<Rightarrow> True | Some a \<Rightarrow> \<not> is_trusted a)"

lemma walk_back_stops:
  assumes "x \<in> set hops" "stops_walk t x"
  shows "walk_back t peer seen (hops @ rest) = walk_back t peer seen hops"
  using assms
proof (induction hops arbitrary: seen)
  case (Cons h hops)
  then show ?case by (cases "parse_host_port h") (auto simp: stops_walk_def)
qed simp

lemma walk_back_plain:
  assumes "plain_addr peer = peer" "plain_addr seen = seen"
  shows "plain_addr (walk_back t peer seen hops) = walk_back t peer seen hops"
  using assms
proof (induction hops arbitrary: seen)
  case (Cons h hops)
  have p: "plain_addr a = a" if "parse_host_port h = Some a" for a
    using that by (auto simp: parse_host_port_def parse_client_addr_def Let_def plain_addr_idem split: option.splits)
  show ?case using Cons p by (auto split: option.split)
qed simp

text \<open>The text of an address without a zone: hexadecimal digits, dots and colons.\<close>

lemma addr_string_chars:
  assumes "zone_of a = []" "c \<in> set (addr_string a)"
  shows "hex_val c \<noteq> None \<or> c = CHR '':'' \<or> c = CHR ''.''"
proof -
  have v4: "hex_val c \<noteq> None \<or> c = CHR ''.''" if "c \<in> set (v4_string w)" for w
    using v4_string_chars [OF that] digit_hex by blast
  have v6: "hex_val c \<noteq> None \<or> c = CHR '':''" if "c \<in> set (v6_string w)" for w
  proof -
    note ok = groups_of_ok(1) [of w]
    have t: "\<forall>g \<in> set (take n (groups_of w)). group_ok g" "\<forall>g \<in> set (drop n (groups_of w)). group_ok g" for n
      using ok in_set_takeD in_set_dropD by fast+
    show ?thesis using that colons_chars [OF ok] colons_chars [OF t(1)] colons_chars [OF t(2)]
      by (cases "zero_run (groups_of w)") (auto simp: v6_string_def Let_def simp del: not_None_eq)
  qed
  have m: "hex_val c \<noteq> None \<or> c = CHR '':''" if "c \<in> set ''::ffff:''"
    using that by (auto simp: hex_val_def)
  show ?thesis
  proof (cases a)
    case (V4 w)
    then show ?thesis using assms(2) v4 [of w] by (auto simp only: addr_string_def addr.case)
  next
    case (V6 w z)
    then have z: "addr_string a = (if is_4in6 a then ''::ffff:'' @ v4_string (ucast w) else v6_string w)"
      using assms(1) by (simp add: addr_string_def zone_of_def)
    show ?thesis
    proof (cases "is_4in6 a")
      case True
      then have "c \<in> set ''::ffff:'' \<or> c \<in> set (v4_string (ucast w))" using assms(2) z by (simp only: set_append Un_iff if_True)
      then show ?thesis using m v4 by blast
    next
      case False
      then have "c \<in> set (v6_string w)" using assms(2) z by (simp only: if_False)
      then show ?thesis using v6 by blast
    qed
  qed
qed

lemma hex_val_ascii: "hex_val c \<noteq> None \<or> c = CHR '':'' \<or> c = CHR ''.'' \<Longrightarrow> 32 < (of_char c :: nat) \<and> (of_char c :: nat) < 128"
proof -
  have "(of_char c :: int) = int (of_char c)" by (rule of_nat_of_char [symmetric])
  then show "hex_val c \<noteq> None \<or> c = CHR '':'' \<or> c = CHR ''.'' \<Longrightarrow> ?thesis"
    by (auto simp: hex_val_def Let_def split: if_splits)
qed

lemma trim_addr_string: "zone_of a = [] \<Longrightarrow> trim_space (addr_string a) = addr_string a"
  using addr_string_chars hex_val_ascii by (intro trim_space_ascii) blast

lemma zone_of_plain: "zone_of (plain_addr a) = []"
  by (simp add: plain_addr_def without_zone_def zone_of_def split: addr.split)

lemma contains_string_addr: "zone_of a = [] \<Longrightarrow> contains_string auto s (addr_string a) = contains auto s a"
  by (simp add: contains_string_def trim_addr_string addr_text_roundtrip)

lemma parse_host_port_plain: "parse_host_port s = Some a \<Longrightarrow> plain_addr a = a"
  by (auto simp: parse_host_port_def parse_client_addr_def Let_def)

text \<open>C21. Who may name the client: a request whose peer is not a trusted proxy comes from its peer,
  whatever its headers say; and behind trusted proxies, what the sender wrote in front of the first
  hop the proxies did not put there themselves - whole header lines, or the beginning of the line the
  proxy appended to - never changes the answer.\<close>

theorem headers_cannot_forge_the_client:
  assumes "parse_host_port (rq_remote r) = Some peer"
  shows "(\<not> contains auto (Some (trusted src)) peer \<longrightarrow> from_request auto src r = addr_string peer) \<and>
    (rq_forwarded_for r = w # ws \<and> list_ex (stops_walk (contains auto (Some (trusted src)))) (forwarded_chain (w # ws)) \<longrightarrow>
      from_request auto src (r\<lparr>rq_forwarded_for := fs @ (f @ CHR '','' # w) # ws\<rparr>) = from_request auto src r \<and>
      from_request auto src (r\<lparr>rq_forwarded_for := fs @ w # ws\<rparr>) = from_request auto src r)"
proof (intro conjI impI)
  show "from_request auto src r = addr_string peer" if "\<not> contains auto (Some (trusted src)) peer"
    using assms that by (simp add: from_request_def)
next
  assume h: "rq_forwarded_for r = w # ws \<and> list_ex (stops_walk (contains auto (Some (trusted src)))) (forwarded_chain (w # ws))"
  then obtain x where x: "x \<in> set (rev (forwarded_chain (w # ws)))" "stops_walk (contains auto (Some (trusted src))) x"
    by (auto simp: list_ex_iff)
  have c1: "forwarded_chain (fs @ (f @ CHR '','' # w) # ws) =
      (forwarded_chain fs @ forwarded_chain [f]) @ forwarded_chain (w # ws)"
    by (simp only: forwarded_chain_append forwarded_chain_line append_assoc)
  have c2: "forwarded_chain (fs @ w # ws) = forwarded_chain fs @ forwarded_chain (w # ws)"
    by (simp only: forwarded_chain_append)
  have same: "from_request auto src (r\<lparr>rq_forwarded_for := ls\<rparr>) = from_request auto src r"
    if "forwarded_chain ls = written @ forwarded_chain (w # ws)" for ls written
    using assms that h x walk_back_stops [OF x, of peer peer "rev written"]
    by (auto simp: from_request_def Let_def)
  show "from_request auto src (r\<lparr>rq_forwarded_for := fs @ (f @ CHR '','' # w) # ws\<rparr>) = from_request auto src r"
    by (rule same [OF c1])
  show "from_request auto src (r\<lparr>rq_forwarded_for := fs @ w # ws\<rparr>) = from_request auto src r"
    by (rule same [OF c2])
qed

definition caddy :: auto_set where
  "caddy = \<lparr>as_nets = [masked_prefix (V4 0xAC120000) 16], as_excl = [V4 0xAC120001]\<rparr>"

definition visit :: request where
  "visit = \<lparr>rq_remote = ''172.18.0.5:4711'', rq_forwarded_for = [''198.51.100.7''], rq_real_ip = [], rq_forwarded = []\<rparr>"

theorem headers_cannot_forge_the_client_witness:
  "from_request caddy None visit = ''198.51.100.7'' \<and>
   from_request caddy None (visit\<lparr>rq_forwarded_for := [''127.0.0.1,198.51.100.7'']\<rparr>) = ''198.51.100.7''"
proof -
  have p: "parse_host_port (rq_remote visit) = Some (V4 0xAC120005)" by code_simp
  have s: "rq_forwarded_for visit = [''198.51.100.7'']" "list_ex (stops_walk (contains caddy (Some (trusted None)))) (forwarded_chain [''198.51.100.7''])"
    by code_simp+
  have v: "from_request caddy None visit = ''198.51.100.7''" by code_simp
  show ?thesis
    using headers_cannot_forge_the_client [OF p, of caddy None "''198.51.100.7''" "[]" "[]" "''127.0.0.1''"] s v
    by simp
qed

text \<open>The text handed on is the address: where the peer can be read, the answer is the canonical text
  of one plain address (no zone, no IPv4 in IPv6 clothes), reads back as that address, and any set
  asked about the text - the allow-list of the sign-in limiter - answers for that address.\<close>

theorem client_address_reads_back:
  assumes "parse_host_port (rq_remote r) = Some peer"
  shows "\<exists>a. from_request auto src r = addr_string a \<and> plain_addr a = a \<and>
    parse_addr (from_request auto src r) = Some a \<and>
    (\<forall>au s. contains_string au s (from_request auto src r) = contains au s a)"
proof -
  let ?t = "contains auto (Some (trusted src))"
  have p: "plain_addr peer = peer" using assms by (rule parse_host_port_plain)
  have "\<exists>a. from_request auto src r = addr_string a \<and> plain_addr a = a"
  proof (cases "?t peer \<and> forwarded_chain (rq_forwarded_for r) \<noteq> []")
    case True
    then show ?thesis using assms walk_back_plain [OF p p] by (auto simp: from_request_def Let_def)
  next
    case False
    then show ?thesis using assms p parse_host_port_plain
      by (auto simp: from_request_def Let_def split: option.split)
  qed
  then obtain a where a: "from_request auto src r = addr_string a" "plain_addr a = a" by blast
  then show ?thesis using contains_string_addr zone_of_plain [of a] addr_text_roundtrip by metis
qed

theorem client_address_reads_back_witness:
  "\<exists>a. from_request caddy None visit = addr_string a \<and> plain_addr a = a \<and>
    parse_addr (from_request caddy None visit) = Some a"
proof -
  have "parse_host_port (rq_remote visit) = Some (V4 0xAC120005)" by code_simp
  from client_address_reads_back [OF this, of caddy None] show ?thesis by blast
qed

text \<open>
  An IPv4 network written in its IPv6 clothes with a length below 96: between 33 and 95 the entry is
  accepted and holds nothing; up to 32 it becomes an IPv4 network of that length.
\<close>

lemma mapped_network_loses_its_length:
  "parse_entry ''::ffff:10.0.0.0/104'' = Some (Some (V4 0x0A000000, 8))"
  "parse_entry ''::ffff:10.0.0.0/64'' = Some None"
  "parse_entry ''::ffff:10.1.2.3/16'' = Some (Some (V4 0x0A010000, 16))"
  by code_simp+

text \<open>\<open>ProxyItself\<close> looks at the first header line only, \<open>FromRequest\<close> at all of them.\<close>

lemma blank_first_line_passes:
  "let r = visit\<lparr>rq_forwarded_for := [[], ''198.51.100.7'']\<rparr>
   in proxy_itself caddy None r \<and> from_request caddy None r = ''198.51.100.7''"
  by code_simp


end
