(* ===== verification/Netguard.thy ===== *)
theory Netguard
  imports Netip
begin

unbundle bit_operations_syntax

text \<open>
  \<open>internal/netguard\<close>: which addresses a request filex makes itself may reach. A \<open>net.IP\<close> is an
  address whose IPv4-in-IPv6 spelling is unmapped first, as every predicate of \<open>net\<close> does; nil is
  None. What DNS answers is an argument of the dial.
\<close>

section \<open>Refused addresses\<close>

definition is_multicast :: "addr \<Rightarrow> bool" where
  "is_multicast a = (case unmap a of V4 w \<Rightarrow> net4 0xE0000000 4 w | V6 w _ \<Rightarrow> net6 0xFF000000000000000000000000000000 8 w)"

definition is_link_local_multicast :: "addr \<Rightarrow> bool" where
  "is_link_local_multicast a = (case unmap a of
     V4 w \<Rightarrow> net4 0xE0000000 24 w
   | V6 w _ \<Rightarrow> drop_bit 120 w = 0xFF \<and> take_bit 4 (drop_bit 112 w) = 2)"

definition is_interface_local_multicast :: "addr \<Rightarrow> bool" where
  "is_interface_local_multicast a = (case unmap a of
     V4 w \<Rightarrow> False
   | V6 w _ \<Rightarrow> drop_bit 120 w = 0xFF \<and> take_bit 4 (drop_bit 112 w) = 1)"

definition is_unspecified :: "addr \<Rightarrow> bool" where
  "is_unspecified a = (case unmap a of V4 w \<Rightarrow> w = 0 | V6 w _ \<Rightarrow> w = 0)"

definition refused_basic :: "addr \<Rightarrow> bool" where
  "refused_basic a \<longleftrightarrow> is_loopback a \<or> is_link_local_unicast a \<or> is_link_local_multicast a \<or>
     is_private a \<or> is_multicast a \<or> is_unspecified a \<or> is_interface_local_multicast a"

text \<open>
  The list of CIDR texts as \<open>net.ParseCIDR\<close> reads it: 0.0.0.0/8, 100.64.0.0/10, 192.0.0.0/24,
  192.88.99.0/24, 198.18.0.0/15, 240.0.0.0/4, ::/96, 100::/64, 2001::/32, 2001:db8::/32, 64:ff9b:1::/48.
\<close>

definition refused_nets :: "network list" where
  "refused_nets =
     [Some (V4 0, 8),
      Some (V4 0x64400000, 10),
      Some (V4 0xC0000000, 24),
      Some (V4 0xC0586300, 24),
      Some (V4 0xC6120000, 15),
      Some (V4 0xF0000000, 4),
      Some (V6 0 [], 96),
      Some (V6 0x1000000000000000000000000000000 [], 64),
      Some (V6 0x20010000000000000000000000000000 [], 32),
      Some (V6 0x20010DB8000000000000000000000000 [], 32),
      Some (V6 0x64FF9B000100000000000000000000 [], 48)]"

definition in_refused_nets :: "addr \<Rightarrow> bool" where
  "in_refused_nets a \<longleftrightarrow> list_ex (\<lambda>n. net_contains n (plain_addr a)) refused_nets"

definition embedded_ipv4 :: "addr \<Rightarrow> addr option" where
  "embedded_ipv4 a = (case unmap a of
     V4 _ \<Rightarrow> None
   | V6 w _ \<Rightarrow>
     if drop_bit 32 w = push_bit 64 0x64FF9B then Some (V4 (ucast w))
     else if drop_bit 112 w = 0x2002 then Some (V4 (ucast (drop_bit 80 w)))
     else None)"

definition refused :: "addr option \<Rightarrow> bool" where
  "refused ip = (case ip of
     None \<Rightarrow> True
   | Some a \<Rightarrow>
     if refused_basic a \<or> in_refused_nets a then True
     else (case embedded_ipv4 a of
             Some v4 \<Rightarrow> refused_basic v4 \<or> in_refused_nets v4
           | None \<Rightarrow> False))"

definition private_net :: "addr option \<Rightarrow> bool" where
  "private_net ip = (case ip of None \<Rightarrow> False | Some a \<Rightarrow> is_loopback a \<or> is_link_local_unicast a \<or> is_private a)"

record policy =
  po_loopback :: bool

definition policy_refused :: "policy \<Rightarrow> addr option \<Rightarrow> bool" where
  "policy_refused p ip =
     (if po_loopback p \<and> (case ip of None \<Rightarrow> False | Some a \<Rightarrow> is_loopback a) then False else refused ip)"

section \<open>Dialling\<close>

datatype dial_error = BadHostPort | LookupFailed | ErrPrivateTarget | IndexPanic

definition join_host_port :: "string \<Rightarrow> string \<Rightarrow> string" where
  "join_host_port host port =
     (if CHR '':'' \<in> set host \<or> CHR ''%'' \<in> set host then CHR ''['' # host @ '']:'' @ port else host @ CHR '':'' # port)"

definition ip_string :: "addr \<Rightarrow> string" where
  "ip_string a = addr_string (plain_addr a)"

text \<open>The address the connection is made to; \<open>lookup\<close> is the resolver, None its error.\<close>

definition dial_context :: "policy \<Rightarrow> (string \<Rightarrow> addr list option) \<Rightarrow> string \<Rightarrow> dial_error + string" where
  "dial_context p lookup target =
     (case split_host_port target of
        None \<Rightarrow> Inl BadHostPort
      | Some (host, port) \<Rightarrow>
        case lookup host of
          None \<Rightarrow> Inl LookupFailed
        | Some ips \<Rightarrow>
          if list_ex (\<lambda>ip. policy_refused p (Some ip)) ips then Inl ErrPrivateTarget
          else (case ips of [] \<Rightarrow> Inl IndexPanic | ip # _ \<Rightarrow> Inr (join_host_port (ip_string ip) port)))"

definition parse_ip :: "string \<Rightarrow> addr option" where
  "parse_ip s = (case parse_addr s of
     None \<Rightarrow> None
   | Some a \<Rightarrow> if zone_of a \<noteq> [] then None else Some (unmap a))"

definition dial_control :: "string \<Rightarrow> dial_error option" where
  "dial_control address =
     (let host = (case split_host_port address of Some (h, _) \<Rightarrow> h | None \<Rightarrow> address)
      in if refused (parse_ip host) then Some ErrPrivateTarget else None)"

section \<open>Redirects\<close>

record hop =
  hop_scheme :: string
  hop_host :: string

datatype redirect_error = TooManyRedirects | ErrDowngrade | OtherScheme | PrivateRedirect

definition MaxRedirects :: nat where "MaxRedirects = 5"

definition check_redirect :: "policy \<Rightarrow> hop \<Rightarrow> hop list \<Rightarrow> redirect_error option" where
  "check_redirect p nxt via =
     (if length via \<ge> MaxRedirects then Some TooManyRedirects
      else if hop_scheme nxt \<noteq> ''https'' \<and> hop_scheme nxt \<noteq> ''http'' then Some OtherScheme
      else if hop_scheme nxt = ''http'' \<and> via \<noteq> [] \<and> hop_scheme (last via) = ''https'' then Some ErrDowngrade
      else (case parse_ip (hop_host nxt) of
              None \<Rightarrow> None
            | Some ip \<Rightarrow> if policy_refused p (Some ip) then Some PrivateRedirect else None))"

text \<open>
  The requests \<open>http.Client\<close> makes: \<open>CheckRedirect\<close> is asked before each further one, with the
  requests made so far, oldest first. The list is where the servers would send it, one after another.
\<close>

fun follow :: "policy \<Rightarrow> hop list \<Rightarrow> hop list \<Rightarrow> hop list" where
  "follow p made [] = made"
| "follow p made (h # hs) =
     (case check_redirect p h made of None \<Rightarrow> follow p (made @ [h]) hs | Some _ \<Rightarrow> made)"

section \<open>The addresses that are let through\<close>

text \<open>The ranges of addresses as numbers, first and last.\<close>

abbreviation dotted :: "int \<Rightarrow> int \<Rightarrow> int \<Rightarrow> int \<Rightarrow> int" where
  "dotted a b c d \<equiv> ((a * 256 + b) * 256 + c) * 256 + d"

definition within :: "(int \<times> int) list \<Rightarrow> int \<Rightarrow> bool" where
  "within rs n \<longleftrightarrow> (\<exists>(lo, hi) \<in> set rs. lo \<le> n \<and> n \<le> hi)"

definition inward4 :: "(int \<times> int) list" where
  "inward4 =
     [(dotted 0 0 0 0, dotted 0 255 255 255), (dotted 10 0 0 0, dotted 10 255 255 255),
      (dotted 100 64 0 0, dotted 100 127 255 255), (dotted 127 0 0 0, dotted 127 255 255 255),
      (dotted 169 254 0 0, dotted 169 254 255 255), (dotted 172 16 0 0, dotted 172 31 255 255),
      (dotted 192 0 0 0, dotted 192 0 0 255), (dotted 192 88 99 0, dotted 192 88 99 255),
      (dotted 192 168 0 0, dotted 192 168 255 255), (dotted 198 18 0 0, dotted 198 19 255 255),
      (dotted 224 0 0 0, dotted 239 255 255 255), (dotted 240 0 0 0, dotted 255 255 255 255)]"

definition block6 :: "int \<Rightarrow> nat \<Rightarrow> int \<times> int" where
  "block6 blk k = (blk * 2 ^ (128 - k), (blk + 1) * 2 ^ (128 - k) - 1)"

definition inward6 :: "(int \<times> int) list" where
  "inward6 =
     [block6 0 96, block6 0x0064FF9B0001 48, block6 0x0100000000000000 64, block6 0x20010000 32,
      block6 0x20010DB8 32, block6 0x7E 7, block6 0x3FA 10, block6 0xFF 8]"

text \<open>An address of the public internet, as its number tells.\<close>

definition public :: "addr \<Rightarrow> bool" where
  "public a = (case unmap a of
     V4 w \<Rightarrow> \<not> within inward4 (uint w)
   | V6 w _ \<Rightarrow>
     let n = uint w in
     \<not> within inward6 n \<and>
     \<not> (n div 2 ^ 32 = 0x64FF9B * 2 ^ 64 \<and> within inward4 (n mod 2 ^ 32)) \<and>
     \<not> (n div 2 ^ 112 = 0x2002 \<and> within inward4 (n div 2 ^ 80 mod 2 ^ 32)))"

lemma uint_drop_bit: "uint (drop_bit n x) = uint x div 2 ^ n" for x :: "'a :: len word"
  using uint_lt2p [of x] unfolding unsigned_drop_bit_eq by (simp add: drop_bit_eq_div take_bit_eq_mod)

lemma drop_bit_uint:
  "drop_bit n w = p \<longleftrightarrow> uint w div 2 ^ n = uint p" for w p :: "'a :: len word"
  by (metis uint_drop_bit word_uint_eqI)

lemma div_block: "0 < m \<Longrightarrow> x div m = c \<longleftrightarrow> c * m \<le> x \<and> x \<le> (c + 1) * m - 1" for x m c :: int
proof -
  assume m: "0 < m"
  have d: "x = x div m * m + x mod m" "0 \<le> x mod m" "x mod m < m" using m by simp_all
  have e: "(c + 1) * m = c * m + m" by (simp add: distrib_right)
  show ?thesis
  proof
    assume "x div m = c"
    then show "c * m \<le> x \<and> x \<le> (c + 1) * m - 1" using d e by (metis add_le_cancel_left add_less_cancel_left le_add_same_cancel1 zle_diff1_eq)
  next
    assume "c * m \<le> x \<and> x \<le> (c + 1) * m - 1"
    then show "x div m = c" using int_div_pos_eq [of x m c "x - c * m"] e by (simp add: mult.commute)
  qed
qed

lemma net4_range: "net4 p k w \<longleftrightarrow> (uint p div 2 ^ (32 - k)) * 2 ^ (32 - k) \<le> uint w \<and> uint w \<le> (uint p div 2 ^ (32 - k) + 1) * 2 ^ (32 - k) - 1"
  unfolding net4_def drop_bit_uint uint_drop_bit by (rule div_block) simp

lemma v4_unmap [simp]: "unmap (V4 w) = V4 w" "plain_addr (V4 w) = V4 w"
  by (simp_all add: unmap_def plain_addr_def without_zone_def)

lemma within_simps [simp]:
  "within [] n \<longleftrightarrow> False"
  "within ((lo, hi) # rs) n \<longleftrightarrow> lo \<le> n \<and> n \<le> hi \<or> within rs n"
  by (auto simp: within_def)

lemma net_contains_simps:
  "net_contains (Some (V4 p, k)) (V4 w) \<longleftrightarrow> net4 p k w"
  "net_contains (Some (V6 q z, k)) (V4 w) \<longleftrightarrow> False"
  "net_contains (Some (V4 p, k)) (V6 v []) \<longleftrightarrow> False"
  "net_contains (Some (V6 q z, k)) (V6 v []) \<longleftrightarrow> net6 q k v"
  by (simp_all add: net_contains_def net4_def net6_def)

lemma zero_uint: "w = 0 \<longleftrightarrow> uint w = 0" for w :: "'a :: len word"
  by (metis uint_0_iff)

lemma basic4: "refused_basic (V4 w) \<longleftrightarrow>
    net4 0x7F000000 8 w \<or> net4 0xA9FE0000 16 w \<or> net4 0xE0000000 24 w \<or>
    net4 0x0A000000 8 w \<or> net4 0xAC100000 12 w \<or> net4 0xC0A80000 16 w \<or> net4 0xE0000000 4 w \<or> uint w = 0"
  unfolding refused_basic_def is_loopback_def is_link_local_unicast_def is_link_local_multicast_def is_private_def
    is_multicast_def is_unspecified_def is_interface_local_multicast_def v4_unmap addr.case zero_uint by blast

lemma list_ex_eqs: "list_ex P [] \<longleftrightarrow> False" "list_ex P (x # xs) \<longleftrightarrow> P x \<or> list_ex P xs"
  by simp_all

lemma nets4: "in_refused_nets (V4 w) \<longleftrightarrow>
    net4 0 8 w \<or> net4 0x64400000 10 w \<or> net4 0xC0000000 24 w \<or> net4 0xC0586300 24 w \<or> net4 0xC6120000 15 w \<or>
    net4 0xF0000000 4 w"
  unfolding in_refused_nets_def refused_nets_def list_ex_eqs v4_unmap net_contains_simps by blast

lemma ranges4:
  "net4 0 8 w \<longleftrightarrow> 0 \<le> uint w \<and> uint w \<le> 16777215"
  "net4 0x0A000000 8 w \<longleftrightarrow> 167772160 \<le> uint w \<and> uint w \<le> 184549375"
  "net4 0x64400000 10 w \<longleftrightarrow> 1681915904 \<le> uint w \<and> uint w \<le> 1686110207"
  "net4 0x7F000000 8 w \<longleftrightarrow> 2130706432 \<le> uint w \<and> uint w \<le> 2147483647"
  "net4 0xA9FE0000 16 w \<longleftrightarrow> 2851995648 \<le> uint w \<and> uint w \<le> 2852061183"
  "net4 0xAC100000 12 w \<longleftrightarrow> 2886729728 \<le> uint w \<and> uint w \<le> 2887778303"
  "net4 0xC0000000 24 w \<longleftrightarrow> 3221225472 \<le> uint w \<and> uint w \<le> 3221225727"
  "net4 0xC0586300 24 w \<longleftrightarrow> 3227017984 \<le> uint w \<and> uint w \<le> 3227018239"
  "net4 0xC0A80000 16 w \<longleftrightarrow> 3232235520 \<le> uint w \<and> uint w \<le> 3232301055"
  "net4 0xC6120000 15 w \<longleftrightarrow> 3323068416 \<le> uint w \<and> uint w \<le> 3323199487"
  "net4 0xE0000000 4 w \<longleftrightarrow> 3758096384 \<le> uint w \<and> uint w \<le> 4026531839"
  "net4 0xE0000000 24 w \<longleftrightarrow> 3758096384 \<le> uint w \<and> uint w \<le> 3758096639"
  "net4 0xF0000000 4 w \<longleftrightarrow> 4026531840 \<le> uint w \<and> uint w \<le> 4294967295"
  by (simp_all add: net4_range)

lemma inward4_value: "inward4 =
    [(0, 16777215), (167772160, 184549375), (1681915904, 1686110207), (2130706432, 2147483647),
     (2851995648, 2852061183), (2886729728, 2887778303), (3221225472, 3221225727), (3227017984, 3227018239),
     (3232235520, 3232301055), (3323068416, 3323199487), (3758096384, 4026531839), (4026531840, 4294967295)]"
  by (simp add: inward4_def)

lemma refused4: "refused_basic (V4 w) \<or> in_refused_nets (V4 w) \<longleftrightarrow> within inward4 (uint w)"
proof -
  have z: "uint w = 0 \<Longrightarrow> net4 0 8 w" "net4 0xE0000000 24 w \<Longrightarrow> net4 0xE0000000 4 w"
    unfolding ranges4 by linarith+
  show ?thesis unfolding basic4 nets4 inward4_value within_simps ranges4 [symmetric] using z by blast
qed

lemma net6_range: "net6 p k w \<longleftrightarrow> (uint p div 2 ^ (128 - k)) * 2 ^ (128 - k) \<le> uint w \<and> uint w \<le> (uint p div 2 ^ (128 - k) + 1) * 2 ^ (128 - k) - 1"
  unfolding net6_def drop_bit_uint uint_drop_bit by (rule div_block) simp

lemma net6_block: "uint p div 2 ^ (128 - k) = b \<Longrightarrow> net6 p k w \<longleftrightarrow> fst (block6 b k) \<le> uint w \<and> uint w \<le> snd (block6 b k)"
  unfolding net6_range block6_def fst_conv snd_conv by simp

lemma ranges6:
  "net6 0 96 w \<longleftrightarrow> fst (block6 0 96) \<le> uint w \<and> uint w \<le> snd (block6 0 96)"
  "net6 0x64FF9B000100000000000000000000 48 w \<longleftrightarrow> fst (block6 0x0064FF9B0001 48) \<le> uint w \<and> uint w \<le> snd (block6 0x0064FF9B0001 48)"
  "net6 0x1000000000000000000000000000000 64 w \<longleftrightarrow> fst (block6 0x0100000000000000 64) \<le> uint w \<and> uint w \<le> snd (block6 0x0100000000000000 64)"
  "net6 0x20010000000000000000000000000000 32 w \<longleftrightarrow> fst (block6 0x20010000 32) \<le> uint w \<and> uint w \<le> snd (block6 0x20010000 32)"
  "net6 0x20010DB8000000000000000000000000 32 w \<longleftrightarrow> fst (block6 0x20010DB8 32) \<le> uint w \<and> uint w \<le> snd (block6 0x20010DB8 32)"
  "net6 0xFC000000000000000000000000000000 7 w \<longleftrightarrow> fst (block6 0x7E 7) \<le> uint w \<and> uint w \<le> snd (block6 0x7E 7)"
  "net6 0xFE800000000000000000000000000000 10 w \<longleftrightarrow> fst (block6 0x3FA 10) \<le> uint w \<and> uint w \<le> snd (block6 0x3FA 10)"
  "net6 0xFF000000000000000000000000000000 8 w \<longleftrightarrow> fst (block6 0xFF 8) \<le> uint w \<and> uint w \<le> snd (block6 0xFF 8)"
  by (rule net6_block, simp)+

lemma within_pair: "within (p # rs) n \<longleftrightarrow> fst p \<le> n \<and> n \<le> snd p \<or> within rs n"
  by (cases p) simp

lemma inward6_nets: "within inward6 (uint w) \<longleftrightarrow>
    net6 0 96 w \<or> net6 0x64FF9B000100000000000000000000 48 w \<or> net6 0x1000000000000000000000000000000 64 w \<or> net6 0x20010000000000000000000000000000 32 w \<or>
    net6 0x20010DB8000000000000000000000000 32 w \<or> net6 0xFC000000000000000000000000000000 7 w \<or> net6 0xFE800000000000000000000000000000 10 w \<or> net6 0xFF000000000000000000000000000000 8 w"
  unfolding inward6_def within_pair ranges6 within_simps(1) by blast

lemma v6_unmap:
  assumes "drop_bit 32 w \<noteq> (0xFFFF :: 128 word)"
  shows "unmap (V6 w z) = V6 w z" "plain_addr (V6 w z) = V6 w []"
  using assms by (simp_all add: unmap_def plain_addr_def without_zone_def)

lemma refused6:
  assumes "drop_bit 32 w \<noteq> (0xFFFF :: 128 word)"
  shows "refused_basic (V6 w z) \<or> in_refused_nets (V6 w z) \<longleftrightarrow> within inward6 (uint w)"
proof -
  have m: "drop_bit 120 w = 0xFF \<longleftrightarrow> net6 0xFF000000000000000000000000000000 8 w" by (simp add: net6_def)
  have b: "refused_basic (V6 w z) \<longleftrightarrow> w = 1 \<or> w = 0 \<or> net6 0xFE800000000000000000000000000000 10 w \<or> net6 0xFC000000000000000000000000000000 7 w \<or>
      net6 0xFF000000000000000000000000000000 8 w"
    unfolding refused_basic_def is_loopback_def is_link_local_unicast_def is_link_local_multicast_def is_private_def
      is_multicast_def is_unspecified_def is_interface_local_multicast_def v6_unmap [OF assms] addr.case m by blast
  have n: "in_refused_nets (V6 w z) \<longleftrightarrow> net6 0 96 w \<or> net6 0x1000000000000000000000000000000 64 w \<or> net6 0x20010000000000000000000000000000 32 w \<or>
      net6 0x20010DB8000000000000000000000000 32 w \<or> net6 0x64FF9B000100000000000000000000 48 w"
    unfolding in_refused_nets_def refused_nets_def list_ex_eqs v6_unmap [OF assms] net_contains_simps by blast
  have "net6 0 96 0" "net6 0 96 1" by (simp_all add: net6_def)
  then show ?thesis unfolding b n inward6_nets by blast
qed

lemma embedded_uint:
  "uint (ucast w :: 32 word) = uint w mod 2 ^ 32" "uint (ucast (drop_bit 80 w) :: 32 word) = uint w div 2 ^ 80 mod 2 ^ 32"
  for w :: "128 word"
  by (simp_all add: unsigned_ucast_eq take_bit_eq_mod uint_drop_bit)

lemma embedded_places:
  "drop_bit 32 w = push_bit 64 0x64FF9B \<longleftrightarrow> uint w div 2 ^ 32 = 0x64FF9B * 2 ^ 64"
  "drop_bit 112 w = 0x2002 \<longleftrightarrow> uint w div 2 ^ 112 = 0x2002"
  for w :: "128 word"
  unfolding drop_bit_uint by (simp_all add: push_bit_eq_mult)

lemma refused_iff: "refused (Some a) \<longleftrightarrow> \<not> public a"
proof (cases a)
  case (V4 w)
  then show ?thesis using refused4 [of w] by (simp add: refused_def public_def embedded_ipv4_def)
next
  case (V6 w z)
  show ?thesis
  proof (cases "drop_bit 32 w = 0xFFFF")
    case True
    then have u: "unmap a = V4 (ucast w)" using V6 by (simp add: unmap_def)
    then have "refused_basic a = refused_basic (V4 (ucast w))"
      unfolding refused_basic_def is_loopback_def is_link_local_unicast_def is_link_local_multicast_def is_private_def
        is_multicast_def is_unspecified_def is_interface_local_multicast_def v4_unmap by simp
    moreover have "in_refused_nets a = in_refused_nets (V4 (ucast w))"
      by (simp add: in_refused_nets_def plain_addr_def u)
    ultimately show ?thesis using refused4 [of "ucast w"] u
      by (simp add: refused_def public_def embedded_ipv4_def)
  next
    case False
    note u = v6_unmap [OF False]
    have e: "(case embedded_ipv4 a of Some v4 \<Rightarrow> refused_basic v4 \<or> in_refused_nets v4 | None \<Rightarrow> False) \<longleftrightarrow>
        uint w div 2 ^ 32 = 0x64FF9B * 2 ^ 64 \<and> within inward4 (uint w mod 2 ^ 32) \<or>
        uint w div 2 ^ 112 = 0x2002 \<and> within inward4 (uint w div 2 ^ 80 mod 2 ^ 32)"
    proof -
      have "\<not> (drop_bit 32 w = push_bit 64 0x64FF9B \<and> drop_bit 112 w = 0x2002)"
      proof
        assume h: "drop_bit 32 w = push_bit 64 0x64FF9B \<and> drop_bit 112 w = 0x2002"
        have "drop_bit 112 w = drop_bit 80 (drop_bit 32 w)" by simp
        also have "\<dots> = drop_bit 80 (push_bit 64 0x64FF9B)" using h by (simp only:)
        finally show False using h by simp
      qed
      then show ?thesis unfolding V6 embedded_ipv4_def u(1) addr.case embedded_places [symmetric] embedded_uint [symmetric]
        using refused4 by auto
    qed
    show ?thesis unfolding refused_def option.case if_bool_eq_disj e public_def
      using refused6 [OF False, of z] u(1) [of z] V6 by (auto simp: Let_def)
  qed
qed

section \<open>What a guarded request reaches\<close>

text \<open>C22. A guarded dial reaches the public internet only: the connection is made to the first address
  the resolver answered for the host of the target, and every address it answered - each judged by
  the IPv4 address it wraps, if it wraps one - lies outside all the ranges that are local, private,
  shared, reserved, multicast or tunnelled inward; with the loopback exception of development, this
  machine's own addresses pass too.\<close>

theorem dial_reaches_public_only:
  assumes "dial_context p lookup target = Inr made"
  shows "\<exists>host port ip ips. split_host_port target = Some (host, port) \<and> lookup host = Some (ip # ips) \<and>
    made = join_host_port (ip_string ip) port \<and>
    (\<forall>a \<in> set (ip # ips). public a \<or> po_loopback p \<and> is_loopback a)"
  using assms
  by (auto simp: dial_context_def policy_refused_def refused_iff list_ex_iff split: option.splits if_splits list.splits)

definition resolver :: "string \<Rightarrow> addr list option" where
  "resolver host = (if host = ''plugins.example'' then Some [V4 0xCB007109, V6 0x2A000000000000000000000000000009 []]
     else if host = ''rebind.example'' then Some [V4 0xCB007109, V6 0x64FF9B00000000000000000A000001 []] else None)"

theorem dial_reaches_public_only_witness:
  "(\<exists>host port ip ips. split_host_port ''plugins.example:443'' = Some (host, port) \<and>
      resolver host = Some (ip # ips) \<and> public ip) \<and>
   dial_context \<lparr>po_loopback = False\<rparr> resolver ''rebind.example:443'' = Inl ErrPrivateTarget"
proof -
  have d: "dial_context \<lparr>po_loopback = False\<rparr> resolver ''plugins.example:443'' = Inr ''203.0.113.9:443''" by code_simp
  have refuse: "dial_context \<lparr>po_loopback = False\<rparr> resolver ''rebind.example:443'' = Inl ErrPrivateTarget" by code_simp
  from dial_reaches_public_only [OF d] obtain host port ip ips
    where h: "split_host_port ''plugins.example:443'' = Some (host, port)" "resolver host = Some (ip # ips)"
      and "\<forall>a \<in> set (ip # ips). public a \<or> po_loopback \<lparr>po_loopback = False\<rparr> \<and> is_loopback a"
    by blast
  from this(3) have "public ip" by simp
  then have "\<exists>host port ip ips. split_host_port ''plugins.example:443'' = Some (host, port) \<and>
      resolver host = Some (ip # ips) \<and> public ip"
    using h by (intro exI conjI)
  then show ?thesis using refuse by (rule conjI)
qed

definition stays_secure :: "hop list \<Rightarrow> bool" where
  "stays_secure made \<longleftrightarrow> sorted_wrt (\<lambda>a b. hop_scheme a = ''https'' \<longrightarrow> hop_scheme b = ''https'') made"

definition outward :: "policy \<Rightarrow> hop \<Rightarrow> bool" where
  "outward p h \<longleftrightarrow> (hop_scheme h = ''http'' \<or> hop_scheme h = ''https'') \<and>
     (case parse_ip (hop_host h) of None \<Rightarrow> True | Some a \<Rightarrow> public a \<or> po_loopback p \<and> is_loopback a)"

lemma check_redirect_None:
  assumes "check_redirect p h made = None"
  shows "length made < MaxRedirects" "outward p h"
    "hop_scheme h = ''https'' \<or> made = [] \<or> hop_scheme (last made) \<noteq> ''https''"
  using assms by (auto simp: check_redirect_def outward_def policy_refused_def refused_iff split: if_splits option.splits)

lemma stays_secure_snoc:
  assumes "stays_secure made" "hop_scheme h = ''https'' \<or> made = [] \<or> hop_scheme (last made) \<noteq> ''https''"
  shows "stays_secure (made @ [h])"
proof -
  have "hop_scheme a = ''https'' \<Longrightarrow> hop_scheme h = ''https''" if "a \<in> set made" for a
  proof -
    have "made \<noteq> []" using that by auto
    then obtain ys l where m: "made = ys @ [l]" by (cases made rule: rev_cases) simp_all
    assume "hop_scheme a = ''https''"
    then have "hop_scheme l = ''https''" using assms(1) that by (auto simp: stays_secure_def m sorted_wrt_append)
    then show ?thesis using assms(2) m by simp
  qed
  then show ?thesis using assms(1) by (auto simp: stays_secure_def sorted_wrt_append)
qed

lemma follow_inv:
  assumes "made \<noteq> []" "length made \<le> MaxRedirects" "stays_secure made" "\<forall>h \<in> set (tl made). outward p h"
  shows "length (follow p made hs) \<le> MaxRedirects \<and> stays_secure (follow p made hs) \<and>
    (\<forall>h \<in> set (tl (follow p made hs)). outward p h)"
  using assms
proof (induction p made hs rule: follow.induct)
  case (2 p made h hs)
  show ?case
  proof (cases "check_redirect p h made")
    case None
    note c = check_redirect_None [OF None]
    have "stays_secure (made @ [h])" using stays_secure_snoc [OF 2(4) c(3)] .
    moreover have "\<forall>x \<in> set (tl (made @ [h])). outward p x" using 2(2,5) c(2) by auto
    ultimately show ?thesis using 2(1) [OF None] c(1) None by simp
  next
    case (Some e)
    then show ?thesis using 2 by simp
  qed
qed simp

text \<open>A download makes at most \<open>MaxRedirects\<close> requests in a row, the first one included; once a
  request was encrypted all later ones are; and every redirect it follows goes to http or https and
  does not name an address inside as a literal.\<close>

theorem downloads_stay_encrypted:
  "length (follow p [first] hops) \<le> MaxRedirects \<and> stays_secure (follow p [first] hops) \<and>
   list_all (outward p) (tl (follow p [first] hops))"
  using follow_inv [of "[first]" p hops] by (simp add: list_all_iff stays_secure_def MaxRedirects_def)

text \<open>Five requests are four redirects; the constant's comment promises five.\<close>

definition bounce :: hop where
  "bounce = \<lparr>hop_scheme = ''https'', hop_host = ''cdn''\<rparr>"

lemma fifth_redirect_refused:
  "length (follow \<lparr>po_loopback = False\<rparr> [bounce] [bounce, bounce, bounce, bounce, bounce]) = 1 + 4"
proof -
  have "parse_ip ''cdn'' = None" by code_simp
  then show ?thesis by (simp add: check_redirect_def MaxRedirects_def bounce_def)
qed

end
