(* ===== verification/Perm.thy ===== *)
theory Perm
  imports GoStrings "HOL-Library.Word"
begin

unbundle bit_operations_syntax

text \<open>
  \<open>internal/perm/perm.go\<close>: the catalogue of permissions, the 64-bit set built over its
  order, the presets and the permissions a relocation needs. Permissions are strings, as in
  the code, because unknown names reach every operation (a set drops them, \<open>has\<close> never
  holds them).
\<close>

section \<open>The catalogue\<close>

abbreviation FilesDownload :: string where "FilesDownload \<equiv> ''files.download''"
abbreviation FilesCreate :: string where "FilesCreate \<equiv> ''files.create''"
abbreviation FilesModify :: string where "FilesModify \<equiv> ''files.modify''"
abbreviation FilesRename :: string where "FilesRename \<equiv> ''files.rename''"
abbreviation FilesMove :: string where "FilesMove \<equiv> ''files.move''"
abbreviation FilesDelete :: string where "FilesDelete \<equiv> ''files.delete''"
abbreviation FilesPurge :: string where "FilesPurge \<equiv> ''files.purge''"
abbreviation FilesEncrypt :: string where "FilesEncrypt \<equiv> ''files.encrypt''"
abbreviation FilesTag :: string where "FilesTag \<equiv> ''files.tag''"
abbreviation ShareLinks :: string where "ShareLinks \<equiv> ''share.links''"
abbreviation ShareUploadLinks :: string where "ShareUploadLinks \<equiv> ''share.upload_links''"
abbreviation ShareUsers :: string where "ShareUsers \<equiv> ''share.users''"
abbreviation CommentsWrite :: string where "CommentsWrite \<equiv> ''comments.write''"
abbreviation AIUse :: string where "AIUse \<equiv> ''ai.use''"
abbreviation AIAssistant :: string where "AIAssistant \<equiv> ''ai.assistant''"
abbreviation PluginsRun :: string where "PluginsRun \<equiv> ''plugins.run''"
abbreviation AccessWebDAV :: string where "AccessWebDAV \<equiv> ''access.webdav''"
abbreviation AccessSFTP :: string where "AccessSFTP \<equiv> ''access.sftp''"
abbreviation AccessFTP :: string where "AccessFTP \<equiv> ''access.ftp''"
abbreviation AccessS3 :: string where "AccessS3 \<equiv> ''access.s3''"
abbreviation AccessNFS :: string where "AccessNFS \<equiv> ''access.nfs''"
abbreviation AccessAPI :: string where "AccessAPI \<equiv> ''access.api''"
abbreviation AccessDesktop :: string where "AccessDesktop \<equiv> ''access.desktop''"
abbreviation AccountEdit :: string where "AccountEdit \<equiv> ''account.edit''"
abbreviation AdminUsers :: string where "AdminUsers \<equiv> ''admin.users''"
abbreviation AdminGrants :: string where "AdminGrants \<equiv> ''admin.grants''"
abbreviation AdminShares :: string where "AdminShares \<equiv> ''admin.shares''"
abbreviation AdminAudit :: string where "AdminAudit \<equiv> ''admin.audit''"
abbreviation AdminMonitor :: string where "AdminMonitor \<equiv> ''admin.monitor''"
abbreviation AdminFull :: string where "AdminFull \<equiv> ''admin.full''"

datatype perm_group = GroupFiles | GroupSharing | GroupAccess | GroupAccount | GroupAdmin

record perm_def =
  def_key :: string
  def_group :: perm_group
  def_role_only :: bool
  def_viewer_capped :: bool

definition plain_def :: "string \<Rightarrow> perm_group \<Rightarrow> perm_def" where
  "plain_def k g = \<lparr>def_key = k, def_group = g, def_role_only = False, def_viewer_capped = False\<rparr>"

definition capped_def :: "string \<Rightarrow> perm_group \<Rightarrow> perm_def" where
  "capped_def k g = \<lparr>def_key = k, def_group = g, def_role_only = False, def_viewer_capped = True\<rparr>"

definition role_only_def :: "string \<Rightarrow> perm_group \<Rightarrow> perm_def" where
  "role_only_def k g = \<lparr>def_key = k, def_group = g, def_role_only = True, def_viewer_capped = False\<rparr>"

definition catalogue :: "perm_def list" where
  "catalogue =
    [plain_def FilesDownload GroupFiles,
     capped_def FilesCreate GroupFiles,
     capped_def FilesModify GroupFiles,
     capped_def FilesRename GroupFiles,
     capped_def FilesMove GroupFiles,
     capped_def FilesDelete GroupFiles,
     capped_def FilesPurge GroupFiles,
     capped_def FilesEncrypt GroupFiles,
     plain_def FilesTag GroupFiles,
     capped_def ShareLinks GroupSharing,
     capped_def ShareUploadLinks GroupSharing,
     capped_def ShareUsers GroupSharing,
     plain_def CommentsWrite GroupSharing,
     plain_def AIUse GroupSharing,
     plain_def AIAssistant GroupSharing,
     plain_def PluginsRun GroupSharing,
     plain_def AccessWebDAV GroupAccess,
     plain_def AccessSFTP GroupAccess,
     plain_def AccessFTP GroupAccess,
     plain_def AccessS3 GroupAccess,
     plain_def AccessNFS GroupAccess,
     plain_def AccessAPI GroupAccess,
     plain_def AccessDesktop GroupAccess,
     plain_def AccountEdit GroupAccount,
     plain_def AdminUsers GroupAdmin,
     plain_def AdminGrants GroupAdmin,
     plain_def AdminShares GroupAdmin,
     plain_def AdminAudit GroupAdmin,
     plain_def AdminMonitor GroupAdmin,
     role_only_def AdminFull GroupAdmin]"

fun pos_of :: "'a \<Rightarrow> 'a list \<Rightarrow> nat option" where
  "pos_of k [] = None"
| "pos_of k (x # xs) = (if x = k then Some 0 else map_option Suc (pos_of k xs))"

definition perm_index :: "string \<Rightarrow> nat option" where
  "perm_index k = pos_of k (map def_key catalogue)"

definition lookup_def :: "string \<Rightarrow> perm_def option" where
  "lookup_def k = (case perm_index k of None \<Rightarrow> None | Some i \<Rightarrow> Some (catalogue ! i))"

definition known :: "string \<Rightarrow> bool" where
  "known k \<longleftrightarrow> perm_index k \<noteq> None"

section \<open>Sets as bits\<close>

type_synonym perm_set = "64 word"

definition set_has :: "perm_set \<Rightarrow> string \<Rightarrow> bool" where
  "set_has s p = (case perm_index p of None \<Rightarrow> False | Some i \<Rightarrow> s AND push_bit i 1 \<noteq> 0)"

definition set_with :: "perm_set \<Rightarrow> string \<Rightarrow> perm_set" where
  "set_with s p = (case perm_index p of None \<Rightarrow> s | Some i \<Rightarrow> s OR push_bit i 1)"

definition set_without :: "perm_set \<Rightarrow> string \<Rightarrow> perm_set" where
  "set_without s p = (case perm_index p of None \<Rightarrow> s | Some i \<Rightarrow> s AND NOT (push_bit i 1))"

definition set_of_perms :: "string list \<Rightarrow> perm_set" where
  "set_of_perms ps = foldl set_with 0 ps"

definition set_keys :: "perm_set \<Rightarrow> string list" where
  "set_keys s = map (\<lambda>(i, d). def_key d)
     (filter (\<lambda>(i, d). s AND push_bit i 1 \<noteq> 0) (enumerate 0 catalogue))"

definition all_set :: perm_set where
  "all_set = foldl (\<lambda>s d. set_with s (def_key d)) 0 catalogue"

definition filter_set :: "(perm_def \<Rightarrow> bool) \<Rightarrow> perm_set" where
  "filter_set keep = foldl (\<lambda>s d. if keep d then set_with s (def_key d) else s) 0 catalogue"

definition viewer_ceiling :: perm_set where
  "viewer_ceiling = filter_set (\<lambda>d. \<not> def_viewer_capped d \<and> \<not> def_role_only d)"

definition Standard :: perm_set where
  "Standard = filter_set (\<lambda>d. def_group d \<noteq> GroupAdmin)"

definition ReadOnly :: perm_set where
  "ReadOnly = Standard AND viewer_ceiling"

definition UploadOnly :: perm_set where
  "UploadOnly = set_of_perms [FilesCreate, FilesEncrypt, AccountEdit, AIAssistant]"

definition Guest :: perm_set where
  "Guest = set_of_perms [FilesDownload, AIAssistant]"

definition presets :: "(string \<times> perm_set) list" where
  "presets = [(''full_admin'', all_set), (''standard'', Standard), (''read_only'', ReadOnly),
              (''upload_only'', UploadOnly), (''guest'', Guest)]"

definition match_preset :: "perm_set \<Rightarrow> string" where
  "match_preset s = (case find (\<lambda>(n, t). t = s) presets of Some (n, _) \<Rightarrow> n | None \<Rightarrow> [])"

section \<open>Relocation\<close>

definition split_rel :: "string \<Rightarrow> string \<times> string" where
  "split_rel rel = (let r = clean_slash rel in (path_dir (slash # r), path_base (slash # r)))"

definition relocate_needs :: "int \<Rightarrow> string \<Rightarrow> int \<Rightarrow> string \<Rightarrow> string list" where
  "relocate_needs src_storage src dst_storage dst =
     (let (s_dir, s_name) = split_rel src; (d_dir, d_name) = split_rel dst;
          out = (if src_storage \<noteq> dst_storage \<or> s_dir \<noteq> d_dir then [FilesMove] else [])
      in if s_name \<noteq> d_name \<or> out = [] then out @ [FilesRename] else out)"

section \<open>The catalogue's order\<close>

lemma pos_of_Some: "pos_of k xs = Some i \<Longrightarrow> i < length xs \<and> xs ! i = k"
  by (induction xs arbitrary: i) (auto split: if_splits)

lemma pos_of_None: "pos_of k xs = None \<longleftrightarrow> k \<notin> set xs"
  by (induction xs) auto

lemma pos_of_nth: "distinct xs \<Longrightarrow> i < length xs \<Longrightarrow> pos_of (xs ! i) xs = Some i"
proof (induction xs arbitrary: i)
  case (Cons x xs)
  then show ?case by (cases i) (auto dest: nth_mem)
qed simp

lemma catalogue_length [simp]: "length catalogue = 30"
  by (simp add: catalogue_def)

lemma catalogue_distinct: "distinct (map def_key catalogue)"
  by code_simp

lemma perm_index_Some: "perm_index k = Some i \<Longrightarrow> i < 30 \<and> def_key (catalogue ! i) = k"
  using pos_of_Some [of k "map def_key catalogue" i] by (auto simp: perm_index_def)

lemma perm_index_inj: "perm_index k = Some i \<Longrightarrow> perm_index k' = Some i \<Longrightarrow> k = k'"
  using perm_index_Some by metis

lemma perm_index_key: "i < 30 \<Longrightarrow> perm_index (def_key (catalogue ! i)) = Some i"
  using pos_of_nth [OF catalogue_distinct, of i] by (simp add: perm_index_def)

lemma known_iff: "known k \<longleftrightarrow> k \<in> def_key ` set catalogue"
  by (simp add: known_def perm_index_def pos_of_None)

lemma lookup_def_Some: "lookup_def k = Some d \<longleftrightarrow> d \<in> set catalogue \<and> def_key d = k"
proof
  assume "lookup_def k = Some d"
  then show "d \<in> set catalogue \<and> def_key d = k"
    using perm_index_Some by (auto simp: lookup_def_def split: option.splits)
next
  assume "d \<in> set catalogue \<and> def_key d = k"
  then obtain i where "i < 30" "catalogue ! i = d" "def_key d = k"
    by (auto simp: in_set_conv_nth)
  then show "lookup_def k = Some d" using perm_index_key [of i] by (auto simp: lookup_def_def)
qed

section \<open>The bit set is a set\<close>

lemma set_has_bit: "set_has s p \<longleftrightarrow> (\<exists>i. perm_index p = Some i \<and> bit s i)"
proof -
  have "s AND push_bit i 1 \<noteq> 0 \<longleftrightarrow> bit s i" if "i < 30" for i
    using that by (auto simp: and_exp_eq_0_iff_not_bit push_bit_eq_mult)
  then show ?thesis using perm_index_Some by (auto simp: set_has_def split: option.splits)
qed

lemma set_has_known: "set_has s p \<Longrightarrow> known p"
  by (auto simp: set_has_bit known_def)

lemma set_has_0 [simp]: "\<not> set_has 0 p"
  by (simp add: set_has_bit)

lemma bit_one_at: "i < 30 \<Longrightarrow> bit (push_bit i 1 :: perm_set) n \<longleftrightarrow> n = i"
  by (auto simp: bit_exp_iff)

lemma same_index: "perm_index p = Some i \<Longrightarrow> perm_index q = Some i \<longleftrightarrow> p = q"
  using perm_index_inj by auto

lemma set_has_with [simp]: "set_has (set_with s p) q \<longleftrightarrow> set_has s q \<or> known q \<and> p = q"
proof (cases "perm_index p")
  case None
  then show ?thesis by (auto simp: set_with_def known_def)
next
  case (Some i)
  then have "bit (set_with s p) n \<longleftrightarrow> bit s n \<or> n = i" for n
    using perm_index_Some bit_one_at [of i n] by (simp add: set_with_def bit_or_iff del: push_bit_of_1)
  then show ?thesis using same_index [OF Some, of q] Some by (auto simp: set_has_bit known_def)
qed

lemma set_has_without [simp]: "set_has (set_without s p) q \<longleftrightarrow> set_has s q \<and> p \<noteq> q"
proof (cases "perm_index p")
  case None
  then show ?thesis by (auto simp: set_without_def set_has_bit)
next
  case (Some i)
  have "bit (set_without s p) n \<longleftrightarrow> bit s n \<and> n \<noteq> i" if "n < 30" for n
    using Some that perm_index_Some [OF Some] bit_one_at [of i n]
    by (simp add: set_without_def bit_and_iff bit_not_iff possible_bit_word del: push_bit_of_1)
  then show ?thesis
    using same_index [OF Some, of q] Some perm_index_Some by (auto simp: set_has_bit)
qed

lemma set_has_and [simp]: "set_has (s AND t) q \<longleftrightarrow> set_has s q \<and> set_has t q"
  by (auto simp: set_has_bit bit_and_iff)

lemma set_has_foldl: "set_has (foldl set_with s ps) q \<longleftrightarrow> set_has s q \<or> known q \<and> q \<in> set ps"
  by (induction ps arbitrary: s) auto

lemma set_has_of_perms [simp]: "set_has (set_of_perms ps) q \<longleftrightarrow> known q \<and> q \<in> set ps"
  by (simp add: set_of_perms_def set_has_foldl)

lemma set_has_filter_foldl:
  "set_has (foldl (\<lambda>s d. if keep d then set_with s (def_key d) else s) s ds) q \<longleftrightarrow>
   set_has s q \<or> known q \<and> (\<exists>d \<in> set ds. keep d \<and> def_key d = q)"
  by (induction ds arbitrary: s) auto

lemma set_has_filter: "set_has (filter_set keep) q \<longleftrightarrow> (\<exists>d. lookup_def q = Some d \<and> keep d)"
  using lookup_def_Some by (auto simp: filter_set_def set_has_filter_foldl known_iff)

lemma all_set_filter: "all_set = filter_set (\<lambda>_. True)"
  by (simp add: all_set_def filter_set_def)

lemma set_has_all [simp]: "set_has all_set q \<longleftrightarrow> known q"
  unfolding all_set_filter set_has_filter by (auto simp: known_def lookup_def_def split: option.splits)

lemma set_has_keys: "q \<in> set (set_keys s) \<longleftrightarrow> set_has s q"
proof -
  have "q \<in> set (set_keys s) \<longleftrightarrow> (\<exists>i < 30. s AND push_bit i 1 \<noteq> 0 \<and> def_key (catalogue ! i) = q)"
    by (force simp: set_keys_def in_set_enumerate_eq image_iff)
  also have "\<dots> \<longleftrightarrow> set_has s q"
    using perm_index_key perm_index_Some by (auto simp: set_has_def split: option.splits)
  finally show ?thesis .
qed

lemma all_set_mask: "all_set = mask 30"
  by code_simp

lemma bit_all_set: "bit all_set i \<longleftrightarrow> i < 30"
  unfolding all_set_mask bit_mask_iff by (auto simp: possible_bit_word)

lemma set_has_at: "n < 30 \<Longrightarrow> set_has s (def_key (catalogue ! n)) \<longleftrightarrow> bit s n"
  by (simp add: set_has_bit perm_index_key)

lemma bit_set_with_low: "bit (set_with t p) n \<Longrightarrow> bit t n \<or> n < 30"
  using perm_index_Some bit_one_at
  by (cases "perm_index p") (auto simp: set_with_def bit_or_iff simp del: push_bit_of_1)

lemma bit_foldl_low: "bit (foldl set_with t ps) n \<Longrightarrow> bit t n \<or> n < 30"
  using bit_set_with_low by (induction ps arbitrary: t) fastforce+

text \<open>Two sets that hold the same permissions agree on the catalogue's bits.\<close>

lemma perm_set_ext: "(\<And>p. set_has s p \<longleftrightarrow> set_has t p) \<Longrightarrow> s AND all_set = t AND all_set"
proof (rule bit_eqI)
  fix n assume "\<And>p. set_has s p \<longleftrightarrow> set_has t p"
  then have "bit s n \<longleftrightarrow> bit t n" if "n < 30"
    using set_has_at [OF that] by metis
  then show "bit (s AND all_set) n \<longleftrightarrow> bit (t AND all_set) n"
    by (auto simp: bit_and_iff bit_all_set)
qed

text \<open>What is persisted of a set (its keys, as strings) reads back as the set restricted to the
  catalogue: nothing is lost, nothing is added, whatever the stray high bits.\<close>
theorem strings_roundtrip: "set_of_perms (set_keys s) = s AND all_set"
proof -
  have sub: "x AND all_set = x" if "\<And>n. bit x n \<Longrightarrow> n < 30" for x :: perm_set
    using that by (intro bit_eqI) (auto simp: bit_and_iff bit_all_set)
  have "bit (set_of_perms ps) n \<Longrightarrow> n < 30" for ps n
    using bit_foldl_low [of 0 ps n] by (simp add: set_of_perms_def)
  then have "set_of_perms (set_keys s) = set_of_perms (set_keys s) AND all_set" by (simp add: sub)
  also have "\<dots> = s AND all_set"
    by (rule perm_set_ext) (auto simp: set_has_keys dest: set_has_known)
  finally show ?thesis .
qed

end
