(* ===== verification/PermModel.thy ===== *)
theory PermModel
  imports Perm PathMatch
begin

text \<open>
  The data of a custom role (\<open>internal/model/permission.go\<close>), the folder part of a role
  (\<open>perm/conditions.go\<close>), what a role's holders are (\<open>perm/roles.go\<close>), the role an
  account gets through its groups (\<open>perm/groups.go\<close>) and the keys a later version wrote
  (\<open>perm/foreign.go\<close>). A Go map that is only looked up is a partial map; one that is also
  iterated is an association list, in the order of that iteration.
\<close>

section \<open>Data\<close>

abbreviation RoleAdmin :: string where "RoleAdmin \<equiv> ''admin''"
abbreviation RoleUser :: string where "RoleUser \<equiv> ''user''"
abbreviation RoleViewer :: string where "RoleViewer \<equiv> ''viewer''"
abbreviation PermAllow :: string where "PermAllow \<equiv> ''allow''"
abbreviation PermDeny :: string where "PermDeny \<equiv> ''deny''"

definition valid_role :: "string \<Rightarrow> bool" where
  "valid_role name \<longleftrightarrow> name = RoleAdmin \<or> name = RoleUser \<or> name = RoleViewer"

definition valid_perm_effect :: "string \<Rightarrow> bool" where
  "valid_perm_effect s \<longleftrightarrow> s = PermAllow \<or> s = PermDeny"

record rule_settings =
  share_link_max_days :: "int option"
  share_link_password_required :: bool
  blocked_extensions :: "string list"
  max_upload_bytes :: "int option"
  require_2fa :: bool
  apps :: "string \<rightharpoonup> string"

definition no_settings :: rule_settings where
  "no_settings = \<lparr>share_link_max_days = None, share_link_password_required = False,
     blocked_extensions = [], max_upload_bytes = None, require_2fa = False, apps = Map.empty\<rparr>"

record rule_conditions =
  storage_ids :: "int list"
  cond_paths :: "string list"

definition cond_empty :: "rule_conditions \<Rightarrow> bool" where
  "cond_empty c \<longleftrightarrow> storage_ids c = [] \<and> cond_paths c = []"

record rule_target =
  target_kind :: string
  target_value :: string

record permission_rule =
  rule_id :: int
  rule_name :: string
  rule_enabled :: bool
  rule_permissions :: "string list"
  rule_provider :: "int option"
  rule_targets :: "rule_target list"
  rule_effects :: "(string \<times> string) list"
  rule_settings :: rule_settings
  rule_conditions :: rule_conditions

record group =
  group_id :: int
  group_name :: string
  group_provider :: "int option"
  group_role :: "int option"
  group_priority :: int

section \<open>Conditions\<close>

definition conditionable_set :: perm_set where
  "conditionable_set = set_of_perms [FilesDownload, FilesCreate, FilesModify, FilesRename, FilesMove,
     FilesDelete, FilesPurge, FilesEncrypt, ShareLinks, ShareUploadLinks]"

definition conditionable :: "string \<Rightarrow> bool" where
  "conditionable p \<longleftrightarrow> set_has conditionable_set p"

definition split_segs :: "string \<Rightarrow> string list" where
  "split_segs s = (let t = trim_slash s in if t = [] then [] else split_on slash t)"

fun match_segs :: "string list \<Rightarrow> string list \<Rightarrow> bool" where
  "match_segs [] segs = (segs = [])"
| "match_segs (p # ps) segs =
     (if p = ''**'' then list_ex (\<lambda>i. match_segs ps (drop i segs)) [0 ..< Suc (length segs)]
      else case segs of
             [] \<Rightarrow> False
           | s # ss \<Rightarrow> path_match p s = Some True \<and> match_segs ps ss)"

definition path_pattern_match :: "string \<Rightarrow> string \<Rightarrow> bool" where
  "path_pattern_match pattern rel =
     (let pat = split_segs pattern; segs = split_segs rel
      in list_ex (\<lambda>n. match_segs pat (take n segs)) (rev [0 ..< Suc (length segs)]))"

definition conditions_match :: "rule_conditions \<Rightarrow> int \<Rightarrow> string \<Rightarrow> bool" where
  "conditions_match c storage_id rel =
     (if storage_ids c \<noteq> [] \<and> storage_id \<notin> set (storage_ids c) then False
      else if cond_paths c = [] then True
      else list_ex (\<lambda>p. path_pattern_match p (clean_slash rel)) (cond_paths c))"

datatype invalid =
    BadStorageID int
  | BadSegment string
  | BadPattern string
  | NotByFolder string
  | UnknownPermission string
  | RoleOnlyPermission string
  | BadEffect string
  | NotAppKey string

fun norm_ids :: "int list \<Rightarrow> int list \<Rightarrow> invalid + int list" where
  "norm_ids acc [] = Inr (rev acc)"
| "norm_ids acc (i # is) =
     (if i \<le> 0 then Inl (BadStorageID i)
      else norm_ids (if i \<in> set acc then acc else i # acc) is)"

definition check_seg :: "string \<Rightarrow> string \<Rightarrow> invalid option" where
  "check_seg p seg =
     (if seg = [] \<or> seg = ''.'' \<or> seg = ''..'' then Some (BadSegment p)
      else if seg = ''**'' then None
      else if path_match seg [] = None then Some (BadPattern p) else None)"

fun first_bad :: "(string \<Rightarrow> invalid option) \<Rightarrow> string list \<Rightarrow> invalid option" where
  "first_bad f [] = None"
| "first_bad f (x # xs) = (case f x of Some e \<Rightarrow> Some e | None \<Rightarrow> first_bad f xs)"

definition norm_pattern :: "string \<Rightarrow> string" where
  "norm_pattern p = trim_slash (trim_space (map (\<lambda>c. if c = CHR 0x5C then slash else c) p))"

fun norm_paths :: "string list \<Rightarrow> string list \<Rightarrow> invalid + string list" where
  "norm_paths acc [] = Inr (rev acc)"
| "norm_paths acc (p0 # ps) =
     (let p = norm_pattern p0 in
      if p = [] then norm_paths acc ps
      else case first_bad (check_seg p) (split_on slash p) of
             Some e \<Rightarrow> Inl e
           | None \<Rightarrow> norm_paths (if p \<in> set acc then acc else p # acc) ps)"

definition normalize_conditions :: "permission_rule \<Rightarrow> invalid + permission_rule" where
  "normalize_conditions r =
     (case norm_ids [] (storage_ids (rule_conditions r)) of
        Inl e \<Rightarrow> Inl e
      | Inr ids \<Rightarrow>
        (case norm_paths [] (cond_paths (rule_conditions r)) of
           Inl e \<Rightarrow> Inl e
         | Inr paths \<Rightarrow>
           let c = \<lparr>storage_ids = ids, cond_paths = paths\<rparr>; r' = r\<lparr>rule_conditions := c\<rparr> in
           if cond_empty c then Inr r'
           else case find (\<lambda>k. \<not> conditionable k) (map fst (rule_effects r)) of
                  Some k \<Rightarrow> Inl (NotByFolder k)
                | None \<Rightarrow> Inr r'))"

section \<open>What a role is\<close>

definition viewer_capped_set :: perm_set where
  "viewer_capped_set = filter_set def_viewer_capped"

definition role_set :: "permission_rule option \<Rightarrow> perm_set" where
  "role_set r = (case r of None \<Rightarrow> 0
     | Some r \<Rightarrow> set_without (set_of_perms (rule_permissions r)) AdminFull)"

definition holder_role :: "permission_rule option \<Rightarrow> perm_set \<Rightarrow> string" where
  "holder_role r s =
     (if s AND viewer_capped_set \<noteq> 0 then RoleUser
      else case r of
             None \<Rightarrow> RoleViewer
           | Some r \<Rightarrow>
             if \<not> cond_empty (rule_conditions r) \<and>
                list_ex (\<lambda>(k, eff). case lookup_def k of
                    None \<Rightarrow> False | Some d \<Rightarrow> eff = PermAllow \<and> def_viewer_capped d) (rule_effects r)
             then RoleUser else RoleViewer)"

definition role_holder :: "permission_rule option \<Rightarrow> string" where
  "role_holder r = holder_role r (role_set r)"

definition preview_holder_role :: "permission_rule \<Rightarrow> string" where
  "preview_holder_role r =
     role_holder (Some (case normalize_conditions r of Inr r' \<Rightarrow> r' | Inl _ \<Rightarrow> r))"

definition in_scope :: "permission_rule \<Rightarrow> int option \<Rightarrow> bool" where
  "in_scope r provider \<longleftrightarrow> rule_provider r = None \<or> provider \<noteq> None \<and> provider = rule_provider r"

definition rule_applies :: "permission_rule option \<Rightarrow> int \<Rightarrow> int option \<Rightarrow> bool" where
  "rule_applies r custom_role_id provider =
     (case r of
        None \<Rightarrow> False
      | Some r \<Rightarrow> if \<not> rule_enabled r \<or> custom_role_id = 0 \<or> rule_id r \<noteq> custom_role_id then False
                  else in_scope r provider)"

definition starting_role ::
  "permission_rule option list \<Rightarrow> string list \<Rightarrow> int option \<Rightarrow> permission_rule option" where
  "starting_role rules groups provider =
     (case find (\<lambda>r. case r of None \<Rightarrow> False
            | Some r \<Rightarrow> rule_enabled r \<and> in_scope r provider \<and>
                list_ex (\<lambda>t. target_kind t = ''sso_group'' \<and> target_value t \<in> set groups) (rule_targets r))
          rules of None \<Rightarrow> None | Some r \<Rightarrow> r)"

section \<open>Groups\<close>

definition group_before :: "group \<Rightarrow> group \<Rightarrow> bool" where
  "group_before a b =
     (if group_priority a \<noteq> group_priority b then group_priority a > group_priority b
      else group_id a < group_id b)"

definition group_in_scope :: "group \<Rightarrow> int option \<Rightarrow> bool" where
  "group_in_scope g provider \<longleftrightarrow> group_provider g = None \<or> provider \<noteq> None \<and> provider = group_provider g"

text \<open>\<open>byID\<close>: a later rule of the same id replaces an earlier one, as the map write does.\<close>

definition by_id :: "permission_rule option list \<Rightarrow> int \<Rightarrow> permission_rule option" where
  "by_id rules i = foldl (\<lambda>acc r. case r of None \<Rightarrow> acc | Some r \<Rightarrow> if rule_id r = i then Some r else acc)
     None rules"

fun pick_role :: "(int \<Rightarrow> permission_rule option) \<Rightarrow> int option \<Rightarrow> group option \<Rightarrow> group list
    \<Rightarrow> int \<times> group option" where
  "pick_role lookup provider off [] =
     (case off of
        None \<Rightarrow> (0, None)
      | Some g \<Rightarrow> (case group_role g of None \<Rightarrow> 0 | Some i \<Rightarrow> i, Some g))"
| "pick_role lookup provider off (g # gs) =
     (case lookup (case group_role g of None \<Rightarrow> 0 | Some i \<Rightarrow> i) of
        None \<Rightarrow> pick_role lookup provider off gs
      | Some r \<Rightarrow>
        if \<not> in_scope r provider then pick_role lookup provider off gs
        else if rule_enabled r then (rule_id r, Some g)
        else pick_role lookup provider (if off = None then Some g else off) gs)"

definition candidates :: "group option list \<Rightarrow> int option \<Rightarrow> group list" where
  "candidates groups provider =
     stable_sort group_before
       (filter (\<lambda>g. group_role g \<noteq> None \<and> group_role g \<noteq> Some 0 \<and> group_in_scope g provider)
         (List.map_filter id groups))"

definition effective_role ::
  "int \<Rightarrow> group option list \<Rightarrow> permission_rule option list \<Rightarrow> int option \<Rightarrow> int \<times> group option" where
  "effective_role own groups rules provider =
     (if own \<noteq> 0 then (own, None)
      else pick_role (by_id rules) provider None (candidates groups provider))"

definition level_under_groups :: "string \<Rightarrow> permission_rule option \<Rightarrow> string \<Rightarrow> string" where
  "level_under_groups current by_groups kept =
     (case by_groups of
        Some r \<Rightarrow> role_holder (Some r)
      | None \<Rightarrow> if kept \<noteq> [] \<and> kept \<noteq> RoleAdmin \<and> valid_role kept then kept else current)"

section \<open>Keys this version does not know\<close>

definition app_key_char :: "char \<Rightarrow> bool" where
  "app_key_char c \<longleftrightarrow> (let n = (of_char c :: nat) in 97 \<le> n \<and> n \<le> 122 \<or> 48 \<le> n \<and> n \<le> 57)"

definition app_key_part :: "string \<Rightarrow> bool" where
  "app_key_part s \<longleftrightarrow> 1 \<le> length s \<and> length s \<le> 64 \<and> app_key_char (hd s) \<and>
     list_all (\<lambda>c. app_key_char c \<or> c = CHR ''_'' \<or> c = CHR ''-'') (tl s)"

text \<open>\<open>appKeyRE\<close>: no part can hold a dot, so the dots split the key.\<close>

definition is_app_key :: "string \<Rightarrow> bool" where
  "is_app_key k \<longleftrightarrow> (case split_on (CHR ''.'') k of
     [a, p, i] \<Rightarrow> a = ''app'' \<and> app_key_part p \<and> app_key_part i | _ \<Rightarrow> False)"

definition foreign :: "string \<Rightarrow> bool" where
  "foreign k \<longleftrightarrow> (if is_app_key k then False else lookup_def k = None)"

definition foreign_keys :: "string list \<Rightarrow> string list" where
  "foreign_keys l = foldl (\<lambda>out k. if foreign k \<and> k \<notin> set out then out @ [k] else out) [] l"

definition foreign_effects :: "(string \<times> string) list \<Rightarrow> (string \<times> string) list" where
  "foreign_effects m = filter (\<lambda>(k, v). foreign k) m"

definition without_foreign :: "(string \<times> string) list \<Rightarrow> (string \<times> string) list" where
  "without_foreign m = filter (\<lambda>(k, v). \<not> foreign k) m"

definition put_entry :: "(string \<times> string) list \<Rightarrow> string \<Rightarrow> string \<Rightarrow> (string \<times> string) list" where
  "put_entry m k v = (k, v) # filter (\<lambda>(k', _). k' \<noteq> k) m"

definition keep_foreign_effects ::
  "(string \<times> string) list \<Rightarrow> (string \<times> string) list \<Rightarrow> (string \<times> string) list" where
  "keep_foreign_effects m stored = foldl (\<lambda>m (k, v). put_entry m k v) m (foreign_effects stored)"

text \<open>\<open>validateEffects\<close>, over the keys in sorted order (the caller sorts; any order finds an
  error exactly when there is one).\<close>

fun validate_effects :: "(string \<Rightarrow> bool) option \<Rightarrow> (string \<times> string) list \<Rightarrow> invalid option" where
  "validate_effects kept [] = None"
| "validate_effects kept ((k, v) # m) =
     (if is_app_key k then
        (if \<not> valid_perm_effect v then Some (BadEffect k) else validate_effects kept m)
      else case lookup_def k of
        None \<Rightarrow>
          (case kept of
             Some f \<Rightarrow> if f k then validate_effects kept m else Some (UnknownPermission k)
           | None \<Rightarrow> Some (UnknownPermission k))
      | Some d \<Rightarrow>
          if def_role_only d then Some (RoleOnlyPermission k)
          else if \<not> valid_perm_effect v then Some (BadEffect k)
          else validate_effects kept m)"

definition validate_effects_edit ::
  "(string \<times> string) list \<Rightarrow> (string \<times> string) list \<Rightarrow> invalid option" where
  "validate_effects_edit m stored = validate_effects (Some (\<lambda>k. map_of stored k \<noteq> None)) m"

end
