(* ===== verification/PermResolve.thy ===== *)
theory PermResolve
  imports PermModel
begin

text \<open>
  \<open>perm/resolve.go\<close> and the decision part of \<open>perm/app.go\<close>: the layers that decide one
  account's permissions (built-in role, custom role, the person's own exceptions, the two
  hard lines), the answer for one path of one storage, and what an app permission answers.
  A \<open>nil\<close> \<open>*Result\<close> is \<open>None\<close>.
\<close>

section \<open>Where an answer came from\<close>

datatype source_kind = SrcNone | SrcRole | SrcBase | SrcRule | SrcOverride | SrcViewerCeiling
  | SrcRoleOff | SrcAppDefault

record source =
  src_kind :: source_kind
  src_rule_id :: int
  src_rule_name :: string
  src_group_id :: int
  src_group_name :: string

definition mk_source :: "source_kind \<Rightarrow> source" where
  "mk_source k = \<lparr>src_kind = k, src_rule_id = 0, src_rule_name = [], src_group_id = 0, src_group_name = []\<rparr>"

definition rule_source :: "source_kind \<Rightarrow> permission_rule \<Rightarrow> source" where
  "rule_source k r = (mk_source k)\<lparr>src_rule_id := rule_id r, src_rule_name := rule_name r\<rparr>"

record group_ref =
  ref_id :: int
  ref_name :: string

record perm_input =
  in_role :: string
  in_provider :: "int option"
  in_custom_role_id :: int
  in_via_group :: "group_ref option"
  in_defaults :: perm_set
  in_viewer_base :: "perm_set option"
  in_rules :: "permission_rule option list"
  in_overrides :: "string \<rightharpoonup> string"
  in_app_decisions :: "string \<rightharpoonup> string"

record rule_hit =
  hit_allow :: "permission_rule option"
  hit_deny :: "permission_rule option"

record perm_result =
  res_allowed :: perm_set
  res_sources :: "string \<Rightarrow> source"
  res_settings :: rule_settings
  res_rules :: "int list"
  res_via_group :: "group_ref option"
  res_role :: string
  res_admin :: bool
  res_base :: perm_set
  res_base_src :: source
  res_overrides :: "string \<rightharpoonup> string"
  res_hits :: "string \<rightharpoonup> rule_hit"
  res_conditional :: "permission_rule list"
  res_custom_role :: "permission_rule option"
  res_builtin_apps :: "string \<rightharpoonup> string"

section \<open>Resolving\<close>

definition decide ::
  "perm_def \<Rightarrow> perm_set \<Rightarrow> source \<Rightarrow> rule_hit option \<Rightarrow> (string \<rightharpoonup> string) \<Rightarrow> string \<Rightarrow> bool \<times> source" where
  "decide d base base_src h overrides role =
     (let p = def_key d;
          a0 = (set_has base p, base_src);
          a1 = (case h of
                  None \<Rightarrow> a0
                | Some h \<Rightarrow>
                  (case hit_deny h of
                     Some r \<Rightarrow> (False, rule_source SrcRule r)
                   | None \<Rightarrow>
                     (case hit_allow h of
                        Some r \<Rightarrow> (True, rule_source SrcRule r)
                      | None \<Rightarrow> a0)));
          a2 = (case overrides p of
                  None \<Rightarrow> a1
                | Some eff \<Rightarrow>
                  if def_role_only d then a1
                  else if eff = PermAllow then (True, mk_source SrcOverride)
                  else if eff = PermDeny then (False, mk_source SrcOverride)
                  else a1);
          a3 = (if def_role_only d then (False, mk_source SrcRole) else a2)
      in if fst a3 \<and> role = RoleViewer \<and> def_viewer_capped d
         then (False, mk_source SrcViewerCeiling) else a3)"

definition via_group :: "group_ref option \<Rightarrow> source \<Rightarrow> source" where
  "via_group g src =
     (case g of
        Some g \<Rightarrow> if src_kind src = SrcRule \<or> src_kind src = SrcRoleOff
                  then src\<lparr>src_group_id := ref_id g, src_group_name := ref_name g\<rparr> else src
      | None \<Rightarrow> src)"

definition min_opt :: "int option \<Rightarrow> int option \<Rightarrow> int option" where
  "min_opt dst src = (case src of
      None \<Rightarrow> dst
    | Some s \<Rightarrow> (case dst of None \<Rightarrow> Some s | Some d \<Rightarrow> if s < d then Some s else Some d))"

definition merge_settings :: "rule_settings \<Rightarrow> rule_settings \<Rightarrow> rule_settings" where
  "merge_settings dst src =
     \<lparr>share_link_max_days = min_opt (share_link_max_days dst) (share_link_max_days src),
      share_link_password_required = (share_link_password_required dst \<or> share_link_password_required src),
      blocked_extensions = foldl (\<lambda>l e. if e \<in> set l then l else l @ [e])
        (blocked_extensions dst) (blocked_extensions src),
      max_upload_bytes = min_opt (max_upload_bytes dst) (max_upload_bytes src),
      require_2fa = (require_2fa dst \<or> require_2fa src),
      apps = (\<lambda>k. case apps src k of
                None \<Rightarrow> apps dst k
              | Some eff \<Rightarrow> (case apps dst k of
                    Some cur \<Rightarrow> if cur \<noteq> PermDeny then Some eff else Some cur
                  | None \<Rightarrow> Some eff))\<rparr>"

definition held_role :: "perm_input \<Rightarrow> permission_rule option" where
  "held_role inp =
     (case find (\<lambda>r. case r of None \<Rightarrow> False
            | Some r \<Rightarrow> in_custom_role_id inp \<noteq> 0 \<and> rule_id r = in_custom_role_id inp) (in_rules inp) of
        None \<Rightarrow> None | Some r \<Rightarrow> r)"

definition builtin_base :: "perm_input \<Rightarrow> perm_set" where
  "builtin_base inp =
     (let viewer_base = (case in_viewer_base inp of None \<Rightarrow> ReadOnly | Some b \<Rightarrow> b AND viewer_ceiling)
      in if in_role inp = RoleUser then in_defaults inp
         else if in_role inp = RoleViewer then viewer_base else 0)"

definition resolve :: "perm_input \<Rightarrow> perm_result" where
  "resolve inp =
     (let res = \<lparr>res_allowed = 0, res_sources = (\<lambda>_. mk_source SrcNone), res_settings = no_settings,
            res_rules = [], res_via_group = in_via_group inp, res_role = in_role inp, res_admin = False,
            res_base = 0, res_base_src = mk_source SrcNone, res_overrides = Map.empty,
            res_hits = Map.empty, res_conditional = [], res_custom_role = None,
            res_builtin_apps = Map.empty\<rparr>
      in if in_role inp = RoleAdmin then
           res\<lparr>res_admin := True, res_allowed := all_set,
               res_sources := (\<lambda>p. if known p then mk_source SrcRole else mk_source SrcNone)\<rparr>
         else
           let (base, base_src, res1) =
             (case held_role inp of
                None \<Rightarrow> (builtin_base inp, mk_source SrcBase, res)
              | Some r \<Rightarrow>
                if \<not> rule_enabled r \<or> \<not> in_scope r (in_provider inp) then (0, rule_source SrcRoleOff r, res)
                else (role_set (Some r), rule_source SrcRule r,
                      res\<lparr>res_custom_role := Some r,
                          res_rules := [rule_id r],
                          res_settings := merge_settings no_settings (rule_settings r),
                          res_conditional :=
                            (if \<not> cond_empty (rule_conditions r) \<and> rule_effects r \<noteq> [] then [r] else [])\<rparr>));
             res2 = res1\<lparr>res_base := base, res_base_src := base_src,
                         res_overrides := in_overrides inp, res_hits := Map.empty,
                         res_builtin_apps := in_app_decisions inp\<rparr>;
             answer = (\<lambda>d. decide d base base_src None (in_overrides inp) (in_role inp))
           in res2\<lparr>res_allowed :=
                     foldl (\<lambda>s d. if fst (answer d) then set_with s (def_key d) else s) 0 catalogue,
                   res_sources := (\<lambda>p. case lookup_def p of
                       None \<Rightarrow> mk_source SrcNone
                     | Some d \<Rightarrow> via_group (in_via_group inp) (snd (answer d)))\<rparr>)"

definition can :: "perm_result option \<Rightarrow> string \<Rightarrow> bool" where
  "can r p \<longleftrightarrow> (case r of None \<Rightarrow> False | Some r \<Rightarrow> set_has (res_allowed r) p)"

definition why :: "perm_result option \<Rightarrow> string \<Rightarrow> source" where
  "why r p = (case r of None \<Rightarrow> mk_source SrcNone | Some r \<Rightarrow> res_sources r p)"

section \<open>One path\<close>

definition add_hit :: "int \<Rightarrow> string \<Rightarrow> string \<Rightarrow> bool \<times> rule_hit \<Rightarrow> permission_rule \<Rightarrow> bool \<times> rule_hit" where
  "add_hit storage_id rel p acc c =
     (case map_of (rule_effects c) p of
        None \<Rightarrow> acc
      | Some eff \<Rightarrow>
        if \<not> conditions_match (rule_conditions c) storage_id rel then acc
        else let h = snd acc in
          (True,
           if eff = PermDeny then (if hit_deny h = None then h\<lparr>hit_deny := Some c\<rparr> else h)
           else if eff = PermAllow then (if hit_allow h = None then h\<lparr>hit_allow := Some c\<rparr> else h)
           else h))"

definition decide_at :: "perm_result option \<Rightarrow> int \<Rightarrow> string \<Rightarrow> string \<Rightarrow> bool \<times> source" where
  "decide_at r storage_id rel p =
     (case r of
        None \<Rightarrow> (False, mk_source SrcNone)
      | Some r \<Rightarrow>
        if res_admin r \<or> res_conditional r = [] \<or> \<not> conditionable p then (can (Some r) p, why (Some r) p)
        else
          let h0 = (case res_hits r p of None \<Rightarrow> \<lparr>hit_allow = None, hit_deny = None\<rparr> | Some h \<Rightarrow> h);
              (matched, h) = foldl (add_hit storage_id rel p) (False, h0) (res_conditional r)
          in if \<not> matched then (can (Some r) p, why (Some r) p)
             else case lookup_def p of
               None \<Rightarrow> (False, mk_source SrcNone)
             | Some d \<Rightarrow>
               let (ok, src) = decide d (res_base r) (res_base_src r) (Some h) (res_overrides r) (res_role r)
               in (ok, via_group (res_via_group r) src))"

definition can_at :: "perm_result option \<Rightarrow> int \<Rightarrow> string \<Rightarrow> string \<Rightarrow> bool" where
  "can_at r storage_id rel p = fst (decide_at r storage_id rel p)"

definition why_at :: "perm_result option \<Rightarrow> int \<Rightarrow> string \<Rightarrow> string \<Rightarrow> source" where
  "why_at r storage_id rel p = snd (decide_at r storage_id rel p)"

definition conditional_rules :: "perm_result option \<Rightarrow> int list" where
  "conditional_rules r = (case r of None \<Rightarrow> [] | Some r \<Rightarrow> map rule_id (res_conditional r))"

definition allowed_in_folders :: "perm_result option \<Rightarrow> perm_set" where
  "allowed_in_folders r =
     (case r of
        None \<Rightarrow> 0
      | Some r \<Rightarrow>
        if res_admin r then 0
        else foldl (\<lambda>out c. foldl (\<lambda>out (k, eff).
            case lookup_def k of
              None \<Rightarrow> out
            | Some d \<Rightarrow>
              if eff \<noteq> PermAllow \<or> set_has (res_allowed r) k \<or> def_role_only d then out
              else if res_overrides r k = Some PermDeny \<or> res_role r = RoleViewer \<and> def_viewer_capped d then out
              else set_with out k) out (rule_effects c)) 0 (res_conditional r))"

definition varies_by_folder :: "perm_result option \<Rightarrow> perm_set" where
  "varies_by_folder r =
     (case r of
        None \<Rightarrow> 0
      | Some r \<Rightarrow>
        if res_admin r then 0
        else foldl (\<lambda>out c. foldl (\<lambda>out (k, eff).
            case lookup_def k of
              None \<Rightarrow> out
            | Some d \<Rightarrow>
              if def_role_only d \<or> \<not> conditionable k then out
              else if res_overrides r k \<noteq> None then out
              else if res_role r = RoleViewer \<and> def_viewer_capped d then out
              else set_with out k) out (rule_effects c)) 0 (res_conditional r))"

section \<open>App permissions\<close>

datatype app_default = AppDefaultViewer | AppDefaultUser | AppDefaultAdmin

definition app_decide :: "perm_result option \<Rightarrow> string \<Rightarrow> app_default \<Rightarrow> bool \<Rightarrow> bool \<times> source" where
  "app_decide r key dflt with_exception =
     (case r of
        None \<Rightarrow> (False, mk_source SrcNone)
      | Some r \<Rightarrow>
        if res_admin r then (True, mk_source SrcRole)
        else if with_exception \<and> res_overrides r key = Some PermAllow then (True, mk_source SrcOverride)
        else if with_exception \<and> res_overrides r key = Some PermDeny then (False, mk_source SrcOverride)
        else case (case res_custom_role r of
                     None \<Rightarrow> None
                   | Some c \<Rightarrow>
                     if apps (rule_settings c) key = Some PermAllow then Some (True, rule_source SrcRule c)
                     else if apps (rule_settings c) key = Some PermDeny then Some (False, rule_source SrcRule c)
                     else None) of
               Some a \<Rightarrow> a
             | None \<Rightarrow>
               if res_builtin_apps r key = Some PermAllow then (True, mk_source SrcBase)
               else if res_builtin_apps r key = Some PermDeny then (False, mk_source SrcBase)
               else case dflt of
                 AppDefaultViewer \<Rightarrow> (res_role r = RoleUser \<or> res_role r = RoleViewer, mk_source SrcAppDefault)
               | AppDefaultUser \<Rightarrow> (res_role r = RoleUser, mk_source SrcAppDefault)
               | AppDefaultAdmin \<Rightarrow> (False, mk_source SrcAppDefault))"

definition app_allowed :: "perm_result option \<Rightarrow> string \<Rightarrow> app_default \<Rightarrow> bool \<times> source" where
  "app_allowed r key dflt = app_decide r key dflt True"

definition app_inherited :: "perm_result option \<Rightarrow> string \<Rightarrow> app_default \<Rightarrow> bool \<times> source" where
  "app_inherited r key dflt = app_decide r key dflt False"

section \<open>What the layers give\<close>

lemma decide_viewer [guard_simps]:
  "fst (decide d b bs h ov RoleViewer) \<Longrightarrow> \<not> def_viewer_capped d"
  by (auto simp: decide_def Let_def split: if_splits)

lemma decide_role_only [guard_simps]: "def_role_only d \<Longrightarrow> \<not> fst (decide d b bs h ov role)"
  by (simp add: decide_def Let_def)

lemma decide_override_deny [guard_simps]:
  "ov (def_key d) = Some PermDeny \<Longrightarrow> \<not> fst (decide d b bs h ov role)"
  by (simp add: decide_def Let_def)

lemma decide_override_allow [guard_simps]:
  "ov (def_key d) = Some PermAllow \<Longrightarrow> \<not> def_role_only d \<Longrightarrow>
   fst (decide d b bs h ov role) \<longleftrightarrow> \<not> (role = RoleViewer \<and> def_viewer_capped d)"
  by (simp add: decide_def Let_def)

lemma decide_no_override [guard_simps]:
  "ov (def_key d) = None \<Longrightarrow> \<not> def_role_only d \<Longrightarrow>
   fst (decide d b bs None ov role) \<longleftrightarrow>
     set_has b (def_key d) \<and> \<not> (role = RoleViewer \<and> def_viewer_capped d)"
  by (auto simp: decide_def Let_def)

lemma lookup_key: "lookup_def p = Some d \<Longrightarrow> def_key d = p"
  by (simp add: lookup_def_Some)

lemma known_lookup: "known p \<longleftrightarrow> (\<exists>d. lookup_def p = Some d)"
  by (auto simp: known_def lookup_def_def split: option.splits)

definition effective_base :: "perm_input \<Rightarrow> perm_set \<times> source" where
  "effective_base inp =
     (case held_role inp of
        None \<Rightarrow> (builtin_base inp, mk_source SrcBase)
      | Some r \<Rightarrow>
        if \<not> rule_enabled r \<or> \<not> in_scope r (in_provider inp) then (0, rule_source SrcRoleOff r)
        else (role_set (Some r), rule_source SrcRule r))"

lemma resolve_admin [guard_simps]:
  assumes "in_role inp = RoleAdmin"
  shows "res_admin (resolve inp)" "res_allowed (resolve inp) = all_set"
  using assms by (simp_all add: resolve_def Let_def)

lemma resolve_fields [guard_simps]:
  assumes "in_role inp \<noteq> RoleAdmin"
  shows "\<not> res_admin (resolve inp)"
    and "res_base (resolve inp) = fst (effective_base inp)"
    and "res_base_src (resolve inp) = snd (effective_base inp)"
    and "res_overrides (resolve inp) = in_overrides inp"
    and "res_hits (resolve inp) = Map.empty"
    and "res_role (resolve inp) = in_role inp"
    and "res_via_group (resolve inp) = in_via_group inp"
  using assms
  by (simp_all add: resolve_def effective_base_def Let_def case_prod_unfold split: option.split)

lemma resolve_allowed:
  assumes "in_role inp \<noteq> RoleAdmin"
  shows "set_has (res_allowed (resolve inp)) p \<longleftrightarrow>
    (\<exists>d. lookup_def p = Some d \<and>
      fst (decide d (fst (effective_base inp)) (snd (effective_base inp)) None (in_overrides inp) (in_role inp)))"
proof -
  have "res_allowed (resolve inp) = filter_set (\<lambda>d. fst (decide d (fst (effective_base inp))
      (snd (effective_base inp)) None (in_overrides inp) (in_role inp)))"
    using assms by (simp add: resolve_def effective_base_def filter_set_def Let_def case_prod_unfold
        split: option.split)
  then show ?thesis by (simp add: set_has_filter)
qed

lemma can_resolve:
  "in_role inp \<noteq> RoleAdmin \<Longrightarrow> can (Some (resolve inp)) p \<longleftrightarrow>
    (\<exists>d. lookup_def p = Some d \<and>
      fst (decide d (fst (effective_base inp)) (snd (effective_base inp)) None (in_overrides inp) (in_role inp)))"
  by (simp add: can_def resolve_allowed)

lemma can_at_admin: "in_role inp = RoleAdmin \<Longrightarrow> can_at (Some (resolve inp)) st rel p \<longleftrightarrow> known p"
  by (simp add: can_at_def decide_at_def resolve_admin can_def)

text \<open>Every answer for a path is an answer of \<open>decide\<close> over the account's own layers.\<close>

lemma can_at_decides:
  assumes "in_role inp \<noteq> RoleAdmin"
  shows "\<exists>h. can_at (Some (resolve inp)) st rel p \<longleftrightarrow>
    (\<exists>d. lookup_def p = Some d \<and>
      fst (decide d (fst (effective_base inp)) (snd (effective_base inp)) h (in_overrides inp) (in_role inp)))"
proof -
  let ?r = "resolve inp"
  let ?f = "foldl (add_hit st rel p) (False, \<lparr>hit_allow = None, hit_deny = None\<rparr>) (res_conditional ?r)"
  note F = resolve_fields [OF assms]
  show ?thesis
  proof (cases "res_conditional ?r = [] \<or> \<not> conditionable p \<or> \<not> fst ?f")
    case True
    then have "can_at (Some ?r) st rel p = can (Some ?r) p"
      by (auto simp: can_at_def decide_at_def F Let_def case_prod_unfold)
    then show ?thesis using can_resolve [OF assms] by blast
  next
    case False
    then have "can_at (Some ?r) st rel p = (case lookup_def p of None \<Rightarrow> False
        | Some d \<Rightarrow> fst (decide d (res_base ?r) (res_base_src ?r) (Some (snd ?f)) (res_overrides ?r) (res_role ?r)))"
      by (simp add: can_at_def decide_at_def F Let_def case_prod_unfold split: option.split)
    then show ?thesis
      by (intro exI [of _ "Some (snd ?f)"]) (simp add: F split: option.split)
  qed
qed

lemma add_hit_matched: "fst (foldl (add_hit st rel p) acc cs) \<longleftrightarrow>
   fst acc \<or> (\<exists>c \<in> set cs. map_of (rule_effects c) p \<noteq> None \<and> conditions_match (rule_conditions c) st rel)"
  by (induction cs arbitrary: acc) (auto simp: add_hit_def Let_def split: option.splits if_splits)

lemma add_hit_allow: "hit_allow (snd (foldl (add_hit st rel p) acc cs)) \<noteq> None \<Longrightarrow>
   hit_allow (snd acc) \<noteq> None \<or> (\<exists>c \<in> set cs. map_of (rule_effects c) p = Some PermAllow)"
proof (induction cs arbitrary: acc)
  case (Cons c cs)
  from Cons.IH [of "add_hit st rel p acc c"] Cons.prems
  show ?case by (auto simp: add_hit_def Let_def split: option.splits if_splits)
qed simp

lemma conditionable_known: "conditionable p \<Longrightarrow> \<exists>d. lookup_def p = Some d \<and> \<not> def_role_only d"
proof -
  assume a: "conditionable p"
  have "p \<noteq> AdminFull" using a by (auto simp: conditionable_def conditionable_set_def)
  moreover obtain d where d: "lookup_def p = Some d"
    using a set_has_known [of conditionable_set p] known_lookup [of p] by (auto simp: conditionable_def)
  moreover have "def_role_only d \<Longrightarrow> def_key d = AdminFull"
    using d by (auto simp: lookup_def_Some catalogue_def plain_def_def capped_def_def role_only_def_def)
  ultimately show ?thesis using lookup_key by auto
qed

text \<open>Where no folder rule speaks about the permission here, the account-wide answer stands.\<close>

lemma can_at_default:
  assumes "\<And>c. c \<in> set (res_conditional r) \<Longrightarrow> map_of (rule_effects c) p \<noteq> None \<Longrightarrow>
    \<not> conditions_match (rule_conditions c) st rel"
  shows "can_at (Some r) st rel p = can (Some r) p"
proof -
  have "\<not> fst (foldl (add_hit st rel p) (False, h) (res_conditional r))" for h
    using assms add_hit_matched by auto
  then show ?thesis by (simp add: can_at_def decide_at_def Let_def case_prod_unfold)
qed

lemma effects_foldl:
  "set_has (foldl (\<lambda>out c. foldl (\<lambda>out (k, eff). if P k eff then set_with out k else out) out (f c)) s cs) q
   \<longleftrightarrow> set_has s q \<or> known q \<and> (\<exists>c \<in> set cs. \<exists>eff. (q, eff) \<in> set (f c) \<and> P q eff)"
proof -
  have inner: "set_has (foldl (\<lambda>out (k, eff). if P k eff then set_with out k else out) s kvs) q \<longleftrightarrow>
      set_has s q \<or> known q \<and> (\<exists>eff. (q, eff) \<in> set kvs \<and> P q eff)" for s kvs
  proof (induction kvs arbitrary: s)
    case (Cons kv kvs)
    obtain k e where kv: "kv = (k, e)" by (cases kv)
    show ?case unfolding kv by (simp add: Cons.IH) blast
  qed simp
  show ?thesis
  proof (induction cs arbitrary: s)
    case (Cons c cs)
    show ?case by (simp add: Cons.IH inner) blast
  qed simp
qed

lemma allowed_in_folders_iff:
  assumes "\<not> res_admin r"
  shows "set_has (allowed_in_folders (Some r)) p \<longleftrightarrow>
    (\<exists>d c. lookup_def p = Some d \<and> c \<in> set (res_conditional r) \<and> (p, PermAllow) \<in> set (rule_effects c) \<and>
      \<not> set_has (res_allowed r) p \<and> \<not> def_role_only d \<and> res_overrides r p \<noteq> Some PermDeny \<and>
      \<not> (res_role r = RoleViewer \<and> def_viewer_capped d))"
proof -
  define P where "P k eff \<longleftrightarrow> (\<exists>d. lookup_def k = Some d \<and> eff = PermAllow \<and>
      \<not> set_has (res_allowed r) k \<and> \<not> def_role_only d \<and> res_overrides r k \<noteq> Some PermDeny \<and>
      \<not> (res_role r = RoleViewer \<and> def_viewer_capped d))" for k eff
  have step: "(case lookup_def k of None \<Rightarrow> out
      | Some d \<Rightarrow> if eff \<noteq> PermAllow \<or> set_has (res_allowed r) k \<or> def_role_only d then out
          else if res_overrides r k = Some PermDeny \<or> res_role r = RoleViewer \<and> def_viewer_capped d then out
          else set_with out k) = (if P k eff then set_with out k else out)" for k eff out
    by (auto simp: P_def split: option.split)
  have "allowed_in_folders (Some r) = foldl (\<lambda>out c. foldl (\<lambda>out (k, eff).
      if P k eff then set_with out k else out) out (rule_effects c)) 0 (res_conditional r)"
    unfolding allowed_in_folders_def option.case step using assms by simp
  then show ?thesis using known_lookup by (auto simp: effects_foldl P_def)
qed

lemma varies_by_folder_iff:
  assumes "\<not> res_admin r"
  shows "set_has (varies_by_folder (Some r)) p \<longleftrightarrow>
    (\<exists>d c eff. lookup_def p = Some d \<and> c \<in> set (res_conditional r) \<and> (p, eff) \<in> set (rule_effects c) \<and>
      \<not> def_role_only d \<and> conditionable p \<and> res_overrides r p = None \<and>
      \<not> (res_role r = RoleViewer \<and> def_viewer_capped d))"
proof -
  define P where "P k \<longleftrightarrow> (\<exists>d. lookup_def k = Some d \<and> \<not> def_role_only d \<and>
      conditionable k \<and> res_overrides r k = None \<and> \<not> (res_role r = RoleViewer \<and> def_viewer_capped d))" for k
  have step: "(case lookup_def k of None \<Rightarrow> out
      | Some d \<Rightarrow> if def_role_only d \<or> \<not> conditionable k then out
          else if res_overrides r k \<noteq> None then out
          else if res_role r = RoleViewer \<and> def_viewer_capped d then out
          else set_with out k) = (if P k then set_with out k else out)" for k out
    by (auto simp: P_def split: option.split)
  have "varies_by_folder (Some r) = foldl (\<lambda>out c. foldl (\<lambda>out (k, eff).
      if P k then set_with out k else out) out (rule_effects c)) 0 (res_conditional r)"
    unfolding varies_by_folder_def option.case step using assms by simp
  then have "set_has (varies_by_folder (Some r)) p \<longleftrightarrow>
      known p \<and> (\<exists>c \<in> set (res_conditional r). \<exists>eff. (p, eff) \<in> set (rule_effects c) \<and> P p)"
    by (simp add: effects_foldl [where P = "\<lambda>k _. P k" and f = rule_effects])
  then show ?thesis by (auto simp: P_def known_lookup)
qed

section \<open>The layers, decided\<close>

lemma hard_lines_facts:
  shows "in_role inp = RoleViewer \<Longrightarrow> can_at (Some (resolve inp)) st rel p \<Longrightarrow>
      \<exists>d. lookup_def p = Some d \<and> \<not> def_viewer_capped d"
    and "can_at (Some (resolve inp)) st rel AdminFull \<longleftrightarrow> in_role inp = RoleAdmin"
proof -
  show "\<exists>d. lookup_def p = Some d \<and> \<not> def_viewer_capped d"
    if "in_role inp = RoleViewer" "can_at (Some (resolve inp)) st rel p"
    using can_at_decides [of inp st rel p] that decide_viewer by (auto dest!: decide_viewer)
  have d: "lookup_def AdminFull = Some (role_only_def AdminFull GroupAdmin)" by code_simp
  show "can_at (Some (resolve inp)) st rel AdminFull \<longleftrightarrow> in_role inp = RoleAdmin"
  proof (cases "in_role inp = RoleAdmin")
    case True
    then show ?thesis using can_at_admin d known_lookup by auto
  next
    case False
    then show ?thesis using can_at_decides [OF False, of st rel AdminFull] d
      by (auto simp: decide_role_only role_only_def_def)
  qed
qed

lemma override_decides_facts:
  assumes "in_role inp \<noteq> RoleAdmin" and "lookup_def p = Some d" and "\<not> def_role_only d"
  shows "in_overrides inp p = Some PermDeny \<Longrightarrow> \<not> can_at (Some (resolve inp)) st rel p"
    and "in_overrides inp p = Some PermAllow \<Longrightarrow>
      can_at (Some (resolve inp)) st rel p \<longleftrightarrow> \<not> (in_role inp = RoleViewer \<and> def_viewer_capped d)"
  using can_at_decides [OF assms(1), of st rel p] assms(2,3) lookup_key [OF assms(2)]
  by (auto simp: decide_override_deny decide_override_allow)

lemma folder_summaries_complete_facts:
  assumes "in_role inp \<noteq> RoleAdmin" and "\<And>eff. in_overrides inp p = Some eff \<Longrightarrow> valid_perm_effect eff"
  shows "can_at (Some (resolve inp)) st rel p \<Longrightarrow> \<not> can (Some (resolve inp)) p \<Longrightarrow>
      set_has (allowed_in_folders (Some (resolve inp))) p"
    and "can_at (Some (resolve inp)) st rel p \<noteq> can (Some (resolve inp)) p \<Longrightarrow>
      set_has (varies_by_folder (Some (resolve inp))) p"
proof -
  let ?r = "resolve inp"
  let ?f = "foldl (add_hit st rel p) (False, \<lparr>hit_allow = None, hit_deny = None\<rparr>) (res_conditional ?r)"
  note F = resolve_fields [OF assms(1)]
  have differ: "conditionable p \<and> fst ?f \<and> (\<exists>d. lookup_def p = Some d \<and> \<not> def_role_only d \<and>
      in_overrides inp p = None \<and> \<not> (in_role inp = RoleViewer \<and> def_viewer_capped d) \<and>
      (can_at (Some ?r) st rel p \<longrightarrow> set_has (res_base ?r) p \<or> hit_allow (snd ?f) \<noteq> None))"
    if ne: "can_at (Some ?r) st rel p \<noteq> can (Some ?r) p"
  proof -
    have c: "conditionable p" and m: "fst ?f"
      using ne by (auto simp: can_at_def decide_at_def F Let_def case_prod_unfold split: if_splits)
    from conditionable_known [OF c] obtain d where d: "lookup_def p = Some d" "\<not> def_role_only d" by blast
    have at: "can_at (Some ?r) st rel p =
        fst (decide d (res_base ?r) (res_base_src ?r) (Some (snd ?f)) (in_overrides inp) (in_role inp))"
      using c m d by (auto simp: can_at_def decide_at_def F Let_def case_prod_unfold can_def)
    have all: "can (Some ?r) p =
        fst (decide d (res_base ?r) (res_base_src ?r) None (in_overrides inp) (in_role inp))"
      using can_resolve [OF assms(1)] d by (simp add: F)
    have "in_overrides inp p = None"
    proof (rule ccontr)
      assume "in_overrides inp p \<noteq> None"
      then have "in_overrides inp p = Some PermAllow \<or> in_overrides inp p = Some PermDeny"
        using assms(2) by (auto simp: valid_perm_effect_def)
      then show False using ne at all d lookup_key [OF d(1)]
        by (auto simp: decide_override_allow decide_override_deny)
    qed
    moreover have "\<not> (in_role inp = RoleViewer \<and> def_viewer_capped d)"
      using ne at all decide_viewer by metis
    moreover have "can_at (Some ?r) st rel p \<longrightarrow> set_has (res_base ?r) p \<or> hit_allow (snd ?f) \<noteq> None"
      unfolding at using d lookup_key [OF d(1)] calculation(1)
      by (auto simp: decide_def Let_def split: option.splits if_splits)
    ultimately show ?thesis using c m d by blast
  qed
  show "set_has (varies_by_folder (Some ?r)) p" if ne: "can_at (Some ?r) st rel p \<noteq> can (Some ?r) p"
  proof -
    from differ [OF ne] obtain c eff where "c \<in> set (res_conditional ?r)" "map_of (rule_effects c) p = Some eff"
      unfolding add_hit_matched by auto
    then have "c \<in> set (res_conditional ?r) \<and> (p, eff) \<in> set (rule_effects c)"
      using map_of_SomeD by fast
    then show ?thesis using differ [OF ne] unfolding varies_by_folder_iff [OF F(1)] F by blast
  qed
  show "set_has (allowed_in_folders (Some ?r)) p"
    if at: "can_at (Some ?r) st rel p" and no: "\<not> can (Some ?r) p"
  proof -
    from differ at no obtain d where d: "lookup_def p = Some d" "\<not> def_role_only d"
        "in_overrides inp p = None" "\<not> (in_role inp = RoleViewer \<and> def_viewer_capped d)"
        "set_has (res_base ?r) p \<or> hit_allow (snd ?f) \<noteq> None" by auto
    have "\<not> set_has (res_base ?r) p"
      using no d can_resolve [OF assms(1), of p] lookup_key [OF d(1)] by (simp add: F decide_no_override)
    with d(5) add_hit_allow [of st rel p "(False, \<lparr>hit_allow = None, hit_deny = None\<rparr>)" "res_conditional ?r"]
    obtain c where "c \<in> set (res_conditional ?r)" "map_of (rule_effects c) p = Some PermAllow" by auto
    then show ?thesis using d no by (auto simp: allowed_in_folders_iff F can_def dest: map_of_SomeD)
  qed
qed

section \<open>A role to try the layers on\<close>

definition archive_keeper :: permission_rule where
  "archive_keeper = \<lparr>rule_id = 5, rule_name = ''Archive keeper'', rule_enabled = True,
     rule_permissions = [FilesDownload], rule_provider = None, rule_targets = [],
     rule_effects = [(FilesDelete, PermAllow)], rule_settings = no_settings,
     rule_conditions = \<lparr>storage_ids = [], cond_paths = [''Archive'']\<rparr>\<rparr>"

definition keeper_input :: "string \<Rightarrow> (string \<rightharpoonup> string) \<Rightarrow> perm_input" where
  "keeper_input role overrides = \<lparr>in_role = role, in_provider = None, in_custom_role_id = 5,
     in_via_group = None, in_defaults = Standard, in_viewer_base = None,
     in_rules = [Some archive_keeper], in_overrides = overrides, in_app_decisions = Map.empty\<rparr>"

section \<open>Properties\<close>

text \<open>C2. The two lines no layer crosses: whatever the defaults, the custom role, its folder part and
  the person's own exceptions say, on every path, a viewer account holds no permission to add,
  change, delete or share, and full administration is held by administrators alone.\<close>
theorem hard_lines:
  "(in_role inp = RoleViewer \<and> can_at (Some (resolve inp)) st rel p \<longrightarrow>
      (\<exists>d. lookup_def p = Some d \<and> \<not> def_viewer_capped d)) \<and>
   (can_at (Some (resolve inp)) st rel AdminFull \<longleftrightarrow> in_role inp = RoleAdmin)"
  using hard_lines_facts by blast

theorem hard_lines_witness:
  "(\<exists>d. lookup_def FilesDownload = Some d \<and> \<not> def_viewer_capped d) \<and>
   \<not> can_at (Some (resolve (keeper_input RoleViewer Map.empty))) 1 ''Archive'' FilesDelete"
proof -
  have 1: "can_at (Some (resolve (keeper_input RoleViewer Map.empty))) 1 ''x'' FilesDownload" by code_simp
  have 2: "\<not> can_at (Some (resolve (keeper_input RoleViewer Map.empty))) 1 ''Archive'' FilesDelete" by code_simp
  show ?thesis
    using hard_lines [of "keeper_input RoleViewer Map.empty" 1 "''x''" FilesDownload] 1 2
    by (simp add: keeper_input_def)
qed

text \<open>A person's own exception decides on every path of every storage: a deny is final, an allow
  holds up to the viewer line, for every permission that is not role-only.\<close>
theorem override_decides:
  assumes "in_role inp \<noteq> RoleAdmin" and "lookup_def p = Some d" and "\<not> def_role_only d"
  shows "(in_overrides inp p = Some PermDeny \<longrightarrow> \<not> can_at (Some (resolve inp)) st rel p) \<and>
    (in_overrides inp p = Some PermAllow \<longrightarrow>
      can_at (Some (resolve inp)) st rel p = (\<not> (in_role inp = RoleViewer \<and> def_viewer_capped d)))"
  using override_decides_facts [OF assms] by blast

theorem override_decides_witness:
  "\<not> can_at (Some (resolve (keeper_input RoleUser [FilesDelete \<mapsto> PermDeny]))) 1 ''Archive/a'' FilesDelete \<and>
   can_at (Some (resolve (keeper_input RoleUser [FilesDelete \<mapsto> PermAllow]))) 1 ''b'' FilesDelete"
proof -
  have d: "lookup_def FilesDelete = Some (capped_def FilesDelete GroupFiles)" by code_simp
  have r: "\<not> def_role_only (capped_def FilesDelete GroupFiles)" by (simp add: capped_def_def)
  have n: "in_role (keeper_input RoleUser ov) \<noteq> RoleAdmin" for ov by (simp add: keeper_input_def)
  show ?thesis
    using override_decides [OF n [of "[FilesDelete \<mapsto> PermDeny]"] d r, where st = 1 and rel = "''Archive/a''"]
      override_decides [OF n [of "[FilesDelete \<mapsto> PermAllow]"] d r, where st = 1 and rel = "''b''"]
    by (simp add: keeper_input_def)
qed

text \<open>What the two summaries promise a client: a permission held on some path but not everywhere is
  in the set offered per folder, and a permission whose answer differs from the account-wide
  one on any path is in the set that varies (exceptions being allow or deny, as validated).\<close>
theorem folder_summaries_complete:
  assumes "in_role inp \<noteq> RoleAdmin" and "\<And>eff. in_overrides inp p = Some eff \<Longrightarrow> valid_perm_effect eff"
  shows "(can_at (Some (resolve inp)) st rel p \<and> \<not> can (Some (resolve inp)) p \<longrightarrow>
      set_has (allowed_in_folders (Some (resolve inp))) p) \<and>
    (can_at (Some (resolve inp)) st rel p \<noteq> can (Some (resolve inp)) p \<longrightarrow>
      set_has (varies_by_folder (Some (resolve inp))) p)"
  using folder_summaries_complete_facts [OF assms] by blast

theorem folder_summaries_complete_witness:
  "set_has (allowed_in_folders (Some (resolve (keeper_input RoleUser Map.empty)))) FilesDelete \<and>
   set_has (varies_by_folder (Some (resolve (keeper_input RoleUser Map.empty)))) FilesDelete"
proof -
  have 1: "can_at (Some (resolve (keeper_input RoleUser Map.empty))) 1 ''Archive/a'' FilesDelete" by code_simp
  have 2: "\<not> can (Some (resolve (keeper_input RoleUser Map.empty))) FilesDelete" by code_simp
  have n: "in_role (keeper_input RoleUser Map.empty) \<noteq> RoleAdmin" by (simp add: keeper_input_def)
  have ov: "in_overrides (keeper_input RoleUser Map.empty) FilesDelete = Some e \<Longrightarrow> valid_perm_effect e" for e
    by (simp add: keeper_input_def)
  show ?thesis using folder_summaries_complete [OF n ov, where st = 1 and rel = "''Archive/a''"] 1 2 by blast
qed

end
