(* ===== verification/PermRules.thy ===== *)
theory PermRules
  imports PermModel
begin

text \<open>
  What the folder patterns of a role mean, which role an account gets through its groups, and
  what a save keeps of the keys a later version wrote: the lemmas over \<open>PermModel\<close>.
\<close>

section \<open>Folder patterns\<close>

text \<open>The meaning of a pattern: a \<open>**\<close> segment stands for any number of segments.\<close>

inductive pat_denotes :: "string list \<Rightarrow> string list \<Rightarrow> bool" where
  pat_nil: "pat_denotes [] []"
| pat_stars: "pat_denotes ps ss \<Longrightarrow> pat_denotes (''**'' # ps) (xs @ ss)"
| pat_seg: "p \<noteq> ''**'' \<Longrightarrow> path_match p s = Some True \<Longrightarrow> pat_denotes ps ss \<Longrightarrow> pat_denotes (p # ps) (s # ss)"

inductive_simps pat_denotes_Nil: "pat_denotes [] ss"
inductive_simps pat_denotes_Cons: "pat_denotes (p # ps) ss"

lemma list_ex_upto: "list_ex P [0..<Suc n] \<longleftrightarrow> (\<exists>i \<le> n. P i)"
  by (auto simp: list_ex_iff atLeastLessThanSuc_atLeastAtMost simp del: upt_Suc)

lemma match_segs_denotes: "match_segs pat segs \<longleftrightarrow> pat_denotes pat segs"
proof (induction pat arbitrary: segs)
  case Nil
  show ?case by (simp add: pat_denotes_Nil)
next
  case (Cons p ps)
  show ?case
  proof (cases "p = ''**''")
    case True
    have "(\<exists>i \<le> length segs. match_segs ps (drop i segs)) \<longleftrightarrow> (\<exists>xs ss. segs = xs @ ss \<and> pat_denotes ps ss)"
      unfolding Cons.IH
    proof
      assume "\<exists>i \<le> length segs. pat_denotes ps (drop i segs)"
      then show "\<exists>xs ss. segs = xs @ ss \<and> pat_denotes ps ss" by (metis append_take_drop_id)
    next
      assume "\<exists>xs ss. segs = xs @ ss \<and> pat_denotes ps ss"
      then obtain xs ss where "segs = xs @ ss" "pat_denotes ps ss" by blast
      then show "\<exists>i \<le> length segs. pat_denotes ps (drop i segs)"
        by (intro exI [of _ "length xs"]) simp
    qed
    moreover have "match_segs (p # ps) segs \<longleftrightarrow> (\<exists>i \<le> length segs. match_segs ps (drop i segs))"
      using True by (simp add: list_ex_upto del: upt_Suc)
    ultimately show ?thesis using True by (simp only: pat_denotes_Cons) blast
  next
    case False
    then show ?thesis using Cons.IH by (auto simp: pat_denotes_Cons split: list.split)
  qed
qed

lemma path_pattern_match_iff:
  "path_pattern_match pattern rel \<longleftrightarrow>
   (\<exists>k. prefix k (split_segs rel) \<and> pat_denotes (split_segs pattern) k)"
proof -
  have "path_pattern_match pattern rel \<longleftrightarrow>
      (\<exists>n \<le> length (split_segs rel). pat_denotes (split_segs pattern) (take n (split_segs rel)))"
    by (simp add: path_pattern_match_def Let_def list_ex_upto match_segs_denotes del: upt_Suc)
  also have "\<dots> \<longleftrightarrow> (\<exists>k. prefix k (split_segs rel) \<and> pat_denotes (split_segs pattern) k)"
    by (metis append_eq_conv_conj prefixE prefix_length_le take_is_prefix)
  finally show ?thesis .
qed

lemma split_segs_clean [path_simps]: "split_segs (clean_slash rel) = norm_rel rel"
proof -
  have t: "trim_slash (clean_slash rel) = clean_slash rel"
  proof (cases "norm_rel rel = []")
    case True
    then show ?thesis by (simp add: clean_slash_join trim_def trim_right_def)
  next
    case False
    have ok: "\<forall>s \<in> set (norm_rel rel). seg_ok s" by (simp add: norm_rel_ok)
    note j = join_last_ok [OF False ok]
    have "dropWhile (\<lambda>c. c = slash) (join slash (norm_rel rel)) = join slash (norm_rel rel)"
      using j by (cases "join slash (norm_rel rel)") auto
    moreover have "dropWhile (\<lambda>c. c = slash) (rev (join slash (norm_rel rel))) = rev (join slash (norm_rel rel))"
      using j by (cases "join slash (norm_rel rel)" rule: rev_cases) auto
    ultimately show ?thesis by (simp add: clean_slash_join trim_def trim_right_def)
  qed
  then show ?thesis
    using split_clean_slash [of rel] clean_slash_Nil [of rel] by (simp add: split_segs_def Let_def)
qed

lemma conditions_match_iff:
  "conditions_match c st rel \<longleftrightarrow>
    (storage_ids c = [] \<or> st \<in> set (storage_ids c)) \<and>
    (cond_paths c = [] \<or>
     (\<exists>p \<in> set (cond_paths c). \<exists>k. prefix k (norm_rel rel) \<and> pat_denotes (split_segs p) k))"
  by (auto simp: conditions_match_def list_ex_iff path_pattern_match_iff split_segs_clean)

section \<open>Groups\<close>

definition usable :: "permission_rule option list \<Rightarrow> int option \<Rightarrow> group \<Rightarrow> permission_rule option" where
  "usable rules provider g =
     (case group_role g of None \<Rightarrow> None
      | Some i \<Rightarrow> (case by_id rules i of None \<Rightarrow> None
                  | Some r \<Rightarrow> if in_scope r provider then Some r else None))"

lemma by_id_Some: "by_id rules i = Some r \<Longrightarrow> rule_id r = i \<and> Some r \<in> set rules"
proof -
  have "foldl (\<lambda>acc r. case r of None \<Rightarrow> acc | Some r \<Rightarrow> if rule_id r = i then Some r else acc) acc rules = Some r
    \<Longrightarrow> acc = Some r \<or> rule_id r = i \<and> Some r \<in> set rules" for acc
    by (induction rules arbitrary: acc) (auto split: option.splits if_splits)
  then show "by_id rules i = Some r \<Longrightarrow> rule_id r = i \<and> Some r \<in> set rules"
    unfolding by_id_def by blast
qed

text \<open>The search over the ordered groups, as two finds.\<close>

lemma pick_role_find:
  assumes "\<forall>g \<in> set gs. group_role g \<noteq> None"
  shows "pick_role (by_id rules) provider off gs =
    (case find (\<lambda>g. \<exists>r. usable rules provider g = Some r \<and> rule_enabled r) gs of
       Some g \<Rightarrow> (the (group_role g), Some g)
     | None \<Rightarrow>
       (case off of
          Some g \<Rightarrow> (case group_role g of None \<Rightarrow> 0 | Some i \<Rightarrow> i, Some g)
        | None \<Rightarrow>
          (case find (\<lambda>g. usable rules provider g \<noteq> None) gs of
             Some g \<Rightarrow> (the (group_role g), Some g)
           | None \<Rightarrow> (0, None))))"
  using assms
proof (induction gs arbitrary: off)
  case (Cons g gs)
  then obtain i where i: "group_role g = Some i" by auto
  show ?case
    using Cons.IH Cons.prems i by_id_Some [of rules i]
    by (auto simp: usable_def split: option.split)
qed (simp split: option.split)

lemma candidates_set:
  "g \<in> set (candidates groups provider) \<longleftrightarrow>
   Some g \<in> set groups \<and> group_role g \<noteq> None \<and> group_role g \<noteq> Some 0 \<and> group_in_scope g provider"
proof -
  have "x \<in> set (List.map_filter id xs) \<longleftrightarrow> Some x \<in> set xs" for x and xs :: "group option list"
    by (induction xs) (auto simp: map_filter_simps split: option.splits)
  then show ?thesis by (auto simp: candidates_def)
qed

lemma candidates_sorted: "sorted_wrt (\<lambda>a b. \<not> group_before b a) (candidates groups provider)"
  unfolding candidates_def
  by (rule sorted_stable_sort) (auto simp: group_before_def split: if_splits)

lemma find_sorted_first:
  assumes "sorted_wrt (\<lambda>a b. \<not> R b a) xs" "find P xs = Some x" "y \<in> set xs" "P y" "\<not> R x x"
  shows "\<not> R y x"
  using assms
proof (induction xs)
  case (Cons a xs)
  then show ?case by (cases "P a") auto
qed simp

section \<open>Keys a later version wrote\<close>

lemma put_entry_lookup [simp]: "map_of (put_entry m k v) k' = (if k' = k then Some v else map_of m k')"
proof -
  have "map_of (filter (\<lambda>(k', _). k' \<noteq> k) m) k' = map_of m k'" if "k' \<noteq> k"
    using that by (induction m) auto
  then show ?thesis by (auto simp: put_entry_def)
qed

lemma foldl_put_entry:
  "map_of (foldl (\<lambda>m (k, v). put_entry m k v) m kvs) k =
   (case map_of (rev kvs) k of Some v \<Rightarrow> Some v | None \<Rightarrow> map_of m k)"
proof (induction kvs arbitrary: m)
  case (Cons kv kvs)
  obtain k' v' where kv: "kv = (k', v')" by (cases kv)
  show ?case unfolding kv by (simp add: Cons.IH map_add_def split: option.split)
qed simp

lemma keep_foreign_lookup:
  assumes "distinct (map fst stored)"
  shows "map_of (keep_foreign_effects m stored) k =
    (if foreign k \<and> map_of stored k \<noteq> None then map_of stored k else map_of m k)"
proof -
  have d: "distinct (map fst (foreign_effects stored))"
    using assms by (simp add: foreign_effects_def distinct_map_filter)
  have "map_of (rev (foreign_effects stored)) = map_of (foreign_effects stored)"
    using d by (metis distinct_map distinct_rev map_of_inject_set rev_map set_rev)
  moreover have "map_of (foreign_effects stored) k = (if foreign k then map_of stored k else None)"
    unfolding foreign_effects_def by (rule map_of_filter_key)
  ultimately show ?thesis
    unfolding keep_foreign_effects_def by (simp add: foldl_put_entry split: option.split)
qed

section \<open>Properties\<close>

text \<open>C3. A folder pattern names a folder and everything in it, with \<open>**\<close> standing for any number
  of segments: a role's folder part applies on a path exactly when the storage is one it names
  (or it names none) and some ancestor of the path, or the path itself, is denoted by one of
  its patterns - in every spelling of the path.\<close>
theorem conditions_match_denotes:
  "conditions_match c st rel =
    ((storage_ids c = [] \<or> st \<in> set (storage_ids c)) \<and>
     (cond_paths c = [] \<or>
      list_ex (\<lambda>p. \<exists>k. prefix k (norm_rel rel) \<and> pat_denotes (split_segs p) k) (cond_paths c)))"
  by (auto simp: conditions_match_iff list_ex_iff)

text \<open>The role an account gets through its groups: none of the account's own, it is the role of
  the first of its groups in scope (highest priority, then lowest id) whose role is usable and
  switched on; a switched-off role is given only when every usable one is off, and then it is
  the first of those; there is no role exactly when no group gives a usable one.\<close>
theorem effective_role_first:
  assumes "effective_role 0 groups rules provider = (rid, via)"
  shows "case via of
      None \<Rightarrow> rid = 0 \<and> (\<forall>g \<in> set (candidates groups provider). usable rules provider g = None)
    | Some g \<Rightarrow> g \<in> set (candidates groups provider) \<and> group_role g = Some rid \<and> rid \<noteq> 0 \<and>
        (\<exists>r. usable rules provider g = Some r \<and>
          (\<forall>g' \<in> set (candidates groups provider). \<forall>r'. usable rules provider g' = Some r' \<longrightarrow>
             (rule_enabled r' \<longrightarrow> rule_enabled r) \<and>
             (group_before g' g \<longrightarrow> \<not> rule_enabled r' \<and> rule_enabled r)))"
proof -
  let ?C = "candidates groups provider"
  let ?on = "\<lambda>g. \<exists>r. usable rules provider g = Some r \<and> rule_enabled r"
  let ?us = "\<lambda>g. usable rules provider g \<noteq> None"
  have C: "\<forall>g \<in> set ?C. group_role g \<noteq> None" by (simp add: candidates_set)
  have irr: "\<not> group_before g g" for g by (simp add: group_before_def)
  have e: "pick_role (by_id rules) provider None ?C = (rid, via)"
    using assms by (simp add: effective_role_def)
  note pick = e [unfolded pick_role_find [OF C]]
  show ?thesis
  proof (cases "find ?on ?C")
    case (Some g)
    with pick have via: "via = Some g" "rid = the (group_role g)" by simp_all
    from find_Some_in_set [OF Some] obtain r where
      g: "g \<in> set ?C" "usable rules provider g = Some r" "rule_enabled r" by auto
    have "\<not> group_before g' g" if "g' \<in> set ?C" "?on g'" for g'
      using find_sorted_first [OF candidates_sorted Some that(1) that(2) irr] .
    then show ?thesis using via g by (auto simp: candidates_set)
  next
    case None
    then have off: "usable rules provider g' = Some r' \<Longrightarrow> \<not> rule_enabled r'" if "g' \<in> set ?C" for g' r'
      using that by (auto simp: find_None_all)
    show ?thesis
    proof (cases "find ?us ?C")
      case 2: None
      then have "\<forall>g \<in> set ?C. usable rules provider g = None" by (auto simp: find_None_all)
      moreover have "via = None" "rid = 0" using pick None 2 by simp_all
      ultimately show ?thesis by simp
    next
      case 2: (Some g)
      with pick None have via: "via = Some g" "rid = the (group_role g)" by simp_all
      from find_Some_in_set [OF 2] obtain r where g: "g \<in> set ?C" "usable rules provider g = Some r" by auto
      have "\<not> group_before g' g" if "g' \<in> set ?C" "?us g'" for g'
        using find_sorted_first [OF candidates_sorted 2 that(1) that(2) irr] .
      then show ?thesis using via g off by (auto simp: candidates_set)
    qed
  qed
qed

theorem effective_role_first_witness:
  "effective_role 0
     [Some \<lparr>group_id = 1, group_name = ''a'', group_provider = None, group_role = Some 7, group_priority = 2\<rparr>] [] None
     = (0, None) \<and>
   usable [] None \<lparr>group_id = 1, group_name = ''a'', group_provider = None, group_role = Some 7, group_priority = 2\<rparr> = None"
proof -
  let ?g = "\<lparr>group_id = 1, group_name = ''a'', group_provider = None, group_role = Some 7, group_priority = 2\<rparr>"
  have 1: "effective_role 0 [Some ?g] [] None = (0, None)" by code_simp
  have "?g \<in> set (candidates [Some ?g] None)" by (simp add: candidates_set group_in_scope_def)
  then show ?thesis using effective_role_first [OF 1] 1 by simp
qed

text \<open>A save never loses a later version's decision: what is stored after an edit has, for every
  key this version does not know, what was stored before, and for every key it knows, what the
  request says - whatever the request sends for the unknown ones.\<close>
theorem foreign_effects_survive:
  assumes "distinct (map fst stored)"
  shows "map_of (keep_foreign_effects (without_foreign m) stored) k =
    (if foreign k then map_of stored k else map_of m k)"
  using keep_foreign_lookup [OF assms, of "without_foreign m" k]
  by (auto simp: without_foreign_def map_of_filter_key [where P = "\<lambda>k. \<not> foreign k"])

theorem foreign_effects_survive_witness:
  "map_of (keep_foreign_effects (without_foreign [(''files.sign'', PermDeny), (FilesMove, PermDeny)])
     [(''files.sign'', PermAllow)]) ''files.sign'' = Some PermAllow"
proof -
  have 1: "distinct (map fst [(''files.sign'', PermAllow)])" by simp
  have 2: "foreign ''files.sign''" by code_simp
  show ?thesis using foreign_effects_survive [OF 1, of _ "''files.sign''"] 2 by simp
qed

end
