(* ===== verification/Acl.thy ===== *)
theory Acl
  imports PermResolve Syspath
begin

text \<open>
  \<open>internal/acl\<close>: what one account may do on one path of one storage. A \<open>Set\<close> is built once per
  request from what the store answers (\<open>load_set\<close>) and then asked without a database: the
  level of a path (\<open>effective\<close>), the app locks on it (\<open>lock\<close>, \<open>lock_within\<close>), whether it is
  listed (\<open>can_see\<close>), and whether an action is allowed on it (\<open>can_do\<close>). A nil \<open>*Set\<close>, a nil
  user and a nil \<open>*perm.Result\<close> are \<open>None\<close>. The lock map is an association list in the order
  its iteration visits it, which Go leaves open: the lemmas hold for every order.
\<close>

section \<open>Levels\<close>

datatype level = LevelNone | LevelViewer | LevelEditor | LevelOwner

fun level_rank :: "level \<Rightarrow> nat" where
  "level_rank LevelNone = 0"
| "level_rank LevelViewer = 1"
| "level_rank LevelEditor = 2"
| "level_rank LevelOwner = 3"

lemma level_rank_inj: "level_rank a = level_rank b \<Longrightarrow> a = b"
  by (cases a; cases b) simp_all

instantiation level :: linorder
begin

definition less_eq_level :: "level \<Rightarrow> level \<Rightarrow> bool" where
  "less_eq_level a b = (level_rank a \<le> level_rank b)"

definition less_level :: "level \<Rightarrow> level \<Rightarrow> bool" where
  "less_level a b = (level_rank a < level_rank b)"

instance
  by standard (auto simp: less_eq_level_def less_level_def intro: level_rank_inj)

end

lemma level_bot [simp]: "LevelNone \<le> l"
  by (simp add: less_eq_level_def)

lemma level_top [simp]: "l \<le> LevelOwner"
  by (cases l) (simp_all add: less_eq_level_def)

abbreviation GrantViewer :: string where "GrantViewer \<equiv> ''viewer''"
abbreviation GrantEditor :: string where "GrantEditor \<equiv> ''editor''"
abbreviation GrantOwner :: string where "GrantOwner \<equiv> ''owner''"

definition valid_grant_level :: "string \<Rightarrow> bool" where
  "valid_grant_level s \<longleftrightarrow> s = GrantViewer \<or> s = GrantEditor \<or> s = GrantOwner"

definition parse_level :: "string \<Rightarrow> level" where
  "parse_level s =
     (if s = GrantViewer then LevelViewer
      else if s = GrantEditor then LevelEditor
      else if s = GrantOwner then LevelOwner
      else LevelNone)"

fun level_string :: "level \<Rightarrow> string" where
  "level_string LevelViewer = GrantViewer"
| "level_string LevelEditor = GrantEditor"
| "level_string LevelOwner = GrantOwner"
| "level_string LevelNone = ''none''"

definition role_ceiling :: "string \<Rightarrow> level" where
  "role_ceiling role =
     (if role = RoleAdmin \<or> role = RoleUser then LevelOwner
      else if role = RoleViewer then LevelViewer else LevelNone)"

definition role_base :: "string \<Rightarrow> level" where
  "role_base role =
     (if role = RoleAdmin then LevelOwner
      else if role = RoleUser then LevelEditor
      else if role = RoleViewer then LevelViewer else LevelNone)"

definition cap_level :: "level \<Rightarrow> level \<Rightarrow> level" where
  "cap_level l ceil = (if l > ceil then ceil else l)"

definition need_level :: "string \<Rightarrow> level" where
  "need_level p =
     (if p \<in> set [FilesDownload, FilesTag] then LevelViewer
      else if p \<in> set [FilesCreate, FilesModify, FilesRename, FilesMove, FilesDelete, FilesPurge,
                       FilesEncrypt, ShareLinks, ShareUploadLinks] then LevelEditor
      else if p = ShareUsers then LevelOwner
      else LevelNone)"

section \<open>Paths\<close>

definition clean_rel :: "string \<Rightarrow> string" where
  "clean_rel rel = (let rel = clean_slash rel in if rel = ''.'' then [] else rel)"

definition prefix_contains :: "string \<Rightarrow> string \<Rightarrow> bool" where
  "prefix_contains p rel \<longleftrightarrow> (if p = [] then True else rel = p \<or> has_prefix rel (p @ ''/''))"

section \<open>Rows\<close>

record user =
  user_id :: int
  user_role :: string
  user_provider :: "int option"

definition is_admin :: "user \<Rightarrow> bool" where
  "is_admin u \<longleftrightarrow> user_role u = RoleAdmin"

record storage =
  st_id :: int
  st_rbac :: bool

record file_grant =
  grant_path :: string
  grant_is_dir :: bool
  grant_group :: int
  grant_level :: string

record app_plugin_lock =
  lock_rel :: string
  lock_plugin :: int
  lock_plugin_name :: string
  lock_until :: "nanos option"

definition lock_live :: "app_plugin_lock \<Rightarrow> nanos \<Rightarrow> bool" where
  "lock_live l now \<longleftrightarrow> (case lock_until l of None \<Rightarrow> True | Some t \<Rightarrow> now < t)"

type_synonym db_error = string

text \<open>What the store and the loaders answer during one request.\<close>

record acl_store =
  db_perms :: "(db_error + perm_result) option"
  db_locks :: "db_error + app_plugin_lock list"
  db_grants :: "db_error + file_grant list"
  db_group_grants :: "db_error + file_grant list"
  db_group :: "int \<Rightarrow> db_error + group"
  db_vaults :: "(int \<Rightarrow> string \<Rightarrow> string option) option"

record acl_set =
  set_user :: "user option"
  set_storage :: "storage option"
  set_grants :: "file_grant list"
  set_ceiling :: level
  set_perms :: "perm_result option"
  set_locks :: "(string \<times> app_plugin_lock) list"
  set_vaults :: "(string \<Rightarrow> string option) option"

section \<open>Loading a set\<close>

definition vault_lookup :: "acl_store \<Rightarrow> int \<Rightarrow> (string \<Rightarrow> string option) option" where
  "vault_lookup db st = (case db_vaults db of
     None \<Rightarrow> None | Some f \<Rightarrow> Some (\<lambda>rel. f st (clean_rel rel)))"

definition put_lock :: "(string \<times> app_plugin_lock) list \<Rightarrow> string \<Rightarrow> app_plugin_lock
    \<Rightarrow> (string \<times> app_plugin_lock) list" where
  "put_lock m k l = filter (\<lambda>(k', _). k' \<noteq> k) m @ [(k, l)]"

definition load_locks :: "acl_store \<Rightarrow> nanos \<Rightarrow> (string \<times> app_plugin_lock) list" where
  "load_locks db now =
     (case db_locks db of
        Inl _ \<Rightarrow> []
      | Inr rows \<Rightarrow>
        foldl (\<lambda>out l. if lock_live l now then put_lock out (clean_rel (lock_rel l)) l else out) [] rows)"

fun via_groups :: "acl_store \<Rightarrow> int option \<Rightarrow> (int \<rightharpoonup> bool) \<Rightarrow> file_grant list \<Rightarrow> file_grant list
    \<Rightarrow> db_error + file_grant list" where
  "via_groups db provider seen out [] = Inr out"
| "via_groups db provider seen out (g # gs) =
     (case seen (grant_group g) of
        Some ok \<Rightarrow> via_groups db provider seen (if ok then out @ [g] else out) gs
      | None \<Rightarrow>
        (case db_group db (grant_group g) of
           Inl e \<Rightarrow> Inl e
         | Inr gr \<Rightarrow>
           let ok = group_in_scope gr provider
           in via_groups db provider (seen(grant_group g \<mapsto> ok)) (if ok then out @ [g] else out) gs))"

definition user_grants :: "acl_store \<Rightarrow> user \<Rightarrow> db_error + file_grant list" where
  "user_grants db u =
     (case db_grants db of
        Inl e \<Rightarrow> Inl e
      | Inr grants \<Rightarrow>
        (case db_group_grants db of
           Inl e \<Rightarrow> Inl e
         | Inr via \<Rightarrow> if via = [] then Inr grants
                      else via_groups db (user_provider u) Map.empty grants via))"

definition load_set :: "acl_store \<Rightarrow> nanos \<Rightarrow> user option \<Rightarrow> storage option \<Rightarrow> db_error + acl_set" where
  "load_set db now u s =
     (let set0 = \<lparr>set_user = u, set_storage = s, set_grants = [], set_ceiling = LevelNone,
            set_perms = None, set_locks = [], set_vaults = None\<rparr>;
          with_user =
            (case u of
               None \<Rightarrow> Inr set0
             | Some usr \<Rightarrow>
               let set1 = set0\<lparr>set_ceiling := role_ceiling (user_role usr)\<rparr>
               in case db_perms db of
                    None \<Rightarrow> Inr set1
                  | Some (Inl e) \<Rightarrow> Inl e
                  | Some (Inr p) \<Rightarrow> Inr (set1\<lparr>set_perms := Some p\<rparr>))
      in case with_user of
           Inl e \<Rightarrow> Inl e
         | Inr set2 \<Rightarrow>
           let set3 = (case s of
                 None \<Rightarrow> set2
               | Some st \<Rightarrow> set2\<lparr>set_locks := load_locks db now, set_vaults := vault_lookup db (st_id st)\<rparr>)
           in case u of
                None \<Rightarrow> Inr set3
              | Some usr \<Rightarrow>
                (case s of
                   None \<Rightarrow> Inr set3
                 | Some st \<Rightarrow>
                   if is_admin usr \<or> \<not> st_rbac st then Inr set3
                   else case user_grants db usr of
                          Inl e \<Rightarrow> Inl e
                        | Inr grants \<Rightarrow> Inr (set3\<lparr>set_grants := grants\<rparr>)))"

definition locks_view :: "acl_store \<Rightarrow> nanos \<Rightarrow> int \<Rightarrow> acl_set" where
  "locks_view db now st =
     \<lparr>set_user = None, set_storage = None, set_grants = [], set_ceiling = LevelNone,
      set_perms = None, set_locks = load_locks db now, set_vaults = vault_lookup db st\<rparr>"

section \<open>Asking a set\<close>

definition vault_root :: "acl_set option \<Rightarrow> string \<Rightarrow> string option" where
  "vault_root s rel = (case s of None \<Rightarrow> None | Some s \<Rightarrow>
     (case set_vaults s of None \<Rightarrow> None | Some f \<Rightarrow> f rel))"

definition lock :: "acl_set option \<Rightarrow> string \<Rightarrow> app_plugin_lock option" where
  "lock s rel = (case s of None \<Rightarrow> None | Some s \<Rightarrow>
     if set_locks s = [] then None else map_of (set_locks s) (clean_rel rel))"

definition lock_within :: "acl_set option \<Rightarrow> string \<Rightarrow> app_plugin_lock option" where
  "lock_within s rel = (case s of None \<Rightarrow> None | Some s \<Rightarrow>
     if set_locks s = [] then None
     else let rel = clean_rel rel in
       case map_of (set_locks s) rel of
         Some l \<Rightarrow> Some l
       | None \<Rightarrow> map_option snd
           (find (\<lambda>(lrel, _). rel = [] \<or> has_prefix lrel (rel @ ''/'')) (set_locks s)))"

definition best_grant :: "file_grant list \<Rightarrow> string \<Rightarrow> level" where
  "best_grant grants rel =
     foldl (\<lambda>best g. if prefix_contains (clean_rel (grant_path g)) rel
                      then (let lv = parse_level (grant_level g) in if lv > best then lv else best)
                      else best) LevelNone grants"

definition effective_unlocked :: "acl_set \<Rightarrow> user \<Rightarrow> string \<Rightarrow> level" where
  "effective_unlocked s u rel =
     (if in_drafts rel then
        (if draft_owner rel = Some (user_id u) then cap_level LevelEditor (set_ceiling s) else LevelNone)
      else if is_admin u then LevelOwner
      else case set_storage s of
        None \<Rightarrow> cap_level (role_base (user_role u)) (set_ceiling s)
      | Some st \<Rightarrow>
        if \<not> st_rbac st then cap_level (role_base (user_role u)) (set_ceiling s)
        else cap_level (best_grant (set_grants s) (clean_rel rel)) (set_ceiling s))"

definition effective :: "acl_set option \<Rightarrow> string \<Rightarrow> level" where
  "effective s rel = (case s of None \<Rightarrow> LevelNone | Some t \<Rightarrow>
     (case set_user t of
        None \<Rightarrow> LevelNone
      | Some u \<Rightarrow>
        let lv = effective_unlocked t u rel
        in if lv > LevelViewer \<and> lock s rel \<noteq> None then LevelViewer else lv))"

definition effective_ignoring_locks :: "acl_set option \<Rightarrow> string \<Rightarrow> level" where
  "effective_ignoring_locks s rel = (case s of None \<Rightarrow> LevelNone | Some t \<Rightarrow>
     (case set_user t of None \<Rightarrow> LevelNone | Some u \<Rightarrow> effective_unlocked t u rel))"

definition can_see :: "acl_set option \<Rightarrow> string \<Rightarrow> bool" where
  "can_see s rel0 = (case s of None \<Rightarrow> False | Some t \<Rightarrow>
     (case set_user t of
        None \<Rightarrow> False
      | Some u \<Rightarrow>
        if is_admin u then True
        else let rel = clean_rel rel0 in
          case set_storage t of
            None \<Rightarrow> effective s rel \<ge> LevelViewer
          | Some st \<Rightarrow>
            if \<not> st_rbac st then effective s rel \<ge> LevelViewer
            else if effective s rel \<ge> LevelViewer then True
            else list_ex (\<lambda>g. prefix_contains rel (clean_rel (grant_path g))) (set_grants t)))"

definition storage_visible :: "acl_set option \<Rightarrow> bool" where
  "storage_visible s = (case s of None \<Rightarrow> False | Some t \<Rightarrow>
     (case set_user t of
        None \<Rightarrow> False
      | Some u \<Rightarrow>
        if is_admin u then True
        else case set_storage t of
          None \<Rightarrow> True
        | Some st \<Rightarrow> if \<not> st_rbac st then True else set_grants t \<noteq> []))"

definition set_storage_id :: "acl_set \<Rightarrow> int" where
  "set_storage_id s = (case set_storage s of None \<Rightarrow> 0 | Some st \<Rightarrow> st_id st)"

definition allows :: "acl_set option \<Rightarrow> string \<Rightarrow> bool" where
  "allows s p = (case s of None \<Rightarrow> False | Some t \<Rightarrow>
     (case set_user t of
        None \<Rightarrow> False
      | Some _ \<Rightarrow> (case set_perms t of None \<Rightarrow> True | Some r \<Rightarrow> can (Some r) p)))"

definition allows_at :: "acl_set option \<Rightarrow> string \<Rightarrow> string \<Rightarrow> bool" where
  "allows_at s rel p = (case s of None \<Rightarrow> False | Some t \<Rightarrow>
     (case set_user t of
        None \<Rightarrow> False
      | Some _ \<Rightarrow>
        (case set_perms t of
           None \<Rightarrow> True
         | Some r \<Rightarrow> can_at (Some r) (set_storage_id t) (clean_rel rel) p)))"

definition set_why_at :: "acl_set option \<Rightarrow> string \<Rightarrow> string \<Rightarrow> source" where
  "set_why_at s rel p = (case s of None \<Rightarrow> mk_source SrcNone | Some t \<Rightarrow>
     (case set_perms t of
        None \<Rightarrow> mk_source SrcNone
      | Some r \<Rightarrow> why_at (Some r) (set_storage_id t) (clean_rel rel) p))"

definition dot_or_space :: "char \<Rightarrow> bool" where
  "dot_or_space c \<longleftrightarrow> c = CHR ''.'' \<or> c = CHR '' ''"

definition saved_forms :: "string \<Rightarrow> string list" where
  "saved_forms name =
     (let t = trim_right dot_or_space name;
          forms = (if t \<noteq> name then [name, t] else [name])
      in case index_byte name (CHR '':'') of
           Some i \<Rightarrow> if i > 0 then forms @ [trim_right dot_or_space (take i name)] else forms
         | None \<Rightarrow> forms)"

definition blocked_in :: "string list \<Rightarrow> string \<Rightarrow> string option" where
  "blocked_in exts name = find (\<lambda>ext. has_suffix name (''.'' @ ext)) exts"

definition blocked_extension :: "(string \<Rightarrow> string) \<Rightarrow> acl_set option \<Rightarrow> string \<Rightarrow> string" where
  "blocked_extension uni s rel = (case s of None \<Rightarrow> [] | Some t \<Rightarrow>
     (case set_perms t of
        None \<Rightarrow> []
      | Some r \<Rightarrow>
        (let exts = blocked_extensions (res_settings r) in
         if exts = [] then []
         else case find (\<lambda>name. blocked_in exts name \<noteq> None)
                  (saved_forms (to_lower uni (path_base (clean_rel rel)))) of
                None \<Rightarrow> []
              | Some name \<Rightarrow> the (blocked_in exts name))))"

definition can_do :: "(string \<Rightarrow> string) \<Rightarrow> acl_set option \<Rightarrow> string \<Rightarrow> string \<Rightarrow> bool" where
  "can_do uni s rel p = (case s of None \<Rightarrow> False | Some t \<Rightarrow>
     (case set_user t of
        None \<Rightarrow> False
      | Some _ \<Rightarrow>
        let need = need_level p in
        if need > LevelNone \<and> effective s rel < need then False
        else if p \<in> set [FilesCreate, FilesModify, FilesRename, FilesMove] \<and> blocked_extension uni s rel \<noteq> []
             then False
        else allows_at s rel p))"

end
