(* ===== verification/AclRules.thy ===== *)
theory AclRules
  imports Acl
begin

text \<open>
  What \<open>Acl\<close> guarantees: the lemmas over its decision functions, the tree of clean paths
  (\<open>clean_paths\<close>, an interpretation of the prelude's \<open>path_tree\<close>), and the properties.
\<close>

section \<open>Clean paths\<close>

lemma clean_rel_slash [path_simps]: "clean_rel rel = clean_slash rel"
  by (simp add: clean_rel_def clean_slash_not_dot Let_def)

lemma clean_rel_idem [path_simps]: "clean_rel (clean_rel rel) = clean_rel rel"
  by (simp add: clean_rel_slash clean_slash_idem)

lemma norm_clean_rel [path_simps]: "norm_rel (clean_rel rel) = norm_rel rel"
  by (simp add: clean_rel_slash norm_clean)

lemma prefix_contains_iff [path_simps]:
  "prefix_contains (clean_rel p) (clean_rel q) \<longleftrightarrow> prefix (norm_rel p) (norm_rel q)"
proof (cases "norm_rel p = []")
  case True
  then show ?thesis by (simp add: prefix_contains_def clean_rel_slash clean_slash_Nil)
next
  case False
  have "prefix_contains (clean_rel p) (clean_rel q) \<longleftrightarrow>
      join slash (norm_rel q) = join slash (norm_rel p) \<or>
      has_prefix (join slash (norm_rel q)) (join slash (norm_rel p) @ [slash])"
    using False by (simp add: prefix_contains_def clean_rel_slash clean_slash_join join_eq_Nil norm_rel_ok)
  then show ?thesis using prefix_join_slash [OF _ _ False, of "norm_rel q"] by (simp add: norm_rel_ok)
qed

lemma clean_rel_eq_iff [path_simps]: "clean_rel p = clean_rel q \<longleftrightarrow> norm_rel p = norm_rel q"
  by (metis clean_rel_slash clean_slash_join norm_clean_rel)

interpretation clean_paths: path_tree prefix_contains norm_rel "\<lambda>p. clean_rel p = p"
proof
  show "prefix_contains p q = prefix (norm_rel p) (norm_rel q)"
    if "clean_rel p = p" "clean_rel q = q" for p q
    using that prefix_contains_iff [of p q] by simp
  show "p = q" if "clean_rel p = p" "clean_rel q = q" "norm_rel p = norm_rel q" for p q
    using that by (metis clean_rel_eq_iff)
qed

lemmas clean_comparable = clean_paths.covers_comparable [OF clean_rel_idem clean_rel_idem clean_rel_idem]
lemmas clean_trans = clean_paths.covers_trans [OF clean_rel_idem clean_rel_idem clean_rel_idem]

section \<open>Levels\<close>

lemma cap_level_min [guard_simps]: "cap_level l c = min l c"
  by (auto simp: cap_level_def min_def)

lemma best_grant_le:
  "best_grant grants rel \<le> l \<longleftrightarrow>
   (\<forall>g \<in> set grants. prefix_contains (clean_rel (grant_path g)) rel \<longrightarrow> parse_level (grant_level g) \<le> l)"
proof -
  have "foldl (\<lambda>best g. if prefix_contains (clean_rel (grant_path g)) rel
        then (let lv = parse_level (grant_level g) in if lv > best then lv else best)
        else best) b grants \<le> l \<longleftrightarrow> b \<le> l \<and>
      (\<forall>g \<in> set grants. prefix_contains (clean_rel (grant_path g)) rel \<longrightarrow> parse_level (grant_level g) \<le> l)" for b
  proof (induction grants arbitrary: b)
    case (Cons g grants)
    show ?case by (simp add: Cons.IH Let_def) (meson le_less_linear less_le_trans order.trans less_imp_le)
  qed simp
  then show ?thesis by (simp add: best_grant_def)
qed

lemma best_grant_ge:
  "l \<le> best_grant grants rel \<longleftrightarrow> l = LevelNone \<or>
   (\<exists>g \<in> set grants. prefix_contains (clean_rel (grant_path g)) rel \<and> l \<le> parse_level (grant_level g))"
proof -
  have "foldl (\<lambda>best g. if prefix_contains (clean_rel (grant_path g)) rel
        then (let lv = parse_level (grant_level g) in if lv > best then lv else best)
        else best) b grants \<ge> l \<longleftrightarrow> l \<le> b \<or>
      (\<exists>g \<in> set grants. prefix_contains (clean_rel (grant_path g)) rel \<and> l \<le> parse_level (grant_level g))" for b
  proof (induction grants arbitrary: b)
    case (Cons g grants)
    show ?case by (simp add: Cons.IH Let_def) (meson le_less_linear less_le_trans order.trans less_imp_le)
  qed simp
  moreover have "l \<le> LevelNone \<longleftrightarrow> l = LevelNone" by (metis antisym level_bot)
  ultimately show ?thesis by (simp add: best_grant_def)
qed

lemma effective_unlocked_ceiling:
  "effective_unlocked s u rel \<le> max (set_ceiling s) (if is_admin u \<and> \<not> in_drafts rel then LevelOwner else LevelNone)"
  by (auto simp: effective_unlocked_def cap_level_min le_max_iff_disj split: option.split)

lemma effective_le_unlocked: "effective (Some s) rel \<le> effective_ignoring_locks (Some s) rel"
  by (auto simp: effective_def effective_ignoring_locks_def Let_def split: option.split)

section \<open>Locks\<close>

lemma put_lock_lookup [simp]: "map_of (put_lock m k l) k' = (if k' = k then Some l else map_of m k')"
  by (induction m) (auto simp: put_lock_def map_add_def split: option.splits)

lemma put_lock_distinct: "distinct (map fst m) \<Longrightarrow> distinct (map fst (put_lock m k l))"
  by (induction m) (auto simp: put_lock_def)

lemma load_locks_distinct: "distinct (map fst (load_locks db now))"
proof -
  have "distinct (map fst out) \<Longrightarrow> distinct (map fst
      (foldl (\<lambda>out l. if lock_live l now then put_lock out (clean_rel (lock_rel l)) l else out) out rows))" for out rows
    by (induction rows arbitrary: out) (auto simp: put_lock_distinct)
  then show ?thesis by (auto simp: load_locks_def split: sum.split)
qed

lemma load_locks_foldl:
  "map_of (foldl (\<lambda>out l. if lock_live l now then put_lock out (clean_rel (lock_rel l)) l else out) out rows) k =
   (case find (\<lambda>l. lock_live l now \<and> clean_rel (lock_rel l) = k) (rev rows) of
      Some l \<Rightarrow> Some l | None \<Rightarrow> map_of out k)"
proof (induction rows arbitrary: out)
  case (Cons l rows)
  have app: "find P (xs @ [x]) = (case find P xs of Some y \<Rightarrow> Some y | None \<Rightarrow> if P x then Some x else None)"
    for P :: "app_plugin_lock \<Rightarrow> bool" and xs x by (induction xs) auto
  show ?case by (simp add: Cons.IH app split: option.split)
qed simp

lemma load_locks_lookup:
  assumes "db_locks db = Inr rows"
  shows "map_of (load_locks db now) k =
    find (\<lambda>l. lock_live l now \<and> clean_rel (lock_rel l) = k) (rev rows)"
  using assms by (simp add: load_locks_def load_locks_foldl split: option.split)

lemma load_locks_Inl: "db_locks db = Inl e \<Longrightarrow> load_locks db now = []"
  by (simp add: load_locks_def)

lemma lock_lookup: "lock (Some s) rel = map_of (set_locks s) (clean_rel rel)"
  by (simp add: lock_def)

lemma lock_row:
  assumes "db_locks db = Inr rows" and "set_locks s = load_locks db now"
  shows "lock (Some s) rel \<noteq> None \<longleftrightarrow> (\<exists>l \<in> set rows. lock_live l now \<and> clean_rel (lock_rel l) = clean_rel rel)"
proof -
  have "find P (rev rows) \<noteq> None \<longleftrightarrow> (\<exists>l \<in> set rows. P l)" for P
    using find_None_all [of P "rev rows"] by simp
  then show ?thesis using assms by (simp add: lock_lookup load_locks_lookup del: not_None_eq)
qed

lemma load_locks_entries: "\<forall>(k, l) \<in> set (load_locks db now). k = clean_rel (lock_rel l) \<and> lock_live l now"
proof -
  have "\<forall>(k, l) \<in> set out. k = clean_rel (lock_rel l) \<and> lock_live l now \<Longrightarrow>
    \<forall>(k, l) \<in> set (foldl (\<lambda>out l. if lock_live l now then put_lock out (clean_rel (lock_rel l)) l else out) out rows).
      k = clean_rel (lock_rel l) \<and> lock_live l now" for out rows
  proof (induction rows arbitrary: out)
    case (Cons r rows)
    have "\<forall>(k, l) \<in> set (if lock_live r now then put_lock out (clean_rel (lock_rel r)) r else out).
        k = clean_rel (lock_rel l) \<and> lock_live l now"
      using Cons.prems by (auto simp: put_lock_def)
    from Cons.IH [OF this] show ?case by simp
  qed auto
  from this [of "[]"] show ?thesis by (cases "db_locks db") (simp_all add: load_locks_def)
qed

text \<open>Whatever the order of the iteration, \<open>LockWithin\<close> finds a lock exactly when one is there.\<close>

lemma lock_within_iff:
  assumes keys: "\<And>k l. (k, l) \<in> set (set_locks s) \<Longrightarrow> clean_rel k = k"
  shows "lock_within (Some s) rel \<noteq> None \<longleftrightarrow>
    (\<exists>(k, l) \<in> set (set_locks s). prefix (norm_rel rel) (norm_rel k))"
proof -
  let ?under = "\<lambda>lrel. clean_rel rel = [] \<or> has_prefix lrel (clean_rel rel @ ''/'')"
  have c: "clean_rel rel = k \<or> ?under k \<longleftrightarrow> prefix (norm_rel rel) (norm_rel k)" if "(k, l) \<in> set (set_locks s)" for k l
    using prefix_contains_iff [of rel k] keys [OF that]
    by (cases "clean_rel rel = []") (auto simp: prefix_contains_def)
  have "lock_within (Some s) rel \<noteq> None \<longleftrightarrow>
      map_of (set_locks s) (clean_rel rel) \<noteq> None \<or> (\<exists>(k, l) \<in> set (set_locks s). ?under k)"
    using find_None_all [of "\<lambda>(lrel, _). ?under lrel" "set_locks s"]
    by (auto simp: lock_within_def Let_def split: option.splits)
  also have "\<dots> \<longleftrightarrow> (\<exists>(k, l) \<in> set (set_locks s). clean_rel rel = k \<or> ?under k)"
    by (force simp: map_of_eq_None_iff)
  also have "\<dots> \<longleftrightarrow> (\<exists>(k, l) \<in> set (set_locks s). prefix (norm_rel rel) (norm_rel k))"
    using c by (intro bex_cong) auto
  finally show ?thesis .
qed

lemma lock_within_in:
  "lock_within (Some s) rel = Some l \<Longrightarrow> \<exists>k. (k, l) \<in> set (set_locks s)"
  by (auto simp: lock_within_def Let_def split: option.splits if_splits
      dest!: map_of_SomeD find_Some_in_set)

section \<open>Loaded sets\<close>

lemma load_set_Inr:
  assumes "load_set db now (Some u) (Some st) = Inr s"
  shows "set_user s = Some u \<and> set_storage s = Some st \<and> set_ceiling s = role_ceiling (user_role u) \<and>
    set_locks s = load_locks db now \<and> set_vaults s = vault_lookup db (st_id st) \<and>
    (case db_perms db of None \<Rightarrow> set_perms s = None
       | Some (Inl e) \<Rightarrow> False | Some (Inr p) \<Rightarrow> set_perms s = Some p) \<and>
    (if is_admin u \<or> \<not> st_rbac st then set_grants s = [] else user_grants db u = Inr (set_grants s))"
  using assms by (auto simp: load_set_def Let_def split: option.splits sum.splits if_splits)

text \<open>The memo of \<open>UserGrants\<close> changes nothing: a group is in scope or it is not.\<close>

lemma via_groups_filter:
  assumes "\<And>i ok. seen i = Some ok \<Longrightarrow> \<exists>gr. db_group db i = Inr gr \<and> ok = group_in_scope gr provider"
    and "via_groups db provider seen out gs = Inr r"
  shows "set r = set out \<union>
    {g \<in> set gs. \<exists>gr. db_group db (grant_group g) = Inr gr \<and> group_in_scope gr provider}"
  using assms
proof (induction gs arbitrary: seen out)
  case (Cons g gs)
  show ?case
  proof (cases "seen (grant_group g)")
    case (Some ok)
    with Cons.prems obtain gr where gr: "db_group db (grant_group g) = Inr gr" "ok = group_in_scope gr provider"
      by blast
    have "via_groups db provider seen (if ok then out @ [g] else out) gs = Inr r"
      using Cons.prems(2) Some by simp
    from Cons.IH [OF Cons.prems(1) this] show ?thesis using gr by auto
  next
    case None
    with Cons.prems(2) obtain gr where gr: "db_group db (grant_group g) = Inr gr"
      and v: "via_groups db provider (seen(grant_group g \<mapsto> group_in_scope gr provider))
        (if group_in_scope gr provider then out @ [g] else out) gs = Inr r"
      by (auto simp: Let_def split: sum.splits)
    have "\<exists>gr'. db_group db i = Inr gr' \<and> ok = group_in_scope gr' provider"
      if "(seen(grant_group g \<mapsto> group_in_scope gr provider)) i = Some ok" for i ok
      using that gr Cons.prems(1) by (auto split: if_splits)
    from Cons.IH [OF this v] show ?thesis using gr by auto
  qed
qed simp

lemma user_grants_set:
  assumes "user_grants db u = Inr r" and "db_grants db = Inr own" and "db_group_grants db = Inr via"
  shows "set r = set own \<union>
    {g \<in> set via. \<exists>gr. db_group db (grant_group g) = Inr gr \<and> group_in_scope gr (user_provider u)}"
  using assms via_groups_filter [of Map.empty db "user_provider u" own via r]
  by (auto simp: user_grants_def split: if_splits)

section \<open>What a set answers\<close>

lemma effective_user:
  "set_user s = Some u \<Longrightarrow> effective (Some s) rel =
    (if lock (Some s) rel \<noteq> None then min LevelViewer (effective_unlocked s u rel) else effective_unlocked s u rel)"
  by (auto simp: effective_def Let_def min_def)

lemma can_do_user:
  "set_user s = Some u \<Longrightarrow> can_do uni (Some s) rel p \<Longrightarrow>
    need_level p \<le> effective (Some s) rel \<and> allows_at (Some s) rel p \<and>
    (p \<in> set [FilesCreate, FilesModify, FilesRename, FilesMove] \<longrightarrow> blocked_extension uni (Some s) rel = [])"
  by (auto simp: can_do_def Let_def not_less split: if_splits intro: order.trans [OF _ level_bot])

lemma can_do_blocked:
  "p \<in> set [FilesCreate, FilesModify, FilesRename, FilesMove] \<Longrightarrow> can_do uni (Some s) rel p \<Longrightarrow>
    blocked_extension uni (Some s) rel = []"
proof (cases "set_user s")
  case None
  then show "can_do uni (Some s) rel p \<Longrightarrow> ?thesis" by (simp add: can_do_def)
next
  case (Some u)
  then show "p \<in> set [FilesCreate, FilesModify, FilesRename, FilesMove] \<Longrightarrow> can_do uni (Some s) rel p \<Longrightarrow> ?thesis"
    using can_do_user by blast
qed

lemma grants_only_lower:
  assumes "set_user s = Some u" "\<not> is_admin u" "set_storage s = Some st" "st_rbac st" "\<not> in_drafts rel"
  shows "l \<le> effective_unlocked s u rel \<longleftrightarrow> l = LevelNone \<or> l \<le> set_ceiling s \<and>
    (\<exists>g \<in> set (set_grants s). prefix (norm_rel (grant_path g)) (norm_rel rel) \<and> l \<le> parse_level (grant_level g))"
  using assms by (auto simp: effective_unlocked_def cap_level_min best_grant_ge prefix_contains_iff)

lemma can_see_rbac:
  assumes "set_user s = Some u" "\<not> is_admin u" "set_storage s = Some st" "st_rbac st"
  shows "can_see (Some s) rel \<longleftrightarrow> LevelViewer \<le> effective (Some s) (clean_rel rel) \<or>
    (\<exists>g \<in> set (set_grants s). prefix (norm_rel rel) (norm_rel (grant_path g)))"
  using assms by (auto simp: can_see_def Let_def list_ex_iff prefix_contains_iff)

lemma viewer_level_locks:
  "set_user s = Some u \<Longrightarrow> LevelViewer \<le> effective (Some s) rel \<longleftrightarrow> LevelViewer \<le> effective_unlocked s u rel"
  by (auto simp: effective_user)

section \<open>Blocked file types\<close>

lemma saved_forms_mem:
  "f \<in> set (saved_forms name) \<longleftrightarrow> f = name \<or> f = trim_right dot_or_space name \<or>
    (\<exists>i > 0. index_byte name (CHR '':'') = Some i \<and> f = trim_right dot_or_space (take i name))"
  by (auto simp: saved_forms_def Let_def split: option.split)

lemma blocked_extension_empty:
  assumes "set_perms s = Some r" and "[] \<notin> set (blocked_extensions (res_settings r))"
  shows "blocked_extension uni (Some s) rel = [] \<longleftrightarrow>
    (\<forall>ext \<in> set (blocked_extensions (res_settings r)).
      \<forall>f \<in> set (saved_forms (to_lower uni (path_base (clean_rel rel)))). \<not> has_suffix f (''.'' @ ext))"
proof -
  let ?exts = "blocked_extensions (res_settings r)"
  let ?forms = "saved_forms (to_lower uni (path_base (clean_rel rel)))"
  show ?thesis
  proof (cases "find (\<lambda>name. blocked_in ?exts name \<noteq> None) ?forms")
    case None
    then have "\<forall>f \<in> set ?forms. \<forall>ext \<in> set ?exts. \<not> has_suffix f (''.'' @ ext)"
      by (simp add: find_None_all blocked_in_def)
    then show ?thesis using None assms(1) by (auto simp: blocked_extension_def Let_def)
  next
    case (Some f)
    from find_Some_in_set [OF this] obtain ext where f: "f \<in> set ?forms" "blocked_in ?exts f = Some ext" by auto
    then have e: "ext \<in> set ?exts" "has_suffix f (''.'' @ ext)"
      using find_Some_in_set unfolding blocked_in_def by fast+
    then have "?exts \<noteq> []" by auto
    then have "blocked_extension uni (Some s) rel = ext"
      using Some f assms(1) by (simp add: blocked_extension_def Let_def)
    then show ?thesis using e f assms(2) by auto
  qed
qed

lemma has_suffix_append [simp]: "has_suffix (a @ b) b"
  by (simp add: has_suffix_def)

lemma trim_right_junk:
  assumes "list_all P junk" and "s \<noteq> []" and "\<not> P (last s)"
  shows "trim_right P (s @ junk) = s"
proof -
  have "dropWhile P (rev junk @ rev s) = dropWhile P (rev s)"
    using assms(1) by (induction junk rule: rev_induct) auto
  also have "\<dots> = rev s" using assms(2,3) by (cases s rule: rev_cases) auto
  finally show ?thesis by (simp add: trim_right_def)
qed

section \<open>A store to try the rules on\<close>

definition clerk :: user where
  "clerk = \<lparr>user_id = 7, user_role = RoleUser, user_provider = Some 1\<rparr>"

definition shared_disk :: storage where
  "shared_disk = \<lparr>st_id = 3, st_rbac = True\<rparr>"

definition office_db :: "string \<Rightarrow> acl_store" where
  "office_db role = \<lparr>db_perms = Some (Inr (resolve (keeper_input role Map.empty))),
     db_locks = Inr [\<lparr>lock_rel = ''Deals/NDA.docx'', lock_plugin = 9, lock_plugin_name = ''sign'', lock_until = None\<rparr>],
     db_grants = Inr [\<lparr>grant_path = ''Deals'', grant_is_dir = True, grant_group = 0, grant_level = GrantOwner\<rparr>],
     db_group_grants = Inr [\<lparr>grant_path = ''Archive/2020'', grant_is_dir = True, grant_group = 2, grant_level = GrantEditor\<rparr>],
     db_group = (\<lambda>_. Inr \<lparr>group_id = 2, group_name = ''b'', group_provider = Some 1, group_role = None, group_priority = 0\<rparr>),
     db_vaults = None\<rparr>"

definition office_set :: "user \<Rightarrow> acl_set" where
  "office_set u = projr (load_set (office_db (user_role u)) 100 (Some u) (Some shared_disk))"

lemma office_loaded: "load_set (office_db (user_role u)) 100 (Some u) (Some shared_disk) = Inr (office_set u)"
proof -
  have "isl (load_set (office_db (user_role u)) 100 (Some u) (Some shared_disk)) = False"
    by (simp add: load_set_def office_db_def shared_disk_def user_grants_def Let_def)
  then show ?thesis unfolding office_set_def by (metis sum.collapse(2))
qed

section \<open>Properties\<close>

text \<open>C4. An app's lock freezes its path for everybody, administrators and owners included, on every
  storage: while it is live, and the lock rows can be read (the code goes on without those it cannot
  read), nobody is above viewer there, so no action that needs more - adding, changing, renaming, moving, deleting, encrypting, sharing - is allowed, however the path is
  spelled. A path with no live lock of its own keeps the level it had.\<close>
theorem frozen_for_everyone:
  assumes "load_set db now (Some u) (Some st) = Inr s" and "db_locks db = Inr rows"
  shows "if list_ex (\<lambda>l. lock_live l now \<and> clean_rel (lock_rel l) = clean_rel rel) rows
    then effective (Some s) rel \<le> LevelViewer \<and> (need_level p > LevelViewer \<longrightarrow> \<not> can_do uni (Some s) rel p)
    else effective (Some s) rel = effective_ignoring_locks (Some s) rel"
proof -
  note L = load_set_Inr [OF assms(1)]
  then have u: "set_user s = Some u" by blast
  have k: "list_ex (\<lambda>l. lock_live l now \<and> clean_rel (lock_rel l) = clean_rel rel) rows \<longleftrightarrow> lock (Some s) rel \<noteq> None"
    unfolding list_ex_iff using lock_row [OF assms(2), of s now rel] L by blast
  show ?thesis
    unfolding k using can_do_user [OF u, of uni rel p]
    by (auto simp: effective_user [OF u] effective_ignoring_locks_def u)
qed

theorem frozen_for_everyone_witness:
  "effective (Some (office_set (clerk\<lparr>user_role := RoleAdmin\<rparr>))) ''/Deals//x/../NDA.docx'' \<le> LevelViewer \<and>
   effective (Some (office_set clerk)) ''Deals/b'' = effective_ignoring_locks (Some (office_set clerk)) ''Deals/b''"
proof -
  let ?rows = "[\<lparr>lock_rel = ''Deals/NDA.docx'', lock_plugin = 9, lock_plugin_name = ''sign'', lock_until = None\<rparr>]"
  have r: "db_locks (office_db role) = Inr ?rows" for role by (simp add: office_db_def)
  have c: "clean_rel ''Deals/NDA.docx'' = clean_rel ''/Deals//x/../NDA.docx''"
    "clean_rel ''Deals/NDA.docx'' \<noteq> clean_rel ''Deals/b''" by code_simp+
  show ?thesis
    using frozen_for_everyone [OF office_loaded r, of "''/Deals//x/../NDA.docx''" "clerk\<lparr>user_role := RoleAdmin\<rparr>"]
      frozen_for_everyone [OF office_loaded r, of "''Deals/b''" clerk] c
    by (simp add: lock_live_def)
qed

text \<open>C5. A person's drafts are theirs alone: inside the drafts area nobody else - an administrator
  included, on every kind of storage, with every grant - has any level, the owner is at most an
  editor, and no action on a path is allowed to anybody else.\<close>
theorem drafts_are_private:
  assumes "load_set db now (Some u) (Some st) = Inr s" and "in_drafts rel"
  shows "(draft_owner rel \<noteq> Some (user_id u) \<longrightarrow>
      effective (Some s) rel = LevelNone \<and> (need_level p > LevelNone \<longrightarrow> \<not> can_do uni (Some s) rel p)) \<and>
    effective (Some s) rel \<le> LevelEditor \<and> \<not> can_do uni (Some s) rel ShareUsers"
proof -
  have u: "set_user s = Some u" using load_set_Inr [OF assms(1)] by blast
  have own: "effective (Some s) rel \<le> LevelEditor"
    using assms(2) by (auto simp: effective_user [OF u] effective_unlocked_def cap_level_min min_le_iff_disj)
  have other: "draft_owner rel \<noteq> Some (user_id u) \<Longrightarrow> effective (Some s) rel = LevelNone"
    using assms(2) antisym [OF _ level_bot] by (auto simp: effective_user [OF u] effective_unlocked_def)
  have "need_level ShareUsers = LevelOwner" by (simp add: need_level_def)
  moreover have "\<not> LevelOwner \<le> LevelEditor" by (simp add: less_eq_level_def)
  ultimately have "\<not> can_do uni (Some s) rel ShareUsers"
    using can_do_user [OF u, of uni rel ShareUsers] own by (metis order.trans)
  then show ?thesis
    using own other can_do_user [OF u, of uni rel p] by (auto simp: less_le_not_le)
qed

theorem drafts_are_private_witness:
  "effective (Some (office_set (clerk\<lparr>user_role := RoleAdmin\<rparr>))) ''.filex-drafts/8/0123abcd/n.docx'' = LevelNone"
proof -
  have "in_drafts ''.filex-drafts/8/0123abcd/n.docx''"
    "draft_owner ''.filex-drafts/8/0123abcd/n.docx'' \<noteq> Some (user_id (clerk\<lparr>user_role := RoleAdmin\<rparr>))"
    by code_simp+
  then show ?thesis using drafts_are_private [OF office_loaded] by blast
qed

text \<open>C6. A viewer account changes nothing: whatever its grants, groups, custom role, exceptions and
  the storage's settings are, its level is at most viewer on every path outside its own drafts
  and no action of the catalogue that adds, changes, deletes or shares is allowed anywhere.\<close>
theorem viewers_change_nothing:
  assumes "load_set db now (Some u) (Some st) = Inr s"
    and "db_perms db = Some (Inr (resolve inp))" and "in_role inp = RoleViewer" and "user_role u = RoleViewer"
  shows "effective (Some s) rel \<le> LevelViewer \<and>
    (can_do uni (Some s) rel p \<longrightarrow> need_level p \<le> LevelViewer \<and>
      (\<exists>d. lookup_def p = Some d \<and> \<not> def_viewer_capped d))"
proof -
  note L = load_set_Inr [OF assms(1)]
  then have u: "set_user s = Some u" and r: "set_perms s = Some (resolve inp)"
    and c: "set_ceiling s = LevelViewer" using assms by (auto simp: role_ceiling_def)
  have "\<not> is_admin u" using assms(4) by (simp add: is_admin_def)
  then have e: "effective (Some s) rel \<le> LevelViewer"
    using effective_unlocked_ceiling [of s u rel] c antisym [OF _ level_bot]
    by (auto simp: effective_user [OF u] max_def split: if_splits intro: order.trans)
  have "\<exists>d. lookup_def p = Some d \<and> \<not> def_viewer_capped d" if "allows_at (Some s) rel p"
    using that hard_lines_facts(1) [OF assms(3)] by (auto simp: allows_at_def u r)
  then show ?thesis using e can_do_user [OF u, of uni rel p] by (blast intro: order.trans)
qed

theorem viewers_change_nothing_witness:
  "\<not> can_do id (Some (office_set (clerk\<lparr>user_role := RoleViewer\<rparr>))) ''Archive/2020/x'' FilesDelete"
proof -
  have 1: "db_perms (office_db role) = Some (Inr (resolve (keeper_input role Map.empty)))" for role
    by (simp add: office_db_def)
  have 2: "in_role (keeper_input RoleViewer Map.empty) = RoleViewer" by (simp add: keeper_input_def)
  have 3: "user_role (clerk\<lparr>user_role := RoleViewer\<rparr>) = RoleViewer" by simp
  have 4: "\<not> need_level FilesDelete \<le> LevelViewer" by code_simp
  show ?thesis
    using viewers_change_nothing [OF office_loaded _ 2 3, of "''Archive/2020/x''" id FilesDelete]
      1 [of "RoleViewer"] 3 4 by simp
qed

text \<open>C7. The level on a storage with access control is what the grants say: outside drafts and locks, a
  person who is no administrator reaches a level exactly when their account's ceiling allows it
  and some grant of that level or more - their own, or one of a group that is in their tenant -
  is on the path or on a folder above it, by whole names.\<close>
theorem level_from_grants:
  assumes "load_set db now (Some u) (Some st) = Inr s" and "st_rbac st" and "\<not> is_admin u"
    and "db_grants db = Inr own" and "db_group_grants db = Inr via"
    and "\<not> in_drafts rel" and "lock (Some s) rel = None"
  shows "l \<le> effective (Some s) rel \<longleftrightarrow> l = LevelNone \<or> l \<le> role_ceiling (user_role u) \<and>
    (\<exists>g \<in> set own \<union> {g \<in> set via. \<exists>gr. db_group db (grant_group g) = Inr gr \<and> group_in_scope gr (user_provider u)}.
       prefix (norm_rel (grant_path g)) (norm_rel rel) \<and> l \<le> parse_level (grant_level g))"
proof -
  note L = load_set_Inr [OF assms(1)]
  then have u: "set_user s = Some u" by blast
  have "user_grants db u = Inr (set_grants s)" using L assms(2,3) by simp
  from user_grants_set [OF this assms(4,5)] show ?thesis
    using grants_only_lower [OF u assms(3) _ assms(2,6), of l] L assms(7)
    by (simp add: effective_user [OF u])
qed

theorem level_from_grants_witness:
  "LevelEditor \<le> effective (Some (office_set clerk)) ''Archive/2020/q.txt''"
proof -
  have 1: "\<not> is_admin clerk" "st_rbac shared_disk" by (simp_all add: is_admin_def clerk_def shared_disk_def)
  have 2: "\<not> in_drafts ''Archive/2020/q.txt''" by code_simp
  have n: "norm_rel ''Archive/2020'' = [''Archive'', ''2020'']" "norm_rel ''Archive/2020/q.txt'' = [''Archive'', ''2020'', ''q.txt'']"
    "clean_rel ''Deals/NDA.docx'' \<noteq> clean_rel ''Archive/2020/q.txt''" by code_simp+
  have 3: "lock (Some (office_set clerk)) ''Archive/2020/q.txt'' = None"
  proof -
    have "set_locks (office_set clerk) = load_locks (office_db (user_role clerk)) 100"
      using load_set_Inr [OF office_loaded] by blast
    then show ?thesis
      using lock_row [of "office_db (user_role clerk)" _ "office_set clerk" 100 "''Archive/2020/q.txt''"] n
      by (auto simp: office_db_def)
  qed
  obtain own via where g: "db_grants (office_db (user_role clerk)) = Inr own"
      "db_group_grants (office_db (user_role clerk)) = Inr via" by (simp add: office_db_def)
  have "set via = {\<lparr>grant_path = ''Archive/2020'', grant_is_dir = True, grant_group = 2, grant_level = GrantEditor\<rparr>}"
    using g by (auto simp: office_db_def)
  then show ?thesis
    using level_from_grants [OF office_loaded 1(2,1) g 2 3, of LevelEditor] n
    by (auto simp: office_db_def clerk_def group_in_scope_def role_ceiling_def parse_level_def)
qed

text \<open>A listing never shows a file it gives no way to: on a storage with access control, what a
  person sees, they also see every folder above (outside drafts), so the way down to each
  granted path is open from the root; and what they see without a level is only such a folder.\<close>
theorem seen_from_the_root:
  assumes "load_set db now (Some u) (Some st) = Inr s" and "st_rbac st" and "\<not> is_admin u"
    and "can_see (Some s) rel" and "prefix (norm_rel anc) (norm_rel rel)"
    and "\<not> in_drafts (clean_rel anc)" and "\<not> in_drafts (clean_rel rel)"
  shows "can_see (Some s) anc \<and>
    (\<not> LevelViewer \<le> effective (Some s) (clean_rel rel) \<longrightarrow>
      (\<exists>g \<in> set (set_grants s). prefix (norm_rel rel) (norm_rel (grant_path g))))"
proof -
  note L = load_set_Inr [OF assms(1)]
  then have u: "set_user s = Some u" and st: "set_storage s = Some st" by blast+
  note see = can_see_rbac [OF u assms(3) st assms(2)]
  have lv: "LevelViewer \<le> effective (Some s) (clean_rel q) \<longleftrightarrow> LevelViewer \<le> set_ceiling s \<and>
      (\<exists>g \<in> set (set_grants s). prefix (norm_rel (grant_path g)) (norm_rel q) \<and> LevelViewer \<le> parse_level (grant_level g))"
    if "\<not> in_drafts (clean_rel q)" for q
    unfolding viewer_level_locks [OF u] grants_only_lower [OF u assms(3) st assms(2) that]
    by (simp add: norm_clean_rel)
  have "can_see (Some s) anc"
  proof (cases "LevelViewer \<le> effective (Some s) (clean_rel rel)")
    case True
    then obtain g where g: "g \<in> set (set_grants s)" "prefix (norm_rel (grant_path g)) (norm_rel rel)"
      "LevelViewer \<le> parse_level (grant_level g)" "LevelViewer \<le> set_ceiling s"
      using lv [OF assms(7)] by blast
    from clean_comparable [of "grant_path g" rel anc] g(2) assms(5)
    have "prefix (norm_rel (grant_path g)) (norm_rel anc) \<or> prefix (norm_rel anc) (norm_rel (grant_path g))"
      by (simp add: prefix_contains_iff)
    then show ?thesis using g lv [OF assms(6)] unfolding see by blast
  next
    case False
    then show ?thesis using assms(4,5) unfolding see by (blast intro: prefix_order.trans)
  qed
  then show ?thesis using assms(4) unfolding see by blast
qed

theorem seen_from_the_root_witness:
  "can_see (Some (office_set clerk)) ''Archive''"
proof -
  have 1: "\<not> is_admin clerk" "st_rbac shared_disk" by (simp_all add: is_admin_def clerk_def shared_disk_def)
  have 2: "\<not> in_drafts (clean_rel ''Archive'')" "\<not> in_drafts (clean_rel ''Archive/2020'')" by code_simp+
  have 3: "prefix (norm_rel ''Archive'') (norm_rel ''Archive/2020'')" by code_simp
  have u: "set_user (office_set clerk) = Some clerk" "set_storage (office_set clerk) = Some shared_disk"
    using load_set_Inr [OF office_loaded] by blast+
  have "user_grants (office_db (user_role clerk)) clerk = Inr (set_grants (office_set clerk))"
    using load_set_Inr [OF office_loaded, of clerk] 1 by simp
  then have "\<exists>g \<in> set (set_grants (office_set clerk)). grant_path g = ''Archive/2020''"
    by (auto simp: user_grants_def office_db_def group_in_scope_def clerk_def Let_def
        dest!: arg_cong [where f = set] sym [where t = "set_grants _"])
  then have "can_see (Some (office_set clerk)) ''Archive/2020''"
    unfolding can_see_rbac [OF u(1) 1(1) u(2) 1(2)] using prefix_order.refl by metis
  then show ?thesis using seen_from_the_root [OF office_loaded 1(2,1) _ 3 2] by blast
qed

text \<open>A blocked file type cannot arrive under a spelling that becomes it once saved: a name that
  ends in a blocked extension, also in front of trailing dots and spaces or of an NTFS stream
  name, in any case of its ASCII letters, is refused for adding, changing, renaming and moving.\<close>
theorem blocked_types_refused:
  assumes "set_perms s = Some r" and "ext \<in> set (blocked_extensions (res_settings r))"
    and "[] \<notin> set (blocked_extensions (res_settings r))" and "\<not> dot_or_space (last ext)"
    and "CHR '':'' \<notin> set (stem @ ''.'' @ ext @ junk)" and "list_all dot_or_space junk"
    and "to_lower uni (path_base (clean_rel rel)) = stem @ ''.'' @ ext @ junk @ stream"
    and "stream = [] \<or> hd stream = CHR '':''"
    and "p \<in> set [FilesCreate, FilesModify, FilesRename, FilesMove]"
  shows "\<not> can_do uni (Some s) rel p"
proof -
  let ?full = "stem @ ''.'' @ ext"
  have ne: "ext \<noteq> []" using assms(2,3) by auto
  have last: "?full \<noteq> []" "\<not> dot_or_space (last ?full)" using ne assms(4) by auto
  have trim: "trim_right dot_or_space (?full @ junk) = ?full"
    using trim_right_junk [OF assms(6) last] .
  have "?full \<in> set (saved_forms (to_lower uni (path_base (clean_rel rel))))"
  proof (cases "stream = []")
    case True
    then show ?thesis using assms(7) trim by (simp add: saved_forms_mem)
  next
    case False
    then obtain rest where st: "stream = CHR '':'' # rest" using assms(8) by (cases stream) auto
    have idx: "index_of (xs @ CHR '':'' # rest) '':'' = Some (length xs)" if "CHR '':'' \<notin> set xs" for xs
      using that
    proof (induction xs)
      case Nil
      then show ?case by (subst index_of.simps) (simp add: has_prefix_def)
    next
      case (Cons x xs)
      then show ?case by (subst (1) index_of.simps) (auto simp: has_prefix_def)
    qed
    let ?head = "stem @ ''.'' @ ext @ junk"
    have "index_byte (?head @ stream) (CHR '':'') = Some (length ?head)"
      unfolding index_byte_def st by (rule idx [OF assms(5)])
    moreover have "trim_right dot_or_space (take (length ?head) (?head @ stream)) = ?full" using trim by simp
    moreover have "0 < length ?head" by simp
    moreover have "to_lower uni (path_base (clean_rel rel)) = ?head @ stream" using assms(7) by simp
    ultimately show ?thesis unfolding saved_forms_mem by metis
  qed
  then have "blocked_extension uni (Some s) rel \<noteq> []"
    using assms(2) has_suffix_append [of stem "''.'' @ ext"]
    unfolding blocked_extension_empty [OF assms(1,3)] by blast
  then show ?thesis using can_do_blocked [OF assms(9)] by blast
qed

theorem blocked_types_refused_witness:
  "\<not> can_do id (Some \<lparr>set_user = Some clerk, set_storage = None, set_grants = [], set_ceiling = LevelOwner,
      set_perms = Some ((resolve (keeper_input RoleUser Map.empty))\<lparr>res_settings := no_settings\<lparr>blocked_extensions := [''exe'']\<rparr>\<rparr>),
      set_locks = [], set_vaults = None\<rparr>) ''a/Setup.EXE. :s'' FilesCreate"
proof -
  have 1: "to_lower id (path_base (clean_rel ''a/Setup.EXE. :s'')) = ''setup'' @ ''.'' @ ''exe'' @ ''. '' @ '':s''"
    by code_simp
  have 2: "\<not> dot_or_space (last ''exe'')" "CHR '':'' \<notin> set (''setup'' @ ''.'' @ ''exe'' @ ''. '')"
    "list_all dot_or_space ''. ''" by code_simp+
  let ?r = "(resolve (keeper_input RoleUser Map.empty))\<lparr>res_settings := no_settings\<lparr>blocked_extensions := [''exe'']\<rparr>\<rparr>"
  have 3: "blocked_extensions (res_settings ?r) = [''exe'']" by (cases "resolve (keeper_input RoleUser Map.empty)") simp
  show ?thesis
    by (rule blocked_types_refused [where r = ?r, OF _ _ _ 2 1]) (simp_all only: 3, simp_all)
qed

section \<open>Where the code and its documentation part\<close>

text \<open>\<open>model/grant.go\<close> says of a grant on a file that it applies to that exact path only; the
  resolver does not read \<open>IsDir\<close>, so such a grant also covers everything below the path.\<close>

lemma file_grant_covers_below:
  "best_grant [g\<lparr>grant_is_dir := False, grant_path := ''report'', grant_level := GrantEditor\<rparr>] ''report/2024.txt''
   = LevelEditor"
proof -
  have "prefix_contains (clean_rel ''report'') ''report/2024.txt''" by code_simp
  then show ?thesis by (simp add: best_grant_def parse_level_def less_level_def Let_def)
qed

end
