(* ===== verification/Writegate.thy ===== *)
theory Writegate
  imports AclRules
begin

text \<open>
  \<open>internal/writegate\<close>: the one question every write asks before it touches a storage. The
  two Go interfaces it is asked through (\<open>Locks\<close>, \<open>Vaults\<close>) are a record of their functions,
  \<open>lock_source\<close>; what the gate relies on of the lock side is the locale \<open>frozen_paths\<close>, and
  its interpretation \<open>live_locks\<close> is the access control's own lock view.
\<close>

section \<open>Targets\<close>

record target =
  tgt_rel :: string
  tgt_verb :: verb
  tgt_person :: int
  tgt_named :: bool
  tgt_vault :: bool
  tgt_key_file :: bool

definition writes :: "string \<Rightarrow> target" where
  "writes rel = \<lparr>tgt_rel = rel, tgt_verb = Change, tgt_person = 0, tgt_named = False,
     tgt_vault = False, tgt_key_file = False\<rparr>"

definition names :: "string \<Rightarrow> target" where
  "names rel = \<lparr>tgt_rel = rel, tgt_verb = Change, tgt_person = 0, tgt_named = True,
     tgt_vault = False, tgt_key_file = False\<rparr>"

definition as_verb :: "target \<Rightarrow> verb \<Rightarrow> target" where
  "as_verb t v = t\<lparr>tgt_verb := v\<rparr>"

definition by_person :: "target \<Rightarrow> int \<Rightarrow> target" where
  "by_person t p = t\<lparr>tgt_person := p\<rparr>"

definition for_vault :: "target \<Rightarrow> target" where
  "for_vault t = t\<lparr>tgt_vault := True\<rparr>"

definition rewrites_key_file :: "target \<Rightarrow> target" where
  "rewrites_key_file t = t\<lparr>tgt_key_file := True\<rparr>"

datatype refusal =
    ReservedError string
  | VaultPathError string string bool
  | LockedError app_plugin_lock string

record lock_source =
  src_within :: "string \<Rightarrow> app_plugin_lock option"
  src_vaults :: "(string \<Rightarrow> string option) option"

text \<open>A \<open>*acl.Set\<close> as the gate sees it; it implements both interfaces.\<close>

definition set_source :: "acl_set option \<Rightarrow> lock_source" where
  "set_source s = \<lparr>src_within = lock_within s, src_vaults = Some (vault_root s)\<rparr>"

section \<open>The gate\<close>

definition gate_clean :: "string \<Rightarrow> string" where
  "gate_clean rel = (let rel = clean_slash (trim_slash rel) in if rel = ''.'' then [] else rel)"

definition vault_rule :: "(string \<Rightarrow> string option) \<Rightarrow> target \<Rightarrow> refusal option" where
  "vault_rule v t =
     (if tgt_vault t then None
      else let rel = gate_clean (tgt_rel t) in
        case v rel of
          None \<Rightarrow> None
        | Some root0 \<Rightarrow>
          let root = gate_clean root0 in
          if rel = root then None
          else if rel = trim_prefix (root @ ''/'' @ E2EKeyFile) ''/'' then
            (if tgt_named t \<or> tgt_key_file t then None else Some (VaultPathError root rel True))
          else Some (VaultPathError root rel False))"

fun first_refusal :: "(target \<Rightarrow> refusal option) \<Rightarrow> target list \<Rightarrow> refusal option" where
  "first_refusal f [] = None"
| "first_refusal f (t # ts) = (case f t of Some e \<Rightarrow> Some e | None \<Rightarrow> first_refusal f ts)"

definition reserved_rule :: "target \<Rightarrow> refusal option" where
  "reserved_rule t = (if refused_by (tgt_verb t) (tgt_rel t) (tgt_person t)
     then Some (ReservedError (tgt_rel t)) else None)"

definition lock_rule :: "lock_source \<Rightarrow> int \<Rightarrow> target \<Rightarrow> refusal option" where
  "lock_rule locks app t =
     (if tgt_named t then None
      else case src_within locks (tgt_rel t) of
        None \<Rightarrow> None
      | Some l \<Rightarrow> if app = 0 \<or> lock_plugin l \<noteq> app then Some (LockedError l (tgt_rel t)) else None)"

definition check :: "lock_source option \<Rightarrow> int \<Rightarrow> target list \<Rightarrow> refusal option" where
  "check locks app ts =
     (case first_refusal reserved_rule ts of
        Some e \<Rightarrow> Some e
      | None \<Rightarrow>
        (case locks of
           None \<Rightarrow> None
         | Some l \<Rightarrow>
           (case (case src_vaults l of None \<Rightarrow> None | Some v \<Rightarrow> first_refusal (vault_rule v) ts) of
              Some e \<Rightarrow> Some e
            | None \<Rightarrow> first_refusal (lock_rule l app) ts)))"

definition refuses_mounted :: "lock_source option \<Rightarrow> string \<Rightarrow> bool" where
  "refuses_mounted locks rel \<longleftrightarrow> check locks 0 [as_verb (writes rel) Mounted] \<noteq> None"

section \<open>What the gate relies on\<close>

text \<open>
  The laws of the \<open>Locks\<close> interface: \<open>frozen\<close> holds the segments of each locked path with its
  lock, and \<open>LockWithin\<close> answers some lock at or below a path, whenever there is one.
\<close>

locale frozen_paths =
  fixes within :: "string \<Rightarrow> app_plugin_lock option"
    and frozen :: "(string list \<times> app_plugin_lock) set"
  assumes within_sound: "within rel = Some l \<Longrightarrow> \<exists>segs. (segs, l) \<in> frozen \<and> prefix (norm_rel rel) segs"
    and within_complete: "(segs, l) \<in> frozen \<Longrightarrow> prefix (norm_rel rel) segs \<Longrightarrow> within rel \<noteq> None"
begin

lemma person_rule:
  "src_within locks = within \<Longrightarrow> lock_rule locks 0 t = None \<longleftrightarrow>
    tgt_named t \<or> \<not> (\<exists>(segs, l) \<in> frozen. prefix (norm_rel (tgt_rel t)) segs)"
  using within_sound within_complete by (fastforce simp: lock_rule_def split: option.split)

lemma app_rule:
  "src_within locks = within \<Longrightarrow> lock_rule locks app t = None \<Longrightarrow> \<not> tgt_named t \<Longrightarrow>
    (segs, l) \<in> frozen \<Longrightarrow> prefix (norm_rel (tgt_rel t)) segs \<Longrightarrow>
    app \<noteq> 0 \<and> (\<exists>(segs', l') \<in> frozen. prefix (norm_rel (tgt_rel t)) segs' \<and> lock_plugin l' = app)"
  using within_sound within_complete by (fastforce simp: lock_rule_def split: option.splits if_splits)

lemma other_app_refused:
  "src_within locks = within \<Longrightarrow> \<not> tgt_named t \<Longrightarrow> (segs, l) \<in> frozen \<Longrightarrow> prefix (norm_rel (tgt_rel t)) segs \<Longrightarrow>
    \<forall>(segs', l') \<in> frozen. prefix (norm_rel (tgt_rel t)) segs' \<longrightarrow> lock_plugin l' \<noteq> app \<Longrightarrow>
    lock_rule locks app t \<noteq> None"
  using app_rule [of locks app t segs l] by blast

end

lemma lock_within_prefix:
  assumes "\<And>k l. (k, l) \<in> set (set_locks s) \<Longrightarrow> clean_rel k = k" and "lock_within (Some s) rel = Some l"
  shows "\<exists>k. (k, l) \<in> set (set_locks s) \<and> prefix (norm_rel rel) (norm_rel k)"
proof -
  have c: "prefix (norm_rel rel) (norm_rel k)"
    if "(k, l) \<in> set (set_locks s)" "clean_rel rel = k \<or> clean_rel rel = [] \<or> has_prefix k (clean_rel rel @ ''/'')" for k l
    using prefix_contains_iff [of rel k] assms(1) [OF that(1)] that(2)
    by (cases "clean_rel rel = []") (auto simp: prefix_contains_def)
  show ?thesis
  proof (cases "map_of (set_locks s) (clean_rel rel)")
    case (Some l')
    then have "l' = l" "(clean_rel rel, l) \<in> set (set_locks s)"
      using assms(2) by (auto simp: lock_within_def Let_def dest: map_of_SomeD split: if_splits)
    then show ?thesis using c by blast
  next
    case None
    then obtain k where "(k, l) \<in> set (set_locks s)" "clean_rel rel = [] \<or> has_prefix k (clean_rel rel @ ''/'')"
      using assms(2) by (auto simp: lock_within_def Let_def dest!: find_Some_in_set split: if_splits)
    then show ?thesis using c by blast
  qed
qed

lemma view_keys: "(k, l) \<in> set (load_locks db now) \<Longrightarrow> clean_rel k = k \<and> k = clean_rel (lock_rel l) \<and> lock_live l now"
  using load_locks_entries [of db now] by (auto simp: clean_rel_idem)

interpretation live_locks: frozen_paths "lock_within (Some (locks_view db now st))"
    "(\<lambda>(k, l). (norm_rel k, l)) ` set (load_locks db now)" for db now st
proof
  have keys: "\<And>k l. (k, l) \<in> set (set_locks (locks_view db now st)) \<Longrightarrow> clean_rel k = k"
    using view_keys by (auto simp: locks_view_def)
  show "\<exists>segs. (segs, l) \<in> (\<lambda>(k, l). (norm_rel k, l)) ` set (load_locks db now) \<and> prefix (norm_rel rel) segs"
    if "lock_within (Some (locks_view db now st)) rel = Some l" for rel l
    using lock_within_prefix [OF keys that] by (force simp: locks_view_def)
  show "lock_within (Some (locks_view db now st)) rel \<noteq> None"
    if "(segs, l) \<in> (\<lambda>(k, l). (norm_rel k, l)) ` set (load_locks db now)" "prefix (norm_rel rel) segs" for segs l rel
    using that lock_within_iff [OF keys, where rel = rel] by (fastforce simp: locks_view_def)
qed

text \<open>The frozen paths are those of the live rows: a later row of the same path replaces an earlier.\<close>

lemma frozen_rows:
  assumes "db_locks db = Inr rows"
  shows "(\<exists>(segs, l) \<in> (\<lambda>(k, l). (norm_rel k, l)) ` set (load_locks db now). prefix p segs) \<longleftrightarrow>
    (\<exists>l \<in> set rows. lock_live l now \<and> prefix p (norm_rel (lock_rel l)))"
proof
  assume "\<exists>(segs, l) \<in> (\<lambda>(k, l). (norm_rel k, l)) ` set (load_locks db now). prefix p segs"
  then obtain k l where kl: "(k, l) \<in> set (load_locks db now)" "prefix p (norm_rel k)" by auto
  then have "map_of (load_locks db now) k = Some l" using load_locks_distinct by simp
  then have "l \<in> set rows"
    unfolding load_locks_lookup [OF assms] using find_Some_in_set by fastforce
  then show "\<exists>l \<in> set rows. lock_live l now \<and> prefix p (norm_rel (lock_rel l))"
    using kl view_keys norm_clean_rel by metis
next
  assume "\<exists>l \<in> set rows. lock_live l now \<and> prefix p (norm_rel (lock_rel l))"
  then obtain l where l: "l \<in> set rows" "lock_live l now" "prefix p (norm_rel (lock_rel l))" by blast
  then have "find (\<lambda>l'. lock_live l' now \<and> clean_rel (lock_rel l') = clean_rel (lock_rel l)) (rev rows) \<noteq> None"
    by (auto simp: find_None_all simp del: not_None_eq)
  then obtain l' where "(clean_rel (lock_rel l), l') \<in> set (load_locks db now)"
    using load_locks_lookup [OF assms, of now "clean_rel (lock_rel l)"] map_of_SomeD by fastforce
  then show "\<exists>(segs, l) \<in> (\<lambda>(k, l). (norm_rel k, l)) ` set (load_locks db now). prefix p segs"
    using l(3) by (force simp: norm_clean_rel)
qed

section \<open>What the gate answers\<close>

lemma first_refusal_None [guard_simps]: "first_refusal f ts = None \<longleftrightarrow> (\<forall>t \<in> set ts. f t = None)"
  by (induction ts) (auto split: option.split)

lemma check_None [guard_simps]:
  "check (Some l) app ts = None \<longleftrightarrow>
    (\<forall>t \<in> set ts. reserved_rule t = None \<and>
      (case src_vaults l of None \<Rightarrow> True | Some v \<Rightarrow> vault_rule v t = None) \<and> lock_rule l app t = None)"
proof -
  have "check (Some l) app ts = None \<longleftrightarrow> first_refusal reserved_rule ts = None \<and>
      (case src_vaults l of None \<Rightarrow> None | Some v \<Rightarrow> first_refusal (vault_rule v) ts) = None \<and>
      first_refusal (lock_rule l app) ts = None"
    by (simp add: check_def split: option.split)
  then show ?thesis by (cases "src_vaults l") (auto simp: first_refusal_None)
qed

declare norm_trim_slash [path_simps]

lemma gate_clean_rel [path_simps]: "gate_clean rel = clean_rel rel"
  using clean_slash_not_dot [of rel]
  by (simp add: gate_clean_def clean_rel_slash Let_def clean_slash_join norm_trim_slash)

text \<open>Where inside a vault a target may be, as segments.\<close>

lemma vault_rule_None:
  "vault_rule v t = None \<longleftrightarrow> tgt_vault t \<or>
    (case v (clean_rel (tgt_rel t)) of
       None \<Rightarrow> True
     | Some root \<Rightarrow> norm_rel (tgt_rel t) = norm_rel root \<or>
         norm_rel (tgt_rel t) = norm_rel root @ [E2EKeyFile] \<and> (tgt_named t \<or> tgt_key_file t))"
proof -
  have kf: "seg_ok E2EKeyFile" by code_simp
  have j: "trim_prefix (clean_rel root @ ''/'' @ E2EKeyFile) ''/'' = join slash (norm_rel root @ [E2EKeyFile])" for root
  proof (cases "norm_rel root = []")
    case True
    then show ?thesis by (simp add: clean_rel_slash clean_slash_join trim_prefix_def has_prefix_def)
  next
    case False
    then have "hd (clean_rel root) \<noteq> slash" "clean_rel root \<noteq> []"
      using join_last_ok [OF False] norm_rel_ok by (auto simp: clean_rel_slash clean_slash_join)
    then show ?thesis
      using False by (cases "clean_rel root")
        (auto simp: trim_prefix_def has_prefix_def join_append clean_rel_slash clean_slash_join)
  qed
  have e: "clean_rel rel = trim_prefix (clean_rel root @ ''/'' @ E2EKeyFile) ''/'' \<longleftrightarrow>
      norm_rel rel = norm_rel root @ [E2EKeyFile]" for rel root
  proof -
    have "norm_rel (join slash (norm_rel root @ [E2EKeyFile])) = norm_rel root @ [E2EKeyFile]"
      using kf norm_rel_ok by (intro norm_rel_join) auto
    moreover have "clean_rel rel = join slash (norm_rel rel)" by (simp add: clean_rel_slash clean_slash_join)
    ultimately show ?thesis unfolding j by (metis norm_clean_rel)
  qed
  show ?thesis
    unfolding vault_rule_def Let_def gate_clean_rel e clean_rel_eq_iff by (auto split: option.split)
qed

section \<open>Properties\<close>

text \<open>C8. The gate, exactly, when the lock rows could be read: a write with no app behind it passes if
  and only if no target is one of filex's own names under its verb and person, none that it changes has a live app lock on it
  or anywhere below it (however either path is spelled), and none is strictly inside a vault
  folder unless the vault API claims it or it is the vault's key file, named or rewritten.\<close>
theorem gate_exact:
  assumes "db_locks db = Inr rows"
  shows "check (Some (set_source (Some (locks_view db now st)))) 0 ts = None \<longleftrightarrow>
    (\<forall>t \<in> set ts.
      \<not> refused_by (tgt_verb t) (tgt_rel t) (tgt_person t) \<and>
      (tgt_named t \<or>
        \<not> (\<exists>l \<in> set rows. lock_live l now \<and> prefix (norm_rel (tgt_rel t)) (norm_rel (lock_rel l)))) \<and>
      (tgt_vault t \<or>
        (case vault_root (Some (locks_view db now st)) (clean_rel (tgt_rel t)) of
           None \<Rightarrow> True
         | Some root \<Rightarrow> norm_rel (tgt_rel t) = norm_rel root \<or>
             norm_rel (tgt_rel t) = norm_rel root @ [E2EKeyFile] \<and> (tgt_named t \<or> tgt_key_file t))))"
proof -
  have "lock_rule (set_source (Some (locks_view db now st))) 0 t = None \<longleftrightarrow>
      tgt_named t \<or> \<not> (\<exists>l \<in> set rows. lock_live l now \<and> prefix (norm_rel (tgt_rel t)) (norm_rel (lock_rel l)))" for t
    unfolding frozen_rows [OF assms, symmetric] by (rule live_locks.person_rule) (simp add: set_source_def)
  then show ?thesis
    unfolding check_None vault_rule_None [of _ "_ :: target"]
    by (simp add: set_source_def vault_rule_None reserved_rule_def) blast
qed

theorem gate_exact_witness:
  "check (Some (set_source (Some (locks_view (office_db RoleUser) 100 3)))) 0 [names ''Deals'', writes ''Deals/b''] = None \<and>
   check (Some (set_source (Some (locks_view (office_db RoleUser) 100 3)))) 0 [writes ''Deals''] \<noteq> None"
proof -
  have r: "db_locks (office_db RoleUser) =
      Inr [\<lparr>lock_rel = ''Deals/NDA.docx'', lock_plugin = 9, lock_plugin_name = ''sign'', lock_until = None\<rparr>]"
    by (simp add: office_db_def)
  have n: "\<not> prefix (norm_rel ''Deals/b'') (norm_rel ''Deals/NDA.docx'')"
    "prefix (norm_rel ''Deals'') (norm_rel ''Deals/NDA.docx'')"
    "\<not> refused_by Change ''Deals'' 0" "\<not> refused_by Change ''Deals/b'' 0" by code_simp+
  have v: "vault_root (Some (locks_view (office_db RoleUser) 100 3)) q = None" for q
    by (simp add: vault_root_def locks_view_def vault_lookup_def office_db_def)
  show ?thesis
    using gate_exact [OF r, of 100 3 "[names ''Deals'', writes ''Deals/b'']"] gate_exact [OF r, of 100 3 "[writes ''Deals'']"] n
    by (simp add: v names_def writes_def lock_live_def)
qed

text \<open>An app reaches only what it froze itself: when the gate lets an app write, then on every
  target with a live lock on the very path, the lock is that app's own; a target with locks
  only below it has one of that app's among them; and where every lock at or below a target is
  another's, the app is refused.\<close>
theorem apps_write_their_own:
  assumes "db_locks db = Inr rows"
    and "check (Some (set_source (Some (locks_view db now st)))) app ts = None"
    and "t \<in> set ts" and "\<not> tgt_named t"
    and "l \<in> set rows" and "lock_live l now" and "prefix (norm_rel (tgt_rel t)) (norm_rel (lock_rel l))"
  shows "app \<noteq> 0 \<and> (\<exists>l' \<in> set rows. lock_live l' now \<and> lock_plugin l' = app \<and>
      prefix (norm_rel (tgt_rel t)) (norm_rel (lock_rel l'))) \<and>
    (\<forall>l'. lock (Some (locks_view db now st)) (tgt_rel t) = Some l' \<longrightarrow> lock_plugin l' = app)"
proof -
  let ?s = "locks_view db now st" and ?F = "(\<lambda>(k, l). (norm_rel k, l)) ` set (load_locks db now)"
  have rule: "lock_rule (set_source (Some ?s)) app t = None"
    using assms(2,3) unfolding check_None by blast
  have "\<exists>(segs, l) \<in> ?F. prefix (norm_rel (tgt_rel t)) segs"
    using frozen_rows [OF assms(1), where p = "norm_rel (tgt_rel t)" and now = now] assms(5-7) by blast
  then obtain x where x: "x \<in> ?F" "case x of (segs, l) \<Rightarrow> prefix (norm_rel (tgt_rel t)) segs"
    by (rule bexE)
  obtain segs l1 where "x = (segs, l1)" by (cases x)
  with x have f: "(segs, l1) \<in> ?F" "prefix (norm_rel (tgt_rel t)) segs" by simp_all
  have "app \<noteq> 0 \<and> (\<exists>(segs', l') \<in> ?F. prefix (norm_rel (tgt_rel t)) segs' \<and> lock_plugin l' = app)"
    by (rule live_locks.app_rule [OF _ rule assms(4) f]) (simp add: set_source_def)
  then obtain k l' where a: "app \<noteq> 0" "(k, l') \<in> set (load_locks db now)"
      "prefix (norm_rel (tgt_rel t)) (norm_rel k)" "lock_plugin l' = app" by auto
  then have "map_of (load_locks db now) k = Some l'" using load_locks_distinct by simp
  then have "l' \<in> set rows"
    unfolding load_locks_lookup [OF assms(1)] using find_Some_in_set by fastforce
  moreover have "lock_plugin l'' = app" if "lock (Some ?s) (tgt_rel t) = Some l''" for l''
  proof -
    have "lock_within (Some ?s) (tgt_rel t) = Some l''"
      using that by (auto simp: lock_within_def lock_def Let_def split: if_splits)
    then show ?thesis using rule assms(4) by (auto simp: lock_rule_def set_source_def split: if_splits)
  qed
  moreover have "lock_live l' now" "norm_rel k = norm_rel (lock_rel l')"
    using view_keys [OF a(2)] norm_clean_rel by auto
  ultimately show ?thesis using a by auto
qed

theorem apps_write_their_own_witness:
  "check (Some (set_source (Some (locks_view (office_db RoleUser) 100 3)))) 9 [writes ''Deals/NDA.docx''] = None \<and>
   map_option lock_plugin (lock (Some (locks_view (office_db RoleUser) 100 3)) ''Deals/NDA.docx'') = Some 9"
proof -
  let ?l = "\<lparr>lock_rel = ''Deals/NDA.docx'', lock_plugin = 9, lock_plugin_name = ''sign'', lock_until = None\<rparr>"
  have r: "db_locks (office_db RoleUser) = Inr [?l]" by (simp add: office_db_def)
  have c: "clean_rel ''Deals/NDA.docx'' = ''Deals/NDA.docx''" "\<not> refused_by Change ''Deals/NDA.docx'' 0" by code_simp+
  have k: "check (Some (set_source (Some (locks_view (office_db RoleUser) 100 3)))) 9 [writes ''Deals/NDA.docx''] = None"
    using c by (simp add: check_None set_source_def reserved_rule_def writes_def vault_rule_None vault_root_def
      locks_view_def vault_lookup_def office_db_def lock_rule_def lock_within_def load_locks_def lock_live_def put_lock_def)
  obtain l where l: "lock (Some (locks_view (office_db RoleUser) 100 3)) ''Deals/NDA.docx'' = Some l"
    using c by (simp add: lock_def locks_view_def load_locks_def office_db_def lock_live_def put_lock_def)
  have "lock_plugin l = 9"
    using apps_write_their_own [OF r k, of "writes ''Deals/NDA.docx''" ?l] l
    by (simp add: writes_def lock_live_def)
  then show ?thesis using k l by simp
qed

section \<open>Where the code falls short of its promise\<close>

text \<open>The package promises that nothing removes a folder around a path an app froze, except the app
  that holds the lock. \<open>LockWithin\<close> answers one lock below a folder, whichever the map
  iteration meets first: an app with a lock of its own in the folder passes the gate although
  another app's document in it is frozen, and is refused when the iteration goes the other way.\<close>

definition two_apps :: "bool \<Rightarrow> acl_set" where
  "two_apps first = (locks_view (office_db RoleUser) 100 3)\<lparr>set_locks :=
     (let a = \<lparr>lock_rel = ''Deals/a'', lock_plugin = 9, lock_plugin_name = ''sign'', lock_until = None\<rparr>;
          b = \<lparr>lock_rel = ''Deals/b'', lock_plugin = 4, lock_plugin_name = ''seal'', lock_until = None\<rparr>
      in if first then [(''Deals/a'', a), (''Deals/b'', b)] else [(''Deals/b'', b), (''Deals/a'', a)])\<rparr>"

lemma folder_of_two_apps:
  "check (Some (set_source (Some (two_apps True)))) 9 [writes ''Deals''] = None"
  "check (Some (set_source (Some (two_apps False)))) 9 [writes ''Deals''] \<noteq> None"
proof -
  have c: "clean_rel ''Deals'' = ''Deals''" "\<not> refused_by Change ''Deals'' 0"
    "has_prefix ''Deals/a'' (''Deals'' @ ''/'')" "has_prefix ''Deals/b'' (''Deals'' @ ''/'')" by code_simp+
  show "check (Some (set_source (Some (two_apps True)))) 9 [writes ''Deals''] = None"
    "check (Some (set_source (Some (two_apps False)))) 9 [writes ''Deals''] \<noteq> None"
    using c by (simp_all add: check_None set_source_def reserved_rule_def writes_def vault_rule_None vault_root_def
      two_apps_def locks_view_def vault_lookup_def office_db_def lock_rule_def lock_within_def del: not_None_eq)
qed

end
