(* ===== verification/Vaultlock.thy ===== *)
theory Vaultlock
  imports Prelude
begin

text \<open>
  \<open>internal/vaultlock\<close> with its row (\<open>model.VaultLock\<close>) and its SQL (\<open>db.VaultLockSQL\<close>): the
  write lock of an encrypted vault. Every decision is a step on the vault's row, read and
  written back by compare-and-set on the row's revision, so that other processes on the same
  database may write between the two. \<open>mutate\<close> is that loop, with what the others do in each
  of its turns as an argument. Times are Unix milliseconds. The SHA-256 of a token is the
  argument \<open>hash\<close> of the operations (None for a string that is no token), the random token
  of \<open>take\<close> an argument too; a database error is an outcome of a turn.
\<close>

section \<open>The row\<close>

record holder =
  h_user :: int
  h_name :: string
  h_client :: string
  h_label :: string

record place =
  p_storage :: int
  p_path :: string

record vault_lock =
  vl_tenant :: int
  vl_vault :: string
  vl_rev :: int
  vl_token_hash :: string
  vl_holder :: holder
  vl_place :: place
  vl_taken_ms :: int
  vl_lease_ms :: int
  vl_active_ms :: int
  vl_idle_seconds :: int
  vl_index_started_ms :: int
  vl_first_gen :: int
  vl_last_gen :: int
  vl_ended_token_hash :: string
  vl_ended_reason :: string
  vl_ended_by :: string
  vl_ended_ms :: int

type_synonym vl_key = "int \<times> string"

type_synonym vl_store = "vl_key \<Rightarrow> vault_lock option"

abbreviation ReasonReleased :: string where "ReasonReleased \<equiv> ''released''"
abbreviation ReasonExpired :: string where "ReasonExpired \<equiv> ''expired''"
abbreviation ReasonIdle :: string where "ReasonIdle \<equiv> ''idle''"
abbreviation ReasonBroken :: string where "ReasonBroken \<equiv> ''broken''"
abbreviation ReasonTaken :: string where "ReasonTaken \<equiv> ''taken''"
abbreviation ReasonLockedIdle :: string where "ReasonLockedIdle \<equiv> ''locked_idle''"

definition lease_ms :: int where "lease_ms = 60 * 1000"
definition index_write_max_ms :: int where "index_write_max_ms = 60 * 1000"
definition default_idle_minutes :: int where "default_idle_minutes = 3"
definition min_idle_minutes :: int where "min_idle_minutes = 1"
definition max_idle_minutes :: int where "max_idle_minutes = 10"
definition cas_tries :: nat where "cas_tries = 8"

definition no_holder :: holder where
  "no_holder = \<lparr>h_user = 0, h_name = [], h_client = [], h_label = []\<rparr>"

definition new_row :: "vl_key \<Rightarrow> vault_lock" where
  "new_row k = \<lparr>vl_tenant = fst k, vl_vault = snd k, vl_rev = 0, vl_token_hash = [], vl_holder = no_holder,
     vl_place = \<lparr>p_storage = 0, p_path = []\<rparr>, vl_taken_ms = 0, vl_lease_ms = 0, vl_active_ms = 0,
     vl_idle_seconds = 0, vl_index_started_ms = 0, vl_first_gen = 0, vl_last_gen = 0,
     vl_ended_token_hash = [], vl_ended_reason = [], vl_ended_by = [], vl_ended_ms = 0\<rparr>"

record ended =
  e_key :: vl_key
  e_place :: place
  e_holder :: holder
  e_reason :: string
  e_by :: holder
  e_first_gen :: int
  e_last_gen :: int
  e_since :: millis
  e_at :: millis

datatype vl_error =
    DbError
  | RandError
  | MissingVaultId
  | Contention
  | IdleRange
  | IndexRunning
  | Locked holder millis millis
  | Lost string "holder option"

section \<open>The table\<close>

definition get_vault_lock :: "vl_store \<Rightarrow> vl_key \<Rightarrow> vault_lock option" where
  "get_vault_lock db k = db k"

text \<open>
  How a statement that writes comes back: its answer arrives, it fails with nothing written, or
  it is carried out and its answer is lost - \<open>ExecContext\<close> (or \<open>RowsAffected\<close>) answers an error all
  the same. The driver cannot tell the last two apart.
\<close>

datatype sql_answer = Answered | Failed | AnswerLost

text \<open>
  Both writes give the table as they leave it and what they answer: an error, or whether they
  made or moved the row, and the row as the caller holds it then. \<open>insertFirst\<close> cannot read
  the engines' word for a key that is taken, so after any error of its INSERT it looks whether a
  row is there (\<open>looks\<close>: that read succeeds).
\<close>

definition insert_vault_lock ::
  "sql_answer \<Rightarrow> bool \<Rightarrow> vl_store \<Rightarrow> vault_lock \<Rightarrow> vl_store \<times> (vl_error + bool \<times> vault_lock)" where
  "insert_vault_lock ans looks db l =
     (if vl_vault l = [] then (db, Inl MissingVaultId)
      else let k = (vl_tenant l, vl_vault l); l' = l\<lparr>vl_rev := 1\<rparr>;
               made = ans \<noteq> Failed \<and> db k = None;
               db' = (if made then db(k \<mapsto> l') else db)
           in if made \<and> ans = Answered then (db', Inr (True, l'))
              else if looks \<and> get_vault_lock db' k \<noteq> None then (db', Inr (False, l))
              else (db', Inl DbError))"

definition update_vault_lock ::
  "sql_answer \<Rightarrow> vl_store \<Rightarrow> vault_lock \<Rightarrow> int \<Rightarrow> vl_store \<times> (vl_error + bool \<times> vault_lock)" where
  "update_vault_lock ans db l at_rev =
     (if vl_vault l = [] then (db, Inl MissingVaultId)
      else let k = (vl_tenant l, vl_vault l); l' = l\<lparr>vl_rev := at_rev + 1\<rparr>;
               moved = ans \<noteq> Failed \<and> (case db k of None \<Rightarrow> False | Some old \<Rightarrow> vl_rev old = at_rev);
               db' = (if moved then db(k \<mapsto> l') else db)
           in if ans \<noteq> Answered then (db', Inl DbError)
              else (db', Inr (moved, if moved then l' else l)))"

section \<open>Reading a row\<close>

definition end_of :: "vault_lock \<Rightarrow> millis \<times> string" where
  "end_of l =
     (let idle_end = vl_active_ms l + vl_idle_seconds l * 1000
      in if idle_end \<le> vl_lease_ms l then (idle_end, ReasonIdle) else (vl_lease_ms l, ReasonExpired))"

definition live :: "vault_lock \<Rightarrow> millis \<Rightarrow> bool" where
  "live l now \<longleftrightarrow> (if vl_token_hash l = [] then False else now < fst (end_of l))"

definition index_end :: "vault_lock \<Rightarrow> millis \<Rightarrow> millis" where
  "index_end l now =
     (if vl_index_started_ms l = 0 then 0
      else let e = vl_index_started_ms l + index_write_max_ms in if now \<ge> e then 0 else e)"

definition close_row :: "vault_lock \<Rightarrow> string \<Rightarrow> millis \<Rightarrow> vault_lock \<times> ended" where
  "close_row l reason at =
     (l\<lparr>vl_ended_token_hash := vl_token_hash l, vl_ended_reason := reason, vl_ended_by := [],
        vl_ended_ms := at, vl_token_hash := []\<rparr>,
      \<lparr>e_key = (vl_tenant l, vl_vault l), e_place = vl_place l, e_holder = vl_holder l, e_reason = reason,
       e_by = no_holder, e_first_gen = vl_first_gen l, e_last_gen = vl_last_gen l,
       e_since = vl_taken_ms l, e_at = at\<rparr>)"

definition locked_by :: "vault_lock \<Rightarrow> millis \<Rightarrow> millis \<Rightarrow> vl_error" where
  "locked_by l until now =
     (let wait = until - now in Locked (vl_holder l) (vl_taken_ms l) (if wait < 1000 then 1000 else wait))"

definition lost_for :: "vault_lock \<Rightarrow> string \<Rightarrow> millis \<Rightarrow> vl_error" where
  "lost_for l hash now =
     (if live l now \<and> vl_token_hash l \<noteq> hash then Lost ReasonTaken (Some (vl_holder l))
      else if hash \<noteq> [] \<and> vl_ended_token_hash l = hash \<and> vl_ended_reason l \<noteq> [] then
        (if vl_ended_reason l = ReasonLockedIdle then Lost ReasonReleased None
         else if vl_ended_reason l = ReasonBroken then
           Lost ReasonBroken (Some (no_holder\<lparr>h_name := vl_ended_by l\<rparr>))
         else Lost (vl_ended_reason l) None)
      else if vl_token_hash l \<noteq> [] \<and> vl_token_hash l \<noteq> hash then Lost ReasonTaken (Some (vl_holder l))
      else Lost ReasonExpired None)"

section \<open>Steps\<close>

text \<open>
  A step is one attempt's decision about the row: the row as it leaves it, whether to write it,
  the locks the write closes, the error to answer, and what the caller keeps.
\<close>

record 'a decision =
  d_row :: vault_lock
  d_write :: bool
  d_ended :: "ended list"
  d_err :: "vl_error option"
  d_out :: "'a option"

type_synonym 'a vl_step = "vault_lock \<Rightarrow> bool \<Rightarrow> millis \<Rightarrow> 'a decision"

definition refuse :: "vault_lock \<Rightarrow> vl_error option \<Rightarrow> 'a decision" where
  "refuse l e = \<lparr>d_row = l, d_write = False, d_ended = [], d_err = e, d_out = None\<rparr>"

record taken =
  tk_token :: string
  tk_idle_seconds :: int
  tk_expires_at :: millis
  tk_idle_until :: millis

definition take_step :: "string \<Rightarrow> string \<Rightarrow> place \<Rightarrow> holder \<Rightarrow> int \<Rightarrow> taken vl_step" where
  "take_step token hash p h idle_seconds l exists now =
     (let grant = (\<lambda>l ended.
        let l' = l\<lparr>vl_token_hash := hash, vl_holder := h, vl_place := p, vl_taken_ms := now,
              vl_active_ms := now, vl_lease_ms := now + lease_ms, vl_idle_seconds := idle_seconds,
              vl_index_started_ms := 0, vl_first_gen := 0, vl_last_gen := 0\<rparr>
        in \<lparr>d_row = l', d_write = True, d_ended = ended, d_err = None,
            d_out = Some \<lparr>tk_token = token, tk_idle_seconds = idle_seconds, tk_expires_at = vl_lease_ms l',
                     tk_idle_until = now + idle_seconds * 1000\<rparr>\<rparr>)
      in if exists \<and> vl_token_hash l \<noteq> [] then
           (let (e, reason) = end_of l in
            if now < e then refuse l (Some (locked_by l e now))
            else if index_end l now \<noteq> 0 then refuse l (Some (locked_by l (index_end l now) now))
            else let (l', closed) = close_row l reason e in grant l' [closed])
         else if exists \<and> index_end l now \<noteq> 0 then refuse l (Some (locked_by l (index_end l now) now))
         else grant l [])"

text \<open>\<open>held\<close>: None when the row holds the token's lock now, else the decision to answer.\<close>

definition held :: "vault_lock \<Rightarrow> bool \<Rightarrow> string \<Rightarrow> millis \<Rightarrow> 'a decision option" where
  "held l exists hash now =
     (if \<not> exists \<or> hash = [] then Some (refuse l (Some (Lost ReasonExpired None)))
      else if vl_token_hash l \<noteq> hash then Some (refuse l (Some (lost_for l hash now)))
      else let (e, reason) = end_of l in
        if now \<ge> e then
          (let (l', closed) = close_row l reason e
           in Some \<lparr>d_row = l', d_write = True, d_ended = [closed], d_err = Some (Lost reason None), d_out = None\<rparr>)
        else None)"

definition renew_step :: "string \<Rightarrow> bool \<Rightarrow> (millis \<times> millis) vl_step" where
  "renew_step hash active l exists now =
     (case held l exists hash now of
        Some d \<Rightarrow> d
      | None \<Rightarrow>
        let l1 = l\<lparr>vl_lease_ms := now + lease_ms\<rparr>;
            l2 = (if active then l1\<lparr>vl_active_ms := now\<rparr> else l1)
        in \<lparr>d_row = l2, d_write = True, d_ended = [], d_err = None,
            d_out = Some (vl_lease_ms l2, vl_active_ms l2 + vl_idle_seconds l2 * 1000)\<rparr>)"

definition release_step :: "string \<Rightarrow> string \<Rightarrow> unit vl_step" where
  "release_step hash reason l exists now =
     (if \<not> exists \<or> vl_token_hash l \<noteq> hash then refuse l None
      else let (e, why) = end_of l;
               (why', at) = (if reason = ReasonLockedIdle then (ReasonLockedIdle, now)
                             else if now \<ge> e then (why, e) else (ReasonReleased, now));
               (l', closed) = close_row l why' at
           in \<lparr>d_row = l', d_write = True, d_ended = [closed], d_err = None, d_out = Some ()\<rparr>)"

definition break_step :: "holder \<Rightarrow> ended vl_step" where
  "break_step by_whom l exists now =
     (if \<not> exists \<or> vl_token_hash l = [] then refuse l None
      else let (e, why) = end_of l in
        if now \<ge> e then
          (let (l', closed) = close_row l why e
           in \<lparr>d_row = l', d_write = True, d_ended = [closed], d_err = None, d_out = None\<rparr>)
        else
          (let (l', closed) = close_row l ReasonBroken now; closed' = closed\<lparr>e_by := by_whom\<rparr>
           in \<lparr>d_row = l'\<lparr>vl_ended_by := h_name by_whom\<rparr>, d_write = True, d_ended = [closed'], d_err = None,
               d_out = Some closed'\<rparr>))"

definition begin_index_step :: "string \<Rightarrow> unit vl_step" where
  "begin_index_step hash l exists now =
     (case held l exists hash now of
        Some d \<Rightarrow> d
      | None \<Rightarrow>
        if index_end l now \<noteq> 0 then refuse l (Some IndexRunning)
        else \<lparr>d_row = l\<lparr>vl_index_started_ms := now, vl_lease_ms := now + lease_ms, vl_active_ms := now\<rparr>,
              d_write = True, d_ended = [], d_err = None, d_out = Some ()\<rparr>)"

definition end_index_step :: "string \<Rightarrow> int \<Rightarrow> bool \<Rightarrow> unit vl_step" where
  "end_index_step hash gen committed l exists now =
     (if \<not> exists \<or> vl_index_started_ms l = 0 \<or>
         (vl_token_hash l \<noteq> hash \<and> vl_ended_token_hash l \<noteq> hash) then refuse l None
      else let l1 = l\<lparr>vl_index_started_ms := 0\<rparr>;
               l2 = (if committed then
                       (if vl_first_gen l1 = 0 then l1\<lparr>vl_first_gen := gen\<rparr> else l1)\<lparr>vl_last_gen := gen\<rparr>
                     else l1);
               l3 = (if vl_token_hash l2 = hash \<and> live l2 now
                     then l2\<lparr>vl_lease_ms := now + lease_ms, vl_active_ms := now\<rparr> else l2)
           in \<lparr>d_row = l3, d_write = True, d_ended = [], d_err = None, d_out = Some ()\<rparr>)"

definition state_step :: "unit vl_step" where
  "state_step l exists now =
     (if \<not> exists \<or> vl_token_hash l = [] \<or> live l now \<or> index_end l now \<noteq> 0 then refuse l None
      else let (e, why) = end_of l; (l', closed) = close_row l why e
           in \<lparr>d_row = l', d_write = True, d_ended = [closed], d_err = None, d_out = None\<rparr>)"

section \<open>The compare-and-set loop\<close>

text \<open>
  One turn of \<open>mutate\<close>: the clock it reads, whether the database fails its read, what other
  writers do to the table between its read and its write, how the write comes back, and whether
  the look after a failed INSERT succeeds.
\<close>

record turn =
  t_now :: millis
  t_read_fails :: bool
  t_others :: "vl_store \<Rightarrow> vl_store"
  t_answer :: sql_answer
  t_looks :: bool

record 'a mutated =
  m_db :: vl_store
  m_row :: "vault_lock option"
  m_err :: "vl_error option"
  m_told :: "ended list"
  m_out :: "'a option"

definition stopped :: "vl_store \<Rightarrow> vl_error \<Rightarrow> 'a mutated" where
  "stopped db e = \<lparr>m_db = db, m_row = None, m_err = Some e, m_told = [], m_out = None\<rparr>"

fun mutate_turns :: "vl_key \<Rightarrow> 'a vl_step \<Rightarrow> turn list \<Rightarrow> vl_store \<Rightarrow> 'a mutated" where
  "mutate_turns k fn [] db = stopped db Contention"
| "mutate_turns k fn (t # ts) db =
     (if t_read_fails t then stopped (t_others t db) DbError
      else
        let row = get_vault_lock db k;
            work = (case row of None \<Rightarrow> new_row k | Some l \<Rightarrow> l);
            d = fn work (row \<noteq> None) (t_now t);
            db' = t_others t db
        in if \<not> d_write d then
             \<lparr>m_db = db', m_row = (if row = None then None else Some (d_row d)), m_err = d_err d,
              m_told = [], m_out = d_out d\<rparr>
           else
             let (db'', answer) = (case row of
                 Some l \<Rightarrow> update_vault_lock (t_answer t) db' (d_row d) (vl_rev l)
               | None \<Rightarrow> insert_vault_lock (t_answer t) (t_looks t) db' (d_row d))
             in case answer of
               Inl e \<Rightarrow> stopped db'' e
             | Inr (ok, written) \<Rightarrow>
               if \<not> ok then mutate_turns k fn ts db''
               else \<lparr>m_db = db'', m_row = Some written, m_err = d_err d, m_told = d_ended d, m_out = d_out d\<rparr>)"

definition mutate :: "vl_key \<Rightarrow> 'a vl_step \<Rightarrow> turn list \<Rightarrow> vl_store \<Rightarrow> 'a mutated" where
  "mutate k fn turns db = mutate_turns k fn (take cas_tries turns) db"

section \<open>The service\<close>

definition idle_minutes :: "vl_error + int \<Rightarrow> vl_error + int" where
  "idle_minutes stored =
     (case stored of Inl e \<Rightarrow> Inl e
      | Inr n \<Rightarrow> if n < min_idle_minutes \<or> n > max_idle_minutes then Inr default_idle_minutes else Inr n)"

definition set_idle_minutes :: "(int \<rightharpoonup> int) \<Rightarrow> int \<Rightarrow> int \<Rightarrow> vl_error + (int \<rightharpoonup> int)" where
  "set_idle_minutes prefs user minutes =
     (if minutes < min_idle_minutes \<or> minutes > max_idle_minutes then Inl IdleRange
      else Inr (prefs(user \<mapsto> minutes)))"

definition vl_take ::
  "vl_error + int \<Rightarrow> (string \<times> string) option \<Rightarrow> vl_key \<Rightarrow> place \<Rightarrow> holder \<Rightarrow> turn list \<Rightarrow> vl_store \<Rightarrow> taken mutated" where
  "vl_take stored_idle random k p h turns db =
     (case idle_minutes stored_idle of
        Inl e \<Rightarrow> stopped db e
      | Inr idle \<Rightarrow>
        (case random of
           None \<Rightarrow> stopped db RandError
         | Some (token, hash) \<Rightarrow> mutate k (take_step token hash p h (idle * 60)) turns db))"

text \<open>\<open>hash, _ := HashToken(token)\<close>: the empty hash for a string that is no token.\<close>

definition hash_or_empty :: "(string \<Rightarrow> string option) \<Rightarrow> string \<Rightarrow> string" where
  "hash_or_empty hash token = (case hash token of None \<Rightarrow> [] | Some h \<Rightarrow> h)"

definition vl_renew where
  "vl_renew hash k token active turns db = mutate k (renew_step (hash_or_empty hash token) active) turns db"

definition vl_touch where
  "vl_touch hash k token turns db = vl_renew hash k token True turns db"

definition idle_answer :: "vl_store \<Rightarrow> 'a mutated" where
  "idle_answer db = \<lparr>m_db = db, m_row = None, m_err = None, m_told = [], m_out = None\<rparr>"

definition vl_release where
  "vl_release hash k token reason turns db =
     (case hash token of None \<Rightarrow> idle_answer db | Some h \<Rightarrow> mutate k (release_step h reason) turns db)"

definition vl_break where
  "vl_break k by_whom turns db = mutate k (break_step by_whom) turns db"

definition vl_begin_index where
  "vl_begin_index hash k token turns db = mutate k (begin_index_step (hash_or_empty hash token)) turns db"

definition vl_end_index where
  "vl_end_index hash k token gen committed turns db =
     (case hash token of None \<Rightarrow> idle_answer db | Some h \<Rightarrow> mutate k (end_index_step h gen committed) turns db)"

record lock_view =
  lv_holder :: holder
  lv_since :: millis
  lv_expires_at :: millis
  lv_token_hash :: string

definition view_of :: "vault_lock \<Rightarrow> millis \<Rightarrow> lock_view option" where
  "view_of row now =
     (if live row now then
        (let e = fst (end_of row); ie = index_end row now
         in Some \<lparr>lv_holder = vl_holder row, lv_since = vl_taken_ms row,
              lv_expires_at = (if ie > e then ie else e), lv_token_hash = vl_token_hash row\<rparr>)
      else if index_end row now \<noteq> 0 then
        Some \<lparr>lv_holder = vl_holder row, lv_since = vl_taken_ms row, lv_expires_at = index_end row now,
          lv_token_hash = (if vl_token_hash row = [] then vl_ended_token_hash row else vl_token_hash row)\<rparr>
      else None)"

definition vl_state :: "vl_key \<Rightarrow> turn list \<Rightarrow> millis \<Rightarrow> vl_store \<Rightarrow> vl_error + lock_view option" where
  "vl_state k turns now db =
     (let m = mutate k state_step turns db in
      case m_err m of
        Some e \<Rightarrow> Inl e
      | None \<Rightarrow> (case m_row m of None \<Rightarrow> Inr None | Some row \<Rightarrow> Inr (view_of row now)))"

definition mine :: "(string \<Rightarrow> string option) \<Rightarrow> lock_view option \<Rightarrow> string \<Rightarrow> bool" where
  "mine hash l token \<longleftrightarrow> (case hash token of None \<Rightarrow> False | Some h \<Rightarrow>
     (case l of None \<Rightarrow> False | Some v \<Rightarrow> h = lv_token_hash v))"

end
