(* ===== verification/VaultlockRules.thy ===== *)
theory VaultlockRules
  imports Vaultlock
begin

text \<open>
  What the vault's write lock guarantees. The table is a compare-and-set store (\<open>cas_table\<close>,
  interpreted on the SQL model as \<open>vault_rows\<close>), so that \<open>mutate\<close> acts as one atomic step
  whatever other writers do in between. Over those atomic steps, \<open>vl_next\<close> is one vault's
  history, with the record of what was granted that the properties speak of.
\<close>

section \<open>Compare-and-set\<close>

locale cas_table =
  fixes get :: "'s \<Rightarrow> 'k \<Rightarrow> 'r option"
    and put :: "'s \<Rightarrow> 'k \<Rightarrow> int option \<Rightarrow> 'r \<Rightarrow> ('s \<times> bool \<times> 'r)"
    and revision :: "'r \<Rightarrow> int"
  assumes hit: "put s k v r = (s', True, r') \<Longrightarrow>
      map_option revision (get s k) = v \<and> get s' k = Some r' \<and>
      revision r' = (case v of None \<Rightarrow> 1 | Some n \<Rightarrow> n + 1)"
    and miss: "put s k v r = (s', False, r') \<Longrightarrow> s' = s"
begin

lemma one_winner:
  assumes "put s k v r1 = (s1, True, r1')" and "put s1 k v r2 = (s2, ok, r2')"
  shows "\<not> ok \<and> s2 = s1"
proof -
  from hit [OF assms(1)] have "map_option revision (get s1 k) \<noteq> v" by (cases v) auto
  then have "\<not> ok" using hit [of s1 k v r2 s2 r2'] assms(2) by (cases ok) auto
  then show ?thesis using miss [of s1 k v r2 s2 r2'] assms(2) by simp
qed

lemma hit_unchanged:
  assumes "map_option revision (get s' k) = map_option revision (get s k) \<Longrightarrow> get s' k = get s k"
    and "put s' k (map_option revision (get s k)) r = (s'', True, r')"
  shows "get s' k = get s k"
  using hit [OF assms(2)] assms(1) by simp

end

definition vl_put :: "vl_store \<Rightarrow> vl_key \<Rightarrow> int option \<Rightarrow> vault_lock \<Rightarrow> vl_store \<times> bool \<times> vault_lock" where
  "vl_put db k v l =
     (if (vl_tenant l, vl_vault l) \<noteq> k then (db, False, l)
      else case (case v of None \<Rightarrow> insert_vault_lock Answered True db l
                 | Some n \<Rightarrow> update_vault_lock Answered db l n) of
             (db', Inl _) \<Rightarrow> (db', False, l) | (db', Inr a) \<Rightarrow> (db', a))"

interpretation vault_rows: cas_table get_vault_lock vl_put vl_rev
proof
  show "map_option vl_rev (get_vault_lock s k) = v \<and> get_vault_lock s' k = Some r' \<and>
      vl_rev r' = (case v of None \<Rightarrow> 1 | Some n \<Rightarrow> n + 1)"
    if "vl_put s k v r = (s', True, r')" for s k v r s' r'
    using that by (auto simp: vl_put_def get_vault_lock_def insert_vault_lock_def update_vault_lock_def Let_def
      split: if_splits option.splits)
  show "s' = s" if "vl_put s k v r = (s', False, r')" for s k v r s' r'
    using that by (auto simp: vl_put_def insert_vault_lock_def update_vault_lock_def Let_def
      split: if_splits option.splits)
qed

text \<open>What other processes do: they write rows through the same compare-and-set, so a row that
  changed has another revision, and no row is ever deleted.\<close>

definition honest :: "vl_key \<Rightarrow> (vl_store \<Rightarrow> vl_store) \<Rightarrow> bool" where
  "honest k f \<longleftrightarrow>
     (\<forall>db. (map_option vl_rev (f db k) = map_option vl_rev (db k) \<longrightarrow> f db k = db k) \<and>
       (\<forall>l. f db k = Some l \<longrightarrow> f db k = db k \<or> (vl_tenant l, vl_vault l) = k) \<and>
       (f db k = None \<longrightarrow> db k = None))"

definition keyed :: "vl_key \<Rightarrow> 'a vl_step \<Rightarrow> bool" where
  "keyed k fn \<longleftrightarrow> (\<forall>l exists now. (vl_tenant l, vl_vault l) = k \<longrightarrow>
     (vl_tenant (d_row (fn l exists now)), vl_vault (d_row (fn l exists now))) = k)"

definition keyed_rows :: "vl_key \<Rightarrow> vl_store \<Rightarrow> bool" where
  "keyed_rows k db \<longleftrightarrow> (\<forall>l. db k = Some l \<longrightarrow> (vl_tenant l, vl_vault l) = k)"

definition row_or_new :: "vl_key \<Rightarrow> vault_lock option \<Rightarrow> vault_lock" where
  "row_or_new k row = (case row of None \<Rightarrow> new_row k | Some l \<Rightarrow> l)"

definition decision_at :: "vl_key \<Rightarrow> 'a vl_step \<Rightarrow> millis \<Rightarrow> vl_store \<Rightarrow> 'a decision" where
  "decision_at k fn now db = fn (row_or_new k (db k)) (db k \<noteq> None) now"

definition after :: "turn list \<Rightarrow> nat \<Rightarrow> vl_store \<Rightarrow> vl_store" where
  "after ts i db = fold t_others (take i ts) db"

definition bumped :: "vault_lock \<Rightarrow> vault_lock option \<Rightarrow> vault_lock" where
  "bumped l old = l\<lparr>vl_rev := (case old of None \<Rightarrow> 1 | Some o' \<Rightarrow> vl_rev o' + 1)\<rparr>"

text \<open>One attempt made at a table, all at once.\<close>

definition atomic :: "vl_key \<Rightarrow> 'a vl_step \<Rightarrow> millis \<Rightarrow> vl_store \<Rightarrow> 'a mutated" where
  "atomic k fn now db =
     (let d = decision_at k fn now db; l = bumped (d_row d) (db k)
      in if d_write d
         then \<lparr>m_db = db(k \<mapsto> l), m_row = Some l, m_err = d_err d, m_told = d_ended d, m_out = d_out d\<rparr>
         else \<lparr>m_db = db, m_row = (if db k = None then None else Some (d_row d)), m_err = d_err d,
               m_told = [], m_out = d_out d\<rparr>)"

lemma after_Suc: "after (t # ts) (Suc i) db = after ts i (t_others t db)"
  by (simp add: after_def)

lemma after_0 [simp]: "after ts 0 db = db"
  by (simp add: after_def)

text \<open>
  What an operation's answer says of the table, given the turns it had. It wrote once and was
  told so; or it decided to write nothing; or it gave up with nothing written, after losing
  every race or after a database error; or the answer of its one write was lost on the way: it
  reports a database error, and the lock or the ending it wrote stands, untold.
\<close>

definition troubled :: "turn \<Rightarrow> bool" where
  "troubled t \<longleftrightarrow> t_read_fails t \<or> t_answer t \<noteq> Answered \<or> \<not> t_looks t"

definition writes_at :: "vl_key \<Rightarrow> 'a vl_step \<Rightarrow> turn list \<Rightarrow> nat \<Rightarrow> vl_store \<Rightarrow> bool" where
  "writes_at k fn ts i db \<longleftrightarrow> i < length ts \<and> d_write (decision_at k fn (t_now (ts ! i)) (after ts (Suc i) db))"

definition wrote_at :: "vl_key \<Rightarrow> 'a vl_step \<Rightarrow> turn list \<Rightarrow> nat \<Rightarrow> vl_store \<Rightarrow> 'a mutated" where
  "wrote_at k fn ts i db = atomic k fn (t_now (ts ! i)) (after ts (Suc i) db)"

definition one_step :: "vl_key \<Rightarrow> 'a vl_step \<Rightarrow> turn list \<Rightarrow> vl_store \<Rightarrow> 'a mutated \<Rightarrow> bool" where
  "one_step k fn ts db m \<longleftrightarrow>
     (\<exists>i. writes_at k fn ts i db \<and> t_answer (ts ! i) = Answered \<and> m = wrote_at k fn ts i db) \<or>
     (\<exists>i < length ts. \<not> d_write (decision_at k fn (t_now (ts ! i)) (after ts i db)) \<and>
       m = (atomic k fn (t_now (ts ! i)) (after ts i db))\<lparr>m_db := after ts (Suc i) db\<rparr>) \<or>
     m = stopped (after ts (length ts) db) Contention \<or>
     (\<exists>i < length ts. troubled (ts ! i) \<and> m = stopped (after ts (Suc i) db) DbError) \<or>
     (\<exists>i. writes_at k fn ts i db \<and> t_answer (ts ! i) = AnswerLost \<and>
       m = stopped (m_db (wrote_at k fn ts i db)) DbError)"

text \<open>The lost answer of an INSERT is worse: the look that follows finds the row just made and takes
  it for another writer's, and the operation goes on against its own row.\<close>

definition lost_insert :: "vl_key \<Rightarrow> 'a vl_step \<Rightarrow> turn list \<Rightarrow> nat \<Rightarrow> vl_store \<Rightarrow> bool" where
  "lost_insert k fn ts i db \<longleftrightarrow>
     writes_at k fn ts i db \<and> after ts (Suc i) db k = None \<and> t_answer (ts ! i) = AnswerLost"

lemma writes_at_Suc [simp]: "writes_at k fn (t # ts) (Suc i) db = writes_at k fn ts i (t_others t db)"
  by (simp add: writes_at_def after_Suc)

lemma writes_at_0: "writes_at k fn (t # ts) 0 db = d_write (decision_at k fn (t_now t) (t_others t db))"
  by (simp add: writes_at_def after_Suc)

lemma wrote_at_Suc [simp]: "wrote_at k fn (t # ts) (Suc i) db = wrote_at k fn ts i (t_others t db)"
  by (simp add: wrote_at_def after_Suc)

lemma wrote_at_0: "wrote_at k fn (t # ts) 0 db = atomic k fn (t_now t) (t_others t db)"
  by (simp add: wrote_at_def after_Suc)

lemma lost_insert_Suc [simp]: "lost_insert k fn (t # ts) (Suc i) db = lost_insert k fn ts i (t_others t db)"
  by (simp add: lost_insert_def after_Suc)

lemma one_step_head:
  "writes_at k fn (t # ts) 0 db \<Longrightarrow> t_answer t = Answered \<Longrightarrow> one_step k fn (t # ts) db (wrote_at k fn (t # ts) 0 db)"
  "\<not> d_write (decision_at k fn (t_now t) db) \<Longrightarrow>
   one_step k fn (t # ts) db ((atomic k fn (t_now t) db)\<lparr>m_db := t_others t db\<rparr>)"
  "troubled t \<Longrightarrow> one_step k fn (t # ts) db (stopped (t_others t db) DbError)"
  "writes_at k fn (t # ts) 0 db \<Longrightarrow> t_answer t = AnswerLost \<Longrightarrow>
   one_step k fn (t # ts) db (stopped (m_db (wrote_at k fn (t # ts) 0 db)) DbError)"
  unfolding one_step_def by (force simp: after_Suc)+

lemma one_step_later:
  assumes "one_step k fn ts (t_others t db) m"
  shows "one_step k fn (t # ts) db m"
  using assms unfolding one_step_def
proof (elim disjE exE conjE, goal_cases)
  case (1 i) then show ?case by (intro disjI1 exI [of _ "Suc i"]) simp
next
  case (2 i) then show ?case by (intro disjI2 [OF disjI1] exI [of _ "Suc i"]) (simp add: after_Suc)
next
  case 3 then show ?case by (simp add: after_Suc)
next
  case (4 i) then show ?case by (intro disjI2 [OF disjI2 [OF disjI2 [OF disjI1]]] exI [of _ "Suc i"]) (simp add: after_Suc)
next
  case (5 i) then show ?case by (intro disjI2 [OF disjI2 [OF disjI2 [OF disjI2]]] exI [of _ "Suc i"]) simp
qed

lemma after_some:
  assumes "\<forall>t \<in> set ts. honest k (t_others t)" and "db k \<noteq> None"
  shows "after ts i db k \<noteq> None"
  using assms
proof (induction ts arbitrary: i db)
  case Nil
  then show ?case by (simp add: after_def)
next
  case (Cons t ts)
  have "t_others t db k \<noteq> None" using Cons.prems unfolding honest_def by (metis list.set_intros(1))
  then show ?case using Cons by (cases i) (simp_all add: after_Suc)
qed

text \<open>One turn that comes to write: the row it read is still there (a hit), or it has moved on.\<close>

lemma write_hit:
  assumes "db' k = db k" and "(vl_tenant r, vl_vault r) = k" and "snd k \<noteq> []"
  shows "(case db k of Some l \<Rightarrow> update_vault_lock a db' r (vl_rev l) | None \<Rightarrow> insert_vault_lock a look db' r) =
    (if a = Failed then (db', Inl DbError)
     else (db'(k \<mapsto> bumped r (db k)),
       if a = Answered then Inr (True, bumped r (db k))
       else if db k = None \<and> look then Inr (False, r) else Inl DbError))"
  using assms by (cases a) (auto simp: update_vault_lock_def insert_vault_lock_def get_vault_lock_def bumped_def
    Let_def split: option.split)

lemma write_miss:
  assumes "map_option vl_rev (db' k) \<noteq> map_option vl_rev (db k)" and "db' k = None \<longrightarrow> db k = None"
    and "(vl_tenant r, vl_vault r) = k" and "snd k \<noteq> []"
  shows "(case db k of Some l \<Rightarrow> update_vault_lock a db' r (vl_rev l) | None \<Rightarrow> insert_vault_lock a look db' r) =
    (db', if (if db k = None then look else a = Answered) then Inr (False, r) else Inl DbError)"
  using assms by (auto simp: update_vault_lock_def insert_vault_lock_def get_vault_lock_def Let_def split: option.split)

lemma mutate_turn:
  "mutate_turns k fn (t # ts) db =
      (let d = decision_at k fn (t_now t) db; db' = t_others t db
       in if t_read_fails t then stopped db' DbError
       else if \<not> d_write d then (atomic k fn (t_now t) db)\<lparr>m_db := db'\<rparr>
       else let (db'', answer) = (case db k of
                Some l \<Rightarrow> update_vault_lock (t_answer t) db' (d_row d) (vl_rev l)
              | None \<Rightarrow> insert_vault_lock (t_answer t) (t_looks t) db' (d_row d))
            in case answer of
              Inl e \<Rightarrow> stopped db'' e
            | Inr (ok, written) \<Rightarrow>
              if \<not> ok then mutate_turns k fn ts db''
              else \<lparr>m_db = db'', m_row = Some written, m_err = d_err d, m_told = d_ended d, m_out = d_out d\<rparr>)"
  by (simp add: decision_at_def row_or_new_def get_vault_lock_def atomic_def Let_def)

declare mutate_turns.simps(2) [simp del]

lemma turn_ends:
  assumes "honest k (t_others t)" and "keyed k fn" and "keyed_rows k db" and "snd k \<noteq> []"
  shows "one_step k fn (t # ts) db (mutate_turns k fn (t # ts) db) \<or>
    (lost_insert k fn (t # ts) 0 db \<and> mutate_turns k fn (t # ts) db = mutate_turns k fn ts (m_db (wrote_at k fn (t # ts) 0 db))) \<or>
    mutate_turns k fn (t # ts) db = mutate_turns k fn ts (t_others t db)"
proof -
  let ?db' = "t_others t db" and ?d = "decision_at k fn (t_now t) db"
  have "(vl_tenant (row_or_new k (db k)), vl_vault (row_or_new k (db k))) = k"
    using assms(3) by (auto simp: keyed_rows_def row_or_new_def new_row_def split: option.split)
  then have key: "(vl_tenant (d_row ?d), vl_vault (d_row ?d)) = k"
    using assms(2) unfolding keyed_def decision_at_def by blast
  consider (fail) "t_read_fails t" | (quiet) "\<not> t_read_fails t" "\<not> d_write ?d"
    | (hit) "\<not> t_read_fails t" "d_write ?d" "map_option vl_rev (?db' k) = map_option vl_rev (db k)"
    | (miss) "\<not> t_read_fails t" "d_write ?d" "map_option vl_rev (?db' k) \<noteq> map_option vl_rev (db k)"
    by blast
  then show ?thesis
  proof cases
    case fail
    then show ?thesis using one_step_head(3) [of t k fn ts db] by (simp add: mutate_turn troubled_def)
  next
    case quiet
    then show ?thesis using one_step_head(2) [of k fn t db ts] by (simp add: mutate_turn Let_def)
  next
    case hit
    then have same: "?db' k = db k" using assms(1) unfolding honest_def by blast
    then have dec: "decision_at k fn (t_now t) ?db' = ?d" by (simp add: decision_at_def)
    then have w: "writes_at k fn (t # ts) 0 db" using hit by (simp add: writes_at_0)
    have wrote: "wrote_at k fn (t # ts) 0 db = \<lparr>m_db = ?db'(k \<mapsto> bumped (d_row ?d) (db k)),
        m_row = Some (bumped (d_row ?d) (db k)), m_err = d_err ?d, m_told = d_ended ?d, m_out = d_out ?d\<rparr>"
      using hit same dec by (simp add: wrote_at_0 atomic_def Let_def)
    note turn = mutate_turn [of k fn t ts db, unfolded Let_def write_hit [where db = db and db' = "t_others t db" and k = k, OF same key assms(4)]]
    have out: "lost_insert k fn (t # ts) 0 db" if "t_answer t = AnswerLost" "db k = None"
      using that w same by (simp add: lost_insert_def after_Suc)
    show ?thesis
      using one_step_head(1) [of k fn t ts db] one_step_head(4) [of k fn t ts db] one_step_head(3) [of t k fn ts db] w wrote out hit
      by (cases "t_answer t") (auto simp: turn troubled_def Let_def)
  next
    case miss
    have "?db' k = None \<longrightarrow> db k = None" using assms(1) unfolding honest_def by blast
    note turn = mutate_turn [of k fn t ts db, unfolded Let_def write_miss [where db = db and db' = "t_others t db" and k = k, OF miss(3) this key assms(4)]]
    show ?thesis using miss one_step_head(3) [of t k fn ts db] by (auto simp: turn troubled_def Let_def)
  qed
qed

lemma mutate_turns_atomic:
  assumes "\<forall>t \<in> set ts. honest k (t_others t)" and "keyed k fn" and "keyed_rows k db" and "snd k \<noteq> []"
  shows "one_step k fn ts db (mutate_turns k fn ts db) \<or>
    (\<exists>i. lost_insert k fn ts i db \<and>
      one_step k fn (drop (Suc i) ts) (m_db (wrote_at k fn ts i db)) (mutate_turns k fn ts db))"
  using assms
proof (induction ts arbitrary: db)
  case Nil
  then show ?case by (simp add: one_step_def after_def)
next
  case (Cons t ts)
  let ?m = "mutate_turns k fn (t # ts) db"
  have h: "honest k (t_others t)" "\<forall>t \<in> set ts. honest k (t_others t)" using Cons.prems(1) by simp_all
  have keyed': "keyed_rows k (t_others t db)" using h(1) Cons.prems(3) unfolding honest_def keyed_rows_def by metis
  from turn_ends [OF h(1) Cons.prems(2-4), of ts] show ?case
  proof (elim disjE conjE)
    assume "one_step k fn (t # ts) db ?m" then show ?case by blast
  next
    let ?db1 = "m_db (wrote_at k fn (t # ts) 0 db)"
    assume l: "lost_insert k fn (t # ts) 0 db" and m: "?m = mutate_turns k fn ts ?db1"
    have d: "d_write (decision_at k fn (t_now t) (t_others t db))" using l by (simp add: lost_insert_def writes_at_0)
    have "(vl_tenant (row_or_new k (t_others t db k)), vl_vault (row_or_new k (t_others t db k))) = k"
      using keyed' by (auto simp: keyed_rows_def row_or_new_def new_row_def split: option.split)
    then have "(vl_tenant (d_row (decision_at k fn (t_now t) (t_others t db))),
        vl_vault (d_row (decision_at k fn (t_now t) (t_others t db)))) = k"
      using Cons.prems(2) unfolding keyed_def decision_at_def by blast
    then have "keyed_rows k ?db1" and own: "?db1 k \<noteq> None"
      using d by (auto simp: wrote_at_0 atomic_def keyed_rows_def bumped_def Let_def)
    from Cons.IH [OF h(2) Cons.prems(2) this(1) Cons.prems(4)]
    have "one_step k fn ts ?db1 ?m"
      using after_some [where db = "?db1" and k = k, OF h(2) own] unfolding m lost_insert_def by blast
    then show ?case using l by (intro disjI2 exI [of _ 0]) simp
  next
    assume m: "?m = mutate_turns k fn ts (t_others t db)"
    from Cons.IH [OF h(2) Cons.prems(2) keyed' Cons.prems(4)] show ?case
    proof (elim disjE exE conjE)
      assume "one_step k fn ts (t_others t db) (mutate_turns k fn ts (t_others t db))"
      then show ?case unfolding m using one_step_later by blast
    next
      fix i assume "lost_insert k fn ts i (t_others t db)"
        "one_step k fn (drop (Suc i) ts) (m_db (wrote_at k fn ts i (t_others t db))) (mutate_turns k fn ts (t_others t db))"
      then show ?case unfolding m by (intro disjI2 exI [of _ "Suc i"]) simp
    qed
  qed
qed

section \<open>What each step does to the row\<close>

lemma close_row_fields [simp]:
  "vl_tenant (fst (close_row l r a)) = vl_tenant l" "vl_vault (fst (close_row l r a)) = vl_vault l"
  "vl_token_hash (fst (close_row l r a)) = []" "vl_ended_token_hash (fst (close_row l r a)) = vl_token_hash l"
  "vl_index_started_ms (fst (close_row l r a)) = vl_index_started_ms l"
  "vl_ended_reason (fst (close_row l r a)) = r" "e_reason (snd (close_row l r a)) = r"
  "e_holder (snd (close_row l r a)) = vl_holder l"
  "vl_holder (fst (close_row l r a)) = vl_holder l"
  by (simp_all add: close_row_def)

lemmas step_defs = take_step_def renew_step_def release_step_def break_step_def begin_index_step_def
  end_index_step_def state_step_def held_def refuse_def

lemma steps_keyed:
  "keyed k (take_step token hash p h idle)" "keyed k (renew_step hash active)" "keyed k (release_step hash reason)"
  "keyed k (break_step by_whom)" "keyed k (begin_index_step hash)" "keyed k (end_index_step hash gen c)"
  "keyed k state_step"
  by (auto simp: keyed_def step_defs Let_def case_prod_unfold split: option.split)

text \<open>Who passes \<open>held\<close>: the token the row records, while its lock has not ended.\<close>

lemma held_None: "held l exists hash now = None \<longleftrightarrow> exists \<and> hash \<noteq> [] \<and> vl_token_hash l = hash \<and> live l now"
  by (auto simp: held_def live_def case_prod_unfold Let_def)

lemma held_Some:
  "held l exists hash now = Some d \<Longrightarrow> (\<exists>r h. d_err d = Some (Lost r h)) \<and> d_out d = None \<and>
    (if d_write d
     then exists \<and> hash \<noteq> [] \<and> vl_token_hash l = hash \<and>
       (\<exists>r a. d_row d = fst (close_row l r a) \<and> d_ended d = [snd (close_row l r a)])
     else d_row d = l \<and> d_ended d = [])"
  by (auto simp: held_def refuse_def lost_for_def case_prod_unfold Let_def split: if_splits) blast

lemma take_step_cases:
  obtains (locked) t w where "exists" "take_step token hash p h idle l exists now = refuse l (Some (Locked (vl_holder l) t w))"
      "live l now \<or> index_end l now \<noteq> 0"
  | (granted) base d where "take_step token hash p h idle l exists now = d" "d_write d" "d_err d = None" "d_out d \<noteq> None"
      "\<not> (exists \<and> live l now)" "exists \<longrightarrow> index_end l now = 0"
      "d_row d = base\<lparr>vl_token_hash := hash, vl_holder := h, vl_place := p, vl_taken_ms := now,
              vl_active_ms := now, vl_lease_ms := now + lease_ms, vl_idle_seconds := idle,
              vl_index_started_ms := 0, vl_first_gen := 0, vl_last_gen := 0\<rparr>"
      "if exists \<and> vl_token_hash l \<noteq> []
       then base = fst (close_row l (snd (end_of l)) (fst (end_of l))) \<and>
         d_ended d = [snd (close_row l (snd (end_of l)) (fst (end_of l)))]
       else base = l \<and> d_ended d = []"
proof (cases "exists \<and> (live l now \<or> index_end l now \<noteq> 0)")
  case True
  then have "\<exists>t w. take_step token hash p h idle l exists now = refuse l (Some (Locked (vl_holder l) t w))"
    by (auto simp: take_step_def live_def locked_by_def case_prod_unfold Let_def split: if_splits)
  then show ?thesis using True locked by blast
next
  case False
  show ?thesis
    by (rule granted [OF refl, where base = "if exists \<and> vl_token_hash l \<noteq> []
          then fst (close_row l (snd (end_of l)) (fst (end_of l))) else l"])
      (use False in \<open>auto simp: take_step_def live_def case_prod_unfold Let_def split: if_splits\<close>)
qed

section \<open>One vault's history\<close>

text \<open>
  An operation as it acts on the row at one instant. The history keeps, beside the row, what
  was granted: the hashes of the locks taken (newest first), the endings told, and the index
  writes begun and not yet reported ended. An index write runs for at most 60 seconds: after
  that the format calls it abandoned.
\<close>

datatype vl_op =
    OpTake string string place holder int
  | OpRenew string bool
  | OpRelease string string
  | OpBreak holder
  | OpBegin string
  | OpEnd string int bool
  | OpState

definition op_done :: "'a decision \<Rightarrow> bool" where
  "op_done d \<longleftrightarrow> d_err d = None \<and> d_out d \<noteq> None"

definition plain_decision :: "'a decision \<Rightarrow> unit decision" where
  "plain_decision d = \<lparr>d_row = d_row d, d_write = d_write d, d_ended = d_ended d, d_err = d_err d,
     d_out = (if d_out d = None then None else Some ())\<rparr>"

fun op_step :: "vl_op \<Rightarrow> unit vl_step" where
  "op_step (OpTake token hash p h idle) l ex now = plain_decision (take_step token hash p h idle l ex now)"
| "op_step (OpRenew hash active) l ex now = plain_decision (renew_step hash active l ex now)"
| "op_step (OpRelease hash reason) l ex now = release_step hash reason l ex now"
| "op_step (OpBreak by_whom) l ex now = plain_decision (break_step by_whom l ex now)"
| "op_step (OpBegin hash) l ex now = begin_index_step hash l ex now"
| "op_step (OpEnd hash gen c) l ex now = end_index_step hash gen c l ex now"
| "op_step OpState l ex now = state_step l ex now"

record vl_history =
  vh_row :: "vault_lock option"
  vh_now :: millis
  vh_taken :: "string list"
  vh_told :: "ended list"
  vh_open :: "(string \<times> millis) list"

definition running :: "millis \<Rightarrow> (string \<times> millis) \<Rightarrow> bool" where
  "running now w \<longleftrightarrow> now < snd w + index_write_max_ms"

definition vl_next :: "vl_key \<Rightarrow> millis \<Rightarrow> vl_op \<Rightarrow> vl_history \<Rightarrow> vl_history" where
  "vl_next k now op s =
     (let d = op_step op (row_or_new k (vh_row s)) (vh_row s \<noteq> None) now
      in \<lparr>vh_row = (if d_write d then Some (bumped (d_row d) (vh_row s)) else vh_row s),
          vh_now = now,
          vh_taken = (case op of OpTake _ hash _ _ _ \<Rightarrow> if op_done d then hash # vh_taken s else vh_taken s
                      | _ \<Rightarrow> vh_taken s),
          vh_told = (if d_write d then vh_told s @ d_ended d else vh_told s),
          vh_open = (case op of
              OpBegin hash \<Rightarrow> if op_done d then (hash, now) # vh_open s else vh_open s
            | OpEnd hash _ _ \<Rightarrow> filter (\<lambda>w. \<not> (fst w = hash \<and> running now w)) (vh_open s)
            | _ \<Rightarrow> vh_open s)\<rparr>)"

definition vl_init :: "millis \<Rightarrow> vl_history" where
  "vl_init now = \<lparr>vh_row = None, vh_now = now, vh_taken = [], vh_told = [], vh_open = []\<rparr>"

text \<open>Which operations can come next: time does not run backwards, a new token's hash is new, and
  an index write's end is reported while that write runs.\<close>

definition vl_timely :: "vl_history \<Rightarrow> millis \<Rightarrow> vl_op \<Rightarrow> bool" where
  "vl_timely s now op \<longleftrightarrow> 0 < now \<and> vh_now s \<le> now \<and>
     (case op of
        OpTake _ hash _ _ _ \<Rightarrow> hash \<noteq> [] \<and> hash \<notin> set (vh_taken s)
      | OpRelease hash _ \<Rightarrow> hash \<noteq> []
      | OpEnd hash _ _ \<Rightarrow> hash \<noteq> [] \<and> list_ex (\<lambda>w. fst w = hash \<and> running now w) (vh_open s)
      | _ \<Rightarrow> True)"

inductive vl_reach :: "vl_key \<Rightarrow> vl_history \<Rightarrow> bool" for k where
  start: "vl_reach k (vl_init now)"
| op: "vl_reach k s \<Longrightarrow> vl_timely s now op \<Longrightarrow> vl_reach k (vl_next k now op s)"

text \<open>What holds of the row against that record, in every reachable history.\<close>

definition open_ok :: "string list \<Rightarrow> (string \<times> millis) list \<Rightarrow> millis \<Rightarrow> millis \<Rightarrow> bool" where
  "open_ok T W now started \<longleftrightarrow>
     (\<forall>w \<in> set W. running now w \<longrightarrow> fst w = hd T \<and> snd w = started \<and> 0 < snd w) \<and>
     length (filter (running now) W) \<le> 1"

definition row_ok :: "string list \<Rightarrow> ended list \<Rightarrow> (string \<times> millis) list \<Rightarrow> millis \<Rightarrow> vault_lock \<Rightarrow> bool" where
  "row_ok T E W now l \<longleftrightarrow>
     T \<noteq> [] \<and>
     (vl_token_hash l = hd T \<or> vl_token_hash l = [] \<and> vl_ended_token_hash l = hd T) \<and>
     length T = length E + (if vl_token_hash l = [] then 0 else 1) \<and>
     open_ok T W now (vl_index_started_ms l)"

definition vl_inv :: "vl_history \<Rightarrow> bool" where
  "vl_inv s \<longleftrightarrow>
     distinct (vh_taken s) \<and> [] \<notin> set (vh_taken s) \<and>
     (case vh_row s of
        None \<Rightarrow> vh_taken s = [] \<and> vh_told s = [] \<and> vh_open s = []
      | Some l \<Rightarrow> row_ok (vh_taken s) (vh_told s) (vh_open s) (vh_now s) l)"

lemma running_mono: "now \<le> now' \<Longrightarrow> running now' w \<Longrightarrow> running now w"
  by (simp add: running_def)

lemma open_ok_idle: "filter (running now) W = [] \<Longrightarrow> open_ok T W now i"
  by (auto simp: open_ok_def filter_empty_conv)

lemma row_ok_time:
  assumes "row_ok T E W now l" "now \<le> now'"
  shows "row_ok T E W now' l"
proof -
  have "filter (running now') W = filter (running now') (filter (running now) W)"
    using running_mono [OF assms(2)] by (induction W) auto
  then have "length (filter (running now') W) \<le> length (filter (running now) W)"
    using length_filter_le by metis
  then have "open_ok T W now i \<Longrightarrow> open_ok T W now' i" for i
    using running_mono [OF assms(2)] unfolding open_ok_def by (meson le_trans)
  then show ?thesis using assms(1) by (simp add: row_ok_def)
qed

lemma row_ok_same:
  "row_ok T E W now l \<Longrightarrow> vl_token_hash l' = vl_token_hash l \<Longrightarrow> vl_ended_token_hash l' = vl_ended_token_hash l \<Longrightarrow>
   vl_index_started_ms l' = vl_index_started_ms l \<Longrightarrow> row_ok T E W now l'"
  by (simp add: row_ok_def)

lemma row_ok_bumped [simp]: "row_ok T E W now (bumped l old) = row_ok T E W now l"
  by (simp add: row_ok_def bumped_def)

lemma row_ok_close:
  "row_ok T E W now l \<Longrightarrow> vl_token_hash l \<noteq> [] \<Longrightarrow> vl_token_hash l' = [] \<Longrightarrow>
   vl_ended_token_hash l' = vl_token_hash l \<Longrightarrow> vl_index_started_ms l' = vl_index_started_ms l \<Longrightarrow>
   row_ok T (E @ [e]) W now l'"
  by (auto simp: row_ok_def)

lemma index_idle:
  assumes "row_ok T E W now l" "index_end l now = 0" "0 < now"
  shows "filter (running now) W = []"
proof (rule ccontr)
  assume "filter (running now) W \<noteq> []"
  then obtain w where "w \<in> set W" "running now w" by (auto simp: filter_empty_conv)
  then have "snd w = vl_index_started_ms l" "0 < snd w" "running now w"
    using assms(1) unfolding row_ok_def open_ok_def by blast+
  then show False using assms(2,3) by (auto simp: index_end_def running_def Let_def split: if_splits)
qed

lemma row_ok_begin:
  assumes "row_ok T E W now l" "index_end l now = 0" "0 < now" "vl_token_hash l = h" "h \<noteq> []"
    and "vl_token_hash l' = h" "vl_index_started_ms l' = now"
  shows "row_ok T E ((h, now) # W) now l'"
proof -
  note none = index_idle [OF assms(1-3)]
  have "h = hd T" using assms(1,4,5) by (auto simp: row_ok_def)
  then have "open_ok T ((h, now) # W) now now"
    using none assms(3) by (auto simp: open_ok_def filter_empty_conv)
  then show ?thesis using assms by (auto simp: row_ok_def)
qed

lemma row_ok_take:
  assumes "row_ok T E W now l" "index_end l now = 0" "0 < now" "vl_token_hash l = []" "h \<noteq> []"
    and "vl_token_hash l' = h"
  shows "row_ok (h # T) E W now l'"
  using assms open_ok_idle [OF index_idle [OF assms(1-3)]] by (auto simp: row_ok_def)

lemma row_ok_end:
  assumes "row_ok T E W now l" "w \<in> set W" "fst w = h" "running now w"
    and "vl_token_hash l' = vl_token_hash l" "vl_ended_token_hash l' = vl_ended_token_hash l"
  shows "row_ok T E (filter (\<lambda>w. \<not> (fst w = h \<and> running now w)) W) now l' \<and>
    vl_index_started_ms l \<noteq> 0 \<and> (vl_token_hash l = h \<or> vl_ended_token_hash l = h)"
proof -
  let ?W = "filter (\<lambda>w. \<not> (fst w = h \<and> running now w)) W"
  have o: "open_ok T W now (vl_index_started_ms l)" using assms(1) by (simp add: row_ok_def)
  then have h: "h = hd T" "vl_index_started_ms l \<noteq> 0"
    using assms(2-4) unfolding open_ok_def by fastforce+
  have "\<forall>w \<in> set W. running now w \<longrightarrow> fst w = h" using o h(1) unfolding open_ok_def by blast
  then have "filter (running now) ?W = []" unfolding filter_filter filter_empty_conv by blast
  then have "open_ok T ?W now i" for i by (rule open_ok_idle)
  then have "row_ok T E ?W now l'" using assms(1,5,6) by (simp add: row_ok_def)
  moreover have "vl_token_hash l = h \<or> vl_ended_token_hash l = h" using assms(1) h(1) by (auto simp: row_ok_def)
  ultimately show ?thesis using h(2) by blast
qed

section \<open>The invariant holds in every history\<close>

lemma new_row_fields [simp]: "vl_token_hash (new_row k) = []" "vl_index_started_ms (new_row k) = 0"
  by (simp_all add: new_row_def)

lemma index_end_new [simp]: "index_end (new_row k) now = 0"
  by (simp add: index_end_def)

lemma index_end_close [simp]: "index_end (fst (close_row l r a)) now = index_end l now"
  by (simp add: index_end_def)

lemma plain_simps [simp]:
  "d_row (plain_decision d) = d_row d" "d_write (plain_decision d) = d_write d"
  "d_ended (plain_decision d) = d_ended d" "d_err (plain_decision d) = d_err d"
  "d_out (plain_decision d) = None \<longleftrightarrow> d_out d = None" "op_done (plain_decision d) = op_done d"
  by (simp_all add: plain_decision_def op_done_def)

text \<open>An operation that only closes a row, or leaves it as it was.\<close>

definition closes_or_keeps :: "'a decision \<Rightarrow> vault_lock \<Rightarrow> bool \<Rightarrow> bool" where
  "closes_or_keeps d l ex \<longleftrightarrow> (d_write d \<longrightarrow> ex \<and>
     vl_index_started_ms (d_row d) = vl_index_started_ms l \<and>
     (if d_ended d = [] then vl_token_hash (d_row d) = vl_token_hash l \<and>
        vl_ended_token_hash (d_row d) = vl_ended_token_hash l
      else (\<exists>e. d_ended d = [e]) \<and> vl_token_hash l \<noteq> [] \<and> vl_token_hash (d_row d) = [] \<and>
        vl_ended_token_hash (d_row d) = vl_token_hash l))"

lemma closes_plain [simp]: "closes_or_keeps (plain_decision d) l ex = closes_or_keeps d l ex"
  by (simp add: closes_or_keeps_def)

lemma keeps_row_ok:
  assumes "closes_or_keeps d l ex" "row_ok T E W now l" "d_write d"
  shows "row_ok T (E @ d_ended d) W now (d_row d)"
proof (cases "d_ended d = []")
  case True
  then show ?thesis using assms row_ok_same [OF assms(2)] unfolding closes_or_keeps_def by simp
next
  case False
  then show ?thesis using assms row_ok_close [OF assms(2)] unfolding closes_or_keeps_def by auto
qed

lemma held_closes:
  assumes "held l ex hash now = Some d"
  shows "closes_or_keeps d l ex \<and> d_out d = None"
  using held_Some [OF assms] unfolding closes_or_keeps_def by (auto split: if_splits)

lemma step_closes:
  "closes_or_keeps (renew_step hash active l ex now) l ex"
  "hash \<noteq> [] \<Longrightarrow> closes_or_keeps (release_step hash reason l ex now) l ex"
  "closes_or_keeps (break_step by_whom l ex now) l ex"
  "closes_or_keeps (state_step l ex now) l ex"
proof -
  show "closes_or_keeps (renew_step hash active l ex now) l ex"
    using held_closes [of l ex hash now] held_None [of l ex hash now]
    by (auto simp: renew_step_def closes_or_keeps_def Let_def split: option.split)
  show "closes_or_keeps (release_step hash reason l ex now) l ex" if "hash \<noteq> []"
    using that by (auto simp: release_step_def closes_or_keeps_def refuse_def Let_def case_prod_unfold)
  show "closes_or_keeps (break_step by_whom l ex now) l ex"
    by (auto simp: break_step_def closes_or_keeps_def refuse_def Let_def case_prod_unfold)
  show "closes_or_keeps (state_step l ex now) l ex"
    by (auto simp: state_step_def closes_or_keeps_def refuse_def Let_def case_prod_unfold)
qed

lemma begin_index_cases:
  obtains (begun) "ex" "hash \<noteq> []" "vl_token_hash l = hash" "live l now" "index_end l now = 0"
      "op_done (begin_index_step hash l ex now)" "d_write (begin_index_step hash l ex now)"
      "d_ended (begin_index_step hash l ex now) = []"
      "vl_token_hash (d_row (begin_index_step hash l ex now)) = hash"
      "vl_ended_token_hash (d_row (begin_index_step hash l ex now)) = vl_ended_token_hash l"
      "vl_index_started_ms (d_row (begin_index_step hash l ex now)) = now"
  | (refused) "\<not> op_done (begin_index_step hash l ex now)"
      "closes_or_keeps (begin_index_step hash l ex now) l ex"
proof (cases "held l ex hash now :: unit decision option")
  case None
  note h = held_None [THEN iffD1, OF None]
  show ?thesis
  proof (cases "index_end l now = 0")
    case True
    then have "begin_index_step hash l ex now =
        \<lparr>d_row = l\<lparr>vl_index_started_ms := now, vl_lease_ms := now + lease_ms, vl_active_ms := now\<rparr>,
         d_write = True, d_ended = [], d_err = None, d_out = Some ()\<rparr>"
      using None by (simp add: begin_index_step_def)
    then show ?thesis using h True begun by (simp add: op_done_def)
  next
    case False
    then have "begin_index_step hash l ex now = refuse l (Some IndexRunning)"
      using None by (simp add: begin_index_step_def)
    then show ?thesis using refused by (simp add: op_done_def refuse_def closes_or_keeps_def)
  qed
next
  case (Some d)
  then have "begin_index_step hash l ex now = d" by (simp add: begin_index_step_def)
  then show ?thesis using refused held_closes [OF Some] by (simp add: op_done_def)
qed

lemma end_index_fields:
  "d_ended (end_index_step hash gen c l ex now) = []"
  "vl_token_hash (d_row (end_index_step hash gen c l ex now)) = vl_token_hash l"
  "vl_ended_token_hash (d_row (end_index_step hash gen c l ex now)) = vl_ended_token_hash l"
  "d_write (end_index_step hash gen c l ex now) \<longleftrightarrow>
     ex \<and> vl_index_started_ms l \<noteq> 0 \<and> (vl_token_hash l = hash \<or> vl_ended_token_hash l = hash)"
  by (auto simp: end_index_step_def refuse_def Let_def)

text \<open>The operations that grant nothing new.\<close>

lemma vl_inv_keeps:
  assumes inv: "vl_inv s" and t: "vh_now s \<le> now"
    and c: "closes_or_keeps (op_step op (row_or_new k (vh_row s)) (vh_row s \<noteq> None) now)
        (row_or_new k (vh_row s)) (vh_row s \<noteq> None)"
    and g: "vh_taken (vl_next k now op s) = vh_taken s" "vh_open (vl_next k now op s) = vh_open s"
  shows "vl_inv (vl_next k now op s)"
proof (cases "vh_row s")
  case None
  then have "\<not> d_write (op_step op (row_or_new k (vh_row s)) (vh_row s \<noteq> None) now)"
    using c by (auto simp: closes_or_keeps_def)
  then show ?thesis using inv None g by (auto simp: vl_inv_def vl_next_def Let_def)
next
  case (Some l)
  have ok: "row_ok (vh_taken s) (vh_told s) (vh_open s) now l"
    using inv Some row_ok_time [OF _ t] by (simp add: vl_inv_def)
  let ?d = "op_step op l True now"
  have n: "vh_row (vl_next k now op s) = (if d_write ?d then Some (bumped (d_row ?d) (Some l)) else Some l)"
    "vh_told (vl_next k now op s) = (if d_write ?d then vh_told s @ d_ended ?d else vh_told s)"
    "vh_now (vl_next k now op s) = now"
    using Some by (simp_all add: vl_next_def Let_def row_or_new_def)
  have "closes_or_keeps ?d l True" using c Some by (simp add: row_or_new_def)
  from keeps_row_ok [OF this ok]
  have "row_ok (vh_taken s) (vh_told (vl_next k now op s)) (vh_open s) now (the (vh_row (vl_next k now op s)))"
    using ok n by simp
  then show ?thesis using inv g n by (simp add: vl_inv_def split: if_splits)
qed

lemma vl_inv_take:
  assumes inv: "vl_inv s" and t: "vl_timely s now (OpTake token hash p h idle)"
  shows "vl_inv (vl_next k now (OpTake token hash p h idle) s)"
proof -
  let ?l = "row_or_new k (vh_row s)" and ?ex = "vh_row s \<noteq> None"
  have tm: "0 < now" "vh_now s \<le> now" "hash \<noteq> []" "hash \<notin> set (vh_taken s)"
    using t by (auto simp: vl_timely_def)
  show ?thesis
  proof (cases rule: take_step_cases [of ?ex token hash p h idle ?l now])
    case (locked a w)
    then show ?thesis
      by (intro vl_inv_keeps [OF inv tm(2)])
        (auto simp: closes_or_keeps_def refuse_def plain_decision_def vl_next_def op_done_def Let_def)
  next
    case (granted base d)
    let ?s = "vl_next k now (OpTake token hash p h idle) s"
    have dn: "op_done d" using granted(3,4) by (simp add: op_done_def)
    have n: "vh_row ?s = Some (bumped (d_row d) (vh_row s))" "vh_taken ?s = hash # vh_taken s"
      "vh_open ?s = vh_open s" "vh_now ?s = now" "vh_told ?s = vh_told s @ d_ended d"
      using granted(1,2) dn by (simp_all add: vl_next_def Let_def)
    have tok: "vl_token_hash (d_row d) = hash" using granted(7) by simp
    have "row_ok (hash # vh_taken s) (vh_told s @ d_ended d) (vh_open s) now (d_row d)"
    proof (cases "vh_row s")
      case None
      then have "vh_taken s = []" "vh_told s = []" "vh_open s = []" using inv by (auto simp: vl_inv_def)
      then show ?thesis using granted(8) None tok tm(3) by (simp add: row_ok_def open_ok_def)
    next
      case (Some l)
      then have l: "?l = l" by (simp add: row_or_new_def)
      have ok: "row_ok (vh_taken s) (vh_told s) (vh_open s) now l"
        using inv Some row_ok_time [OF _ tm(2)] by (simp add: vl_inv_def)
      have idle: "index_end l now = 0" using granted(6) Some l by simp
      show ?thesis
      proof (cases "vl_token_hash l = []")
        case True
        then show ?thesis using row_ok_take [OF ok idle tm(1) True tm(3) tok] granted(8) l by simp
      next
        case False
        then have e: "d_ended d = [snd (close_row l (snd (end_of l)) (fst (end_of l)))]"
          using granted(8) Some l by simp
        let ?c = "fst (close_row l (snd (end_of l)) (fst (end_of l)))"
        have "row_ok (vh_taken s) (vh_told s @ d_ended d) (vh_open s) now ?c"
          unfolding e by (rule row_ok_close [OF ok False]) simp_all
        from row_ok_take [OF this _ tm(1) _ tm(3) tok] show ?thesis using idle by simp
      qed
    qed
    then show ?thesis using inv n tm by (simp add: vl_inv_def)
  qed
qed

lemma vl_inv_begin:
  assumes inv: "vl_inv s" and t: "vl_timely s now (OpBegin hash)"
  shows "vl_inv (vl_next k now (OpBegin hash) s)"
proof -
  let ?l = "row_or_new k (vh_row s)" and ?ex = "vh_row s \<noteq> None"
  have tm: "0 < now" "vh_now s \<le> now" using t by (auto simp: vl_timely_def)
  show ?thesis
  proof (cases rule: begin_index_cases [of ?ex hash ?l now])
    case refused
    then show ?thesis by (intro vl_inv_keeps [OF inv tm(2)]) (auto simp: vl_next_def Let_def)
  next
    case begun
    then obtain l where l: "vh_row s = Some l" "?l = l" by (auto simp: row_or_new_def)
    let ?s = "vl_next k now (OpBegin hash) s" and ?d = "begin_index_step hash l True now"
    have n: "vh_row ?s = Some (bumped (d_row ?d) (Some l))" "vh_taken ?s = vh_taken s"
      "vh_open ?s = (hash, now) # vh_open s" "vh_now ?s = now" "vh_told ?s = vh_told s"
      using begun l by (simp_all add: vl_next_def Let_def)
    have ok: "row_ok (vh_taken s) (vh_told s) (vh_open s) now l"
      using inv l row_ok_time [OF _ tm(2)] by (simp add: vl_inv_def)
    have "row_ok (vh_taken s) (vh_told s) ((hash, now) # vh_open s) now (d_row ?d)"
      by (rule row_ok_begin [OF ok _ tm(1)]) (use begun l in simp_all)
    then show ?thesis using inv n by (simp add: vl_inv_def)
  qed
qed

lemma vl_inv_end:
  assumes inv: "vl_inv s" and t: "vl_timely s now (OpEnd hash gen c)"
  shows "vl_inv (vl_next k now (OpEnd hash gen c) s)"
proof -
  have tm: "0 < now" "vh_now s \<le> now" using t by (auto simp: vl_timely_def)
  from t obtain w where w: "w \<in> set (vh_open s)" "fst w = hash" "running now w"
    by (auto simp: vl_timely_def list_ex_iff)
  then obtain l where l: "vh_row s = Some l" using inv by (cases "vh_row s") (auto simp: vl_inv_def)
  let ?s = "vl_next k now (OpEnd hash gen c) s" and ?d = "end_index_step hash gen c l True now"
  let ?W = "filter (\<lambda>w. \<not> (fst w = hash \<and> running now w)) (vh_open s)"
  have ok: "row_ok (vh_taken s) (vh_told s) (vh_open s) now l"
    using inv l row_ok_time [OF _ tm(2)] by (simp add: vl_inv_def)
  from row_ok_end [OF ok w end_index_fields(2,3)]
  have r: "row_ok (vh_taken s) (vh_told s) ?W now (d_row ?d)" and "d_write ?d"
    by (auto simp: end_index_fields(4))
  then have n: "vh_row ?s = Some (bumped (d_row ?d) (Some l))" "vh_taken ?s = vh_taken s"
      "vh_open ?s = ?W" "vh_now ?s = now" "vh_told ?s = vh_told s"
    using l end_index_fields(1) by (simp_all add: vl_next_def Let_def row_or_new_def)
  then show ?thesis using inv r by (simp add: vl_inv_def)
qed

theorem vl_reach_inv: "vl_reach k s \<Longrightarrow> vl_inv s"
proof (induction rule: vl_reach.induct)
  case (start now)
  show ?case by (simp add: vl_inv_def vl_init_def)
next
  case (op s now op)
  have t: "vh_now s \<le> now" using op.hyps by (simp add: vl_timely_def)
  note keep = vl_inv_keeps [OF op.IH t]
  show ?case
  proof (cases op)
    case (OpTake x1 x2 x3 x4 x5)
    then show ?thesis using vl_inv_take op by blast
  next
    case (OpBegin x5)
    then show ?thesis using vl_inv_begin op by blast
  next
    case (OpEnd x61 x62 x63)
    then show ?thesis using vl_inv_end op by blast
  next
    case (OpRenew h a)
    then show ?thesis
      using step_closes(1) [of h a] by (intro keep) (simp_all add: vl_next_def Let_def)
  next
    case (OpRelease h r)
    then show ?thesis
      using step_closes(2) [of h r] op.hyps by (intro keep) (simp_all add: vl_next_def Let_def vl_timely_def)
  next
    case (OpBreak b)
    then show ?thesis
      using step_closes(3) [of b] by (intro keep) (simp_all add: vl_next_def Let_def)
  next
    case OpState
    then show ?thesis using step_closes(4) by (intro keep) (simp_all add: vl_next_def Let_def)
  qed
qed

lemma done_facts:
  "op_done (op_step (OpRenew hash active) l ex now) \<Longrightarrow> hash \<noteq> [] \<and> vl_token_hash l = hash \<and> live l now"
  "op_done (op_step (OpBegin hash) l ex now) \<Longrightarrow> hash \<noteq> [] \<and> vl_token_hash l = hash \<and> live l now"
  "op_done (op_step (OpTake token hash p h idle) l True now) \<Longrightarrow> \<not> live l now \<and> index_end l now = 0"
proof -
  show "hash \<noteq> [] \<and> vl_token_hash l = hash \<and> live l now" if d: "op_done (op_step (OpRenew hash active) l ex now)"
  proof (cases "held l ex hash now :: (millis \<times> millis) decision option")
    case None
    then show ?thesis using held_None [THEN iffD1, OF None] by blast
  next
    case (Some d)
    then show ?thesis using that held_closes [OF Some] by (simp add: renew_step_def op_done_def)
  qed
  show "hash \<noteq> [] \<and> vl_token_hash l = hash \<and> live l now" if "op_done (op_step (OpBegin hash) l ex now)"
    using that by (cases rule: begin_index_cases [of ex hash l now]) auto
  show "\<not> live l now \<and> index_end l now = 0" if "op_done (op_step (OpTake token hash p h idle) l True now)"
    using that by (cases rule: take_step_cases [of True token hash p h idle l now]) (auto simp: op_done_def refuse_def)
qed

section \<open>How a lock's end is told\<close>

text \<open>What an operation should say ended the lock on a row, when it ends one: None when it leaves the
  lock alone. A lock that has run out is found so by whoever comes first, except that an index
  write still running keeps \<open>Take\<close> and \<open>State\<close> from closing the row.\<close>

definition endings :: "vault_lock \<Rightarrow> vl_op \<Rightarrow> millis \<Rightarrow> (string \<times> holder) option" where
  "endings l op now =
     (let ran_out = Some (snd (end_of l), no_holder)
      in if vl_token_hash l = [] then None
      else case op of
        OpBreak by_whom \<Rightarrow> if live l now then Some (ReasonBroken, by_whom) else ran_out
      | OpRelease hash reason \<Rightarrow> if vl_token_hash l \<noteq> hash then None
          else if reason = ReasonLockedIdle then Some (ReasonLockedIdle, no_holder)
          else if live l now then Some (ReasonReleased, no_holder) else ran_out
      | OpRenew hash _ \<Rightarrow> if vl_token_hash l = hash \<and> \<not> live l now then ran_out else None
      | OpBegin hash \<Rightarrow> if vl_token_hash l = hash \<and> \<not> live l now then ran_out else None
      | OpEnd _ _ _ \<Rightarrow> None
      | OpTake _ _ _ _ _ \<Rightarrow> if \<not> live l now \<and> index_end l now = 0 then ran_out else None
      | OpState \<Rightarrow> if \<not> live l now \<and> index_end l now = 0 then ran_out else None)"

text \<open>What a token should hear of an ending, and of its lock given the history.\<close>

definition ending_answer :: "ended \<Rightarrow> vl_error" where
  "ending_answer e =
     (if e_reason e = ReasonBroken then Lost ReasonBroken (Some (no_holder\<lparr>h_name := h_name (e_by e)\<rparr>))
      else if e_reason e = ReasonLockedIdle then Lost ReasonReleased None
      else Lost (e_reason e) None)"

definition told_answer :: "vl_history \<Rightarrow> vault_lock \<Rightarrow> string \<Rightarrow> millis \<Rightarrow> vl_error option" where
  "told_answer s l hash now =
     (let newest = hash = hd (vh_taken s); own = ending_answer (last (vh_told s))
      in if vl_token_hash l = [] then Some (if newest then own else Lost ReasonExpired None)
      else if newest then (if live l now then None else Some (Lost (snd (end_of l)) None))
      else if \<not> live l now \<and> hash = hd (tl (vh_taken s)) then Some own
      else Some (Lost ReasonTaken (Some (vl_holder l))))"

text \<open>The row records the last ending told.\<close>

definition records :: "vault_lock \<Rightarrow> ended \<Rightarrow> bool" where
  "records l e \<longleftrightarrow> vl_ended_reason l = e_reason e \<and> vl_ended_by l = h_name (e_by e) \<and> e_reason e \<noteq> []"

definition told_inv :: "vl_history \<Rightarrow> bool" where
  "told_inv s \<longleftrightarrow> (case vh_row s of None \<Rightarrow> True | Some l \<Rightarrow>
     vh_told s \<noteq> [] \<longrightarrow> records l (last (vh_told s)) \<and>
       vl_ended_token_hash l = (if vl_token_hash l = [] then hd (vh_taken s) else hd (tl (vh_taken s))))"

lemma end_of_reason [simp]: "snd (end_of l) \<noteq> []"
  by (simp add: end_of_def Let_def)

lemma no_holder_name [simp]: "h_name no_holder = []"
  by (simp add: no_holder_def)

lemma records_fields:
  "vl_ended_reason l' = vl_ended_reason l \<Longrightarrow> vl_ended_by l' = vl_ended_by l \<Longrightarrow> records l' e = records l e"
  by (simp add: records_def)

lemma close_row_records: "r \<noteq> [] \<Longrightarrow> records (fst (close_row l r a)) (snd (close_row l r a))"
  by (simp add: records_def close_row_def)

lemma bumped_fields [simp]:
  "vl_token_hash (bumped l old) = vl_token_hash l" "vl_ended_token_hash (bumped l old) = vl_ended_token_hash l"
  "vl_ended_reason (bumped l old) = vl_ended_reason l" "vl_ended_by (bumped l old) = vl_ended_by l"
  "records (bumped l old) e = records l e"
  by (simp_all add: bumped_def records_def)

lemma close_row_ended:
  "vl_ended_by (fst (close_row l r a)) = []" "e_by (snd (close_row l r a)) = no_holder"
  by (simp_all add: close_row_def)

lemma held_told:
  "held l ex hash now = Some d \<Longrightarrow> if d_write d
   then vl_token_hash l = hash \<and> hash \<noteq> [] \<and> \<not> live l now \<and>
     d_row d = fst (close_row l (snd (end_of l)) (fst (end_of l))) \<and> d_ended d = [snd (close_row l (snd (end_of l)) (fst (end_of l)))]
   else d_ended d = [] \<and> (ex \<and> hash \<noteq> [] \<longrightarrow> vl_token_hash l \<noteq> hash)"
  by (auto simp: held_def refuse_def live_def case_prod_unfold Let_def split: if_splits)

text \<open>Each step tells the ending the row calls for, or none, and the row it writes records it.\<close>

definition tells :: "'a decision \<Rightarrow> vault_lock \<Rightarrow> (string \<times> holder) option \<Rightarrow> bool" where
  "tells d l ending \<longleftrightarrow> (case ending of
      None \<Rightarrow> d_ended d = [] \<and> vl_ended_reason (d_row d) = vl_ended_reason l \<and> vl_ended_by (d_row d) = vl_ended_by l
    | Some (reason, by_whom) \<Rightarrow> d_write d \<and> (\<exists>e. d_ended d = [e] \<and> e_holder e = vl_holder l \<and>
        e_reason e = reason \<and> e_by e = by_whom \<and> records (d_row d) e))"

lemma tells_plain [simp]: "tells (plain_decision d) l x = tells d l x"
  by (simp add: tells_def split: option.split)

lemma tells_refuse [simp]: "tells (refuse l e) l None"
  by (simp add: tells_def refuse_def)

lemmas told_simps = tells_def endings_def refuse_def records_def close_row_def live_def case_prod_unfold Let_def

lemma step_told:
  assumes "case op of OpRelease hash _ \<Rightarrow> hash \<noteq> [] | _ \<Rightarrow> True"
  shows "tells (op_step op l True now) l (endings l op now)"
proof (cases op)
  case (OpTake token hash p h idle)
  then show ?thesis by (auto simp: take_step_def told_simps)
next
  case (OpRenew hash active)
  then show ?thesis by (auto simp: renew_step_def held_def lost_for_def told_simps)
next
  case (OpRelease hash reason)
  then show ?thesis using assms by (auto simp: release_step_def told_simps)
next
  case (OpBreak by_whom)
  then show ?thesis by (auto simp: break_step_def told_simps)
next
  case (OpBegin hash)
  then show ?thesis by (auto simp: begin_index_step_def held_def lost_for_def told_simps)
next
  case (OpEnd hash gen c)
  then show ?thesis by (auto simp: end_index_step_def told_simps)
next
  case OpState
  then show ?thesis by (auto simp: state_step_def told_simps)
qed

lemma ending_told:
  assumes "vh_row s = Some l" and "vl_timely s now op"
  shows "case endings l op now of
       None \<Rightarrow> vh_told (vl_next k now op s) = vh_told s
     | Some (reason, by_whom) \<Rightarrow> \<exists>e. vh_told (vl_next k now op s) = vh_told s @ [e] \<and>
         e_holder e = vl_holder l \<and> e_reason e = reason \<and> e_by e = by_whom"
proof -
  have "case op of OpRelease hash _ \<Rightarrow> hash \<noteq> [] | _ \<Rightarrow> True"
    using assms(2) by (auto simp: vl_timely_def split: vl_op.splits)
  from step_told [OF this, of l now] show ?thesis
    using assms(1) by (auto simp: tells_def vl_next_def row_or_new_def Let_def split: option.splits)
qed

section \<open>What the row remembers\<close>

text \<open>An operation other than a take keeps the row's token, or closes it; a take that is granted
  leaves the newest token before it as the one that ended.\<close>

lemma other_token:
  assumes "\<forall>token hash p h idle. op \<noteq> OpTake token hash p h idle" and "vl_token_hash (d_row (op_step op l ex now)) \<noteq> []"
    and "d_write (op_step op l ex now)" and "case op of OpRelease hash _ \<Rightarrow> hash \<noteq> [] | _ \<Rightarrow> True"
  shows "vl_token_hash (d_row (op_step op l ex now)) = vl_token_hash l \<and>
    vl_ended_token_hash (d_row (op_step op l ex now)) = vl_ended_token_hash l \<and> d_ended (op_step op l ex now) = []"
proof (cases op)
  case (OpBegin hash)
  show ?thesis
  proof (cases rule: begin_index_cases [of ex hash l now])
    case begun
    then show ?thesis using OpBegin by simp
  next
    case refused
    then show ?thesis using assms(2,3) OpBegin unfolding closes_or_keeps_def by (auto split: if_splits)
  qed
next
  case (OpEnd hash gen c)
  then show ?thesis by (simp add: end_index_fields)
next
  case (OpRenew hash active)
  then show ?thesis using assms step_closes(1) [of hash active l ex now] unfolding closes_or_keeps_def by (auto split: if_splits)
next
  case (OpRelease hash reason)
  then show ?thesis using assms step_closes(2) [of hash reason l ex now] unfolding closes_or_keeps_def by (auto split: if_splits)
next
  case (OpBreak by_whom)
  then show ?thesis using assms step_closes(3) [of by_whom l ex now] unfolding closes_or_keeps_def by (auto split: if_splits)
next
  case OpState
  then show ?thesis using assms step_closes(4) [of l ex now] unfolding closes_or_keeps_def by (auto split: if_splits)
qed (use assms in blast)

lemma take_remembers:
  assumes "row_ok T E W now l" and "[] \<notin> set T" and "d_write (op_step (OpTake token hash p h idle) l True now)"
  shows "vl_ended_token_hash (d_row (op_step (OpTake token hash p h idle) l True now)) = hd T \<and>
    op_done (op_step (OpTake token hash p h idle) l True now)"
proof (cases rule: take_step_cases [of True token hash p h idle l now])
  case (locked t w)
  then show ?thesis using assms(3) by (simp add: refuse_def)
next
  case (granted base d)
  have "hd T \<noteq> []" using assms(1,2) by (metis hd_in_set row_ok_def)
  then show ?thesis using granted assms by (auto simp: row_ok_def op_done_def split: if_splits)
qed

lemma written_records:
  assumes "vh_told s \<noteq> [] \<longrightarrow> records l (last (vh_told s))" and "vh_told s @ d_ended (op_step op l True now) \<noteq> []"
    and "case op of OpRelease hash _ \<Rightarrow> hash \<noteq> [] | _ \<Rightarrow> True"
  shows "records (d_row (op_step op l True now)) (last (vh_told s @ d_ended (op_step op l True now)))"
proof (cases "endings l op now")
  case None
  then have "d_ended (op_step op l True now) = []" "records (d_row (op_step op l True now)) e = records l e" for e
    using step_told [OF assms(3), of l now] by (auto simp: tells_def records_def)
  then show ?thesis using assms(1,2) by simp
next
  case (Some ending)
  then obtain e where "d_ended (op_step op l True now) = [e]" "records (d_row (op_step op l True now)) e"
    using step_told [OF assms(3), of l now] by (auto simp: tells_def split: prod.splits)
  then show ?thesis by simp
qed

lemma written_hash:
  assumes inv: "vl_inv s" and told: "told_inv s" and row: "vh_row s = Some l" and t: "vl_timely s now op"
    and d: "d = op_step op l True now" "d_write d" "vl_token_hash (d_row d) \<noteq> []" "vh_told s @ d_ended d \<noteq> []"
  shows "vl_ended_token_hash (d_row d) = hd (tl (vh_taken (vl_next k now op s)))"
proof (cases "\<exists>token hash p h idle. op = OpTake token hash p h idle")
  case True
  then obtain token hash p h idle where op: "op = OpTake token hash p h idle" by blast
  have ok: "row_ok (vh_taken s) (vh_told s) (vh_open s) now l" "[] \<notin> set (vh_taken s)"
    using inv row t row_ok_time by (fastforce simp: vl_inv_def vl_timely_def)+
  note r = take_remembers [OF ok d(2) [unfolded d(1) op]]
  then have "vh_taken (vl_next k now op s) = hash # vh_taken s"
    using row op by (simp add: vl_next_def row_or_new_def Let_def)
  then show ?thesis using r d(1) op by simp
next
  case False
  have r: "case op of OpRelease hash _ \<Rightarrow> hash \<noteq> [] | _ \<Rightarrow> True"
    using t by (auto simp: vl_timely_def split: vl_op.splits)
  have "vh_taken (vl_next k now op s) = vh_taken s" using False by (auto simp: vl_next_def Let_def split: vl_op.split)
  then show ?thesis
    using other_token [OF _ d(3) [unfolded d(1)] d(2) [unfolded d(1)] r] False told row d by (auto simp: told_inv_def)
qed

lemma told_inv_step:
  assumes inv: "vl_inv s" "vl_inv (vl_next k now op s)" and told: "told_inv s" and t: "vl_timely s now op"
  shows "told_inv (vl_next k now op s)"
proof (cases "vh_row s")
  case None
  have "vh_told s = []" using inv(1) None by (simp add: vl_inv_def)
  moreover have "d_ended (op_step op (new_row k) False now) = []"
    by (cases op) (auto simp: step_defs end_index_fields Let_def split: option.split)
  ultimately show ?thesis using None by (simp add: told_inv_def vl_next_def row_or_new_def Let_def)
next
  case (Some l)
  let ?d = "op_step op l True now" and ?s = "vl_next k now op s"
  have r: "case op of OpRelease hash _ \<Rightarrow> hash \<noteq> [] | _ \<Rightarrow> True"
    using t by (auto simp: vl_timely_def split: vl_op.splits)
  have n: "vh_row ?s = (if d_write ?d then Some (bumped (d_row ?d) (Some l)) else Some l)"
    "vh_told ?s = (if d_write ?d then vh_told s @ d_ended ?d else vh_told s)"
    using Some by (simp_all add: vl_next_def Let_def row_or_new_def)
  show ?thesis
  proof (cases "d_write ?d")
    case False
    then have "vh_taken ?s = vh_taken s"
      using Some by (auto simp: vl_next_def row_or_new_def Let_def op_done_def split: vl_op.split)
        (auto simp: take_step_def refuse_def plain_decision_def case_prod_unfold Let_def split: if_splits)
    then show ?thesis using False n told Some by (simp add: told_inv_def)
  next
    case True
    have "vh_taken ?s \<noteq> [] \<longrightarrow> hd (vh_taken ?s) \<noteq> []" using inv(2) hd_in_set by (metis vl_inv_def)
    then have "vl_ended_token_hash (d_row ?d) = hd (vh_taken ?s)" if "vl_token_hash (d_row ?d) = []"
      using inv(2) n True that by (auto simp: vl_inv_def row_ok_def)
    then show ?thesis
      using written_records [of s l op now] written_hash [OF inv(1) told Some t refl True, of k] r told Some n True
      by (simp add: told_inv_def)
  qed
qed

lemma vl_reach_told: "vl_reach k s \<Longrightarrow> told_inv s"
proof (induction rule: vl_reach.induct)
  case (start now)
  show ?case by (simp add: told_inv_def vl_init_def)
next
  case (op s now op)
  show ?case by (rule told_inv_step [OF vl_reach_inv [OF op.hyps(1)] vl_reach_inv [OF vl_reach.op [OF op.hyps]] op.IH op.hyps(2)])
qed

lemma ending_answer_of_row:
  "records l e \<Longrightarrow> hash \<noteq> [] \<Longrightarrow> vl_ended_token_hash l = hash \<Longrightarrow> \<not> live l now \<Longrightarrow> lost_for l hash now = ending_answer e"
  by (auto simp: records_def lost_for_def ending_answer_def)

lemma renew_answers:
  "hash \<noteq> [] \<Longrightarrow> d_err (renew_step hash active l True now) =
    (if vl_token_hash l \<noteq> hash then Some (lost_for l hash now)
     else if live l now then None else Some (Lost (snd (end_of l)) None))"
  by (auto simp: renew_step_def held_def refuse_def live_def case_prod_unfold Let_def)

lemma renewal_told:
  assumes "vl_reach k s" and "vh_row s = Some l" and "hash \<in> set (vh_taken s)"
  shows "d_err (renew_step hash active l True now) = told_answer s l hash now"
proof -
  have inv: "vl_inv s" "told_inv s" using vl_reach_inv vl_reach_told assms(1) by blast+
  then have d: "distinct (vh_taken s)" "hash \<noteq> []" using assms(3) by (auto simp: vl_inv_def)
  have ok: "row_ok (vh_taken s) (vh_told s) (vh_open s) (vh_now s) l" using inv(1) assms(2) by (simp add: vl_inv_def)
  have T: "vh_taken s = hd (vh_taken s) # tl (vh_taken s)" using assms(3) by (cases "vh_taken s") auto
  have dead: "\<not> live l now" if "vl_token_hash l = []" using that by (simp add: live_def)
  show ?thesis
  proof (cases "vh_told s = []")
    case True
    then have "length (vh_taken s) = 1" "vl_token_hash l \<noteq> []" using ok T by (auto simp: row_ok_def split: if_splits)
    then have "hash = hd (vh_taken s)" "vl_token_hash l = hash" using assms(3) ok by (auto simp: length_Suc_conv row_ok_def)
    then show ?thesis using renew_answers [OF d(2)] d(2) by (simp add: told_answer_def Let_def)
  next
    case False
    then have rec: "records l (last (vh_told s))"
      and e: "vl_ended_token_hash l = (if vl_token_hash l = [] then hd (vh_taken s) else hd (tl (vh_taken s)))"
      using inv(2) assms(2) by (simp_all add: told_inv_def)
    have hd: "vl_token_hash l \<noteq> [] \<longrightarrow> vl_token_hash l = hd (vh_taken s)" using ok by (auto simp: row_ok_def)
    note own = ending_answer_of_row [OF rec d(2)]
    consider "vl_token_hash l = hash" | "vl_token_hash l \<noteq> hash" "vl_ended_token_hash l = hash" "\<not> live l now"
      | "vl_token_hash l \<noteq> hash" "vl_ended_token_hash l = hash" "live l now"
      | "vl_token_hash l \<noteq> hash" "vl_ended_token_hash l \<noteq> hash" by blast
    then show ?thesis
    proof cases
      case 1
      then show ?thesis using renew_answers [OF d(2)] d(2) hd by (auto simp: told_answer_def Let_def)
    next
      case 2
      then show ?thesis using renew_answers [OF d(2)] d(2) hd e own by (auto simp: told_answer_def Let_def)
    next
      case 3
      then have "vl_token_hash l \<noteq> []" "hash \<noteq> hd (vh_taken s)" using dead hd by auto
      then show ?thesis using 3 renew_answers [OF d(2)] by (simp add: told_answer_def lost_for_def)
    next
      case 4
      then have "vl_token_hash l \<noteq> [] \<longrightarrow> hash \<noteq> hd (vh_taken s)" "vl_token_hash l = [] \<longrightarrow> hash \<noteq> hd (vh_taken s)"
        "vl_token_hash l \<noteq> [] \<longrightarrow> hash \<noteq> hd (tl (vh_taken s))" using hd e by (auto split: if_splits)
      then show ?thesis using 4 renew_answers [OF d(2)] dead by (auto simp: told_answer_def lost_for_def Let_def)
    qed
  qed
qed

section \<open>A history to try the rules on\<close>

definition ada :: holder where
  "ada = \<lparr>h_user = 1, h_name = ''Ada'', h_client = ''web'', h_label = ''Firefox''\<rparr>"

definition vault_place :: place where
  "vault_place = \<lparr>p_storage = 1, p_path = ''Vault''\<rparr>"

definition vault_key :: vl_key where
  "vault_key = (0, ''0123456789abcdef0123456789abcdef'')"

definition one_write :: vl_history where
  "one_write = vl_next vault_key 2000 (OpBegin ''a'')
     (vl_next vault_key 1000 (OpTake ''A'' ''a'' vault_place ada 180) (vl_init 1000))"

lemma one_write_reach: "vl_reach vault_key one_write"
proof -
  have 1: "vl_timely (vl_init 1000) 1000 (OpTake ''A'' ''a'' vault_place ada 180)" by code_simp
  have 2: "vl_timely (vl_next vault_key 1000 (OpTake ''A'' ''a'' vault_place ada 180) (vl_init 1000)) 2000 (OpBegin ''a'')"
    by code_simp
  show ?thesis unfolding one_write_def
    by (rule vl_reach.op [OF vl_reach.op [OF vl_reach.start 1] 2])
qed

definition bob :: holder where
  "bob = \<lparr>h_user = 2, h_name = ''Bob'', h_client = ''desktop'', h_label = ''Laptop''\<rparr>"

text \<open>A session takes the vault, is broken, and another takes it.\<close>

definition broken_and_taken :: vl_history where
  "broken_and_taken = vl_next vault_key 63000 (OpTake ''B'' ''b'' vault_place bob 180)
     (vl_next vault_key 3000 (OpBreak ada)
       (vl_next vault_key 1000 (OpTake ''A'' ''a'' vault_place ada 180) (vl_init 1000)))"

lemma broken_and_taken_reach: "vl_reach vault_key broken_and_taken"
proof -
  let ?s1 = "vl_next vault_key 1000 (OpTake ''A'' ''a'' vault_place ada 180) (vl_init 1000)"
  let ?s2 = "vl_next vault_key 3000 (OpBreak ada) ?s1"
  have 1: "vl_timely (vl_init 1000) 1000 (OpTake ''A'' ''a'' vault_place ada 180)" by code_simp
  have 2: "vl_timely ?s1 3000 (OpBreak ada)" by code_simp
  have 3: "vl_timely ?s2 63000 (OpTake ''B'' ''b'' vault_place bob 180)" by code_simp
  show ?thesis unfolding broken_and_taken_def
    by (rule vl_reach.op [OF vl_reach.op [OF vl_reach.op [OF vl_reach.start 1] 2] 3])
qed

text \<open>A race: before the first try's write another session takes the vault; the second try reads its row.\<close>

definition bob_takes :: "vl_store \<Rightarrow> vl_store" where
  "bob_takes db = (if db vault_key = None
     then db(vault_key \<mapsto> bumped (d_row (take_step ''B'' ''b'' vault_place ada 180 (new_row vault_key) False 1000)) None)
     else db)"

definition race :: "turn list" where
  "race = [\<lparr>t_now = 1000, t_read_fails = False, t_others = bob_takes, t_answer = Answered, t_looks = True\<rparr>,
     \<lparr>t_now = 1010, t_read_fails = False, t_others = id, t_answer = Answered, t_looks = True\<rparr>]"

lemma race_honest: "\<forall>t \<in> set race. honest vault_key (t_others t)"
  by (auto simp: race_def honest_def bob_takes_def bumped_def take_step_def new_row_def Let_def)

section \<open>Properties\<close>

text \<open>C9. The lock's operations are atomic: whatever the other processes write between the read and
  the write of each try, an operation that writes acts as one step on the table as it was at one
  instant - the write it reports was made on the row it decided about - one that decides not to
  write answers for the row it read, and one that gives up after eight lost races, or after a
  database error that came before its statement was carried out, wrote nothing. When the answer
  of a statement that was carried out is lost, the table holds exactly that one step's write: the
  operation reports a database error - or, when the statement was the INSERT of the vault's first
  row, takes its own row for another's and acts once more, as one step, on the table with it.
  Other writers follow the same protocol (they move the revision, and delete no row).\<close>
theorem mutate_is_atomic:
  assumes "\<forall>t \<in> set turns. honest k (t_others t)" and "keyed k fn" and "keyed_rows k db" and "snd k \<noteq> []"
  shows "let ts = take cas_tries turns; m = mutate k fn turns db in
    one_step k fn ts db m \<or>
    (\<exists>i. lost_insert k fn ts i db \<and> one_step k fn (drop (Suc i) ts) (m_db (wrote_at k fn ts i db)) m)"
  unfolding Let_def mutate_def
  by (rule mutate_turns_atomic) (use assms in \<open>auto dest: in_set_takeD\<close>)

theorem mutate_is_atomic_witness:
  "one_step vault_key (take_step ''A'' ''a'' vault_place ada 180) race Map.empty
     (mutate vault_key (take_step ''A'' ''a'' vault_place ada 180) race Map.empty) \<and>
   m_err (mutate vault_key (take_step ''A'' ''a'' vault_place ada 180) race Map.empty) = Some (Locked ada 1000 59990)"
proof -
  have 1: "keyed_rows vault_key Map.empty" by (simp add: keyed_rows_def)
  have 2: "snd vault_key \<noteq> []" by (simp add: vault_key_def)
  have 3: "take cas_tries race = race" "\<forall>t \<in> set race. t_answer t = Answered"
    by (simp_all add: race_def cas_tries_def)
  have 4: "\<not> lost_insert vault_key (take_step ''A'' ''a'' vault_place ada 180) race i Map.empty" for i
    using 3(2) nth_mem [of i race] by (fastforce simp: lost_insert_def writes_at_def)
  have 5: "m_err (mutate vault_key (take_step ''A'' ''a'' vault_place ada 180) race Map.empty) = Some (Locked ada 1000 59990)"
    by code_simp
  show ?thesis
    using mutate_is_atomic [OF race_honest steps_keyed(1) 1 2, of "''A''" "''a''" vault_place ada 180] 4 5
    unfolding Let_def 3(1) by blast
qed

text \<open>C10. Never two index writes of one vault at once: in every history in which the end of an index
  write is reported while that write runs, at any moment at most one index write begun in the
  last 60 seconds is open, and it is the newest lock's.\<close>
theorem one_index_write:
  assumes "vl_reach k s"
  shows "length (filter (running (vh_now s)) (vh_open s)) \<le> 1 \<and>
    list_all (\<lambda>w. running (vh_now s) w \<longrightarrow> vh_taken s \<noteq> [] \<and> fst w = hd (vh_taken s)) (vh_open s)"
  using vl_reach_inv [OF assms]
  by (cases "vh_row s") (auto simp: vl_inv_def row_ok_def open_ok_def list_all_iff)

theorem one_index_write_witness:
  "length (filter (running (vh_now one_write)) (vh_open one_write)) \<le> 1 \<and> length (vh_open one_write) = 1"
proof -
  have "length (vh_open one_write) = 1" by code_simp
  then show ?thesis using one_index_write [OF one_write_reach] by blast
qed

text \<open>At most one session writes: in every such history a renewal, a vault write or an index write
  is granted only to the token of the newest lock, while that lock is live, and a new lock is
  granted only when none is live and no index write runs.\<close>
theorem only_the_newest_lock_writes:
  assumes "vl_reach k s" and "vh_row s = Some l" and "vh_now s \<le> now" and "0 < now"
  shows "(op_done (op_step (OpRenew hash active) l True now) \<or> op_done (op_step (OpBegin hash) l True now) \<longrightarrow>
      hash = hd (vh_taken s) \<and> live l now) \<and>
    (op_done (op_step (OpTake token hash p h idle) l True now) \<longrightarrow>
      \<not> live l now \<and> filter (running now) (vh_open s) = [])"
proof -
  have ok: "row_ok (vh_taken s) (vh_told s) (vh_open s) (vh_now s) l"
    using vl_reach_inv [OF assms(1)] assms(2) by (simp add: vl_inv_def)
  then have "vl_token_hash l \<noteq> [] \<longrightarrow> vl_token_hash l = hd (vh_taken s)" by (auto simp: row_ok_def)
  then show ?thesis
    using done_facts(1) [of hash active l True now] done_facts(2) [of hash l True now] done_facts(3) [of token hash p h idle l now]
      index_idle [OF row_ok_time [OF ok assms(3)] _ assms(4)] by blast
qed

theorem only_the_newest_lock_writes_witness:
  "\<not> op_done (op_step (OpBegin ''b'') (the (vh_row one_write)) True 3000)"
proof -
  have 1: "vh_row one_write = Some (the (vh_row one_write))" by code_simp
  have 2: "vh_now one_write \<le> 3000" "hd (vh_taken one_write) \<noteq> ''b''" by code_simp+
  show ?thesis using only_the_newest_lock_writes [OF one_write_reach 1 2(1)] 2(2) by force
qed

text \<open>Every lock's end is told exactly once: in every such history the endings told are as many as
  the locks taken, less the one the row still records.\<close>
theorem ends_told_once:
  assumes "vl_reach k s"
  shows "length (vh_taken s) = length (vh_told s) +
    (case vh_row s of None \<Rightarrow> 0 | Some l \<Rightarrow> if vl_token_hash l = [] then 0 else 1)"
  using vl_reach_inv [OF assms] by (auto simp: vl_inv_def row_ok_def split: option.splits)

theorem ends_told_once_witness:
  "length (vh_told one_write) = 0"
proof -
  have "length (vh_taken one_write) = 1" "vl_token_hash (the (vh_row one_write)) \<noteq> []" "vh_row one_write \<noteq> None"
    by code_simp+
  then show ?thesis using ends_told_once [OF one_write_reach] by auto
qed

text \<open>C11. The holder of a lost lock is told why. In every history of one vault (\<open>vl_reach\<close>), a token
  that once took the vault and asks for a renewal is answered as the history says: yes, while its
  lock is the newest and live; else that its lock ran out - leased out or idle, whichever came
  first - when that lock is still on the row; else that somebody else has the vault, and who,
  while a newer lock is live; else how its own lock ended, as it was told when the row was closed
  - by a break (and by whom), by its release, or by time, found by a look, a renewal or another's
  take alike - as long as the row remembers it, which is until the next lock has ended too. After
  that it hears only that it was taken (while a newer lock that ran out is on the row) or that it
  expired. And every ending told is the true one: a live lock ends by a break or by its own
  release, one that ran out ends the way the row says, whoever finds it.\<close>
theorem holder_told_why:
  assumes "vl_reach k s" and "vh_row s = Some l" and "hash \<in> set (vh_taken s)" and "vl_timely s now op"
  shows "d_err (renew_step hash active l True now) = told_answer s l hash now \<and>
    (case endings l op now of
       None \<Rightarrow> vh_told (vl_next k now op s) = vh_told s
     | Some (reason, by_whom) \<Rightarrow> \<exists>e. vh_told (vl_next k now op s) = vh_told s @ [e] \<and>
         e_holder e = vl_holder l \<and> e_reason e = reason \<and> e_by e = by_whom)"
  using renewal_told [OF assms(1-3)] ending_told [OF assms(2,4)] by blast

theorem holder_told_why_witness:
  "d_err (renew_step ''a'' True (the (vh_row broken_and_taken)) True 70000) = Some (Lost ReasonTaken (Some bob)) \<and>
   d_err (renew_step ''a'' True (the (vh_row broken_and_taken)) True 999000) =
     Some (Lost ReasonBroken (Some (no_holder\<lparr>h_name := ''Ada''\<rparr>)))"
proof -
  have 1: "vh_row broken_and_taken = Some (the (vh_row broken_and_taken))" "''a'' \<in> set (vh_taken broken_and_taken)"
    by code_simp+
  have 2: "told_answer broken_and_taken (the (vh_row broken_and_taken)) ''a'' 70000 = Some (Lost ReasonTaken (Some bob))"
    "told_answer broken_and_taken (the (vh_row broken_and_taken)) ''a'' 999000 =
     Some (Lost ReasonBroken (Some (no_holder\<lparr>h_name := ''Ada''\<rparr>)))" by code_simp+
  have 3: "vl_timely broken_and_taken 70000 OpState" "vl_timely broken_and_taken 999000 OpState" by code_simp+
  show ?thesis
    using holder_told_why [OF broken_and_taken_reach 1 3(1), THEN conjunct1]
      holder_told_why [OF broken_and_taken_reach 1 3(2), THEN conjunct1] 2 by simp
qed

section \<open>Where the code falls short of its promise\<close>

text \<open>
  The end of an index write is reported by its token alone: \<open>EndIndex\<close> of a session whose write
  was abandoned after 60 seconds finds its hash in \<open>EndedTokenHash\<close> and clears the running
  mark of the NEXT holder's index write (\<open>Take\<close> leaves \<open>EndedTokenHash\<close> as it was). Here a's
  write is given up, b takes the vault and begins its index write, a's late report arrives, b's
  lock is broken, and c takes the vault and begins an index write while b's still runs.
\<close>

definition late_end :: vl_history where
  "late_end = fold (\<lambda>(now, op) s. vl_next vault_key now op s)
     [(1000, OpTake ''A'' ''a'' vault_place ada 180), (2000, OpBegin ''a''), (3000, OpBreak ada),
      (63000, OpTake ''B'' ''b'' vault_place ada 180), (64000, OpBegin ''b''),
      (65000, OpEnd ''a'' 7 False), (66000, OpBreak ada),
      (67000, OpTake ''C'' ''c'' vault_place ada 180), (68000, OpBegin ''c'')] (vl_init 1000)"

lemma late_end_two_writes:
  "filter (running (vh_now late_end)) (vh_open late_end) = [(''c'', 68000), (''b'', 64000)]"
  by code_simp

text \<open>
  When the answer of the INSERT of a vault's first row is lost after the row was made,
  \<open>insertFirst\<close> looks, finds the row, and reports that somebody was first: the person who took the
  vault is told that it is locked - by themselves - and never hears the token, so nobody can
  renew or release that lock before it runs out.
\<close>

lemma own_lock_taken_for_another:
  "let turns = [\<lparr>t_now = 1000, t_read_fails = False, t_others = id, t_answer = AnswerLost, t_looks = True\<rparr>,
       \<lparr>t_now = 1010, t_read_fails = False, t_others = id, t_answer = Answered, t_looks = True\<rparr>];
     m = mutate vault_key (take_step ''A'' ''a'' vault_place ada 180) turns Map.empty
   in m_err m = Some (Locked ada 1000 59990) \<and> map_option vl_token_hash (m_db m vault_key) = Some ''a''"
  by code_simp

text \<open>
  When the answer of an UPDATE that closes a lock is lost, the row is closed and nobody is told:
  \<open>OnEnded\<close> is called for a write the caller knows of only, and the row is closed for whoever
  comes next.
\<close>

lemma ending_never_told:
  "let db = [vault_key \<mapsto> the (vh_row one_write)];
     turn = \<lparr>t_now = 5000, t_read_fails = False, t_others = id, t_answer = AnswerLost, t_looks = True\<rparr>;
     m = mutate vault_key (break_step bob) [turn] db
   in m_err m = Some DbError \<and> m_told m = [] \<and> map_option vl_token_hash (m_db m vault_key) = Some [] \<and>
     m_told (mutate vault_key (break_step bob) [turn\<lparr>t_now := 6000, t_answer := Answered\<rparr>] (m_db m)) = []"
  by code_simp

end
