(* ===== verification/Davlock.thy ===== *)
theory Davlock
  imports PathMatch
begin

text \<open>
  \<open>internal/davlock\<close>: the WebDAV lock table. The map by token is an association list in the
  order its iteration visits it; a lock's pointer is its token, since a claimed lock is never
  removed from the map. The lock file is the list \<open>save\<close> encoded last; reading it gives each
  lock as \<open>encoding/json\<close> reads it back: without its claim (\<open>held\<close> is not a field of the file), its
  numbers and its time as they were, and every byte of its strings that is no UTF-8 as U+FFFD.
  Whether a write of the file succeeds is an argument. The zero time is None.
\<close>

section \<open>The table\<close>

record dav_lock =
  dl_token :: string
  dl_root :: string
  dl_duration :: nanos
  dl_owner :: string
  dl_zero_depth :: bool
  dl_expiry :: "nanos option"
  dl_held :: bool

record dav_system =
  ds_durable :: bool
  ds_locks :: "(string \<times> dav_lock) list"
  ds_file :: "dav_lock list option"

record lock_details =
  ld_root :: string
  ld_duration :: nanos
  ld_owner :: string
  ld_zero_depth :: bool

definition details :: "dav_lock \<Rightarrow> lock_details" where
  "details l = \<lparr>ld_root = dl_root l, ld_duration = dl_duration l, ld_owner = dl_owner l, ld_zero_depth = dl_zero_depth l\<rparr>"

datatype dav_error = ErrConfirmationFailed | ErrDavLocked | ErrNoSuchLock | ErrToken

definition slash_clean :: "string \<Rightarrow> string" where
  "slash_clean name = path_clean (if name = [] \<or> hd name \<noteq> slash then slash # name else name)"

definition is_descendant :: "string \<Rightarrow> string \<Rightarrow> bool" where
  "is_descendant child parent \<longleftrightarrow> (if parent = ''/'' then child \<noteq> ''/'' else has_prefix child (parent @ ''/''))"

definition put_dav :: "(string \<times> dav_lock) list \<Rightarrow> string \<Rightarrow> dav_lock \<Rightarrow> (string \<times> dav_lock) list" where
  "put_dav m k l = (if k \<in> fst ` set m then map (\<lambda>(k', l'). (k', if k' = k then l else l')) m else m @ [(k, l)])"

definition dav_save :: "bool \<Rightarrow> dav_system \<Rightarrow> dav_system" where
  "dav_save disk_ok s =
     (if \<not> ds_durable s \<or> \<not> disk_ok then s else s\<lparr>ds_file := Some (map snd (ds_locks s))\<rparr>)"

text \<open>A string that went through \<open>json.Marshal\<close> and \<open>json.Unmarshal\<close>; one that is UTF-8 comes back
  as it was.\<close>

definition json_text :: "string \<Rightarrow> string" where
  "json_text s = concat (map snd (runes s))"

function utf8_valid :: "string \<Rightarrow> bool" where
  "utf8_valid s =
     (if s = [] then True
      else if decode_rune s = (65533, 1) then False
      else utf8_valid (drop (snd (decode_rune s)) s))"
  by pat_completeness auto
termination
proof (relation "measure length")
  show "(drop (snd (decode_rune s)) s, s) \<in> measure length" if "s \<noteq> []" for s :: string
    using decode_rune_width [OF that] that by simp
qed simp

declare utf8_valid.simps [simp del]

lemma json_text_valid: "utf8_valid s \<Longrightarrow> json_text s = s"
proof (induction s rule: utf8_valid.induct)
  case (1 s)
  show ?case
  proof (cases "s = []")
    case True
    then show ?thesis by (simp add: json_text_def runes.simps)
  next
    case False
    then have v: "decode_rune s \<noteq> (65533, 1)" "utf8_valid (drop (snd (decode_rune s)) s)"
      using "1.prems" False by (simp_all add: utf8_valid.simps [of s] split: if_splits)
    obtain r w where d: "decode_rune s = (r, w)" by (cases "decode_rune s")
    have "json_text s = take w s @ json_text (drop w s)"
      using False v(1) d by (auto simp: json_text_def runes.simps [of s])
    also have "json_text (drop w s) = drop w s" using "1.IH" False v d by simp
    finally show ?thesis by simp
  qed
qed

lemma utf8_valid_ascii: "list_all (\<lambda>c. byte c < 128) s \<Longrightarrow> utf8_valid s"
  by (induction s) (simp_all add: utf8_valid.simps decode_rune_def)

definition read_back :: "dav_lock \<Rightarrow> dav_lock" where
  "read_back l = l\<lparr>dl_token := json_text (dl_token l), dl_root := json_text (dl_root l),
     dl_owner := json_text (dl_owner l), dl_held := False\<rparr>"

definition time_up :: "nanos \<Rightarrow> dav_lock \<Rightarrow> bool" where
  "time_up now l \<longleftrightarrow> \<not> (dl_held l \<or> dl_duration l < 0) \<and>
     (case dl_expiry l of None \<Rightarrow> False | Some e \<Rightarrow> \<not> now < e)"

definition dav_expire :: "bool \<Rightarrow> nanos \<Rightarrow> dav_system \<Rightarrow> dav_system" where
  "dav_expire disk_ok now s =
     (let kept = filter (\<lambda>(_, l). \<not> time_up now l) (ds_locks s)
      in if length kept = length (ds_locks s) then s else dav_save disk_ok (s\<lparr>ds_locks := kept\<rparr>))"

definition can_create :: "dav_system \<Rightarrow> string \<Rightarrow> bool \<Rightarrow> bool" where
  "can_create s name zero_depth \<longleftrightarrow>
     list_all (\<lambda>(_, l). dl_root l \<noteq> name \<and>
       \<not> (\<not> zero_depth \<and> is_descendant (dl_root l) name) \<and>
       \<not> (\<not> dl_zero_depth l \<and> is_descendant name (dl_root l))) (ds_locks s)"

fun lookup :: "dav_system \<Rightarrow> string \<Rightarrow> string list \<Rightarrow> dav_lock option" where
  "lookup s name [] = None"
| "lookup s name (c # cs) =
     (case map_of (ds_locks s) c of
        None \<Rightarrow> lookup s name cs
      | Some l \<Rightarrow>
        if dl_held l then lookup s name cs
        else if name = dl_root l then Some l
        else if dl_zero_depth l then lookup s name cs
        else if dl_root l = ''/'' \<or> has_prefix name (dl_root l @ ''/'') then Some l
        else lookup s name cs)"

section \<open>The lock system's operations\<close>

definition dav_create ::
  "bool \<Rightarrow> bool \<Rightarrow> string option \<Rightarrow> nanos \<Rightarrow> lock_details \<Rightarrow> dav_system \<Rightarrow> dav_system \<times> (dav_error + string)" where
  "dav_create disk1 disk2 new_token now d s =
     (let s1 = dav_expire disk1 now s; root = slash_clean (ld_root d) in
      if \<not> can_create s1 root (ld_zero_depth d) then (s1, Inl ErrDavLocked)
      else case new_token of
        None \<Rightarrow> (s1, Inl ErrToken)
      | Some token \<Rightarrow>
        let l = \<lparr>dl_token = token, dl_root = root, dl_duration = ld_duration d, dl_owner = ld_owner d,
               dl_zero_depth = ld_zero_depth d,
               dl_expiry = (if ld_duration d \<ge> 0 then Some (now + ld_duration d) else None), dl_held = False\<rparr>
        in (dav_save disk2 (s1\<lparr>ds_locks := put_dav (ds_locks s1) token l\<rparr>), Inr token))"

definition dav_refresh ::
  "bool \<Rightarrow> bool \<Rightarrow> nanos \<Rightarrow> string \<Rightarrow> nanos \<Rightarrow> dav_system \<Rightarrow> dav_system \<times> (dav_error + lock_details)" where
  "dav_refresh disk1 disk2 now token duration s =
     (let s1 = dav_expire disk1 now s in
      case map_of (ds_locks s1) token of
        None \<Rightarrow> (s1, Inl ErrNoSuchLock)
      | Some l \<Rightarrow>
        if dl_held l then (s1, Inl ErrDavLocked)
        else let l' = l\<lparr>dl_duration := duration,
                   dl_expiry := (if duration \<ge> 0 then Some (now + duration) else None)\<rparr>
             in (dav_save disk2 (s1\<lparr>ds_locks := put_dav (ds_locks s1) token l'\<rparr>), Inr (details l')))"

definition dav_unlock ::
  "bool \<Rightarrow> bool \<Rightarrow> nanos \<Rightarrow> string \<Rightarrow> dav_system \<Rightarrow> dav_system \<times> dav_error option" where
  "dav_unlock disk1 disk2 now token s =
     (let s1 = dav_expire disk1 now s in
      case map_of (ds_locks s1) token of
        None \<Rightarrow> (s1, Some ErrNoSuchLock)
      | Some l \<Rightarrow>
        if dl_held l then (s1, Some ErrDavLocked)
        else (dav_save disk2 (s1\<lparr>ds_locks := filter (\<lambda>(k, _). k \<noteq> token) (ds_locks s1)\<rparr>), None))"

text \<open>Setting the claim of the locks a request holds; the answer is their tokens.\<close>

definition set_held :: "string list \<Rightarrow> bool \<Rightarrow> dav_system \<Rightarrow> dav_system" where
  "set_held tokens b s =
     s\<lparr>ds_locks := map (\<lambda>(k, l). (k, if k \<in> set tokens then l\<lparr>dl_held := b\<rparr> else l)) (ds_locks s)\<rparr>"

definition dav_confirm ::
  "bool \<Rightarrow> nanos \<Rightarrow> string \<Rightarrow> string \<Rightarrow> string list \<Rightarrow> dav_system \<Rightarrow> dav_system \<times> (dav_error + string list)" where
  "dav_confirm disk now name0 name1 conditions s =
     (let s1 = dav_expire disk now s;
          l0 = (if name0 = [] then None else lookup s1 (slash_clean name0) conditions);
          l1 = (if name1 = [] then None else lookup s1 (slash_clean name1) conditions)
      in if name0 \<noteq> [] \<and> l0 = None then (s1, Inl ErrConfirmationFailed)
         else if name1 \<noteq> [] \<and> l1 = None then (s1, Inl ErrConfirmationFailed)
         else
           let tokens = (case l0 of None \<Rightarrow> [] | Some l \<Rightarrow> [dl_token l]) @
                 (case l1 of None \<Rightarrow> [] | Some l \<Rightarrow> if l1 = l0 then [] else [dl_token l])
           in (set_held tokens True s1, Inr tokens))"

definition dav_release :: "string list \<Rightarrow> dav_system \<Rightarrow> dav_system" where
  "dav_release tokens s = set_held tokens False s"

section \<open>Opening\<close>

definition dav_load :: "nanos \<Rightarrow> dav_lock list option \<Rightarrow> (string \<times> dav_lock) list" where
  "dav_load now file =
     (case file of
        None \<Rightarrow> []
      | Some ls \<Rightarrow>
        foldl (\<lambda>m l. if dl_token l = [] then m
            else if dl_duration l \<ge> 0 \<and> (case dl_expiry l of None \<Rightarrow> False | Some e \<Rightarrow> \<not> now < e) then m
            else put_dav m (dl_token l) (l\<lparr>dl_held := False\<rparr>)) [] (map read_back ls))"

definition dav_open :: "nanos \<Rightarrow> dav_lock list option \<Rightarrow> dav_system" where
  "dav_open now file = \<lparr>ds_durable = True, ds_locks = dav_load now file, ds_file = file\<rparr>"

definition dav_memory :: dav_system where
  "dav_memory = \<lparr>ds_durable = False, ds_locks = [], ds_file = None\<rparr>"

definition dav_len :: "dav_system \<Rightarrow> nat" where
  "dav_len s = length (ds_locks s)"

section \<open>The tree of roots\<close>

text \<open>A name as the table spells it: a slash, and clean segments.\<close>

definition dav_name :: "string \<Rightarrow> bool" where
  "dav_name n \<longleftrightarrow> slash_clean n = n"

lemma slash_clean_join: "slash_clean name = slash # join slash (norm_rel name)"
proof (cases "name = [] \<or> hd name \<noteq> slash")
  case True
  then show ?thesis by (simp add: slash_clean_def path_clean_rooted)
next
  case False
  then obtain rest where "name = slash # rest" by (cases name) auto
  moreover have "norm_rel (slash # rest) = norm_rel rest" by (simp add: norm_rel_def)
  ultimately show ?thesis by (simp add: slash_clean_def path_clean_rooted)
qed

lemma norm_slash_clean [path_simps]: "norm_rel (slash_clean name) = norm_rel name"
proof -
  have "norm_rel (slash # s) = norm_rel s" for s by (simp add: norm_rel_def)
  then show ?thesis unfolding slash_clean_join by (simp add: norm_rel_join norm_rel_ok)
qed

lemma dav_name_clean [simp]: "dav_name (slash_clean n)"
  unfolding dav_name_def by (metis norm_slash_clean slash_clean_join)

lemma dav_name_join: "dav_name n \<Longrightarrow> n = slash # join slash (norm_rel n)"
  by (metis dav_name_def slash_clean_join)

definition covers_name :: "string \<Rightarrow> string \<Rightarrow> bool" where
  "covers_name p q \<longleftrightarrow> q = p \<or> is_descendant q p"

lemma covers_name_iff:
  assumes "dav_name p" "dav_name q"
  shows "covers_name p q \<longleftrightarrow> prefix (norm_rel p) (norm_rel q)"
proof -
  note p = dav_name_join [OF assms(1)] and q = dav_name_join [OF assms(2)]
  show ?thesis
  proof (cases "norm_rel p = []")
    case True
    then have "p = ''/''" using p by simp
    then show ?thesis using True by (auto simp: covers_name_def is_descendant_def)
  next
    case False
    then have "p \<noteq> ''/''" using p join_last_ok [OF False] norm_rel_ok by (metis list.inject)
    then have "covers_name p q \<longleftrightarrow> q = p \<or> has_prefix q (p @ ''/'')"
      by (simp add: covers_name_def is_descendant_def)
    also have "\<dots> \<longleftrightarrow> join slash (norm_rel q) = join slash (norm_rel p) \<or>
        has_prefix (join slash (norm_rel q)) (join slash (norm_rel p) @ [slash])"
      by (subst p, subst q, subst (2) q, subst (2) p) (simp add: has_prefix_def)
    also have "\<dots> \<longleftrightarrow> prefix (norm_rel p) (norm_rel q)"
      by (rule prefix_join_slash [OF _ _ False]) (auto simp: norm_rel_ok)
    finally show ?thesis .
  qed
qed

interpretation dav_names: path_tree covers_name norm_rel dav_name
proof
  show "covers_name p q = prefix (norm_rel p) (norm_rel q)" if "dav_name p" "dav_name q" for p q
    by (rule covers_name_iff [OF that])
  show "p = q" if "dav_name p" "dav_name q" "norm_rel p = norm_rel q" for p q
    using dav_name_join that by metis
qed

end
