(* ===== verification/DavlockRules.thy ===== *)
theory DavlockRules
  imports Davlock
begin

text \<open>
  What the WebDAV lock table keeps in every history of requests, expiries and restarts: no two
  locks that exclude each other, and a claimed lock is left alone until its request ends.
\<close>

section \<open>Locks that exclude each other\<close>

definition clash :: "dav_lock \<Rightarrow> dav_lock \<Rightarrow> bool" where
  "clash a b \<longleftrightarrow> dl_root a = dl_root b \<or>
     \<not> dl_zero_depth a \<and> is_descendant (dl_root b) (dl_root a) \<or>
     \<not> dl_zero_depth b \<and> is_descendant (dl_root a) (dl_root b)"

definition covered_by :: "string \<Rightarrow> dav_lock \<Rightarrow> bool" where
  "covered_by name l \<longleftrightarrow> name = dl_root l \<or> \<not> dl_zero_depth l \<and> is_descendant name (dl_root l)"

definition token_ok :: "string \<Rightarrow> bool" where
  "token_ok t \<longleftrightarrow> t \<noteq> [] \<and> utf8_valid t"

definition table_ok :: "(string \<times> dav_lock) list \<Rightarrow> bool" where
  "table_ok m \<longleftrightarrow> distinct (map fst m) \<and>
     (\<forall>(k, l) \<in> set m. k = dl_token l \<and> token_ok k \<and> dav_name (dl_root l)) \<and>
     (\<forall>(k, a) \<in> set m. \<forall>(k', b) \<in> set m. k \<noteq> k' \<longrightarrow> \<not> clash a b)"

definition dav_inv :: "dav_system \<Rightarrow> bool" where
  "dav_inv s \<longleftrightarrow> table_ok (ds_locks s) \<and>
     (case ds_file s of None \<Rightarrow> True | Some ls \<Rightarrow> table_ok (map (\<lambda>l. (dl_token l, l)) ls))"

lemma clash_sym: "clash a b \<longleftrightarrow> clash b a"
  by (auto simp: clash_def)

lemma table_okI:
  assumes "distinct (map fst m)" and "\<And>k l. (k, l) \<in> set m \<Longrightarrow> k = dl_token l \<and> token_ok k \<and> dav_name (dl_root l)"
    and "\<And>k a k' b. (k, a) \<in> set m \<Longrightarrow> (k', b) \<in> set m \<Longrightarrow> k \<noteq> k' \<Longrightarrow> \<not> clash a b"
  shows "table_ok m"
  using assms unfolding table_ok_def by blast

lemma table_okD:
  assumes "table_ok m"
  shows "distinct (map fst m)" and "(k, l) \<in> set m \<Longrightarrow> k = dl_token l \<and> token_ok k \<and> dav_name (dl_root l)"
    and "(k, a) \<in> set m \<Longrightarrow> (k', b) \<in> set m \<Longrightarrow> k \<noteq> k' \<Longrightarrow> \<not> clash a b"
  using assms unfolding table_ok_def by blast+

lemma table_ok_filter: "table_ok m \<Longrightarrow> table_ok (filter P m)"
  by (rule table_okI) (auto dest: table_okD simp: distinct_map_filter)

text \<open>A change of a lock that keeps its token, root and depth.\<close>

lemma table_ok_map:
  assumes "table_ok m" and "\<And>k l. dl_token (f k l) = dl_token l \<and> dl_root (f k l) = dl_root l \<and>
      dl_zero_depth (f k l) = dl_zero_depth l"
  shows "table_ok (map (\<lambda>(k, l). (k, f k l)) m)"
proof (rule table_okI)
  have "map fst (map (\<lambda>(k, l). (k, f k l)) m) = map fst m" by auto
  then show "distinct (map fst (map (\<lambda>(k, l). (k, f k l)) m))" using table_okD(1) [OF assms(1)] by metis
  show "k = dl_token l \<and> token_ok k \<and> dav_name (dl_root l)" if "(k, l) \<in> set (map (\<lambda>(k, l). (k, f k l)) m)" for k l
    using that table_okD(2) [OF assms(1)] assms(2) by auto
  show "\<not> clash a b" if "(k, a) \<in> set (map (\<lambda>(k, l). (k, f k l)) m)"
    "(k', b) \<in> set (map (\<lambda>(k, l). (k, f k l)) m)" "k \<noteq> k'" for k a k' b
  proof -
    have "clash (f k a) (f k' b) = clash a b" for k a k' b using assms(2) by (simp add: clash_def)
    then show ?thesis using that table_okD(3) [OF assms(1)] by auto
  qed
qed

lemma put_dav_mem: "distinct (map fst m) \<Longrightarrow>
  (k', l') \<in> set (put_dav m k l) \<longleftrightarrow> (if k' = k then l' = l else (k', l') \<in> set m)"
  by (force simp: put_dav_def)

lemma put_dav_distinct: "distinct (map fst m) \<Longrightarrow> distinct (map fst (put_dav m k l))"
  by (auto simp: put_dav_def o_def case_prod_unfold)

lemma table_ok_put:
  assumes "table_ok m" and "k = dl_token l" "token_ok k" "dav_name (dl_root l)"
    and "\<And>k' b. (k', b) \<in> set m \<Longrightarrow> k' \<noteq> k \<Longrightarrow> \<not> clash l b"
  shows "table_ok (put_dav m k l)"
  by (rule table_okI)
    (use assms put_dav_mem [OF table_okD(1) [OF assms(1)]] put_dav_distinct [OF table_okD(1) [OF assms(1)]]
       table_okD [OF assms(1)] in \<open>auto simp: clash_sym split: if_splits\<close>)

section \<open>The operations keep the table\<close>

lemma dav_save_fields [simp]:
  "ds_locks (dav_save ok s) = ds_locks s" "ds_durable (dav_save ok s) = ds_durable s"
  by (simp_all add: dav_save_def)

lemma dav_save_inv: "dav_inv s \<Longrightarrow> dav_inv (dav_save ok s)"
proof -
  assume i: "dav_inv s"
  have "map (\<lambda>l. (dl_token l, l)) (map snd (ds_locks s)) = map (\<lambda>x. x) (ds_locks s)"
    unfolding map_map using table_okD(2) i by (intro map_cong) (auto simp: dav_inv_def)
  then show ?thesis using i by (simp add: dav_save_def dav_inv_def)
qed

lemma dav_inv_locks: "dav_inv s \<Longrightarrow> table_ok m \<Longrightarrow> dav_inv (s\<lparr>ds_locks := m\<rparr>)"
  by (simp add: dav_inv_def)

lemma dav_expire_locks: "ds_locks (dav_expire ok now s) = filter (\<lambda>(_, l). \<not> time_up now l) (ds_locks s)"
proof -
  let ?P = "\<lambda>(_ :: string, l). \<not> time_up now l"
  have "filter ?P (ds_locks s) = ds_locks s" if "length (filter ?P (ds_locks s)) = length (ds_locks s)"
    using that length_filter_less [of _ "ds_locks s" ?P] by (intro filter_True) force
  then show ?thesis
    by (cases "length (filter ?P (ds_locks s)) = length (ds_locks s)") (simp_all add: dav_expire_def Let_def)
qed

lemma dav_expire_inv: "dav_inv s \<Longrightarrow> dav_inv (dav_expire ok now s)"
  using dav_save_inv dav_inv_locks table_ok_filter by (auto simp: dav_expire_def Let_def dav_inv_def)

lemma can_create_clash:
  "can_create s (dl_root l) (dl_zero_depth l) \<Longrightarrow> (k, b) \<in> set (ds_locks s) \<Longrightarrow> \<not> clash l b"
  by (force simp: can_create_def clash_def list_all_iff)

lemma set_held_inv: "dav_inv s \<Longrightarrow> dav_inv (set_held ts b s)"
  unfolding set_held_def by (intro dav_inv_locks table_ok_map) (auto simp: dav_inv_def)

lemma dav_create_inv:
  assumes "dav_inv s" and "\<And>t. tok = Some t \<Longrightarrow> token_ok t \<and> t \<notin> fst ` set (ds_locks s)"
  shows "dav_inv (fst (dav_create disk1 disk2 tok now d s))"
proof -
  let ?s = "dav_expire disk1 now s"
  have i: "dav_inv ?s" by (rule dav_expire_inv [OF assms(1)])
  show ?thesis
  proof (cases "can_create ?s (slash_clean (ld_root d)) (ld_zero_depth d)")
    case True
    show ?thesis
    proof (cases tok)
      case (Some t)
      let ?l = "\<lparr>dl_token = t, dl_root = slash_clean (ld_root d), dl_duration = ld_duration d, dl_owner = ld_owner d,
               dl_zero_depth = ld_zero_depth d,
               dl_expiry = (if ld_duration d \<ge> 0 then Some (now + ld_duration d) else None), dl_held = False\<rparr>"
      have "table_ok (put_dav (ds_locks ?s) t ?l)"
        using i assms(2) [OF Some] can_create_clash [of ?s ?l] True
        by (intro table_ok_put) (simp_all add: dav_inv_def)
      then show ?thesis
        using True Some dav_save_inv [OF dav_inv_locks [OF i]] by (simp add: dav_create_def Let_def)
    qed (use True i in \<open>simp add: dav_create_def Let_def\<close>)
  qed (use i in \<open>simp add: dav_create_def Let_def\<close>)
qed

lemma dav_refresh_inv:
  assumes "dav_inv s"
  shows "dav_inv (fst (dav_refresh disk1 disk2 now token d s))"
proof (cases "map_of (ds_locks (dav_expire disk1 now s)) token")
  case None
  then show ?thesis using dav_expire_inv [OF assms] by (simp add: dav_refresh_def Let_def)
next
  case (Some l)
  let ?s = "dav_expire disk1 now s"
  let ?l = "l\<lparr>dl_duration := d, dl_expiry := (if d \<ge> 0 then Some (now + d) else None)\<rparr>"
  have i: "dav_inv ?s" by (rule dav_expire_inv [OF assms])
  then have t: "table_ok (ds_locks ?s)" by (simp add: dav_inv_def)
  have m: "(token, l) \<in> set (ds_locks ?s)" using Some by (rule map_of_SomeD)
  have "\<not> clash ?l b" if "(k', b) \<in> set (ds_locks ?s)" "k' \<noteq> token" for k' b
    using table_okD(3) [OF t m that(1)] that(2) by (simp add: clash_def)
  then have "table_ok (put_dav (ds_locks ?s) token ?l)"
    using table_okD(2) [OF t m] by (intro table_ok_put [OF t]) auto
  then show ?thesis
    using Some i dav_save_inv [OF dav_inv_locks [OF i]] by (simp add: dav_refresh_def Let_def)
qed

lemma dav_unlock_inv:
  assumes "dav_inv s"
  shows "dav_inv (fst (dav_unlock disk1 disk2 now token s))"
proof -
  let ?s = "dav_expire disk1 now s"
  have i: "dav_inv ?s" by (rule dav_expire_inv [OF assms])
  then have "table_ok (filter (\<lambda>(k, _). k \<noteq> token) (ds_locks ?s))"
    by (intro table_ok_filter) (simp add: dav_inv_def)
  then show ?thesis
    using i dav_save_inv [OF dav_inv_locks [OF i]] by (simp add: dav_unlock_def Let_def split: option.split)
qed

lemma dav_confirm_inv: "dav_inv s \<Longrightarrow> dav_inv (fst (dav_confirm disk now n n' cs s))"
  using dav_expire_inv set_held_inv by (simp add: dav_confirm_def Let_def)

text \<open>What a restart keeps: the locks of the file whose time is not up, as they read back.\<close>

definition in_time :: "nanos \<Rightarrow> dav_lock \<Rightarrow> bool" where
  "in_time now l \<longleftrightarrow> \<not> (dl_duration l \<ge> 0 \<and> (case dl_expiry l of None \<Rightarrow> False | Some e \<Rightarrow> \<not> now < e))"

lemma read_back_fields [simp]:
  "dl_held (read_back l) = False" "dl_duration (read_back l) = dl_duration l" "dl_expiry (read_back l) = dl_expiry l"
  "dl_zero_depth (read_back l) = dl_zero_depth l" "in_time now (read_back l) = in_time now l"
  "(read_back l)\<lparr>dl_held := False\<rparr> = read_back l"
  by (simp_all add: read_back_def in_time_def)

lemma read_back_token: "token_ok (dl_token l) \<Longrightarrow> dl_token (read_back l) = dl_token l"
  by (simp add: read_back_def token_ok_def json_text_valid)

lemma read_back_same:
  "token_ok (dl_token l) \<Longrightarrow> utf8_valid (dl_root l) \<Longrightarrow> dl_root (read_back l) = dl_root l"
  by (simp add: read_back_def json_text_valid)

lemma dav_load_ok:
  assumes "table_ok (map (\<lambda>l. (dl_token l, l)) ls)"
  shows "dav_load now (Some ls) = map (\<lambda>l. (dl_token l, read_back l)) (filter (in_time now) ls)"
proof -
  let ?f = "\<lambda>m l. if dl_token l = [] then m
            else if dl_duration l \<ge> 0 \<and> (case dl_expiry l of None \<Rightarrow> False | Some e \<Rightarrow> \<not> now < e) then m
            else put_dav m (dl_token l) (l\<lparr>dl_held := False\<rparr>)"
  let ?kept = "\<lambda>ls. map (\<lambda>l. (dl_token l, read_back l)) (filter (in_time now) ls)"
  have acc: "foldl ?f m (map read_back ls) = m @ ?kept ls"
    if "distinct (map dl_token ls)" "\<forall>l \<in> set ls. token_ok (dl_token l) \<and> dl_token l \<notin> fst ` set m" for m
    using that
  proof (induction ls arbitrary: m)
    case (Cons l ls)
    have t: "token_ok (dl_token l)" "dl_token l \<notin> fst ` set m" using Cons.prems by simp_all
    have step: "?f m (read_back l) = m @ ?kept [l]"
      using t read_back_token [OF t(1)] by (auto simp: put_dav_def token_ok_def in_time_def)
    have "foldl ?f (m @ ?kept [l]) (map read_back ls) = (m @ ?kept [l]) @ ?kept ls"
      using Cons.prems by (intro Cons.IH) (auto simp: image_iff)
    then show ?case unfolding list.map(2) foldl_Cons step by simp
  qed simp
  have d: "distinct (map dl_token ls)" using table_okD(1) [OF assms] by (simp add: o_def)
  have tk: "\<forall>l \<in> set ls. token_ok (dl_token l) \<and> dl_token l \<notin> fst ` set ([] :: (string \<times> dav_lock) list)"
  proof
    fix l
    assume "l \<in> set ls"
    then have "(dl_token l, l) \<in> set (map (\<lambda>l. (dl_token l, l)) ls)" by simp
    from table_okD(2) [OF assms this] show "token_ok (dl_token l) \<and> dl_token l \<notin> fst ` set ([] :: (string \<times> dav_lock) list)"
      by simp
  qed
  from acc [of "[]", OF d tk] show ?thesis unfolding dav_load_def option.case append_Nil .
qed

lemma dav_open_inv:
  assumes "dav_inv s" and "\<forall>ls. ds_file s = Some ls \<longrightarrow> (\<forall>l \<in> set ls. utf8_valid (dl_root l))"
  shows "dav_inv (dav_open now (ds_file s))"
proof (cases "ds_file s")
  case None
  then show ?thesis by (simp add: dav_open_def dav_load_def dav_inv_def table_ok_def)
next
  case (Some ls)
  let ?m = "map (\<lambda>l. (dl_token l, l)) ls"
  let ?g = "\<lambda>k l. if token_ok (dl_token l) \<and> utf8_valid (dl_root l) then read_back l else l"
  have t: "table_ok ?m" using Some assms(1) by (simp add: dav_inv_def)
  have "table_ok (map (\<lambda>(k, l). (k, ?g k l)) (filter (\<lambda>(k, l). in_time now l) ?m))"
    by (intro table_ok_map table_ok_filter t) (auto simp: read_back_same read_back_token)
  moreover have "map (\<lambda>(k, l). (k, ?g k l)) (filter (\<lambda>(k, l). in_time now l) ?m) = dav_load now (Some ls)"
  proof -
    have "token_ok (dl_token l) \<and> utf8_valid (dl_root l)" if "l \<in> set ls" for l
      using that assms(2) Some table_okD(2) [OF t, of "dl_token l" l] by simp
    then show ?thesis unfolding dav_load_ok [OF t] filter_map map_map by (intro map_cong) (auto simp: o_def)
  qed
  ultimately show ?thesis using t Some by (simp add: dav_open_def dav_inv_def)
qed

section \<open>Histories\<close>

text \<open>One call on the lock system, with the outcome of each of its file writes; a claim is given back
  by its request, and a restart reads the file.\<close>

datatype dav_op =
    DavCreate bool bool "string option" nanos lock_details
  | DavRefresh bool bool nanos string nanos
  | DavUnlock bool bool nanos string
  | DavConfirm bool nanos string string "string list"
  | DavRelease "string list"
  | DavRestart nanos

fun dav_apply :: "dav_op \<Rightarrow> dav_system \<Rightarrow> dav_system" where
  "dav_apply (DavCreate b1 b2 tok now d) s = fst (dav_create b1 b2 tok now d s)"
| "dav_apply (DavRefresh b1 b2 now token d) s = fst (dav_refresh b1 b2 now token d s)"
| "dav_apply (DavUnlock b1 b2 now token) s = fst (dav_unlock b1 b2 now token s)"
| "dav_apply (DavConfirm b now n n' cs) s = fst (dav_confirm b now n n' cs s)"
| "dav_apply (DavRelease ts) s = dav_release ts s"
| "dav_apply (DavRestart now) s = dav_open now (ds_file s)"

text \<open>
  A new token is a fresh one: 16 random bytes, in hexadecimal digits after a prefix of letters.
  The restarts of a history read files whose roots are UTF-8: of any other root the file keeps
  another name (see the end of this theory).
\<close>

definition dav_fresh :: "dav_system \<Rightarrow> dav_op \<Rightarrow> bool" where
  "dav_fresh s op \<longleftrightarrow> (case op of
     DavCreate _ _ (Some t) _ _ \<Rightarrow> token_ok t \<and> t \<notin> fst ` set (ds_locks s)
   | DavRestart _ \<Rightarrow> (case ds_file s of None \<Rightarrow> True | Some ls \<Rightarrow> list_all (\<lambda>l. utf8_valid (dl_root l)) ls)
   | _ \<Rightarrow> True)"

inductive dav_reach :: "dav_system \<Rightarrow> bool" where
  memory: "dav_reach dav_memory"
| opened: "dav_reach (dav_open now None)"
| call: "dav_reach s \<Longrightarrow> dav_fresh s op \<Longrightarrow> dav_reach (dav_apply op s)"

lemma dav_reach_inv: "dav_reach s \<Longrightarrow> dav_inv s"
proof (induction rule: dav_reach.induct)
  case (call s op)
  have o: "op = DavRestart now \<Longrightarrow> dav_inv (dav_apply op s)" for now
    using call by (auto simp: dav_fresh_def list_all_iff intro!: dav_open_inv)
  show ?case using call o
    by (cases op) (auto simp: dav_fresh_def dav_release_def dav_refresh_inv dav_unlock_inv dav_confirm_inv
      set_held_inv intro!: dav_create_inv split: option.splits)
qed (simp_all add: dav_inv_def table_ok_def dav_memory_def dav_open_def dav_load_def)

section \<open>One lock per name\<close>

lemma covered_by_prefix:
  "covered_by name l \<Longrightarrow> covers_name (dl_root l) name"
  by (auto simp: covered_by_def covers_name_def)

lemma covering_unique:
  assumes "table_ok m" "(k, a) \<in> set m" "(k', b) \<in> set m" "dav_name name" "covered_by name a" "covered_by name b"
  shows "k = k'"
proof (rule ccontr)
  assume "k \<noteq> k'"
  then have no: "\<not> clash a b" using table_okD(3) [OF assms(1-3)] by blast
  have n: "dav_name (dl_root a)" "dav_name (dl_root b)" using table_okD(2) [OF assms(1)] assms(2,3) by blast+
  have "covers_name (dl_root a) (dl_root b) \<or> covers_name (dl_root b) (dl_root a)"
    using dav_names.covers_comparable [OF n assms(4)] covered_by_prefix assms(5,6) by blast
  moreover have "dl_root a \<noteq> dl_root b" using no by (simp add: clash_def)
  ultimately have "is_descendant (dl_root b) (dl_root a) \<or> is_descendant (dl_root a) (dl_root b)"
    by (auto simp: covers_name_def)
  moreover have "\<not> is_descendant (dl_root b) (dl_root a)" if "name = dl_root a"
  proof
    assume d: "is_descendant (dl_root b) (dl_root a)"
    then have "covers_name (dl_root a) (dl_root b)" by (simp add: covers_name_def)
    moreover have "covers_name (dl_root b) (dl_root a)" using covered_by_prefix [OF assms(6)] that by simp
    ultimately show False using dav_names.covers_antisym [OF n] \<open>dl_root a \<noteq> dl_root b\<close> by blast
  qed
  moreover have "\<not> is_descendant (dl_root a) (dl_root b)" if "name = dl_root b"
  proof
    assume d: "is_descendant (dl_root a) (dl_root b)"
    then have "covers_name (dl_root b) (dl_root a)" by (simp add: covers_name_def)
    moreover have "covers_name (dl_root a) (dl_root b)" using covered_by_prefix [OF assms(5)] that by simp
    ultimately show False using dav_names.covers_antisym [OF n] \<open>dl_root a \<noteq> dl_root b\<close> by blast
  qed
  ultimately show False using no assms(5,6) unfolding clash_def covered_by_def by blast
qed

lemma lookup_Some:
  "lookup s name cs = Some l \<Longrightarrow> \<exists>c \<in> set cs. map_of (ds_locks s) c = Some l \<and> \<not> dl_held l \<and> covered_by name l"
proof (induction cs)
  case (Cons c cs)
  have "is_descendant name (dl_root l)" if "name \<noteq> dl_root l" "dl_root l = ''/'' \<or> has_prefix name (dl_root l @ ''/'')"
    using that by (auto simp: is_descendant_def)
  then show ?case using Cons by (force simp: covered_by_def split: option.splits if_splits)
qed simp

lemma lookup_None:
  "lookup s name cs = None \<Longrightarrow> c \<in> set cs \<Longrightarrow> map_of (ds_locks s) c = Some l \<Longrightarrow> dl_held l \<or> \<not> covered_by name l"
  by (induction cs) (auto simp: covered_by_def is_descendant_def split: option.splits if_splits)

section \<open>Properties\<close>

text \<open>C12. Locks exclude each other across the tree: in every history (of names that are UTF-8, where a
  restart reads them back) at most one lock covers a name (its root is the name, or it is a deep
  lock above it), so a request on a covered name is confirmed
  exactly when it shows that lock's token and no other request holds it.\<close>
theorem one_lock_per_name:
  assumes "dav_reach s" and "(k, l) \<in> set (ds_locks s)" and "covered_by (slash_clean name) l"
    and "name \<noteq> []" and "\<not> time_up now l"
  shows "(\<forall>(k', l') \<in> set (ds_locks s). covered_by (slash_clean name) l' \<longrightarrow> k' = k) \<and>
    (snd (dav_confirm disk now name [] cs s) =
      (if k \<in> set cs \<and> \<not> dl_held l then Inr [k] else Inl ErrConfirmationFailed))"
proof -
  have t: "table_ok (ds_locks s)" using dav_reach_inv [OF assms(1)] by (simp add: dav_inv_def)
  have u: "k' = k" if "(k', l') \<in> set (ds_locks s)" "covered_by (slash_clean name) l'" for k' l'
    using covering_unique [OF t assms(2) that(1) dav_name_clean assms(3) that(2)] by simp
  let ?s = "dav_expire disk now s"
  have te: "table_ok (ds_locks ?s)" using dav_expire_inv dav_reach_inv [OF assms(1)] by (simp add: dav_inv_def)
  have m: "(k, l) \<in> set (ds_locks ?s)" using assms(2,5) by (simp add: dav_expire_locks)
  then have mo: "map_of (ds_locks ?s) k = Some l" using table_okD(1) [OF te] by simp
  have tok: "dl_token l = k" using table_okD(2) [OF t assms(2)] by simp
  have sub: "set (ds_locks ?s) \<subseteq> set (ds_locks s)" by (auto simp: dav_expire_locks)
  have "lookup ?s (slash_clean name) cs = (if k \<in> set cs \<and> \<not> dl_held l then Some l else None)"
  proof (cases "lookup ?s (slash_clean name) cs")
    case None
    then show ?thesis using lookup_None [OF None _ mo] assms(3) by auto
  next
    case (Some l')
    from lookup_Some [OF Some] obtain c where c: "c \<in> set cs" "map_of (ds_locks ?s) c = Some l'"
      "\<not> dl_held l'" "covered_by (slash_clean name) l'" by blast
    then have "c = k" using u sub map_of_SomeD by (metis subsetD)
    then show ?thesis using c mo Some by simp
  qed
  then have "snd (dav_confirm disk now name [] cs s) =
      (if k \<in> set cs \<and> \<not> dl_held l then Inr [k] else Inl ErrConfirmationFailed)"
    using assms(4) tok by (simp add: dav_confirm_def Let_def)
  then show ?thesis using u by blast
qed

definition finder_lock :: dav_system where
  "finder_lock = dav_apply (DavCreate True True (Some ''t1'') 100
     \<lparr>ld_root = ''docs/'', ld_duration = 600, ld_owner = [], ld_zero_depth = False\<rparr>) (dav_open 0 None)"

lemma finder_reach: "dav_reach finder_lock"
  unfolding finder_lock_def 
  by (rule dav_reach.call [OF dav_reach.opened])
    (simp add: dav_fresh_def dav_open_def dav_load_def token_ok_def utf8_valid_ascii byte_def)

theorem one_lock_per_name_witness:
  "snd (dav_confirm True 200 ''/docs/a.txt'' [] [''t0''] finder_lock) = Inl ErrConfirmationFailed \<and>
   snd (dav_confirm True 200 ''/docs/a.txt'' [] [''t1''] finder_lock) = Inr [''t1'']"
proof -
  have 1: "ds_locks finder_lock = [(''t1'', \<lparr>dl_token = ''t1'', dl_root = ''/docs'', dl_duration = 600, dl_owner = [],
      dl_zero_depth = False, dl_expiry = Some 700, dl_held = False\<rparr>)]" by code_simp
  have 2: "covered_by (slash_clean ''/docs/a.txt'') (snd (hd (ds_locks finder_lock)))"
    "\<not> time_up 200 (snd (hd (ds_locks finder_lock)))" by code_simp+
  have 3: "(''t1'', snd (hd (ds_locks finder_lock))) \<in> set (ds_locks finder_lock)" unfolding 1 by simp
  have 4: "\<not> dl_held (snd (hd (ds_locks finder_lock)))" unfolding 1 by simp
  show ?thesis
    using one_lock_per_name [OF finder_reach 3 2(1) _ 2(2), of True "[''t0'']"]
      one_lock_per_name [OF finder_reach 3 2(1) _ 2(2), of True "[''t1'']"] 4 by simp
qed

text \<open>A claimed lock is left alone: while a request holds it, no other call removes, refreshes or
  claims it, however far past its time it is; only giving the claim back, or a restart, ends it.\<close>
theorem claimed_lock_stays:
  assumes "dav_reach s" and "dav_fresh s op" and "(k, l) \<in> set (ds_locks s)" and "dl_held l"
    and "(case op of DavRelease ts \<Rightarrow> k \<notin> set ts | DavRestart _ \<Rightarrow> False | _ \<Rightarrow> True)"
  shows "(k, l) \<in> set (ds_locks (dav_apply op s)) \<and>
    (case op of DavConfirm b now n n' cs \<Rightarrow>
        (case snd (dav_confirm b now n n' cs s) of Inl _ \<Rightarrow> True | Inr ts \<Rightarrow> k \<notin> set ts) | _ \<Rightarrow> True)"
proof -
  have inv: "dav_inv s" by (rule dav_reach_inv [OF assms(1)])
  have e: "(k, l) \<in> set (ds_locks (dav_expire b now s))" for b now
    using assms(3,4) by (simp add: dav_expire_locks time_up_def)
  have te: "table_ok (ds_locks (dav_expire b now s))" for b now
    using dav_expire_inv [OF inv] by (simp add: dav_inv_def)
  have mo: "map_of (ds_locks (dav_expire b now s)) k = Some l" for b now
    using e table_okD(1) [OF te] by simp
  note d = table_okD(1) [OF te]
  show ?thesis
  proof (cases op)
    case (DavCreate b1 b2 tok now det)
    have "t \<noteq> k" if "tok = Some t" for t using assms(2,3) DavCreate that by (force simp: dav_fresh_def)
    then show ?thesis using DavCreate e by (auto simp: dav_create_def Let_def put_dav_mem [OF d] split: option.split)
  next
    case (DavRefresh b1 b2 now token dur)
    then show ?thesis using e mo assms(4)
      by (auto simp: dav_refresh_def Let_def put_dav_mem [OF d] split: option.split)
  next
    case (DavUnlock b1 b2 now token)
    then show ?thesis using e mo assms(4) by (auto simp: dav_unlock_def Let_def split: option.split)
  next
    case (DavConfirm b now n n' cs)
    have fresh: "dl_token l' \<noteq> k" if "lookup (dav_expire b now s) name cs = Some l'" for name l'
    proof
      assume k: "dl_token l' = k"
      from lookup_Some [OF that] obtain c where c: "map_of (ds_locks (dav_expire b now s)) c = Some l'" "\<not> dl_held l'"
        by blast
      then have "c = k" using table_okD(2) [OF te map_of_SomeD] k by blast
      then show False using c mo assms(4) by simp
    qed
    have keep: "(k, l) \<in> set (ds_locks (set_held ts True (dav_expire b now s)))" if "k \<notin> set ts" for ts
      using e that by (force simp: set_held_def)
    have "k \<notin> set ts" if "snd (dav_confirm b now n n' cs s) = Inr ts" for ts
      using that by (auto simp: dav_confirm_def Let_def dest: fresh split: option.splits if_splits)
    moreover have "fst (dav_confirm b now n n' cs s) = (case snd (dav_confirm b now n n' cs s) of
        Inl _ \<Rightarrow> dav_expire b now s | Inr ts \<Rightarrow> set_held ts True (dav_expire b now s))"
      by (simp add: dav_confirm_def Let_def)
    ultimately show ?thesis using DavConfirm e keep by (auto split: sum.split)
  next
    case (DavRelease ts)
    then show ?thesis using assms(3,5) by (force simp: dav_release_def set_held_def)
  qed (use assms(5) in simp)
qed

theorem claimed_lock_stays_witness:
  "map fst (ds_locks (dav_apply (DavUnlock True True 900000 ''t1'')
     (dav_apply (DavConfirm True 200 ''/docs/a.txt'' [] [''t1'']) finder_lock))) = [''t1'']"
proof -
  let ?s = "dav_apply (DavConfirm True 200 ''/docs/a.txt'' [] [''t1'']) finder_lock"
  have r: "dav_reach ?s" by (rule dav_reach.call [OF finder_reach]) (simp add: dav_fresh_def)
  have 1: "ds_locks ?s = [(''t1'', snd (hd (ds_locks ?s)))]" "dl_held (snd (hd (ds_locks ?s)))" by code_simp+
  then have 2: "(''t1'', snd (hd (ds_locks ?s))) \<in> set (ds_locks ?s)" by (metis list.set_intros(1))
  have "(''t1'', snd (hd (ds_locks ?s))) \<in> set (ds_locks (dav_apply (DavUnlock True True 900000 ''t1'') ?s))"
    using claimed_lock_stays [OF r _ 2 1(2), of "DavUnlock True True 900000 ''t1''"] by (simp add: dav_fresh_def)
  moreover have "map fst (ds_locks (dav_apply (DavUnlock True True 900000 ''t1'') ?s)) = [''t1'']" by code_simp
  ultimately show ?thesis by blast
qed

text \<open>C13. A lock outlives the process: once the table was written down, a restart brings back every
  lock whose time is not up, and nothing else, with no lock claimed: under its token, with its
  depth, duration and time unchanged, and its root and owner as JSON text - unchanged where they
  are UTF-8, with U+FFFD for every byte that is not.\<close>
theorem restart_keeps_locks:
  assumes "dav_reach s" and "ds_durable s"
  shows "((k, l) \<in> set (ds_locks (dav_open now (ds_file (dav_save True s)))) \<longleftrightarrow>
      (\<exists>l'. (k, l') \<in> set (ds_locks s) \<and> \<not> time_up now (l'\<lparr>dl_held := False\<rparr>) \<and>
        l = l'\<lparr>dl_root := json_text (dl_root l'), dl_owner := json_text (dl_owner l'), dl_held := False\<rparr>)) \<and>
    (utf8_valid t \<longrightarrow> json_text t = t)"
proof -
  have t: "table_ok (ds_locks s)" using dav_reach_inv [OF assms(1)] by (simp add: dav_inv_def)
  have f: "ds_file (dav_save True s) = Some (map snd (ds_locks s))" using assms(2) by (simp add: dav_save_def)
  then have "table_ok (map (\<lambda>l. (dl_token l, l)) (map snd (ds_locks s)))"
    using dav_save_inv [OF dav_reach_inv [OF assms(1)], of True] by (simp add: dav_inv_def)
  note load = dav_load_ok [OF this, of now]
  have P: "in_time now l' \<longleftrightarrow> \<not> time_up now (l'\<lparr>dl_held := False\<rparr>)" for l'
    by (auto simp: in_time_def time_up_def not_less)
  have R: "read_back l' = l'\<lparr>dl_root := json_text (dl_root l'), dl_owner := json_text (dl_owner l'), dl_held := False\<rparr>"
    if "(k', l') \<in> set (ds_locks s)" for k' l'
    using table_okD(2) [OF t that] by (cases l') (simp add: read_back_def token_ok_def json_text_valid)
  have "(k, l) \<in> set (ds_locks (dav_open now (ds_file (dav_save True s)))) \<longleftrightarrow>
      (\<exists>k' l'. (k', l') \<in> set (ds_locks s) \<and> \<not> time_up now (l'\<lparr>dl_held := False\<rparr>) \<and> k = dl_token l' \<and> l = read_back l')"
    unfolding f dav_open_def dav_system.select_convs load P by force
  moreover have tok: "k' = dl_token l'" if "(k', l') \<in> set (ds_locks s)" for k' l'
    using table_okD(2) [OF t that] by blast
  moreover have "(\<exists>k' l'. (k', l') \<in> set (ds_locks s) \<and> Q l' \<and> k = dl_token l' \<and> l = read_back l') \<longleftrightarrow>
      (\<exists>l'. (k, l') \<in> set (ds_locks s) \<and> Q l' \<and> l = read_back l')" for Q
    using tok by metis
  moreover have "(\<exists>l'. (k, l') \<in> set (ds_locks s) \<and> Q l' \<and> l = read_back l') \<longleftrightarrow> (\<exists>l'. (k, l') \<in> set (ds_locks s) \<and> Q l' \<and>
      l = l'\<lparr>dl_root := json_text (dl_root l'), dl_owner := json_text (dl_owner l'), dl_held := False\<rparr>)" for Q
    using R by metis
  ultimately show ?thesis using json_text_valid by simp
qed

theorem restart_keeps_locks_witness:
  "''t1'' \<in> fst ` set (ds_locks (dav_open 300 (ds_file (dav_save True finder_lock)))) \<and>
   ds_locks (dav_open 900 (ds_file (dav_save True finder_lock))) = []"
proof -
  have d: "ds_durable finder_lock" by code_simp
  have 1: "ds_locks finder_lock = [(''t1'', snd (hd (ds_locks finder_lock)))]"
    "\<not> time_up 300 ((snd (hd (ds_locks finder_lock)))\<lparr>dl_held := False\<rparr>)" by code_simp+
  have 2: "\<forall>(k, l) \<in> set (ds_locks finder_lock). time_up 900 (l\<lparr>dl_held := False\<rparr>)" by code_simp
  have 3: "(''t1'', snd (hd (ds_locks finder_lock))) \<in> set (ds_locks finder_lock)" by (metis 1(1) list.set_intros(1))
  have "\<exists>l. (''t1'', l) \<in> set (ds_locks (dav_open 300 (ds_file (dav_save True finder_lock))))"
    using restart_keeps_locks [OF finder_reach d, of "''t1''" _ 300] 3 1(2) by blast
  moreover have "(k, l) \<notin> set (ds_locks (dav_open 900 (ds_file (dav_save True finder_lock))))" for k l
    using restart_keeps_locks [OF finder_reach d, of k l 900] 2 by fastforce
  then have "ds_locks (dav_open 900 (ds_file (dav_save True finder_lock))) = []"
    by (cases "ds_locks (dav_open 900 (ds_file (dav_save True finder_lock)))") fastforce+
  ultimately show ?thesis by force
qed

section \<open>Where the code falls short of its promise\<close>

text \<open>A root that is not UTF-8 is locked under its bytes, and after a restart under U+FFFD: the lock
  no longer covers the file it was taken for (here a file of the one byte 255, whose token then
  confirms nothing).\<close>

definition odd_lock :: dav_system where
  "odd_lock = dav_apply (DavCreate True True (Some ''t1'') 100
     \<lparr>ld_root = [char_of (255 :: nat)], ld_duration = 600, ld_owner = [], ld_zero_depth = True\<rparr>) (dav_open 0 None)"

lemma json_text_odd: "json_text (slash # [char_of (255 :: nat)]) = slash # bad_rune"
  by (simp add: json_text_def runes.simps decode_rune_def byte_def)

lemma odd_lock_read: "dav_open 200 (ds_file odd_lock) = \<lparr>ds_durable = True,
    ds_locks = [(''t1'', \<lparr>dl_token = ''t1'', dl_root = slash # bad_rune, dl_duration = 600, dl_owner = [],
      dl_zero_depth = True, dl_expiry = Some 700, dl_held = False\<rparr>)], ds_file = ds_file odd_lock\<rparr>"
proof -
  have f: "ds_file odd_lock = Some [\<lparr>dl_token = ''t1'', dl_root = slash # [char_of (255 :: nat)], dl_duration = 600,
      dl_owner = [], dl_zero_depth = True, dl_expiry = Some 700, dl_held = False\<rparr>]" by code_simp
  have t: "json_text ''t1'' = ''t1''" "json_text [] = []"
    by (simp_all add: json_text_valid utf8_valid_ascii byte_def)
  show ?thesis unfolding f by (simp add: dav_open_def dav_load_def read_back_def put_dav_def json_text_odd t)
qed

lemma restart_renames_odd_roots:
  "snd (dav_confirm True 200 [char_of (255 :: nat)] [] [''t1''] odd_lock) = Inr [''t1''] \<and>
   snd (dav_confirm True 200 [char_of (255 :: nat)] [] [''t1''] (dav_open 200 (ds_file odd_lock))) = Inl ErrConfirmationFailed"
  unfolding odd_lock_read by code_simp

end
