(* ===== verification/Share.thy ===== *)
theory Share
  imports Syspath PathMatch
begin

text \<open>
  Public links: the row (\<open>model.Share\<close>), making one (\<open>share.Service.Create\<close>), the PIN gate and
  the unlock cookie (\<open>share/pin.go\<close>), and the counters' SQL. Times are Unix nanoseconds, the
  cookie's are seconds. What is not in this repository is an argument: \<open>bcrypt\<close> as the pair
  \<open>hash_pin\<close> / \<open>hash_ok\<close>, the sealing box, the MAC of the cookie (\<open>mac\<close>) and the token's
  SHA-256 (\<open>token_hash\<close>), and Unicode's case tables (\<open>uni\<close>, see \<open>to_lower\<close>).
\<close>

section \<open>The row\<close>

abbreviation ShareKindDownload :: string where "ShareKindDownload \<equiv> ''download''"
abbreviation ShareKindDrop :: string where "ShareKindDrop \<equiv> ''drop''"

record share =
  sh_id :: int
  sh_node_id :: int
  sh_token :: string
  sh_pin_hash :: string
  sh_pin_enc :: string
  sh_expires_at :: "nanos option"
  sh_max_downloads :: "int option"
  sh_download_count :: int
  sh_visit_count :: int
  sh_created_by :: "int option"
  sh_created_via :: string
  sh_kind :: string
  sh_max_uploads :: "int option"
  sh_upload_count :: int
  sh_drop_settings :: "string option"
  sh_plugin_id :: int
  sh_page_id :: string
  sh_subject :: string
  sh_state_json :: string
  sh_files_json :: string
  sh_purpose_json :: string
  sh_app_root :: string
  sh_pin_fails :: int
  sh_locked_until :: "nanos option"
  sh_revoked_at :: "nanos option"

abbreviation ShareStateActive :: string where "ShareStateActive \<equiv> ''active''"
abbreviation ShareStateExpired :: string where "ShareStateExpired \<equiv> ''expired''"
abbreviation ShareStateExhausted :: string where "ShareStateExhausted \<equiv> ''exhausted''"
abbreviation ShareStateRevoked :: string where "ShareStateRevoked \<equiv> ''revoked''"

definition is_drop :: "share option \<Rightarrow> bool" where
  "is_drop s = (case s of None \<Rightarrow> False | Some s \<Rightarrow> sh_kind s = ShareKindDrop)"

definition is_app :: "share \<Rightarrow> bool" where
  "is_app s \<longleftrightarrow> sh_plugin_id s > 0 \<and> sh_page_id s \<noteq> []"

definition capped_count :: "share \<Rightarrow> int" where
  "capped_count s = (if is_app s then sh_visit_count s else sh_download_count s)"

definition past :: "nanos option \<Rightarrow> nanos \<Rightarrow> bool" where
  "past t now = (case t of None \<Rightarrow> False | Some e \<Rightarrow> now > e)"

definition at_cap :: "int option \<Rightarrow> int \<Rightarrow> bool" where
  "at_cap cap n = (case cap of None \<Rightarrow> False | Some m \<Rightarrow> n \<ge> m)"

definition state_at :: "share option \<Rightarrow> nanos \<Rightarrow> string" where
  "state_at s now = (case s of
      None \<Rightarrow> ShareStateExpired
    | Some s \<Rightarrow>
      if sh_revoked_at s \<noteq> None then ShareStateRevoked
      else if past (sh_expires_at s) now then ShareStateExpired
      else if at_cap (sh_max_downloads s) (capped_count s) then ShareStateExhausted
      else if at_cap (sh_max_uploads s) (sh_upload_count s) then ShareStateExhausted
      else ShareStateActive)"

definition pin_locked :: "share option \<Rightarrow> nanos \<Rightarrow> bool" where
  "pin_locked s now = (case s of None \<Rightarrow> False | Some s \<Rightarrow>
     (case sh_locked_until s of None \<Rightarrow> False | Some t \<Rightarrow> now < t))"

definition is_expired :: "share option \<Rightarrow> nanos \<Rightarrow> bool" where
  "is_expired s now = (case s of
      None \<Rightarrow> True
    | Some s \<Rightarrow> past (sh_expires_at s) now \<or> at_cap (sh_max_downloads s) (capped_count s) \<or>
        at_cap (sh_max_uploads s) (sh_upload_count s))"

section \<open>The PIN rule\<close>

function rune_count :: "string \<Rightarrow> nat" where
  "rune_count s = (if s = [] then 0 else Suc (rune_count (drop (snd (decode_rune s)) s)))"
  by pat_completeness auto
termination
proof (relation "measure length")
  show "(drop (snd (decode_rune s)) s, s) \<in> measure length" if "s \<noteq> []" for s :: string
    using decode_rune_width [OF that] that by simp
qed simp

declare rune_count.simps [simp del]

definition PINMinLen :: nat where "PINMinLen = 4"
definition PINMaxLen :: nat where "PINMaxLen = 12"

datatype share_error =
    MissingNode
  | ErrPINLength
  | BadToken
  | RandFailed
  | HashFailed
  | SealFailed
  | StoreFailed
  | ErrExpired
  | ErrBadPIN
  | ErrShareLocked
  | NoLink
  | ErrNoPIN
  | ErrPinNotRecoverable
  | ErrNoSecretKey

definition check_pin_length :: "string \<Rightarrow> share_error option" where
  "check_pin_length pin =
     (if pin = [] then None
      else let n = rune_count pin in if n < PINMinLen \<or> n > PINMaxLen then Some ErrPINLength else None)"

section \<open>Making a link\<close>

definition DefaultMaxTTLDays :: int where "DefaultMaxTTLDays = 7"
definition MaxTTLDaysLimit :: int where "MaxTTLDaysLimit = 3650"

definition hour_ns :: nanos where "hour_ns = 3600 * 1000000000"

text \<open>The setting as the store answers it: None for an error.\<close>

definition max_ttl_days :: "string option \<Rightarrow> int" where
  "max_ttl_days setting =
     (case setting of
        None \<Rightarrow> DefaultMaxTTLDays
      | Some v \<Rightarrow>
        if trim_space v = [] then DefaultMaxTTLDays
        else case parse_int64 (trim_space v) of
               None \<Rightarrow> DefaultMaxTTLDays
             | Some n \<Rightarrow> if n < 0 \<or> n > MaxTTLDaysLimit then DefaultMaxTTLDays else n)"

definition clamp_expiry :: "nanos option \<Rightarrow> int \<Rightarrow> nanos \<Rightarrow> nanos option \<times> bool" where
  "clamp_expiry requested max_days now =
     (if max_days \<le> 0 then (requested, False)
      else let limit = now + max_days * 24 * hour_ns in
        case requested of
          None \<Rightarrow> (Some limit, True)
        | Some r \<Rightarrow> if r > limit then (Some limit, True) else (requested, False))"

definition valid_token :: "string \<Rightarrow> bool" where
  "valid_token tok \<longleftrightarrow> (if length tok \<noteq> 32 then False else list_all is_hex tok)"

record create_opts =
  co_node_id :: int
  co_pin :: string
  co_expires_at :: "nanos option"
  co_max_downloads :: "int option"
  co_created_by :: "int option"
  co_created_via :: string
  co_kind :: string
  co_max_uploads :: "int option"
  co_drop_settings :: "string option"
  co_plugin_id :: int
  co_page_id :: string
  co_subject :: string
  co_state_json :: string
  co_files_json :: string
  co_purpose_json :: string
  co_app_root :: string
  co_token :: string

text \<open>What one \<open>Create\<close> meets: the setting, the clock, the random token, bcrypt and the box.\<close>

record create_env =
  ce_setting :: "string option"
  ce_now :: nanos
  ce_random_token :: "string option"
  ce_hash_pin :: "string \<Rightarrow> string option"
  ce_box_enabled :: bool
  ce_seal :: "string \<Rightarrow> string option"

definition create_share :: "(string \<Rightarrow> string) \<Rightarrow> create_env \<Rightarrow> create_opts \<Rightarrow> share_error + share" where
  "create_share uni env opts =
     (if co_node_id opts = 0 then Inl MissingNode
      else case check_pin_length (co_pin opts) of
        Some e \<Rightarrow> Inl e
      | None \<Rightarrow>
        let expires = fst (clamp_expiry (co_expires_at opts) (max_ttl_days (ce_setting env)) (ce_now env));
            given = to_lower uni (trim_space (co_token opts));
            token = (if given = [] then (case ce_random_token env of None \<Rightarrow> Inl RandFailed | Some t \<Rightarrow> Inr t)
                     else if \<not> valid_token given then Inl BadToken else Inr given)
        in case token of
             Inl e \<Rightarrow> Inl e
           | Inr tok \<Rightarrow>
             let pins =
               (if co_pin opts = [] then Inr ([], [])
                else case ce_hash_pin env (co_pin opts) of
                       None \<Rightarrow> Inl HashFailed
                     | Some h \<Rightarrow>
                       if ce_box_enabled env then
                         (case ce_seal env (co_pin opts) of None \<Rightarrow> Inl SealFailed | Some e \<Rightarrow> Inr (h, e))
                       else Inr (h, []))
             in case pins of
                  Inl e \<Rightarrow> Inl e
                | Inr (pin_hash, pin_enc) \<Rightarrow>
                  Inr \<lparr>sh_id = 0, sh_node_id = co_node_id opts, sh_token = tok, sh_pin_hash = pin_hash,
                    sh_pin_enc = pin_enc, sh_expires_at = expires, sh_max_downloads = co_max_downloads opts,
                    sh_download_count = 0, sh_visit_count = 0, sh_created_by = co_created_by opts,
                    sh_created_via = co_created_via opts,
                    sh_kind = (if co_kind opts = [] then ShareKindDownload else co_kind opts),
                    sh_max_uploads = co_max_uploads opts, sh_upload_count = 0,
                    sh_drop_settings = co_drop_settings opts, sh_plugin_id = co_plugin_id opts,
                    sh_page_id = co_page_id opts, sh_subject = co_subject opts,
                    sh_state_json = co_state_json opts, sh_files_json = co_files_json opts,
                    sh_purpose_json = co_purpose_json opts, sh_app_root = co_app_root opts,
                    sh_pin_fails = 0, sh_locked_until = None, sh_revoked_at = None\<rparr>)"

definition resolve_share ::
  "(string \<Rightarrow> string \<Rightarrow> bool) \<Rightarrow> share_error + share \<Rightarrow> string \<Rightarrow> nanos \<Rightarrow> share_error + share" where
  "resolve_share hash_ok found pin now =
     (case found of
        Inl e \<Rightarrow> Inl e
      | Inr sh \<Rightarrow>
        if is_expired (Some sh) now then Inl ErrExpired
        else if sh_pin_hash sh \<noteq> [] \<and> \<not> hash_ok (sh_pin_hash sh) pin then Inl ErrBadPIN
        else Inr sh)"

text \<open>\<open>CountOverMaxTTL\<close> over the live links, which its pages of 500 list (100000 links at most).\<close>

definition count_over_max_ttl :: "string option \<Rightarrow> share option list \<Rightarrow> nanos \<Rightarrow> nat" where
  "count_over_max_ttl setting rows now =
     (let max_days = max_ttl_days setting in
      if max_days \<le> 0 then 0
      else let limit = now + max_days * 24 * hour_ns in
        length (filter (\<lambda>s. case s of None \<Rightarrow> False | Some sh \<Rightarrow>
            (case sh_expires_at sh of None \<Rightarrow> True | Some e \<Rightarrow> e > limit)) (take 100000 rows)))"

section \<open>The PIN gate\<close>

definition pin_max_fails :: int where "pin_max_fails = 5"
definition pin_lock_ns :: nanos where "pin_lock_ns = 10 * 60 * 1000000000"
definition unlock_ttl_s :: int where "unlock_ttl_s = 12 * 3600"

text \<open>\<open>CheckPIN\<close> on the row a request read: the row as it leaves it, the lock columns it writes, and
  the refusal.\<close>

definition check_pin ::
  "(string \<Rightarrow> string \<Rightarrow> bool) \<Rightarrow> share option \<Rightarrow> string \<Rightarrow> nanos
    \<Rightarrow> share option \<times> (int \<times> nanos option) option \<times> share_error option" where
  "check_pin hash_ok s pin now =
     (case s of
        None \<Rightarrow> (None, None, Some NoLink)
      | Some sh \<Rightarrow>
        if sh_pin_hash sh = [] then (s, None, None)
        else if pin_locked s now then (s, None, Some ErrShareLocked)
        else if \<not> hash_ok (sh_pin_hash sh) (trim_space pin) then
          (let fails = sh_pin_fails sh + 1 in
           if fails \<ge> pin_max_fails then
             (let until = now + pin_lock_ns
              in (Some (sh\<lparr>sh_locked_until := Some until, sh_pin_fails := 0\<rparr>),
                  Some (0, Some until), Some ErrShareLocked))
           else (Some (sh\<lparr>sh_pin_fails := fails\<rparr>), Some (fails, None), Some ErrBadPIN))
        else if sh_pin_fails sh \<noteq> 0 \<or> sh_locked_until sh \<noteq> None then
          (Some (sh\<lparr>sh_pin_fails := 0, sh_locked_until := None\<rparr>), Some (0, None), None)
        else (s, None, None))"

definition update_pin_lock :: "share \<Rightarrow> (int \<times> nanos option) option \<Rightarrow> share" where
  "update_pin_lock sh w = (case w of None \<Rightarrow> sh
     | Some (fails, until) \<Rightarrow> sh\<lparr>sh_pin_fails := fails, sh_locked_until := until\<rparr>)"

datatype opened = OpenedPin string | BoxNoKey | BoxCorrupt

definition reveal_pin :: "bool \<Rightarrow> (string \<Rightarrow> opened) \<Rightarrow> share option \<Rightarrow> share_error + string" where
  "reveal_pin box_enabled box_open s =
     (case s of
        None \<Rightarrow> Inl ErrNoPIN
      | Some sh \<Rightarrow>
        if sh_pin_hash sh = [] then Inl ErrNoPIN
        else if sh_pin_enc sh = [] then
          (if \<not> box_enabled then Inl ErrNoSecretKey else Inl ErrPinNotRecoverable)
        else case box_open (sh_pin_enc sh) of
               BoxNoKey \<Rightarrow> Inl ErrNoSecretKey
             | BoxCorrupt \<Rightarrow> Inl ErrPinNotRecoverable
             | OpenedPin pin \<Rightarrow> Inr pin)"

section \<open>The unlock cookie\<close>

definition mint_unlock :: "(string \<Rightarrow> string) \<Rightarrow> (string \<Rightarrow> string \<Rightarrow> string) \<Rightarrow> string \<Rightarrow> string \<Rightarrow> int \<Rightarrow> string" where
  "mint_unlock token_hash mac key token now =
     (let exp = format_int (now + unlock_ttl_s)
      in exp @ ''.'' @ mac key (token_hash (trim_space token) @ ''|'' @ exp))"

definition cut :: "string \<Rightarrow> char \<Rightarrow> (string \<times> string) option" where
  "cut s c = (case index_byte s c of None \<Rightarrow> None | Some i \<Rightarrow> Some (take i s, drop (i + 1) s))"

definition verify_unlock ::
  "(string \<Rightarrow> string) \<Rightarrow> (string \<Rightarrow> string \<Rightarrow> string) \<Rightarrow> string \<Rightarrow> string \<Rightarrow> string \<Rightarrow> int \<Rightarrow> bool" where
  "verify_unlock token_hash mac key token value now =
     (case cut value (CHR ''.'') of
        None \<Rightarrow> False
      | Some (exp, sig) \<Rightarrow>
        (case parse_int64 exp of
           None \<Rightarrow> False
         | Some n \<Rightarrow> if now > n then False
                     else mac key (token_hash (trim_space token) @ ''|'' @ exp) = sig))"

section \<open>The counters\<close>

text \<open>The SQL of a claim: one statement on one row, answering whether it changed it.\<close>

definition reserve_download :: "share \<Rightarrow> share \<times> bool" where
  "reserve_download s =
     (case sh_max_downloads s of
        Some m \<Rightarrow> if sh_download_count s < m then (s\<lparr>sh_download_count := sh_download_count s + 1\<rparr>, True) else (s, False)
      | None \<Rightarrow> (s\<lparr>sh_download_count := sh_download_count s + 1\<rparr>, True))"

definition release_download :: "share \<Rightarrow> share" where
  "release_download s = (if sh_download_count s > 0 then s\<lparr>sh_download_count := sh_download_count s - 1\<rparr> else s)"

definition reserve_upload :: "share \<Rightarrow> int \<Rightarrow> share \<times> bool" where
  "reserve_upload s n =
     (if n < 1 then (s, False)
      else case sh_max_uploads s of
        Some m \<Rightarrow> if sh_upload_count s + n \<le> m then (s\<lparr>sh_upload_count := sh_upload_count s + n\<rparr>, True) else (s, False)
      | None \<Rightarrow> (s\<lparr>sh_upload_count := sh_upload_count s + n\<rparr>, True))"

definition release_upload :: "share \<Rightarrow> int \<Rightarrow> share" where
  "release_upload s n =
     (if n < 1 then s
      else s\<lparr>sh_upload_count := (if sh_upload_count s > n then sh_upload_count s - n else 0)\<rparr>)"

definition increment_visit :: "share \<Rightarrow> share" where
  "increment_visit s = s\<lparr>sh_visit_count := sh_visit_count s + 1\<rparr>"

definition revoke_share :: "share \<Rightarrow> nanos \<Rightarrow> share" where
  "revoke_share s now = s\<lparr>sh_expires_at := Some now, sh_revoked_at := Some now\<rparr>"

end
