(* ===== verification/ShareRules.thy ===== *)
theory ShareRules
  imports Share
begin

text \<open>What the public links guarantee: their life, their caps, the PIN gate and its cookie.\<close>

section \<open>The gate on one row, one request after another\<close>

lemma update_pin_lock_fields [simp]:
  "sh_pin_hash (update_pin_lock sh w) = sh_pin_hash sh" "sh_expires_at (update_pin_lock sh w) = sh_expires_at sh"
  "sh_max_downloads (update_pin_lock sh w) = sh_max_downloads sh" "sh_token (update_pin_lock sh w) = sh_token sh"
  by (simp_all add: update_pin_lock_def split: option.split prod.split)

text \<open>The guesses that reached the comparison, each request reading what the one before it stored.\<close>

fun compared :: "(string \<Rightarrow> string \<Rightarrow> bool) \<Rightarrow> share \<Rightarrow> (nanos \<times> string) list \<Rightarrow> int" where
  "compared hash_ok sh [] = 0"
| "compared hash_ok sh ((now, pin) # rest) =
     (if pin_locked (Some sh) now then 0 else 1) +
     compared hash_ok (update_pin_lock sh (fst (snd (check_pin hash_ok (Some sh) pin now)))) rest"

definition free_from :: "share \<Rightarrow> nanos \<Rightarrow> nanos" where
  "free_from sh a = (case sh_locked_until sh of None \<Rightarrow> a | Some l \<Rightarrow> max a l)"

lemma check_pin_wrong:
  assumes "sh_pin_hash sh \<noteq> []" "\<not> hash_ok (sh_pin_hash sh) (trim_space pin)"
  shows "update_pin_lock sh (fst (snd (check_pin hash_ok (Some sh) pin now))) =
    (if pin_locked (Some sh) now then sh
     else if sh_pin_fails sh + 1 \<ge> pin_max_fails
          then sh\<lparr>sh_pin_fails := 0, sh_locked_until := Some (now + pin_lock_ns)\<rparr>
          else sh\<lparr>sh_pin_fails := sh_pin_fails sh + 1, sh_locked_until := None\<rparr>)"
  using assms by (simp add: check_pin_def update_pin_lock_def Let_def)

lemma pin_locked_free: "pin_locked (Some sh) now \<longleftrightarrow> now < free_from sh now"
  by (auto simp: pin_locked_def free_from_def split: option.split)

lemma compared_bound:
  assumes "sh_pin_hash sh \<noteq> []" "0 \<le> sh_pin_fails sh" "sh_pin_fails sh < pin_max_fails"
    and "\<forall>(now, pin) \<in> set gs. a \<le> now \<and> now \<le> b \<and> \<not> hash_ok (sh_pin_hash sh) (trim_space pin)"
    and "sorted (map fst gs)"
  shows "compared hash_ok sh gs \<le>
    (if b < free_from sh a then 0
     else pin_max_fails - sh_pin_fails sh + pin_max_fails * ((b - free_from sh a) div pin_lock_ns))"
  using assms
proof (induction gs arbitrary: sh a)
  case Nil
  have "0 \<le> (b - free_from sh a) div pin_lock_ns" if "\<not> b < free_from sh a"
    using that by (simp add: pin_lock_ns_def pos_imp_zdiv_nonneg_iff)
  then show ?case using Nil.prems by (simp add: pin_max_fails_def)
next
  case (Cons g gs)
  obtain now pin where g: "g = (now, pin)" by (cases g)
  have t: "a \<le> now" "now \<le> b" "\<not> hash_ok (sh_pin_hash sh) (trim_space pin)" using Cons.prems(4) g by auto
  let ?next = "update_pin_lock sh (fst (snd (check_pin hash_ok (Some sh) pin now)))"
  note nxt = check_pin_wrong [of sh hash_ok pin, OF Cons.prems(1) t(3), of now]
  have later: "\<forall>(now', pin') \<in> set gs. now \<le> now' \<and> now' \<le> b \<and> \<not> hash_ok (sh_pin_hash ?next) (trim_space pin')"
    using Cons.prems(4,5) g by auto
  have fails: "0 \<le> sh_pin_fails ?next" "sh_pin_fails ?next < pin_max_fails"
    unfolding nxt using Cons.prems(2,3) by (auto simp: pin_max_fails_def)
  have IH: "compared hash_ok ?next gs \<le>
    (if b < free_from ?next now then 0
     else pin_max_fails - sh_pin_fails ?next + pin_max_fails * ((b - free_from ?next now) div pin_lock_ns))"
    by (rule Cons.IH [where sh = ?next and a = now, OF _ fails later]) (use Cons.prems g in auto)
  show ?case
  proof (cases "pin_locked (Some sh) now")
    case True
    then obtain l where "sh_locked_until sh = Some l" "now < l" by (auto simp: pin_locked_def split: option.splits)
    then have "free_from sh now = free_from sh a" using t by (simp add: free_from_def)
    moreover have eq: "?next = sh" using nxt True by simp
    moreover note IH [unfolded eq]
    ultimately show ?thesis using True g by (simp split: if_splits)
  next
    case False
    then have free: "free_from sh a \<le> now" using t by (auto simp: pin_locked_def free_from_def split: option.splits)
    have "(b - now) div pin_lock_ns \<le> (b - free_from sh a) div pin_lock_ns"
      using free by (intro zdiv_mono1) (simp_all add: pin_lock_ns_def)
    moreover have "0 \<le> (b - now) div pin_lock_ns"
      using t by (simp add: pin_lock_ns_def pos_imp_zdiv_nonneg_iff)
    moreover have "(b - (now + pin_lock_ns)) div pin_lock_ns = (b - now) div pin_lock_ns - 1"
    proof -
      have "b - (now + pin_lock_ns) = (b - now) + (-1) * pin_lock_ns" by simp
      then show ?thesis by (simp only: div_mult_self1) (simp add: pin_lock_ns_def)
    qed
    moreover have "max now (now + pin_lock_ns) = now + pin_lock_ns" "(b - (now + pin_lock_ns) < 0) = (b < now + pin_lock_ns)"
      by (simp_all add: pin_lock_ns_def)
    ultimately show ?thesis
      using IH False g free t Cons.prems(2,3)
      by (simp add: nxt pin_max_fails_def free_from_def split: if_splits)
  qed
qed

section \<open>Counters under overlapping requests\<close>

datatype claim = ClaimDownload | ReturnDownload | ClaimUploads int | ReturnUploads int

text \<open>The row and what is out: downloads and files granted and not handed back.\<close>

fun claims :: "claim list \<Rightarrow> share \<times> int \<times> int \<Rightarrow> share \<times> int \<times> int" where
  "claims [] s = s"
| "claims (ClaimDownload # cs) (s, d, u) =
     (let (s', ok) = reserve_download s in claims cs (s', if ok then d + 1 else d, u))"
| "claims (ReturnDownload # cs) (s, d, u) = claims cs (release_download s, d - 1, u)"
| "claims (ClaimUploads n # cs) (s, d, u) =
     (let (s', ok) = reserve_upload s n in claims cs (s', d, if ok then u + n else u))"
| "claims (ReturnUploads n # cs) (s, d, u) = claims cs (release_upload s n, d, if n < 1 then u else u - n)"

definition within_caps :: "share \<times> int \<times> int \<Rightarrow> bool" where
  "within_caps x \<longleftrightarrow> (case x of (s, d, u) \<Rightarrow>
     d \<le> sh_download_count s \<and> u \<le> sh_upload_count s \<and> 0 \<le> sh_download_count s \<and> 0 \<le> sh_upload_count s \<and>
     (case sh_max_downloads s of None \<Rightarrow> True | Some m \<Rightarrow> sh_download_count s \<le> m) \<and>
     (case sh_max_uploads s of None \<Rightarrow> True | Some m \<Rightarrow> sh_upload_count s \<le> m))"

lemma claim_caps:
  "within_caps (s, d, u) \<Longrightarrow> within_caps (fst (reserve_download s), if snd (reserve_download s) then d + 1 else d, u)"
  "within_caps (s, d, u) \<Longrightarrow> within_caps (release_download s, d - 1, u)"
  "within_caps (s, d, u) \<Longrightarrow> within_caps (fst (reserve_upload s n), d, if snd (reserve_upload s n) then u + n else u)"
  "within_caps (s, d, u) \<Longrightarrow> within_caps (release_upload s n, d, if n < 1 then u else u - n)"
  by (auto simp: within_caps_def reserve_download_def release_download_def reserve_upload_def release_upload_def
    split: option.splits)

lemma claims_within: "within_caps x \<Longrightarrow> within_caps (claims cs x)"
proof (induction cs x rule: claims.induct)
  case (2 cs s d u)
  then show ?case using claim_caps(1) [OF 2(2)] by (simp add: case_prod_unfold Let_def)
next
  case (3 cs s d u)
  then show ?case using claim_caps(2) [OF 3(2)] by simp
next
  case (4 n cs s d u)
  then show ?case using claim_caps(3) [OF 4(2)] by (simp add: case_prod_unfold Let_def)
next
  case (5 n cs s d u)
  then show ?case using claim_caps(4) [OF 5(2)] by simp
qed simp

lemma claims_caps_kept:
  "sh_max_downloads (fst (claims cs x)) = sh_max_downloads (fst x) \<and>
   sh_max_uploads (fst (claims cs x)) = sh_max_uploads (fst x)"
  by (induction cs x rule: claims.induct)
     (auto simp: case_prod_unfold Let_def reserve_download_def release_download_def reserve_upload_def
       release_upload_def split: option.splits)

section \<open>The cookie's parts\<close>

lemma index_of_byte: "c \<notin> set xs \<Longrightarrow> index_of (xs @ c # rest) [c] = Some (length xs)"
proof (induction xs)
  case Nil
  then show ?case by (subst index_of.simps) (simp add: has_prefix_def)
next
  case (Cons x xs)
  then show ?case by (subst (1) index_of.simps) (auto simp: has_prefix_def)
qed

lemma cut_append: "c \<notin> set xs \<Longrightarrow> cut (xs @ c # rest) c = Some (xs, rest)"
  by (simp add: cut_def index_byte_def index_of_byte)

lemma format_int_no_dot: "CHR ''.'' \<notin> set (format_int n)"
proof -
  have "\<not> is_digit (CHR ''.'')" by code_simp
  then have "CHR ''.'' \<notin> set (digits k)" for k using digits_props [of k] by (auto simp: list_all_iff)
  then show ?thesis by (auto simp: format_int_def)
qed

section \<open>A link to try the rules on\<close>

definition plain_opts :: "string \<Rightarrow> create_opts" where
  "plain_opts pin = \<lparr>co_node_id = 4, co_pin = pin, co_expires_at = None, co_max_downloads = Some 2,
     co_created_by = Some 1, co_created_via = [], co_kind = [], co_max_uploads = None, co_drop_settings = None,
     co_plugin_id = 0, co_page_id = [], co_subject = [], co_state_json = [], co_files_json = [],
     co_purpose_json = [], co_app_root = [], co_token = []\<rparr>"

text \<open>A hash that is the PIN itself behind a mark: the contract of \<open>bcrypt\<close>, and nothing more.\<close>

definition plain_env :: create_env where
  "plain_env = \<lparr>ce_setting = Some ''30'', ce_now = 1000, ce_random_token = Some ''0123456789abcdef0123456789abcdef'',
     ce_hash_pin = (\<lambda>p. Some (CHR ''$'' # p)), ce_box_enabled = False, ce_seal = (\<lambda>_. None)\<rparr>"

definition plain_ok :: "string \<Rightarrow> string \<Rightarrow> bool" where
  "plain_ok h p \<longleftrightarrow> h = CHR ''$'' # p"

definition plain_link :: "string \<Rightarrow> share" where
  "plain_link pin = projr (create_share id plain_env (plain_opts pin))"

lemma create_fields:
  assumes "create_share uni env opts = Inr sh"
  shows "co_node_id opts \<noteq> 0 \<and> sh_node_id sh = co_node_id opts \<and>
    sh_expires_at sh = fst (clamp_expiry (co_expires_at opts) (max_ttl_days (ce_setting env)) (ce_now env)) \<and>
    (co_pin opts = [] \<longrightarrow> sh_pin_hash sh = []) \<and>
    (co_pin opts \<noteq> [] \<longrightarrow> ce_hash_pin env (co_pin opts) = Some (sh_pin_hash sh)) \<and>
    check_pin_length (co_pin opts) = None \<and>
    (valid_token (sh_token sh) \<or> ce_random_token env = Some (sh_token sh)) \<and>
    sh_pin_fails sh = 0 \<and> sh_locked_until sh = None \<and> sh_download_count sh = 0 \<and> sh_upload_count sh = 0 \<and>
    sh_max_downloads sh = co_max_downloads opts \<and> sh_max_uploads sh = co_max_uploads opts"
  using assms unfolding create_share_def Let_def by (auto split: if_splits option.splits sum.splits)

section \<open>Properties\<close>

text \<open>A new link always ends when the install says links end: whatever expiry was asked for, the
  stored one is at most the ceiling from now and at most the one asked for; a link that never
  ends can only be made where the setting itself is the number 0; and its token has the minted
  shape.\<close>
theorem new_links_end:
  assumes "create_share uni env opts = Inr sh"
    and "\<And>t. ce_random_token env = Some t \<Longrightarrow> valid_token t"
  shows "valid_token (sh_token sh) \<and>
    (0 < max_ttl_days (ce_setting env) \<longrightarrow>
      (\<exists>e. sh_expires_at sh = Some e \<and> e \<le> ce_now env + max_ttl_days (ce_setting env) * 24 * hour_ns \<and>
        (case co_expires_at opts of None \<Rightarrow> True | Some r \<Rightarrow> e \<le> r))) \<and>
    (sh_expires_at sh = None \<longrightarrow>
      (\<exists>v. ce_setting env = Some v \<and> parse_int64 (trim_space v) = Some 0 \<and> co_expires_at opts = None))"
proof -
  note F = create_fields [OF assms(1)]
  have "0 \<le> max_ttl_days (ce_setting env)"
    by (auto simp: max_ttl_days_def DefaultMaxTTLDays_def split: option.split)
  moreover have "max_ttl_days (ce_setting env) = 0 \<Longrightarrow>
      \<exists>v. ce_setting env = Some v \<and> parse_int64 (trim_space v) = Some 0"
    by (auto simp: max_ttl_days_def DefaultMaxTTLDays_def split: option.splits if_splits)
  ultimately show ?thesis
    using F assms(2) by (auto simp: clamp_expiry_def Let_def split: option.splits if_splits)
qed

theorem new_links_end_witness:
  "\<exists>e. sh_expires_at (plain_link []) = Some e \<and> e \<le> 1000 + 30 * 24 * hour_ns"
proof -
  have 1: "create_share id plain_env (plain_opts []) = Inr (plain_link [])" by code_simp
  have 2: "valid_token t" if "ce_random_token plain_env = Some t" for t
  proof -
    have "valid_token ''0123456789abcdef0123456789abcdef''" by code_simp
    then show ?thesis using that by (simp add: plain_env_def)
  qed
  have 3: "max_ttl_days (ce_setting plain_env) = 30" "ce_now plain_env = 1000" by code_simp+
  show ?thesis using new_links_end [OF 1 2] 3 by auto
qed

text \<open>C14. Guessing a PIN is slow: when requests follow one another on one link and its strikes are written
  (the code does not look at that write's error), of any sequence of wrong PINs between two moments at most five, and five more for every full ten minutes between them,
  are compared with the PIN; all others are refused unread.\<close>
theorem guesses_are_slow:
  assumes "sh_pin_hash sh \<noteq> []" "sh_pin_fails sh = 0" "sh_locked_until sh = None"
    and "list_all (\<lambda>(now, pin). a \<le> now \<and> now \<le> b \<and> \<not> hash_ok (sh_pin_hash sh) (trim_space pin)) gs"
    and "sorted (map fst gs)" and "a \<le> b"
  shows "compared hash_ok sh gs \<le> 5 + 5 * ((b - a) div pin_lock_ns)"
proof -
  have "\<forall>(now, pin) \<in> set gs. a \<le> now \<and> now \<le> b \<and> \<not> hash_ok (sh_pin_hash sh) (trim_space pin)"
    using assms(4) by (simp add: list_all_iff)
  from compared_bound [where sh = sh and hash_ok = hash_ok and gs = gs and a = a and b = b, OF assms(1) _ _ this assms(5)] show ?thesis
    using assms(2,3,6) by (simp add: free_from_def pin_max_fails_def)
qed

theorem guesses_are_slow_witness:
  "compared plain_ok (plain_link ''4711'') [(1, ''0000''), (2, ''0001''), (3, ''0002''), (4, ''0003''), (5, ''0004''),
     (6, ''0005''), (7, ''0006'')] \<le> 5"
proof -
  have 1: "sh_pin_hash (plain_link ''4711'') \<noteq> []" "sh_pin_fails (plain_link ''4711'') = 0"
    "sh_locked_until (plain_link ''4711'') = None" by code_simp+
  have 2: "list_all (\<lambda>(now, pin). 1 \<le> now \<and> now \<le> (7 :: int) \<and> \<not> plain_ok (sh_pin_hash (plain_link ''4711'')) (trim_space pin))
    [(1, ''0000''), (2, ''0001''), (3, ''0002''), (4, ''0003''), (5, ''0004''), (6, ''0005''), (7, ''0006'')]"
    by code_simp
  show ?thesis using guesses_are_slow [where sh = "plain_link ''4711''" and hash_ok = plain_ok, OF 1 2] by (simp add: pin_lock_ns_def)
qed

text \<open>C15. A cap is never overdrawn: in every interleaving of claims and returns on a link, what is out -
  downloads handed to visitors, files being received - never exceeds its cap.\<close>
theorem caps_are_never_overdrawn:
  assumes "within_caps (s, 0, 0)" and "claims cs (s, 0, 0) = (s', d, u)"
  shows "(case sh_max_downloads s of None \<Rightarrow> True | Some m \<Rightarrow> d \<le> m) \<and>
    (case sh_max_uploads s of None \<Rightarrow> True | Some m \<Rightarrow> u \<le> m)"
  using claims_within [OF assms(1), of cs] claims_caps_kept [of cs "(s, 0, 0)"] assms(2)
  by (auto simp: within_caps_def split: option.splits)

theorem caps_are_never_overdrawn_witness:
  "fst (snd (claims [ClaimDownload, ClaimDownload, ClaimDownload, ReturnDownload, ClaimDownload, ClaimDownload]
     (plain_link [], 0, 0))) \<le> 2"
proof -
  let ?cs = "[ClaimDownload, ClaimDownload, ClaimDownload, ReturnDownload, ClaimDownload, ClaimDownload]"
  have 1: "within_caps (plain_link [], 0, 0)" "sh_max_downloads (plain_link []) = Some 2" by code_simp+
  obtain s' d u where 2: "claims ?cs (plain_link [], 0, 0) = (s', d, u)" by (cases "claims ?cs (plain_link [], 0, 0)")
  show ?thesis using caps_are_never_overdrawn [OF 1(1) 2] 1(2) 2 by simp
qed

text \<open>The unlock cookie opens its own link for twelve hours: the value minted for a link is
  accepted for that link until its time is up and not after; and, the MAC and the token's hash
  being free of collisions, it opens no other link and no other key's.\<close>
theorem cookie_opens_its_link:
  assumes "0 \<le> now" and "now + unlock_ttl_s < 2 ^ 63"
  shows "(verify_unlock token_hash mac key token (mint_unlock token_hash mac key token now) later \<longleftrightarrow>
      later \<le> now + unlock_ttl_s) \<and>
    ((\<forall>k k' m m'. mac k m = mac k' m' \<longrightarrow> k = k' \<and> m = m') \<and> (\<forall>t t'. token_hash t = token_hash t' \<longrightarrow> t = t') \<longrightarrow>
      verify_unlock token_hash mac key' token' (mint_unlock token_hash mac key token now) later \<longrightarrow>
      key' = key \<and> trim_space token' = trim_space token)"
proof -
  have parse: "parse_int64 (format_int (now + unlock_ttl_s)) = Some (now + unlock_ttl_s)"
    using assms by (intro parse_format_int) (simp_all add: unlock_ttl_s_def)
  have v: "verify_unlock token_hash mac key' token' (mint_unlock token_hash mac key token now) later \<longleftrightarrow>
      later \<le> now + unlock_ttl_s \<and>
      mac key' (token_hash (trim_space token') @ ''|'' @ format_int (now + unlock_ttl_s)) =
      mac key (token_hash (trim_space token) @ ''|'' @ format_int (now + unlock_ttl_s))" for key' token'
    by (simp add: verify_unlock_def mint_unlock_def Let_def cut_append [OF format_int_no_dot] parse not_less)
  have "key' = key \<and> trim_space token' = trim_space token"
    if inj: "\<forall>k k' m m'. mac k m = mac k' m' \<longrightarrow> k = k' \<and> m = m'" "\<forall>t t'. token_hash t = token_hash t' \<longrightarrow> t = t'"
      and ver: "verify_unlock token_hash mac key' token' (mint_unlock token_hash mac key token now) later"
  proof -
    have "mac key' (token_hash (trim_space token') @ ''|'' @ format_int (now + unlock_ttl_s)) =
        mac key (token_hash (trim_space token) @ ''|'' @ format_int (now + unlock_ttl_s))"
      using ver unfolding v by blast
    then have "key' = key" "token_hash (trim_space token') @ ''|'' @ format_int (now + unlock_ttl_s) =
        token_hash (trim_space token) @ ''|'' @ format_int (now + unlock_ttl_s)"
      using inj(1) by blast+
    then show ?thesis using inj(2) by (simp only: append_same_eq)
  qed
  then show ?thesis using v [of key token] by blast
qed

theorem cookie_opens_its_link_witness:
  "verify_unlock id (@) ''k'' ''t'' (mint_unlock id (@) ''k'' ''t'' 1000) 44200 \<and>
   \<not> verify_unlock id (@) ''k'' ''t'' (mint_unlock id (@) ''k'' ''t'' 1000) 44201"
proof -
  have p: "(0::int) \<le> 1000" "1000 + unlock_ttl_s < 2 ^ 63" by (simp_all add: unlock_ttl_s_def)
  have t: "44200 \<le> 1000 + unlock_ttl_s" "\<not> 44201 \<le> 1000 + unlock_ttl_s" by (simp_all add: unlock_ttl_s_def)
  show ?thesis
    using conjunct1 [OF cookie_opens_its_link [OF p, of id "(@)" "''k''" "''t''" 44200]]
      conjunct1 [OF cookie_opens_its_link [OF p, of id "(@)" "''k''" "''t''" 44201]] t by blast
qed

text \<open>The word a list shows is what a visit meets: a link reads active exactly when a visit would
  find it open and nobody ended it, and ending a link ends it at once, for the list and for
  every later visit.\<close>
theorem state_says_what_a_visit_meets:
  "(state_at s now = ShareStateActive \<longleftrightarrow>
      \<not> is_expired s now \<and> (\<forall>sh. s = Some sh \<longrightarrow> sh_revoked_at sh = None)) \<and>
   (now < later \<longrightarrow> is_expired (Some (revoke_share sh now)) later) \<and>
   state_at (Some (revoke_share sh now)) now = ShareStateRevoked"
  by (auto simp: state_at_def is_expired_def revoke_share_def past_def split: option.split)

theorem state_says_what_a_visit_meets_witness:
  "is_expired (Some (revoke_share (plain_link []) 5)) 6"
  using state_says_what_a_visit_meets [of None 5 6 "plain_link []"] by simp

text \<open>The PIN a link was made with opens it, and no other: for a PIN without spaces around it, the
  gate of the fresh link passes it and counts every other guess, given that the hash accepts
  exactly the PIN it was made of.\<close>
theorem minted_pin_opens:
  assumes "create_share uni env opts = Inr sh" and "co_pin opts \<noteq> []"
    and "\<And>p h q. ce_hash_pin env p = Some h \<Longrightarrow> h \<noteq> [] \<and> (hash_ok h q \<longleftrightarrow> q = p)"
    and "trim_space (co_pin opts) = co_pin opts"
  shows "snd (snd (check_pin hash_ok (Some sh) (co_pin opts) now)) = None \<and>
    (trim_space guess \<noteq> co_pin opts \<longrightarrow> snd (snd (check_pin hash_ok (Some sh) guess now)) = Some ErrBadPIN)"
proof -
  note F = create_fields [OF assms(1)]
  then have h: "sh_pin_hash sh \<noteq> []" "\<And>q. hash_ok (sh_pin_hash sh) q \<longleftrightarrow> q = co_pin opts"
    using assms(2,3) by blast+
  have "\<not> pin_locked (Some sh) now" using F by (simp add: pin_locked_def)
  then show ?thesis using F h assms(4) by (simp add: check_pin_def pin_max_fails_def Let_def)
qed

theorem minted_pin_opens_witness:
  "snd (snd (check_pin plain_ok (Some (plain_link ''4711'')) ''4711'' 2000)) = None"
proof -
  have 1: "create_share id plain_env (plain_opts ''4711'') = Inr (plain_link ''4711'')" by code_simp
  have 2: "trim_space (co_pin (plain_opts ''4711'')) = co_pin (plain_opts ''4711'')" by code_simp
  have 3: "h \<noteq> [] \<and> (plain_ok h q \<longleftrightarrow> q = p)" if "ce_hash_pin plain_env p = Some h" for p h q
    using that by (auto simp: plain_env_def plain_ok_def)
  have 4: "co_pin (plain_opts ''4711'') = ''4711''" by (simp add: plain_opts_def)
  show ?thesis using minted_pin_opens [OF 1 _ 3 2, of 2000] 4 by simp
qed

section \<open>Where the code falls short of its promise\<close>

text \<open>\<open>Create\<close> hashes the PIN as it came and \<open>CheckPIN\<close> compares the trimmed guess: a link made with a
  PIN that begins or ends with a space - which the length rule lets through - is never opened,
  not even by its own PIN.\<close>

lemma padded_pin_never_opens:
  "isl (create_share id plain_env (plain_opts '' 4711'')) = False"
  "snd (snd (check_pin plain_ok (Some (plain_link '' 4711'')) '' 4711'' 2000)) = Some ErrBadPIN"
  by code_simp+

text \<open>The strike counter is read with the row and written back as a number: requests that overlap
  all read the same count, so any number of wrong guesses together cost one strike.\<close>

lemma overlapping_guesses_cost_one_strike:
  assumes "sh_pin_hash sh \<noteq> []" "sh_pin_fails sh = 0" "sh_locked_until sh = None"
    and "\<forall>pin \<in> set pins. \<not> hash_ok (sh_pin_hash sh) (trim_space pin)"
  shows "foldl update_pin_lock sh (map (\<lambda>pin. fst (snd (check_pin hash_ok (Some sh) pin now))) pins) =
    (if pins = [] then sh else sh\<lparr>sh_pin_fails := 1, sh_locked_until := None\<rparr>)"
proof -
  have w: "fst (snd (check_pin hash_ok (Some sh) pin now)) = Some (1, None)" if "pin \<in> set pins" for pin
    using assms that by (simp add: check_pin_def pin_locked_def pin_max_fails_def Let_def)
  then have m: "map (\<lambda>pin. fst (snd (check_pin hash_ok (Some sh) pin now))) pins = replicate (length pins) (Some (1, None))"
    by (intro nth_equalityI) simp_all
  have "foldl update_pin_lock (sh\<lparr>sh_pin_fails := 1, sh_locked_until := None\<rparr>) (replicate n (Some (1, None))) =
      sh\<lparr>sh_pin_fails := 1, sh_locked_until := None\<rparr>" for n
    by (induction n) (simp_all add: update_pin_lock_def)
  then show ?thesis unfolding m by (cases pins) (simp_all add: update_pin_lock_def)
qed

end
