(* ===== verification/SyncPlan.thy ===== *)
theory SyncPlan
  imports Prelude GoStrings PathMatch Syspath "HOL-Library.AList" "HOL-Library.List_Lexorder" "HOL-Library.Char_ord"
begin

text \<open>
  The decisions of folder synchronisation, \<open>internal/filesync/plan.go\<close> and \<open>hold.go\<close>: two
  snapshots and the baseline of the last run go in, a list of actions comes out. A Go map is an
  association list read with \<open>map_of\<close>. The time in a conflict copy's name is the text Go's
  \<open>Format\<close> gives for it (no text: the zero time).
\<close>

section \<open>Snapshots\<close>

datatype side = SideLocal | SideRemote

fun side_name :: "side \<Rightarrow> string" where
  "side_name SideLocal = ''local''"
| "side_name SideRemote = ''server''"

record node =
  nd_rel :: string
  nd_is_dir :: bool
  nd_size :: int
  nd_mod_millis :: millis

definition dir_sig :: string where "dir_sig = ''dir''"

definition signature :: "node \<Rightarrow> string" where
  "signature n = (if nd_is_dir n then dir_sig
     else format_int (nd_size n) @ CHR '':'' # format_int (nd_mod_millis n))"

type_synonym snapshot = "(string \<times> node) list"

record baseline_entry =
  be_local :: string
  be_remote :: string
  be_is_dir :: bool

type_synonym baseline = "(string \<times> baseline_entry) list"

datatype action_kind =
    ActionUpload | ActionDownload | ActionMkdirRemote | ActionMkdirLocal
  | ActionDeleteLocal | ActionDeleteRemot | ActionConflict

datatype reason =
    FolderRemovedOnServer | NewFolder | FolderRemovedLocally | NewFolderOnServer | FolderAgainstFile
  | ChangedLocally | ChangedOnServer | ChangedBoth | NewFile | FirstRunKeeps | EditedHereKept
  | DeletedOnServer | NewFileOnServer | EditedThereKept | DeletedLocally

fun reason_text :: "reason \<Rightarrow> string" where
  "reason_text FolderRemovedOnServer = ''folder removed on the server''"
| "reason_text NewFolder = ''new folder''"
| "reason_text FolderRemovedLocally = ''folder removed locally''"
| "reason_text NewFolderOnServer = ''new folder on the server''"
| "reason_text FolderAgainstFile = ''one side has a folder where the other has a file''"
| "reason_text ChangedLocally = ''changed locally''"
| "reason_text ChangedOnServer = ''changed on the server''"
| "reason_text ChangedBoth = ''changed in both places''"
| "reason_text NewFile = ''new file''"
| "reason_text FirstRunKeeps = ''first run - nothing is deleted''"
| "reason_text EditedHereKept = ''deleted on the server but edited here - kept''"
| "reason_text DeletedOnServer = ''deleted on the server''"
| "reason_text NewFileOnServer = ''new file on the server''"
| "reason_text EditedThereKept = ''deleted here but edited on the server - kept''"
| "reason_text DeletedLocally = ''deleted locally''"

record action =
  a_kind :: action_kind
  a_rel :: string
  a_conflict_name :: string
  a_reason :: reason
  a_remote_mod :: millis
  a_remote_size :: int
  a_mixed :: bool
  a_hold :: bool
  a_local_sig :: string
  a_remote_sig :: string

definition sig_of :: "node option \<Rightarrow> string" where
  "sig_of n = (case n of None \<Rightarrow> [] | Some n \<Rightarrow> signature n)"

record options =
  o_first_run :: bool
  o_now :: "string option"

section \<open>Conflict names\<close>

definition space_byte :: "char \<Rightarrow> bool" where
  "space_byte c \<longleftrightarrow> (let n = (of_char c :: nat) in n = 9 \<or> n = 10 \<or> n = 12 \<or> n = 13 \<or> n = 32)"

definition cut_prefix :: "string \<Rightarrow> string \<Rightarrow> string option" where
  "cut_prefix p s = (if has_prefix s p then Some (drop (length p) s) else None)"

text \<open>\<open>eat_shape sh s\<close>: s begins with the shape, a digit for each \<open>d\<close> and itself for anything else.\<close>

fun eat_shape :: "string \<Rightarrow> string \<Rightarrow> string option" where
  "eat_shape [] s = Some s"
| "eat_shape (c # sh) [] = None"
| "eat_shape (c # sh) (x # s) = (if if c = CHR ''d'' then is_digit x else x = c then eat_shape sh s else None)"

text \<open>One marker, \<open>\s*\((?:server|local) copy(?: \d{4}-\d{2}-\d{2} \d{2}-\d{2})?\)(?: \(\d+\))?\<close>, and what
  follows it. A counter is taken when there is one: no marker can begin with it.\<close>

definition eat_counter :: "string \<Rightarrow> string" where
  "eat_counter s =
     (case cut_prefix '' ('' s of
        None \<Rightarrow> s
      | Some t \<Rightarrow> (let r = dropWhile is_digit t in
          if r \<noteq> t \<and> r \<noteq> [] \<and> hd r = CHR '')'' then tl r else s))"

definition eat_close :: "string \<Rightarrow> string option" where
  "eat_close s =
     (case cut_prefix '')'' s of
        Some t \<Rightarrow> Some (eat_counter t)
      | None \<Rightarrow> (case eat_shape '' dddd-dd-dd dd-dd)'' s of
          Some t \<Rightarrow> Some (eat_counter t) | None \<Rightarrow> None))"

definition eat_marker :: "string \<Rightarrow> string option" where
  "eat_marker s =
     (case cut_prefix ''('' (dropWhile space_byte s) of
        None \<Rightarrow> None
      | Some t \<Rightarrow>
        (case (case cut_prefix ''server copy'' t of Some u \<Rightarrow> Some u | None \<Rightarrow> cut_prefix ''local copy'' t) of
           None \<Rightarrow> None | Some u \<Rightarrow> eat_close u))"

lemma cut_prefix_length: "cut_prefix p s = Some t \<Longrightarrow> length s = length p + length t"
  by (auto simp: cut_prefix_def has_prefix_iff split: if_splits elim: prefixE)

lemma eat_shape_length: "eat_shape sh s = Some t \<Longrightarrow> length s = length sh + length t"
  by (induction sh s rule: eat_shape.induct) (auto split: if_splits)

lemma eat_counter_length: "length (eat_counter s) \<le> length s"
proof (cases "cut_prefix '' ('' s")
  case (Some t)
  have "length (tl (dropWhile is_digit t)) \<le> length t"
    using length_dropWhile_le [of is_digit t] by simp
  then show ?thesis using Some cut_prefix_length [OF Some] by (simp add: eat_counter_def Let_def)
qed (simp add: eat_counter_def)

lemma eat_close_length: "eat_close s = Some t \<Longrightarrow> length t < length s"
proof -
  assume a: "eat_close s = Some t"
  have "\<exists>u. length u < length s \<and> t = eat_counter u"
  proof (cases "cut_prefix '')'' s")
    case (Some u)
    then show ?thesis using a cut_prefix_length [OF Some] by (auto simp: eat_close_def)
  next
    case None
    then obtain u where "eat_shape '' dddd-dd-dd dd-dd)'' s = Some u" "t = eat_counter u"
      using a by (auto simp: eat_close_def simp del: eat_shape.simps split: option.splits)
    then show ?thesis using eat_shape_length [of "'' dddd-dd-dd dd-dd)''" s u] by (intro exI [of _ u]) simp
  qed
  then show ?thesis using eat_counter_length by (metis le_less_trans)
qed

lemma eat_marker_length: "eat_marker s = Some t \<Longrightarrow> length t < length s"
proof -
  assume a: "eat_marker s = Some t"
  then obtain u where u: "cut_prefix ''('' (dropWhile space_byte s) = Some u"
    by (auto simp: eat_marker_def split: option.splits)
  obtain v where v: "length v \<le> length u" "eat_close v = Some t"
  proof (cases "cut_prefix ''server copy'' u")
    case (Some w)
    then show ?thesis using that [of w] a u cut_prefix_length [OF Some] by (simp add: eat_marker_def)
  next
    case None
    then obtain w where w: "cut_prefix ''local copy'' u = Some w" using a u by (auto simp: eat_marker_def split: option.splits)
    then show ?thesis using that [of w] a u None cut_prefix_length [OF w] by (simp add: eat_marker_def)
  qed
  then show ?thesis
    using cut_prefix_length [OF u] eat_close_length [OF v(2)] length_dropWhile_le [of space_byte s] by simp
qed

function all_markers :: "string \<Rightarrow> bool" where
  "all_markers s = (case eat_marker s of None \<Rightarrow> False | Some t \<Rightarrow> t = [] \<or> all_markers t)"
  by auto
termination by (relation "measure length") (auto intro: eat_marker_length)

declare all_markers.simps [simp del]

text \<open>\<open>conflictMarkers\<close> finds the leftmost place from which the rest of the name is markers.\<close>

definition marker_start :: "string \<Rightarrow> nat option" where
  "marker_start s = find (\<lambda>i. all_markers (drop i s)) [0 ..< length s]"

definition conflict_name :: "string \<Rightarrow> side \<Rightarrow> string option \<Rightarrow> string" where
  "conflict_name rel from now =
     (let base = path_base rel;
          ext = path_ext base;
          stem = trim_suffix base ext;
          clean = (case marker_start stem of None \<Rightarrow> stem | Some i \<Rightarrow> take i stem);
          stem' = (if clean \<noteq> [] then clean else stem)
      in case now of
           None \<Rightarrow> stem' @ '' ('' @ side_name from @ '' copy)'' @ ext
         | Some stamp \<Rightarrow> stem' @ '' ('' @ side_name from @ '' copy '' @ stamp @ CHR '')'' # ext)"

section \<open>The plan\<close>

definition nearly_same_file :: "node \<Rightarrow> node \<Rightarrow> bool" where
  "nearly_same_file l r \<longleftrightarrow>
     (if nd_is_dir l \<or> nd_is_dir r \<or> nd_size l \<noteq> nd_size r then False
      else \<bar>nd_mod_millis l - nd_mod_millis r\<bar> \<le> 2000)"

definition is_delete :: "action_kind \<Rightarrow> bool" where
  "is_delete k \<longleftrightarrow> k = ActionDeleteLocal \<or> k = ActionDeleteRemot"

definition depth :: "string \<Rightarrow> nat" where
  "depth rel = count_byte slash rel"

definition rel_before :: "string \<Rightarrow> string \<Rightarrow> bool" where
  "rel_before a b = (if depth a \<noteq> depth b then depth a < depth b else a < b)"

definition act :: "action_kind \<Rightarrow> string \<Rightarrow> reason \<Rightarrow> action" where
  "act k rel why = \<lparr>a_kind = k, a_rel = rel, a_conflict_name = [], a_reason = why, a_remote_mod = 0,
     a_remote_size = 0, a_mixed = False, a_hold = False, a_local_sig = [], a_remote_sig = []\<rparr>"

definition from_server :: "node \<Rightarrow> action \<Rightarrow> action" where
  "from_server r a = a\<lparr>a_remote_mod := nd_mod_millis r, a_remote_size := nd_size r\<rparr>"

text \<open>The switch of \<open>Plan\<close> for one path, its cases in their order.\<close>

definition plan_one :: "options \<Rightarrow> string \<Rightarrow> node option \<Rightarrow> node option \<Rightarrow> baseline_entry option \<Rightarrow> action option" where
  "plan_one opts rel l r b =
     (case (l, r) of
        (Some l, None) \<Rightarrow>
          if nd_is_dir l then
            (if b \<noteq> None \<and> \<not> o_first_run opts then Some (act ActionDeleteLocal rel FolderRemovedOnServer)
             else Some (act ActionMkdirRemote rel NewFolder))
          else (case b of
              None \<Rightarrow> Some (act ActionUpload rel NewFile)
            | Some b \<Rightarrow>
              if o_first_run opts then Some (act ActionUpload rel FirstRunKeeps)
              else if be_local b \<noteq> signature l then Some (act ActionUpload rel EditedHereKept)
              else Some (act ActionDeleteLocal rel DeletedOnServer))
      | (None, Some r) \<Rightarrow>
          if nd_is_dir r then
            (if b \<noteq> None \<and> \<not> o_first_run opts then Some (act ActionDeleteRemot rel FolderRemovedLocally)
             else Some (act ActionMkdirLocal rel NewFolderOnServer))
          else (case b of
              None \<Rightarrow> Some (from_server r (act ActionDownload rel NewFileOnServer))
            | Some b \<Rightarrow>
              if o_first_run opts then Some (from_server r (act ActionDownload rel FirstRunKeeps))
              else if be_remote b \<noteq> signature r then Some (from_server r (act ActionDownload rel EditedThereKept))
              else Some (act ActionDeleteRemot rel DeletedLocally))
      | (Some l, Some r) \<Rightarrow>
          if nd_is_dir l \<and> nd_is_dir r then None
          else if nd_is_dir l \<noteq> nd_is_dir r then
            Some ((act ActionConflict rel FolderAgainstFile)
              \<lparr>a_mixed := True, a_conflict_name := conflict_name rel SideRemote (o_now opts)\<rparr>)
          else if b = None \<and> nearly_same_file l r then None
          else
            let l_changed = (case b of None \<Rightarrow> True | Some b \<Rightarrow> be_local b \<noteq> signature l);
                r_changed = (case b of None \<Rightarrow> True | Some b \<Rightarrow> be_remote b \<noteq> signature r)
            in if \<not> l_changed \<and> \<not> r_changed then None
               else if l_changed \<and> \<not> r_changed then Some (act ActionUpload rel ChangedLocally)
               else if \<not> l_changed \<and> r_changed then Some (from_server r (act ActionDownload rel ChangedOnServer))
               else Some ((from_server r (act ActionConflict rel ChangedBoth))
                 \<lparr>a_conflict_name := conflict_name rel SideRemote (o_now opts)\<rparr>)
      | (None, None) \<Rightarrow> None)"

definition known_rels :: "snapshot \<Rightarrow> snapshot \<Rightarrow> baseline \<Rightarrow> string list" where
  "known_rels local remote base =
     stable_sort rel_before (remdups (map fst local @ map fst remote @ map fst base))"

definition with_sigs :: "snapshot \<Rightarrow> snapshot \<Rightarrow> action \<Rightarrow> action" where
  "with_sigs local remote a =
     a\<lparr>a_local_sig := sig_of (map_of local (a_rel a)), a_remote_sig := sig_of (map_of remote (a_rel a))\<rparr>"

definition action_before :: "action \<Rightarrow> action \<Rightarrow> bool" where
  "action_before a b =
     (let di = is_delete (a_kind a); dj = is_delete (a_kind b)
      in if di \<noteq> dj then \<not> di else if \<not> di then False else depth (a_rel a) > depth (a_rel b))"

definition plan :: "snapshot \<Rightarrow> snapshot \<Rightarrow> baseline \<Rightarrow> options \<Rightarrow> action list" where
  "plan local remote base opts =
     stable_sort action_before
       (map (with_sigs local remote)
         (List.map_filter (\<lambda>rel. plan_one opts rel (map_of local rel) (map_of remote rel) (map_of base rel))
           (known_rels local remote base)))"

definition next_baseline :: "snapshot \<Rightarrow> snapshot \<Rightarrow> baseline" where
  "next_baseline local remote =
     List.map_filter (\<lambda>(rel, l). case map_of remote rel of
         None \<Rightarrow> None
       | Some r \<Rightarrow> if nd_is_dir r \<noteq> nd_is_dir l then None
           else Some (rel, \<lparr>be_local = signature l, be_remote = signature r, be_is_dir = nd_is_dir l\<rparr>)) local"

section \<open>Holding unknown local items\<close>

definition MassUploadThreshold :: nat where "MassUploadThreshold = 100"

text \<open>\<open>shouldHold\<close>: whether this pass holds, and whether it is the one that starts the hold.\<close>

definition should_hold :: "bool \<Rightarrow> action list \<Rightarrow> snapshot \<Rightarrow> bool \<Rightarrow> bool \<Rightarrow> bool \<times> bool" where
  "should_hold pair_file actions remote first_run holding =
     (if holding then (True, False)
      else if \<not> first_run \<or> pair_file then (False, False)
      else if length (filter (\<lambda>a. a_kind a = ActionUpload) actions) \<le> MassUploadThreshold then (False, False)
      else if list_ex (\<lambda>(_, n). \<not> nd_is_dir n) remote then (True, True) else (False, False))"

text \<open>A path that is missing from the local snapshot reads as Go's zero \<open>Node\<close>.\<close>

definition zero_node :: node where
  "zero_node = \<lparr>nd_rel = [], nd_is_dir = False, nd_size = 0, nd_mod_millis = 0\<rparr>"

definition held_sig :: "snapshot \<Rightarrow> string \<Rightarrow> string" where
  "held_sig local rel = signature (case map_of local rel of None \<Rightarrow> zero_node | Some n \<Rightarrow> n)"

definition withheld :: "baseline \<Rightarrow> action \<Rightarrow> bool" where
  "withheld base a \<longleftrightarrow>
     (a_kind a = ActionUpload \<or> a_kind a = ActionMkdirRemote) \<and> map_of base (a_rel a) = None"

definition hold_local_only :: "action list \<Rightarrow> baseline \<Rightarrow> snapshot \<Rightarrow> action list \<times> (string \<times> string) list" where
  "hold_local_only actions base local =
     (map (\<lambda>a. if a_kind a = ActionConflict \<and> map_of base (a_rel a) = None then a\<lparr>a_hold := True\<rparr> else a)
        (filter (\<lambda>a. \<not> withheld base a) actions),
      map (\<lambda>a. (a_rel a, held_sig local (a_rel a))) (filter (withheld base) actions))"

end
