(* ===== verification/SyncEngine.thy ===== *)
theory SyncEngine
  imports SyncPlan
begin

text \<open>
  Carrying a plan out, \<open>internal/filesync/engine.go\<close>, and what a pass remembers of it,
  \<open>ledger.go\<close>. The two sides are snapshots. What other people do on this computer between the
  plan and the last look at a file, and on the server before each request arrives (the fetch, and
  in a conflict the two uploads that follow it), is an argument of each action, and so are the answers of disk and server: whether they refuse, the
  modification time the server gives, whether it tells it, and whether two files hold the same
  bytes. The server keeps the contract of the \<open>RemoteFS\<close> interface: an upload is refused when the
  file is not the one the request expects.
\<close>

datatype sync_error = ErrLocalChanged | ErrRemoteChanged | OtherError

section \<open>The ledger\<close>

record side_outcome =
  so_rel :: string
  so_local_sig :: string
  so_uploaded :: bool
  so_row :: "baseline_entry option"

record outcome =
  oc_row :: "baseline_entry option"
  oc_drop :: bool
  oc_pending :: string
  oc_identical :: bool
  oc_held :: bool
  oc_side :: "side_outcome option"
  oc_on_error :: "baseline_entry option"

definition no_outcome :: outcome where
  "no_outcome = \<lparr>oc_row = None, oc_drop = False, oc_pending = [], oc_identical = False, oc_held = False,
     oc_side = None, oc_on_error = None\<rparr>"

record ledger =
  lg_rows :: baseline
  lg_pending :: "(string \<times> string) list"
  lg_dirty :: nat

definition new_ledger :: "baseline \<Rightarrow> ledger" where
  "new_ledger base = \<lparr>lg_rows = base, lg_pending = [], lg_dirty = 0\<rparr>"

definition set_row :: "string \<Rightarrow> baseline_entry \<Rightarrow> ledger \<Rightarrow> ledger" where
  "set_row rel row l = l\<lparr>lg_rows := AList.update rel row (lg_rows l), lg_pending := AList.delete rel (lg_pending l)\<rparr>"

definition drop_row :: "string \<Rightarrow> ledger \<Rightarrow> ledger" where
  "drop_row rel l = l\<lparr>lg_rows := AList.delete rel (lg_rows l), lg_pending := AList.delete rel (lg_pending l)\<rparr>"

definition set_pending :: "string \<Rightarrow> string \<Rightarrow> ledger \<Rightarrow> ledger" where
  "set_pending rel sig l = l\<lparr>lg_pending := AList.update rel sig (lg_pending l)\<rparr>"

definition count_dirty :: "ledger \<Rightarrow> ledger" where
  "count_dirty l = l\<lparr>lg_dirty := Suc (lg_dirty l)\<rparr>"

definition settle :: "action \<Rightarrow> outcome \<Rightarrow> ledger \<Rightarrow> ledger" where
  "settle a oc l =
     (if oc_drop oc then count_dirty (drop_row (a_rel a) l)
      else case oc_row oc of
        Some row \<Rightarrow> count_dirty (set_row (a_rel a) row l)
      | None \<Rightarrow> if oc_pending oc \<noteq> [] then count_dirty (set_pending (a_rel a) (oc_pending oc) l) else l)"

definition settle_side :: "side_outcome \<Rightarrow> ledger \<Rightarrow> ledger" where
  "settle_side sd l =
     (if \<not> so_uploaded sd then l
      else case so_row sd of
        Some row \<Rightarrow> count_dirty (set_row (so_rel sd) row l)
      | None \<Rightarrow> count_dirty (set_pending (so_rel sd) (so_local_sig sd) l))"

definition settle_row :: "string \<Rightarrow> baseline_entry \<Rightarrow> ledger \<Rightarrow> ledger" where
  "settle_row rel row l = count_dirty (set_row rel row l)"

text \<open>The \<open>settle\<close> closure of \<open>applyPlan\<close>: what one action's answer does to the ledger.\<close>

definition record_outcome :: "action \<Rightarrow> outcome \<Rightarrow> sync_error option \<Rightarrow> ledger \<Rightarrow> ledger" where
  "record_outcome a oc err l =
     (let l1 = (case oc_side oc of None \<Rightarrow> l | Some sd \<Rightarrow> settle_side sd l)
      in case err of
           None \<Rightarrow> settle a oc l1
         | Some e \<Rightarrow>
           if e = ErrLocalChanged \<or> e = ErrRemoteChanged then l1
           else case oc_on_error oc of None \<Rightarrow> l1 | Some row \<Rightarrow> settle_row (a_rel a) row l1)"

definition dir_row :: baseline_entry where
  "dir_row = \<lparr>be_local = dir_sig, be_remote = dir_sig, be_is_dir = True\<rparr>"

definition file_row :: "string \<Rightarrow> string \<Rightarrow> baseline_entry" where
  "file_row l r = \<lparr>be_local = l, be_remote = r, be_is_dir = False\<rparr>"

text \<open>\<open>keepInStep\<close>, the visit of one path without an action; the paths visited are those of the
  three maps, each once.\<close>

definition keep_visit :: "snapshot \<Rightarrow> snapshot \<Rightarrow> baseline \<Rightarrow> string set \<Rightarrow> string \<Rightarrow> baseline \<Rightarrow> baseline" where
  "keep_visit local remote base acted rel rows =
     (if rel \<in> acted then rows
      else case (map_of local rel, map_of remote rel) of
        (None, None) \<Rightarrow> if map_of base rel \<noteq> None then AList.delete rel rows else rows
      | (ln, rn) \<Rightarrow>
        if map_of base rel \<noteq> None then rows
        else case (ln, rn) of
          (Some l, Some r) \<Rightarrow>
            if nd_is_dir l \<and> nd_is_dir r then AList.update rel dir_row rows
            else if nearly_same_file l r then AList.update rel (file_row (signature l) (signature r)) rows
            else rows
        | _ \<Rightarrow> rows)"

definition keep_in_step :: "snapshot \<Rightarrow> snapshot \<Rightarrow> baseline \<Rightarrow> string set \<Rightarrow> ledger \<Rightarrow> ledger" where
  "keep_in_step local remote base acted l =
     l\<lparr>lg_rows := foldl (\<lambda>rows rel. keep_visit local remote base acted rel rows) (lg_rows l)
        (map fst local @ filter (\<lambda>rel. map_of local rel = None) (map fst remote) @
         filter (\<lambda>rel. map_of local rel = None \<and> map_of remote rel = None) (map fst base))\<rparr>"

text \<open>\<open>resolvePending\<close>, with what the listings said of each uploaded path (None: its folder could not
  be listed, or it is not a file in it).\<close>

definition resolve_pending :: "(string \<Rightarrow> node option) \<Rightarrow> ledger \<Rightarrow> ledger" where
  "resolve_pending listed l =
     foldl (\<lambda>l (rel, sig). case listed rel of
         Some f \<Rightarrow> if nd_is_dir f then l else set_row rel (file_row sig (signature f)) l
       | None \<Rightarrow> l) l (lg_pending l)"

section \<open>The two sides\<close>

definition sig_at :: "snapshot \<Rightarrow> string \<Rightarrow> string" where
  "sig_at side rel = sig_of (map_of side rel)"

definition below :: "string \<Rightarrow> string \<Rightarrow> bool" where
  "below dir rel \<longleftrightarrow> has_prefix rel (dir @ ''/'')"

definition dir_node :: "string \<Rightarrow> node" where
  "dir_node rel = \<lparr>nd_rel = rel, nd_is_dir = True, nd_size = 0, nd_mod_millis = 0\<rparr>"

definition file_node :: "string \<Rightarrow> int \<Rightarrow> millis \<Rightarrow> node" where
  "file_node rel n t = \<lparr>nd_rel = rel, nd_is_dir = False, nd_size = n, nd_mod_millis = t\<rparr>"

definition local_path_ok :: "string \<Rightarrow> bool" where
  "local_path_ok rel \<longleftrightarrow> rel \<noteq> [] \<and> list_all (\<lambda>s. s \<noteq> [] \<and> s \<noteq> ''.'' \<and> s \<noteq> ''..'') (split_on slash rel)"

definition parent_dir :: "string \<Rightarrow> string" where
  "parent_dir rel = (let d = path_dir rel in if d = ''.'' \<or> d = [slash] then [] else d)"

text \<open>\<open>os.MkdirAll\<close>: the folder and every missing one above it; None when one of them is a file.\<close>

definition dirs_of :: "string \<Rightarrow> string list" where
  "dirs_of rel = (if rel = [] then [] else
     map (\<lambda>i. join slash (take i (split_on slash rel))) [1 ..< Suc (length (split_on slash rel))])"

fun make_dirs :: "string list \<Rightarrow> snapshot \<Rightarrow> snapshot option" where
  "make_dirs [] side = Some side"
| "make_dirs (d # ds) side =
     (case map_of side d of
        None \<Rightarrow> make_dirs ds (side @ [(d, dir_node d)])
      | Some n \<Rightarrow> if nd_is_dir n then make_dirs ds side else None)"

definition mkdir_all :: "string \<Rightarrow> snapshot \<Rightarrow> snapshot option" where
  "mkdir_all rel side = make_dirs (dirs_of rel) side"

definition remove_tree :: "string \<Rightarrow> snapshot \<Rightarrow> snapshot" where
  "remove_tree rel side = filter (\<lambda>(k, _). k \<noteq> rel \<and> \<not> below rel k) side"

section \<open>A free name for the server's copy\<close>

definition max_side_names :: nat where "max_side_names = 10000"
definition MaxLen :: nat where "MaxLen = 255"

definition last_rune_len :: "string \<Rightarrow> nat" where
  "last_rune_len s =
     (case find (\<lambda>k. \<not> cont (byte (s ! (length s - k)))) (filter (\<lambda>k. k \<le> length s) [1, 2, 3, 4]) of
        None \<Rightarrow> 1
      | Some k \<Rightarrow> if snd (decode_rune (drop (length s - k) s)) = k then k else 1)"

function fit_name :: "string \<Rightarrow> string \<Rightarrow> string" where
  "fit_name stem tail =
     (if length stem + length tail > MaxLen \<and> stem \<noteq> []
      then fit_name (take (length stem - last_rune_len stem) stem) tail else stem @ tail)"
  by auto
termination
proof (relation "measure (\<lambda>(stem, tail). length stem)")
  have "1 \<le> last_rune_len s" for s
    by (auto simp: last_rune_len_def split: option.splits dest!: find_Some_in_set)
  then show "((take (length stem - last_rune_len stem) stem, tail), stem, tail) \<in> measure (\<lambda>(stem, tail). length stem)"
    if "length stem + length tail > MaxLen \<and> stem \<noteq> []" for stem tail :: string
    using that by (simp add: Suc_le_eq)
qed simp

declare fit_name.simps [simp del]

definition side_candidate :: "string \<Rightarrow> nat \<Rightarrow> string" where
  "side_candidate name i =
     (let ext = path_ext name;
          stem = trim_suffix name ext;
          (stem', marker) = (case marker_start stem of
             None \<Rightarrow> (stem, []) | Some j \<Rightarrow> (take j stem, drop j stem));
          tail = (if i > 1 then marker @ '' ('' @ format_int (int i) @ CHR '')'' # ext else marker @ ext)
      in fit_name stem' tail)"

definition in_folder :: "string \<Rightarrow> string \<Rightarrow> string" where
  "in_folder dir name = (if dir \<noteq> [] then dir @ slash # name else name)"

text \<open>What \<open>Lstat\<close> answers for a name: it is there, it is not, or another error.\<close>

datatype lstat = IsThere | NotThere | StatError

function free_side_name :: "(string \<Rightarrow> lstat) \<Rightarrow> string \<Rightarrow> string \<Rightarrow> snapshot \<Rightarrow> nat \<Rightarrow> string option" where
  "free_side_name disk dir name remote i =
     (if i > max_side_names then None
      else let cand = side_candidate name i in
        case disk cand of
          IsThere \<Rightarrow> free_side_name disk dir name remote (Suc i)
        | StatError \<Rightarrow> None
        | NotThere \<Rightarrow>
          if map_of remote (in_folder dir cand) \<noteq> None then free_side_name disk dir name remote (Suc i)
          else Some cand)"
  by auto
termination by (relation "measure (\<lambda>(disk, dir, name, remote, i). Suc max_side_names - i)") auto

declare free_side_name.simps [simp del]

section \<open>One action\<close>

record sync_env =
  en_here :: "snapshot \<Rightarrow> snapshot"
  en_there :: "snapshot \<Rightarrow> snapshot"
  en_after_fetch :: "snapshot \<Rightarrow> snapshot"
  en_before_over :: "snapshot \<Rightarrow> snapshot"
  en_disk_fails :: bool
  en_rename_fails :: bool
  en_refuses :: bool
  en_side_refuses :: bool
  en_tells :: bool
  en_stamp :: millis
  en_clock :: millis
  en_stamps_local :: bool
  en_same_bytes :: "bool option"
  en_side_unread :: bool
  en_untracked :: bool
  en_other_names :: "string \<Rightarrow> lstat"

record sync_world =
  sw_local :: snapshot
  sw_remote :: snapshot

text \<open>\<open>stillAsPlanned\<close>: the path carries the plan's signature, and a folder holds nothing sync tracks.\<close>

definition still_as_planned :: "snapshot \<Rightarrow> string \<Rightarrow> string \<Rightarrow> bool" where
  "still_as_planned side rel want \<longleftrightarrow>
     sig_at side rel = want \<and> (want = dir_sig \<longrightarrow> \<not> list_ex (\<lambda>(k, _). below rel k) side)"

definition expect_for :: "action \<Rightarrow> string option" where
  "expect_for a = (if a_remote_sig a = [] then None else Some (a_remote_sig a))"

text \<open>The server's half of an upload, as \<open>RemoteFS.Upload\<close> states it; an expectation of none is that the
  file is not there.\<close>

definition api_upload :: "sync_env \<Rightarrow> bool \<Rightarrow> string \<Rightarrow> node \<Rightarrow> string option \<Rightarrow> snapshot
    \<Rightarrow> (sync_error + node option) \<times> snapshot" where
  "api_upload env refuses rel n expect remote =
     (let there = sig_at remote rel;
          want = (case expect of None \<Rightarrow> [] | Some s \<Rightarrow> s);
          new = file_node rel (nd_size n) (en_stamp env)
      in if there \<noteq> want then (Inl ErrRemoteChanged, remote)
         else if refuses then (Inl OtherError, remote)
         else (Inr (if en_tells env then Some new else None), AList.update rel new remote))"

definition uploaded :: "action \<Rightarrow> node option \<Rightarrow> outcome" where
  "uploaded a got =
     (case got of
        None \<Rightarrow> no_outcome\<lparr>oc_pending := a_local_sig a\<rparr>
      | Some f \<Rightarrow> if nd_is_dir f then no_outcome\<lparr>oc_pending := a_local_sig a\<rparr>
          else no_outcome\<lparr>oc_row := Some (file_row (a_local_sig a) (signature f))\<rparr>)"

text \<open>\<open>fetch\<close>: the server's file, refused when it is missing or not of the listed length.\<close>

definition fetch :: "sync_env \<Rightarrow> string \<Rightarrow> int \<Rightarrow> snapshot \<Rightarrow> node option" where
  "fetch env rel listed remote =
     (if en_disk_fails env then None
      else case map_of remote rel of
        None \<Rightarrow> None
      | Some n \<Rightarrow> if nd_is_dir n \<or> en_refuses env \<or> listed \<ge> 0 \<and> nd_size n \<noteq> listed then None else Some n)"

text \<open>\<open>install\<close>: the fetched file under its name, with the server's time where it gave one. It removes what
  is there and renames; a rename that fails leaves the name empty.\<close>

definition install :: "sync_env \<Rightarrow> string \<Rightarrow> node \<Rightarrow> millis \<Rightarrow> snapshot \<Rightarrow> snapshot" where
  "install env rel n remote_mod side =
     AList.update rel (file_node rel (nd_size n)
       (if 0 < remote_mod \<and> en_stamps_local env then remote_mod else en_clock env)) side"

type_synonym applied = "sync_world \<times> outcome \<times> sync_error option"

definition failed :: "sync_world \<Rightarrow> sync_error \<Rightarrow> applied" where
  "failed w e = (w, no_outcome, Some e)"

definition download :: "sync_env \<Rightarrow> action \<Rightarrow> sync_world \<Rightarrow> applied" where
  "download env a w =
     (case mkdir_all (parent_dir (a_rel a)) (sw_local w) of
        None \<Rightarrow> failed w OtherError
      | Some here \<Rightarrow>
        (case fetch env (a_rel a) (a_remote_size a) (sw_remote w) of
           None \<Rightarrow> failed (w\<lparr>sw_local := here\<rparr>) OtherError
         | Some n \<Rightarrow>
           let here' = en_here env here; w' = w\<lparr>sw_local := here'\<rparr>
           in if \<not> still_as_planned here' (a_rel a) (a_local_sig a) then failed w' ErrLocalChanged
              else if en_rename_fails env then
                failed (w'\<lparr>sw_local := AList.delete (a_rel a) here'\<rparr>) OtherError
              else let done = install env (a_rel a) n (a_remote_mod a) here'
                in (w'\<lparr>sw_local := done\<rparr>,
                    no_outcome\<lparr>oc_row := Some (file_row (sig_at done (a_rel a)) (a_remote_sig a))\<rparr>, None)))"

definition delete_local :: "sync_env \<Rightarrow> action \<Rightarrow> sync_world \<Rightarrow> applied" where
  "delete_local env a w =
     (let here = en_here env (sw_local w); w' = w\<lparr>sw_local := here\<rparr>
      in if \<not> still_as_planned here (a_rel a) (a_local_sig a) then failed w' ErrLocalChanged
         else if en_untracked env \<and> a_local_sig a = dir_sig then failed w' ErrLocalChanged
         else if en_disk_fails env then failed w' OtherError
         else (w'\<lparr>sw_local := (if a_local_sig a = dir_sig then remove_tree (a_rel a) here else AList.delete (a_rel a) here)\<rparr>,
               no_outcome\<lparr>oc_drop := True\<rparr>, None))"

text \<open>The upload of the person's own file at the end of a conflict, after the server's version was
  installed beside it (\<open>out\<close> remembers that copy). The server may have taken other people's saves
  since the copy went up.\<close>

definition upload_over :: "sync_env \<Rightarrow> action \<Rightarrow> outcome \<Rightarrow> sync_world \<Rightarrow> applied" where
  "upload_over env a out w0 =
     (let w = w0\<lparr>sw_remote := en_before_over env (sw_remote w0)\<rparr> in
      case map_of (sw_local w) (a_rel a) of
        None \<Rightarrow> (w, out, Some OtherError)
      | Some n \<Rightarrow>
        (case api_upload env (en_refuses env) (a_rel a) n (expect_for a) (sw_remote w) of
           (Inl e, remote) \<Rightarrow> (w\<lparr>sw_remote := remote\<rparr>, out, Some e)
         | (Inr got, remote) \<Rightarrow>
           (w\<lparr>sw_remote := remote\<rparr>,
            out\<lparr>oc_row := oc_row (uploaded a got), oc_pending := oc_pending (uploaded a got), oc_on_error := None\<rparr>,
            None)))"

definition lstat_of :: "sync_env \<Rightarrow> snapshot \<Rightarrow> string \<Rightarrow> string \<Rightarrow> lstat" where
  "lstat_of env here dir name =
     (if map_of here (in_folder dir name) \<noteq> None then IsThere else en_other_names env name)"

definition keep_both :: "bool \<Rightarrow> sync_env \<Rightarrow> snapshot \<Rightarrow> action \<Rightarrow> node \<Rightarrow> sync_world \<Rightarrow> applied" where
  "keep_both pair_file env planned_remote a n w =
     (let dir = parent_dir (a_rel a)
      in case free_side_name (lstat_of env (sw_local w) dir) dir (a_conflict_name a) planned_remote 1 of
           None \<Rightarrow> failed w OtherError
         | Some name \<Rightarrow>
           if en_rename_fails env then failed w OtherError else
           let rel = in_folder dir name;
               here = install env rel n (a_remote_mod a) (sw_local w);
               w1 = w\<lparr>sw_local := here, sw_remote := en_after_fetch env (sw_remote w)\<rparr>;
               sd = \<lparr>so_rel = rel, so_local_sig = sig_at here rel, so_uploaded = False, so_row = None\<rparr>;
               out = no_outcome\<lparr>oc_side := Some sd,
                 oc_on_error := Some (file_row [] (a_remote_sig a))\<rparr>
           in if en_side_unread env then failed (w\<lparr>sw_local := here\<rparr>) OtherError
              else if pair_file then upload_over env a out w1
              else (case api_upload env (en_side_refuses env) rel n None (sw_remote w1) of
                      (Inl _, remote) \<Rightarrow> upload_over env a out (w1\<lparr>sw_remote := remote\<rparr>)
                    | (Inr got, remote) \<Rightarrow>
                      upload_over env a
                        (out\<lparr>oc_side := Some (sd\<lparr>so_uploaded := True,
                           so_row := (case got of None \<Rightarrow> None
                             | Some f \<Rightarrow> Some (file_row (sig_at here rel) (signature f)))\<rparr>)\<rparr>)
                        (w1\<lparr>sw_remote := remote\<rparr>)))"

definition resolve_conflict :: "bool \<Rightarrow> sync_env \<Rightarrow> snapshot \<Rightarrow> action \<Rightarrow> sync_world \<Rightarrow> applied" where
  "resolve_conflict pair_file env planned_remote a w =
     (if a_mixed a then failed w OtherError
      else case mkdir_all (parent_dir (a_rel a)) (sw_local w) of
        None \<Rightarrow> failed w OtherError
      | Some here \<Rightarrow>
        (case fetch env (a_rel a) (a_remote_size a) (sw_remote w) of
           None \<Rightarrow> failed (w\<lparr>sw_local := here\<rparr>) OtherError
         | Some n \<Rightarrow>
           let w' = w\<lparr>sw_local := en_here env here\<rparr>
           in if \<not> still_as_planned (sw_local w') (a_rel a) (a_local_sig a) then failed w' ErrLocalChanged
              else case en_same_bytes env of
                None \<Rightarrow> failed w' OtherError
              | Some True \<Rightarrow>
                (w', no_outcome\<lparr>oc_identical := True,
                   oc_row := Some (file_row (a_local_sig a) (a_remote_sig a))\<rparr>, None)
              | Some False \<Rightarrow>
                if a_hold a then (w', no_outcome\<lparr>oc_held := True\<rparr>, None)
                else keep_both pair_file env planned_remote a n w'))"

text \<open>\<open>apply\<close>. An upload first makes the folder it lands in, when the plan does not know it
  (\<open>ensureRemoteParent\<close>; a failure there is the upload's to report).\<close>

definition ensure_remote_parent :: "sync_env \<Rightarrow> snapshot \<Rightarrow> string \<Rightarrow> snapshot \<Rightarrow> snapshot" where
  "ensure_remote_parent env planned_remote rel remote =
     (let dir = parent_dir rel
      in if dir = [] \<or> (case map_of planned_remote dir of None \<Rightarrow> False | Some n \<Rightarrow> nd_is_dir n) then remote
         else if en_refuses env then remote
         else case mkdir_all dir remote of None \<Rightarrow> remote | Some remote' \<Rightarrow> remote')"

definition apply_action :: "bool \<Rightarrow> sync_env \<Rightarrow> snapshot \<Rightarrow> action \<Rightarrow> sync_world \<Rightarrow> applied" where
  "apply_action pair_file env planned_remote a w0 =
     (let w = w0\<lparr>sw_remote := en_there env (sw_remote w0)\<rparr> in
      if \<not> local_path_ok (a_rel a) then failed w OtherError
      else case a_kind a of
        ActionMkdirLocal \<Rightarrow>
          (case mkdir_all (a_rel a) (en_here env (sw_local w)) of
             None \<Rightarrow> (w\<lparr>sw_local := en_here env (sw_local w)\<rparr>, no_outcome\<lparr>oc_row := Some dir_row\<rparr>, Some OtherError)
           | Some here \<Rightarrow> (w\<lparr>sw_local := here\<rparr>, no_outcome\<lparr>oc_row := Some dir_row\<rparr>,
               if en_disk_fails env then Some OtherError else None))
      | ActionMkdirRemote \<Rightarrow>
          (let w = w\<lparr>sw_local := en_here env (sw_local w)\<rparr> in
           if en_refuses env then (w, no_outcome\<lparr>oc_row := Some dir_row\<rparr>, Some OtherError)
           else case mkdir_all (a_rel a) (sw_remote w) of
             None \<Rightarrow> (w, no_outcome\<lparr>oc_row := Some dir_row\<rparr>, Some OtherError)
           | Some there \<Rightarrow> (w\<lparr>sw_remote := there\<rparr>, no_outcome\<lparr>oc_row := Some dir_row\<rparr>, None))
      | ActionUpload \<Rightarrow>
          (let here = en_here env (sw_local w);
               w' = \<lparr>sw_local = here, sw_remote = ensure_remote_parent env planned_remote (a_rel a) (sw_remote w)\<rparr>
           in case map_of here (a_rel a) of
                None \<Rightarrow> failed w' OtherError
              | Some n \<Rightarrow>
                if nd_is_dir n then failed w' OtherError
                else (case api_upload env (en_refuses env) (a_rel a) n (expect_for a) (sw_remote w') of
                   (Inl e, remote) \<Rightarrow> failed (w'\<lparr>sw_remote := remote\<rparr>) e
                 | (Inr got, remote) \<Rightarrow> (w'\<lparr>sw_remote := remote\<rparr>, uploaded a got, None)))
      | ActionDownload \<Rightarrow> download env a w
      | ActionDeleteLocal \<Rightarrow> delete_local env a w
      | ActionDeleteRemot \<Rightarrow>
          (let w = w\<lparr>sw_local := en_here env (sw_local w)\<rparr> in
           if en_refuses env then failed w OtherError
           else (w\<lparr>sw_remote := remove_tree (a_rel a) (sw_remote w)\<rparr>, no_outcome\<lparr>oc_drop := True\<rparr>, None))
      | ActionConflict \<Rightarrow> resolve_conflict pair_file env planned_remote a w)"

section \<open>A pass\<close>

text \<open>\<open>applyPlan\<close>: folders first, then the transfers, then deletes and conflicts. The transfers run
  concurrently; the order in which they take effect is an argument.\<close>

definition phases :: "(action list \<Rightarrow> action list) \<Rightarrow> action list \<Rightarrow> action list" where
  "phases interleave actions =
     filter (\<lambda>a. a_kind a = ActionMkdirLocal \<or> a_kind a = ActionMkdirRemote) actions @
     interleave (filter (\<lambda>a. a_kind a = ActionUpload \<or> a_kind a = ActionDownload) actions) @
     filter (\<lambda>a. a_kind a = ActionDeleteLocal \<or> a_kind a = ActionDeleteRemot \<or> a_kind a = ActionConflict) actions"

definition run_one :: "bool \<Rightarrow> (action \<Rightarrow> sync_env) \<Rightarrow> snapshot \<Rightarrow> sync_world \<times> ledger \<Rightarrow> action \<Rightarrow> sync_world \<times> ledger" where
  "run_one pair_file env planned_remote s a =
     (case apply_action pair_file (env a) planned_remote a (fst s) of
        (w, out, err) \<Rightarrow> (w, record_outcome a out err (snd s)))"

definition apply_plan :: "bool \<Rightarrow> (action \<Rightarrow> sync_env) \<Rightarrow> (action list \<Rightarrow> action list) \<Rightarrow> action list
    \<Rightarrow> snapshot \<Rightarrow> snapshot \<Rightarrow> baseline \<Rightarrow> sync_world \<times> ledger \<Rightarrow> sync_world \<times> ledger" where
  "apply_plan pair_file env interleave actions local remote base s =
     (let (w, l) = foldl (run_one pair_file env remote) s (phases interleave actions)
      in (w, keep_in_step local remote base (set (map a_rel actions)) l))"

end
