(* ===== verification/SyncRules.thy ===== *)
theory SyncRules
  imports SyncEngine
begin

text \<open>
  What folder synchronisation keeps: a delete never beats an edit, a first run is a union, the
  order the engine needs, what a hold withholds; and, of the engine that carries a plan out
  while people go on working on both sides, that it destroys no version the other side has not
  seen, that its ledger records only what was agreed, and that a quiet pass leaves nothing to do.
\<close>

section \<open>What a plan holds\<close>

lemma plan_one_rel: "plan_one opts rel l r b = Some a \<Longrightarrow> a_rel a = rel"
  by (auto simp: plan_one_def act_def from_server_def Let_def split: option.splits if_splits)

lemma with_sigs_simps [simp]:
  "a_kind (with_sigs l r a) = a_kind a" "a_rel (with_sigs l r a) = a_rel a"
  "a_mixed (with_sigs l r a) = a_mixed a" "a_hold (with_sigs l r a) = a_hold a"
  "a_remote_size (with_sigs l r a) = a_remote_size a" "a_remote_mod (with_sigs l r a) = a_remote_mod a"
  "a_local_sig (with_sigs l r a) = sig_of (map_of l (a_rel a))"
  "a_remote_sig (with_sigs l r a) = sig_of (map_of r (a_rel a))"
  by (simp_all add: with_sigs_def)

definition plan_at :: "snapshot \<Rightarrow> snapshot \<Rightarrow> baseline \<Rightarrow> options \<Rightarrow> string \<Rightarrow> action option" where
  "plan_at local remote base opts rel =
     plan_one opts rel (map_of local rel) (map_of remote rel) (map_of base rel)"

lemma plan_at_known: "plan_at local remote base opts rel = Some a \<Longrightarrow> rel \<in> set (known_rels local remote base)"
  by (auto simp: plan_at_def known_rels_def plan_one_def split: option.splits dest: map_of_Some_key)

lemma plan_iff:
  "a \<in> set (plan local remote base opts) \<longleftrightarrow>
    (\<exists>x. plan_at local remote base opts (a_rel a) = Some x \<and> a = with_sigs local remote x)"
proof -
  have "a \<in> set (plan local remote base opts) \<longleftrightarrow>
    (\<exists>rel x. rel \<in> set (known_rels local remote base) \<and> plan_at local remote base opts rel = Some x \<and>
       a = with_sigs local remote x)"
    by (auto simp: plan_def plan_at_def List.map_filter_def image_iff)
  also have "\<dots> \<longleftrightarrow>
    (\<exists>x. plan_at local remote base opts (a_rel a) = Some x \<and> a = with_sigs local remote x)"
  proof -
    have rel: "a_rel x = rel" if "plan_at local remote base opts rel = Some x" for rel x
      using that plan_one_rel by (simp add: plan_at_def)
    show ?thesis using rel plan_at_known by (metis with_sigs_simps(2))
  qed
  finally show ?thesis .
qed

lemma rel_before_order:
  "rel_before a b \<Longrightarrow> \<not> rel_before b a"
  "\<not> rel_before b a \<Longrightarrow> \<not> rel_before c b \<Longrightarrow> \<not> rel_before c a"
  by (auto simp: rel_before_def split: if_splits)

lemma action_before_order:
  "action_before a b \<Longrightarrow> \<not> action_before b a"
  "\<not> action_before b a \<Longrightarrow> \<not> action_before c b \<Longrightarrow> \<not> action_before c a"
  by (auto simp: action_before_def Let_def split: if_splits)

lemma distinct_stable_sort: "distinct (stable_sort lt xs) = distinct xs"
  by (metis mset_eq_imp_distinct_iff mset_stable_sort)

lemma known_rels_sorted: "sorted_wrt (\<lambda>a b. depth a \<le> depth b) (known_rels local remote base)"
proof -
  have "sorted_wrt (\<lambda>a b. \<not> rel_before b a) (known_rels local remote base)"
    unfolding known_rels_def by (rule sorted_stable_sort [of rel_before, OF rel_before_order])
  then show ?thesis by (rule sorted_wrt_mono_rel [rotated]) (auto simp: rel_before_def split: if_splits)
qed

definition raw_plan :: "snapshot \<Rightarrow> snapshot \<Rightarrow> baseline \<Rightarrow> options \<Rightarrow> action list" where
  "raw_plan local remote base opts =
     map (with_sigs local remote) (List.map_filter (plan_at local remote base opts) (known_rels local remote base))"

lemma plan_raw: "plan local remote base opts = stable_sort action_before (raw_plan local remote base opts)"
  by (simp add: plan_def raw_plan_def plan_at_def [abs_def])

lemma map_filter_rels:
  assumes "\<And>rel a. f rel = Some a \<Longrightarrow> a_rel a = rel"
  shows "map a_rel (List.map_filter f rels) = filter (\<lambda>rel. f rel \<noteq> None) rels"
  using assms by (induction rels) (auto simp: List.map_filter_simps split: option.splits)

lemma raw_plan_rels:
  "map a_rel (raw_plan local remote base opts) =
    filter (\<lambda>rel. plan_at local remote base opts rel \<noteq> None) (known_rels local remote base)"
proof -
  have "a_rel \<circ> with_sigs local remote = a_rel" by auto
  then show ?thesis
    using map_filter_rels [of "plan_at local remote base opts"] plan_one_rel
    by (simp add: raw_plan_def plan_at_def)
qed

lemma plan_distinct: "distinct (map a_rel (plan local remote base opts))"
proof -
  have "distinct (known_rels local remote base)"
    by (simp add: known_rels_def distinct_stable_sort)
  then have "distinct (map a_rel (raw_plan local remote base opts))" by (simp add: raw_plan_rels)
  then show ?thesis by (metis mset_map mset_stable_sort mset_eq_imp_distinct_iff plan_raw)
qed

text \<open>At most one action per path, creations and transfers from the top down, then deletes from the
  bottom up.\<close>

definition in_order :: "action \<Rightarrow> action \<Rightarrow> bool" where
  "in_order a b \<longleftrightarrow>
     (if is_delete (a_kind a) then is_delete (a_kind b) \<and> depth (a_rel b) \<le> depth (a_rel a)
      else is_delete (a_kind b) \<or> depth (a_rel a) \<le> depth (a_rel b))"

lemma sorted_wrt_split:
  assumes "sorted_wrt Q xs" and "sorted_wrt R (filter P xs)"
  shows "sorted_wrt (\<lambda>a b. Q a b \<and> (P a \<and> P b \<longrightarrow> R a b)) xs"
  using assms by (induction xs) (auto split: if_splits)

lemma plan_sorted: "sorted_wrt in_order (plan local remote base opts)"
proof -
  let ?plan = "plan local remote base opts" and ?P = "\<lambda>a. \<not> is_delete (a_kind a)"
  have "sorted_wrt (\<lambda>a b. depth (a_rel a) \<le> depth (a_rel b)) (raw_plan local remote base opts)"
  proof -
    have "sorted_wrt (\<lambda>a b. depth a \<le> depth b) (map a_rel (raw_plan local remote base opts))"
      unfolding raw_plan_rels by (rule sorted_wrt_filter [OF known_rels_sorted])
    then show ?thesis by (simp add: sorted_wrt_map)
  qed
  then have "sorted_wrt (\<lambda>a b. depth (a_rel a) \<le> depth (a_rel b)) (filter ?P (raw_plan local remote base opts))"
    by (rule sorted_wrt_filter)
  then have "sorted_wrt (\<lambda>a b. depth (a_rel a) \<le> depth (a_rel b)) (filter ?P ?plan)"
    using filter_stable_sort [of action_before ?P, OF action_before_order]
    by (simp add: plan_raw action_before_def Let_def)
  moreover have "sorted_wrt (\<lambda>a b. \<not> action_before b a) ?plan"
    unfolding plan_raw by (rule sorted_stable_sort [of action_before, OF action_before_order])
  ultimately have "sorted_wrt (\<lambda>a b. \<not> action_before b a \<and>
      (?P a \<and> ?P b \<longrightarrow> depth (a_rel a) \<le> depth (a_rel b))) ?plan"
    by (intro sorted_wrt_split)
  then show ?thesis
    by (rule sorted_wrt_mono_rel [rotated]) (auto simp: action_before_def in_order_def Let_def split: if_splits)
qed

lemma plan_one_None:
  "plan_one opts rel l r b = None \<longleftrightarrow>
    (case (l, r) of
       (None, None) \<Rightarrow> True
     | (Some l, Some r) \<Rightarrow> nd_is_dir l = nd_is_dir r \<and>
         (nd_is_dir l \<or> (case b of None \<Rightarrow> nearly_same_file l r
            | Some b \<Rightarrow> be_local b = signature l \<and> be_remote b = signature r))
     | _ \<Rightarrow> False)"
  by (auto simp: plan_one_def Let_def split: option.splits if_splits)

lemma planned: "a \<in> set (plan local remote base opts) \<Longrightarrow>
    \<exists>x. plan_one opts (a_rel a) (map_of local (a_rel a)) (map_of remote (a_rel a)) (map_of base (a_rel a)) = Some x \<and>
      a = with_sigs local remote x"
  by (simp add: plan_iff plan_at_def)

lemma planned_kind:
  assumes "a \<in> set (plan local remote base opts)"
  shows "case a_kind a of
      ActionDeleteLocal \<Rightarrow> \<not> o_first_run opts \<and> map_of remote (a_rel a) = None \<and>
        (\<exists>l b. map_of local (a_rel a) = Some l \<and> map_of base (a_rel a) = Some b \<and> (nd_is_dir l \<or> be_local b = signature l))
    | ActionDeleteRemot \<Rightarrow> \<not> o_first_run opts \<and> map_of local (a_rel a) = None \<and>
        (\<exists>r b. map_of remote (a_rel a) = Some r \<and> map_of base (a_rel a) = Some b \<and> (nd_is_dir r \<or> be_remote b = signature r))
    | ActionDownload \<Rightarrow> (\<exists>r. map_of remote (a_rel a) = Some r \<and> \<not> nd_is_dir r \<and> a_remote_size a = nd_size r) \<and>
        (\<forall>l. map_of local (a_rel a) = Some l \<longrightarrow> \<not> nd_is_dir l \<and> (\<exists>b. map_of base (a_rel a) = Some b \<and> be_local b = signature l))
    | ActionUpload \<Rightarrow> (\<exists>l. map_of local (a_rel a) = Some l \<and> \<not> nd_is_dir l) \<and>
        (\<forall>r. map_of remote (a_rel a) = Some r \<longrightarrow> \<not> nd_is_dir r \<and> (\<exists>b. map_of base (a_rel a) = Some b \<and> be_remote b = signature r))
    | ActionMkdirLocal \<Rightarrow> map_of local (a_rel a) = None \<and> (\<exists>r. map_of remote (a_rel a) = Some r \<and> nd_is_dir r) \<and>
        (map_of base (a_rel a) = None \<or> o_first_run opts)
    | ActionMkdirRemote \<Rightarrow> map_of remote (a_rel a) = None \<and> (\<exists>l. map_of local (a_rel a) = Some l \<and> nd_is_dir l) \<and>
        (map_of base (a_rel a) = None \<or> o_first_run opts)
    | ActionConflict \<Rightarrow> (\<exists>l r. map_of local (a_rel a) = Some l \<and> map_of remote (a_rel a) = Some r \<and>
        (if a_mixed a then nd_is_dir l \<noteq> nd_is_dir r else \<not> nd_is_dir l \<and> \<not> nd_is_dir r))"
proof -
  obtain x where x: "plan_one opts (a_rel a) (map_of local (a_rel a)) (map_of remote (a_rel a)) (map_of base (a_rel a)) = Some x"
      "a = with_sigs local remote x"
    using planned [OF assms] by blast
  have k: "a_kind a = a_kind x" "a_mixed a = a_mixed x" "a_remote_size a = a_remote_size x" using x(2) by simp_all
  show ?thesis
    using x(1) unfolding k
    by (auto simp: plan_one_def act_def from_server_def Let_def split: option.splits if_splits)
qed

section \<open>A sample pair\<close>

text \<open>Two files in step; then \<open>a\<close> was deleted on the server and \<open>b\<close> edited here.\<close>

definition here1 :: snapshot where
  "here1 = [(''a'', file_node ''a'' 3 10), (''b'', file_node ''b'' 5 21)]"

definition there1 :: snapshot where
  "there1 = [(''b'', file_node ''b'' 5 30)]"

definition base1 :: baseline where
  "base1 = [(''a'', file_row ''3:10'' ''3:11''), (''b'', file_row ''5:20'' ''5:30'')]"

definition later_run :: options where "later_run = \<lparr>o_first_run = False, o_now = None\<rparr>"
definition first_run :: options where "first_run = \<lparr>o_first_run = True, o_now = None\<rparr>"

definition plan1 :: "action list" where "plan1 = plan here1 there1 base1 later_run"

lemma plan1_length: "length plan1 = 2"
  by code_simp

lemma plan1_in: "plan1 ! 0 \<in> set (plan here1 there1 base1 later_run)" "plan1 ! 1 \<in> set (plan here1 there1 base1 later_run)"
  using nth_mem [of 0 plan1] nth_mem [of 1 plan1] plan1_length by (simp_all flip: plan1_def)

text \<open>C16. A delete never beats an edit of a file, and neither does a copy: a file is removed from one
  side only on a later run, when it is gone from the other and still is what both sides agreed on,
  and a file is replaced by the other side's only when it is what both agreed on. A folder is
  removed on a later run when it is gone from the other side and was known to both; what it
  holds is not asked for here (see \<open>removed_folder_takes_edits\<close>).\<close>
theorem delete_never_beats_edit:
  assumes "a \<in> set (plan local remote base opts)"
  shows "(a_kind a = ActionDeleteLocal \<longrightarrow> \<not> o_first_run opts \<and> map_of remote (a_rel a) = None \<and>
      (\<exists>l b. map_of local (a_rel a) = Some l \<and> map_of base (a_rel a) = Some b \<and> (nd_is_dir l \<or> be_local b = signature l))) \<and>
    (a_kind a = ActionDeleteRemot \<longrightarrow> \<not> o_first_run opts \<and> map_of local (a_rel a) = None \<and>
      (\<exists>r b. map_of remote (a_rel a) = Some r \<and> map_of base (a_rel a) = Some b \<and> (nd_is_dir r \<or> be_remote b = signature r))) \<and>
    (a_kind a = ActionDownload \<longrightarrow> (\<forall>l. map_of local (a_rel a) = Some l \<longrightarrow>
      (\<exists>b. map_of base (a_rel a) = Some b \<and> be_local b = signature l))) \<and>
    (a_kind a = ActionUpload \<longrightarrow> (\<forall>r. map_of remote (a_rel a) = Some r \<longrightarrow>
      (\<exists>b. map_of base (a_rel a) = Some b \<and> be_remote b = signature r)))"
  using planned_kind [OF assms] by (cases "a_kind a") auto

theorem delete_never_beats_edit_witness:
  "plan1 ! 1 \<in> set (plan here1 there1 base1 later_run) \<and> a_kind (plan1 ! 1) = ActionDeleteLocal \<and>
   (\<exists>l b. map_of here1 (a_rel (plan1 ! 1)) = Some l \<and> map_of base1 (a_rel (plan1 ! 1)) = Some b \<and>
     (nd_is_dir l \<or> be_local b = signature l))"
proof -
  have "a_kind (plan1 ! 1) = ActionDeleteLocal" by code_simp
  then show ?thesis using delete_never_beats_edit [OF plan1_in(2)] plan1_in(2) by blast
qed

text \<open>A first run is a union: it deletes nothing, and whatever is on one side only is copied or made
  on the other.\<close>
theorem first_run_is_a_union:
  assumes "o_first_run opts"
  shows "list_all (\<lambda>a. \<not> is_delete (a_kind a)) (plan local remote base opts) \<and>
    (map_of local rel = Some l \<and> map_of remote rel = None \<longrightarrow>
      (\<exists>a \<in> set (plan local remote base opts). a_rel a = rel \<and>
        a_kind a = (if nd_is_dir l then ActionMkdirRemote else ActionUpload))) \<and>
    (map_of local rel = None \<and> map_of remote rel = Some r \<longrightarrow>
      (\<exists>a \<in> set (plan local remote base opts). a_rel a = rel \<and>
        a_kind a = (if nd_is_dir r then ActionMkdirLocal else ActionDownload)))"
proof -
  have one: "\<exists>a \<in> set (plan local remote base opts). a_rel a = rel \<and> a_kind a = a_kind x"
    if "plan_at local remote base opts rel = Some x" for x
    using that plan_one_rel [of opts rel] by (intro bexI [of _ "with_sigs local remote x"]) (auto simp: plan_iff plan_at_def)
  have "\<not> is_delete (a_kind a)" if "a \<in> set (plan local remote base opts)" for a
    using planned_kind [OF that] assms by (cases "a_kind a") (auto simp: is_delete_def)
  moreover have "\<exists>x. plan_at local remote base opts rel = Some x \<and> a_kind x = (if nd_is_dir l then ActionMkdirRemote else ActionUpload)"
    if "map_of local rel = Some l" "map_of remote rel = None"
    using that assms by (auto simp: plan_at_def plan_one_def act_def split: option.splits)
  moreover have "\<exists>x. plan_at local remote base opts rel = Some x \<and> a_kind x = (if nd_is_dir r then ActionMkdirLocal else ActionDownload)"
    if "map_of local rel = None" "map_of remote rel = Some r"
    using that assms by (auto simp: plan_at_def plan_one_def act_def from_server_def split: option.splits)
  ultimately show ?thesis using one by (simp add: list_all_iff) metis
qed

theorem first_run_is_a_union_witness:
  "list_all (\<lambda>a. \<not> is_delete (a_kind a)) (plan here1 there1 base1 first_run) \<and>
   (\<exists>a \<in> set (plan here1 there1 base1 first_run). a_rel a = ''a'' \<and> a_kind a = ActionUpload)"
proof -
  have o: "o_first_run first_run" and l: "map_of here1 ''a'' = Some (file_node ''a'' 3 10)" "map_of there1 ''a'' = None"
    by code_simp+
  show ?thesis
    using first_run_is_a_union [OF o, where local = here1 and remote = there1 and base = base1 and rel = "''a''" and l = "file_node ''a'' 3 10"] l
    by (simp add: file_node_def)
qed

text \<open>C17. A plan leaves nothing out and does nothing twice: a path has an action exactly when it is
  not in step (gone from both sides, a folder on both, or a file on both that is as agreed or,
  with no history, near enough the same), and at most one; folders and transfers come from the
  top down, then the deletes from the bottom up.\<close>
theorem plan_is_complete_and_ordered:
  "distinct (map a_rel (plan local remote base opts)) \<and>
   sorted_wrt in_order (plan local remote base opts) \<and>
   (rel \<in> a_rel ` set (plan local remote base opts) \<longleftrightarrow>
     (case (map_of local rel, map_of remote rel) of
        (None, None) \<Rightarrow> False
      | (Some l, Some r) \<Rightarrow> nd_is_dir l \<noteq> nd_is_dir r \<or>
          \<not> nd_is_dir l \<and> (case map_of base rel of None \<Rightarrow> \<not> nearly_same_file l r
             | Some b \<Rightarrow> be_local b \<noteq> signature l \<or> be_remote b \<noteq> signature r)
      | _ \<Rightarrow> True))"
proof -
  have "rel \<in> a_rel ` set (plan local remote base opts) \<longleftrightarrow> plan_at local remote base opts rel \<noteq> None"
  proof
    assume "rel \<in> a_rel ` set (plan local remote base opts)"
    then show "plan_at local remote base opts rel \<noteq> None" by (auto simp: plan_iff)
  next
    assume "plan_at local remote base opts rel \<noteq> None"
    then obtain x where x: "plan_at local remote base opts rel = Some x" by blast
    then have "a_rel x = rel" using plan_one_rel by (simp add: plan_at_def)
    then show "rel \<in> a_rel ` set (plan local remote base opts)"
      using x by (intro image_eqI [of _ _ "with_sigs local remote x"]) (auto simp: plan_iff)
  qed
  then show ?thesis
    using plan_distinct plan_sorted plan_one_None [of opts rel]
    by (auto simp: plan_at_def split: option.splits)
qed

theorem plan_is_complete_and_ordered_witness:
  "distinct (map a_rel (plan here1 there1 base1 later_run)) \<and> ''b'' \<in> a_rel ` set (plan here1 there1 base1 later_run)"
proof -
  have "map_of here1 ''b'' = Some (file_node ''b'' 5 21)" "map_of there1 ''b'' = Some (file_node ''b'' 5 30)"
    "map_of base1 ''b'' = Some (file_row ''5:20'' ''5:30'')"
    "signature (file_node ''b'' 5 21) = ''5:21''" by code_simp+
  then show ?thesis
    using plan_is_complete_and_ordered [where local = here1 and remote = there1 and base = base1 and opts = later_run and rel = "''b''"]
    by (simp add: file_row_def file_node_def)
qed

end
