(* ===== verification/SyncSafety.thy ===== *)
theory SyncSafety
  imports SyncRules
begin

text \<open>
  The engine at work while people go on working: whatever they save on this computer during an
  action, and on the server before its request, no version is destroyed that the two sides had
  not agreed on.
\<close>

section \<open>Signatures\<close>

lemma file_signature: "\<not> nd_is_dir n \<Longrightarrow> signature n \<noteq> dir_sig \<and> signature n \<noteq> []"
proof -
  assume "\<not> nd_is_dir n"
  then have "CHR '':'' \<in> set (signature n)" by (simp add: signature_def)
  moreover have "CHR '':'' \<notin> set dir_sig" by (simp add: dir_sig_def)
  ultimately show ?thesis by auto
qed

lemma signature_dir: "signature n = dir_sig \<longleftrightarrow> nd_is_dir n"
  using file_signature by (auto simp: signature_def)

lemma signature_nonempty [simp]: "signature n \<noteq> []"
  using file_signature by (cases "nd_is_dir n") (auto simp: signature_def dir_sig_def)

lemma sig_at_Some: "map_of side q = Some n \<Longrightarrow> sig_at side q = signature n"
  by (simp add: sig_at_def sig_of_def)

section \<open>What the steps leave alone\<close>

lemma make_dirs_keeps [frame_simps]:
  "make_dirs ds side = Some side' \<Longrightarrow> map_of side q = Some n \<Longrightarrow> map_of side' q = Some n"
  by (induction ds side rule: make_dirs.induct) (auto simp: map_add_def split: option.splits if_splits)

lemma mkdir_all_keeps [frame_simps]:
  "mkdir_all rel side = Some side' \<Longrightarrow> map_of side q = Some n \<Longrightarrow> map_of side' q = Some n"
  unfolding mkdir_all_def by (rule make_dirs_keeps)

lemma install_keeps [frame_simps]: "q \<noteq> rel \<Longrightarrow> map_of (install env rel n t side) q = map_of side q"
  by (simp add: install_def update_conv')

lemma install_at [frame_simps]:
  "\<exists>m. map_of (install env rel n t side) rel = Some m \<and> \<not> nd_is_dir m \<and> nd_size m = nd_size n"
  by (simp add: install_def update_conv' file_node_def)

lemma remove_tree_at [frame_simps]:
  "map_of (remove_tree rel side) q = (if q = rel \<or> below rel q then None else map_of side q)"
  by (simp add: remove_tree_def map_of_filter_key)

lemma api_upload_local: "api_upload env refuses rel n expect remote = (res, remote') \<Longrightarrow>
    (\<forall>q. q \<noteq> rel \<longrightarrow> map_of remote' q = map_of remote q) \<and>
    (sig_at remote rel \<noteq> (case expect of None \<Rightarrow> [] | Some s \<Rightarrow> s) \<longrightarrow> remote' = remote \<and> res = Inl ErrRemoteChanged)"
  by (auto simp: api_upload_def Let_def update_conv' split: if_splits)

lemma api_create: "api_upload env refuses rel n None remote = (res, remote') \<Longrightarrow>
    map_of remote' q = map_of remote q \<or> q = rel \<and> map_of remote q = None"
  by (cases "map_of remote rel") (auto simp: api_upload_def Let_def update_conv' sig_at_def sig_of_def split: if_splits)

section \<open>Versions made here\<close>

text \<open>Whether a path's file is the version both sides agreed on, as the baseline records it.\<close>

definition agreed_here :: "baseline \<Rightarrow> string \<Rightarrow> node \<Rightarrow> bool" where
  "agreed_here base q f \<longleftrightarrow> (\<exists>b. map_of base q = Some b \<and> be_local b = signature f)"

definition agreed_there :: "baseline \<Rightarrow> string \<Rightarrow> node \<Rightarrow> bool" where
  "agreed_there base q f \<longleftrightarrow> (\<exists>b. map_of base q = Some b \<and> be_remote b = signature f)"

definition keeps_file :: "sync_env \<Rightarrow> string \<Rightarrow> node \<Rightarrow> bool" where
  "keeps_file env q f \<longleftrightarrow> (\<forall>side. map_of side q = Some f \<longrightarrow> map_of (en_here env side) q = Some f)"

definition saves_file :: "sync_env \<Rightarrow> string \<Rightarrow> node \<Rightarrow> bool" where
  "saves_file env q f \<longleftrightarrow> (\<forall>side. map_of (en_here env side) q = Some f)"

lemma replaceable:
  assumes "a \<in> set (plan local remote base opts)" and "a_kind a = ActionDownload \<or> a_kind a = ActionDeleteLocal"
    and "still_as_planned here (a_rel a) (a_local_sig a)" and "map_of here (a_rel a) = Some f" and "\<not> nd_is_dir f"
  shows "agreed_here base (a_rel a) f"
proof -
  have s: "a_local_sig a = sig_of (map_of local (a_rel a))" using assms(1) by (auto simp: plan_iff)
  then have "signature f = sig_of (map_of local (a_rel a))"
    using assms(3,4) by (simp add: still_as_planned_def sig_at_Some)
  then obtain l where l: "map_of local (a_rel a) = Some l" "signature f = signature l"
    by (cases "map_of local (a_rel a)") (auto simp: sig_of_def)
  then have "\<not> nd_is_dir l" using assms(5) file_signature [of f] by (metis signature_dir)
  then show ?thesis
    using planned_kind [OF assms(1)] assms(2) l by (auto simp: agreed_here_def)
qed

lemma download_keeps:
  assumes "a \<in> set (plan local remote base opts)" and "a_kind a = ActionDownload" and "\<not> nd_is_dir f"
    and "\<not> agreed_here base q f" and "keeps_file env q f" and "download env a w = (w', out, err)"
  shows "(map_of (sw_local w) q = Some f \<longrightarrow> map_of (sw_local w') q = Some f) \<and>
    (saves_file env q f \<and> err \<noteq> Some OtherError \<longrightarrow> map_of (sw_local w') q = Some f)"
proof (cases "mkdir_all (parent_dir (a_rel a)) (sw_local w)")
  case None
  then show ?thesis using assms(6) by (auto simp: download_def failed_def)
next
  case (Some here)
  note m = this
  show ?thesis
  proof (cases "fetch env (a_rel a) (a_remote_size a) (sw_remote w)")
    case None
    then show ?thesis using m assms(6) mkdir_all_keeps [OF m] by (auto simp: download_def failed_def)
  next
    case (Some n)
    let ?here = "en_here env here"
    have k: "map_of (sw_local w) q = Some f \<or> saves_file env q f \<Longrightarrow> map_of ?here q = Some f"
      using mkdir_all_keeps [OF m] assms(5) by (auto simp: keeps_file_def saves_file_def)
    have "q \<noteq> a_rel a" if "still_as_planned ?here (a_rel a) (a_local_sig a)" "map_of ?here q = Some f"
      using replaceable [OF assms(1) disjI1 [OF assms(2)] that(1)] that(2) assms(3,4) by auto
    then show ?thesis
      using m Some assms(6) k
      by (auto simp: download_def failed_def Let_def install_keeps delete_conv' split: if_splits)
  qed
qed

lemma delete_local_keeps:
  assumes "a \<in> set (plan local remote base opts)" and "a_kind a = ActionDeleteLocal" and "\<not> nd_is_dir f"
    and "\<not> agreed_here base q f" and "keeps_file env q f" and "delete_local env a w = (w', out, err)"
  shows "(map_of (sw_local w) q = Some f \<longrightarrow> map_of (sw_local w') q = Some f) \<and>
    (saves_file env q f \<and> err \<noteq> Some OtherError \<longrightarrow> map_of (sw_local w') q = Some f)"
proof -
  let ?here = "en_here env (sw_local w)"
  have k: "map_of (sw_local w) q = Some f \<or> saves_file env q f \<Longrightarrow> map_of ?here q = Some f"
    using assms(5) by (auto simp: keeps_file_def saves_file_def)
  have "q \<noteq> a_rel a" if "still_as_planned ?here (a_rel a) (a_local_sig a)" "map_of ?here q = Some f"
    using replaceable [OF assms(1) disjI2 [OF assms(2)] that(1)] that(2) assms(3,4) by auto
  moreover have "\<not> below (a_rel a) q"
    if "still_as_planned ?here (a_rel a) dir_sig" "map_of ?here q = Some f"
    using that map_of_SomeD [OF that(2)] by (auto simp: still_as_planned_def list_ex_iff)
  ultimately show ?thesis
    using assms(6) k
    by (auto simp: delete_local_def failed_def Let_def remove_tree_at delete_conv' split: if_splits)
qed

lemma free_side_name_free:
  "free_side_name disk dir name remote i = Some cand \<Longrightarrow>
    disk cand = NotThere \<and> map_of remote (in_folder dir cand) = None"
  by (induction disk dir name remote i rule: free_side_name.induct)
    (subst (asm) (2) free_side_name.simps, auto simp: Let_def split: if_splits lstat.splits)

lemma upload_over_local: "upload_over env a out w = (w', out', err) \<Longrightarrow> sw_local w' = sw_local w"
  by (auto simp: upload_over_def Let_def split: option.splits prod.splits sum.splits)

lemma upload_over_side:
  "upload_over env a out w = (w', out', err) \<Longrightarrow> oc_side out' = oc_side out"
  by (auto simp: upload_over_def Let_def split: option.splits prod.splits sum.splits)

lemma upload_over_remote:
  assumes "upload_over env a out w = (w', out', err)"
  shows "map_of (sw_remote w') q = map_of (en_before_over env (sw_remote w)) q \<or>
    q = a_rel a \<and> sig_at (en_before_over env (sw_remote w)) q = a_remote_sig a"
proof (cases "map_of (sw_local w) (a_rel a)")
  case None
  then show ?thesis using assms by (auto simp: upload_over_def Let_def)
next
  case (Some n)
  let ?there = "en_before_over env (sw_remote w)"
  obtain res remote where u: "api_upload env (en_refuses env) (a_rel a) n (expect_for a) ?there = (res, remote)"
    by fastforce
  then have "sw_remote w' = remote" using assms Some by (cases res) (auto simp: upload_over_def Let_def)
  then show ?thesis using api_upload_local [OF u] by (cases "q = a_rel a") (auto simp: expect_for_def split: if_splits)
qed

text \<open>What the end of a conflict leaves: it wrote nothing, at most the copy beside the file - or both
  uploads ran, the copy's creating its name or nothing, and the file's replacing the version the
  plan knew or nothing.\<close>

lemma keep_both_sides:
  assumes "keep_both pf env planned_remote a n w = (w', out, err)"
  shows "sw_remote w' = sw_remote w \<and> oc_side out = None \<and> (w' = w \<or> (\<exists>rel. map_of (sw_local w) rel = None \<and>
        sw_local w' = install env rel n (a_remote_mod a) (sw_local w))) \<or>
    (\<exists>rel sd there. map_of (sw_local w) rel = None \<and> sw_local w' = install env rel n (a_remote_mod a) (sw_local w) \<and>
      oc_side out = Some sd \<and> so_rel sd = rel \<and> map_of planned_remote rel = None \<and>
      (\<forall>q. map_of there q = map_of (en_after_fetch env (sw_remote w)) q \<or>
         q = rel \<and> map_of (en_after_fetch env (sw_remote w)) q = None) \<and>
      (\<forall>q. map_of (sw_remote w') q = map_of (en_before_over env there) q \<or>
         q = a_rel a \<and> sig_at (en_before_over env there) q = a_remote_sig a))"
proof (cases "free_side_name (lstat_of env (sw_local w) (parent_dir (a_rel a))) (parent_dir (a_rel a))
    (a_conflict_name a) planned_remote 1")
  case None
  then show ?thesis using assms by (auto simp: keep_both_def Let_def failed_def no_outcome_def)
next
  case (Some name)
  let ?rel = "in_folder (parent_dir (a_rel a)) name"
  have free: "map_of (sw_local w) ?rel = None" "map_of planned_remote ?rel = None"
    using free_side_name_free [OF Some] by (auto simp: lstat_of_def split: if_splits)
  show ?thesis
  proof (cases "en_rename_fails env \<or> en_side_unread env")
    case True
    then show ?thesis using assms Some free by (auto simp: keep_both_def Let_def failed_def no_outcome_def split: if_splits)
  next
    case False
    let ?there = "en_after_fetch env (sw_remote w)"
    let ?here = "install env ?rel n (a_remote_mod a) (sw_local w)"
    let ?sd = "\<lparr>so_rel = ?rel, so_local_sig = sig_at ?here ?rel, so_uploaded = False, so_row = None\<rparr>"
    let ?out = "no_outcome\<lparr>oc_side := Some ?sd, oc_on_error := Some (file_row [] (a_remote_sig a))\<rparr>"
    obtain sd out1 remote where up: "upload_over env a out1 (w\<lparr>sw_local := ?here, sw_remote := remote\<rparr>) = (w', out, err)"
      "oc_side out1 = Some sd" "so_rel sd = ?rel"
      "remote = ?there \<or> (\<exists>res. api_upload env (en_side_refuses env) ?rel n None ?there = (res, remote))"
    proof (cases pf)
      case True
      then have "upload_over env a ?out (w\<lparr>sw_local := ?here, sw_remote := ?there\<rparr>) = (w', out, err)"
        using assms Some False by (simp add: keep_both_def Let_def)
      then show ?thesis using that [of ?out ?there ?sd] by simp
    next
      case not_file: False
      obtain res remote where u: "api_upload env (en_side_refuses env) ?rel n None ?there = (res, remote)"
        by fastforce
      show ?thesis
      proof (cases res)
        case (Inl e)
        then have "upload_over env a ?out (w\<lparr>sw_local := ?here, sw_remote := remote\<rparr>) = (w', out, err)"
          using assms Some False not_file u by (simp add: keep_both_def Let_def)
        then show ?thesis using that [of ?out remote ?sd] u by simp
      next
        case (Inr got)
        let ?sd' = "?sd\<lparr>so_uploaded := True, so_row := (case got of None \<Rightarrow> None
            | Some f \<Rightarrow> Some (file_row (sig_at ?here ?rel) (signature f)))\<rparr>"
        have "upload_over env a (?out\<lparr>oc_side := Some ?sd'\<rparr>) (w\<lparr>sw_local := ?here, sw_remote := remote\<rparr>) = (w', out, err)"
          using assms Some False not_file u Inr by (simp add: keep_both_def Let_def)
        then show ?thesis using that [of "?out\<lparr>oc_side := Some ?sd'\<rparr>" remote ?sd'] u by simp
      qed
    qed
    have "map_of remote q = map_of ?there q \<or> q = ?rel \<and> map_of ?there q = None" for q
      using up(4) api_create [of env "en_side_refuses env" ?rel n ?there _ remote q] by blast
    moreover have "map_of (sw_remote w') q = map_of (en_before_over env remote) q \<or>
        q = a_rel a \<and> sig_at (en_before_over env remote) q = a_remote_sig a" for q
      using upload_over_remote [OF up(1), of q] by simp
    ultimately show ?thesis
      using upload_over_local [OF up(1)] upload_over_side [OF up(1)] up(2,3) free by auto
  qed
qed

lemma conflict_keeps:
  assumes "\<not> nd_is_dir f" and "keeps_file env q f" and "resolve_conflict pf env planned_remote a w = (w', out, err)"
  shows "(map_of (sw_local w) q = Some f \<longrightarrow> map_of (sw_local w') q = Some f) \<and>
    (saves_file env q f \<and> err \<noteq> Some OtherError \<longrightarrow> map_of (sw_local w') q = Some f)"
proof (cases "a_mixed a \<or> mkdir_all (parent_dir (a_rel a)) (sw_local w) = None")
  case True
  then show ?thesis using assms(3) by (auto simp: resolve_conflict_def failed_def split: if_splits)
next
  case False
  then obtain here where m: "mkdir_all (parent_dir (a_rel a)) (sw_local w) = Some here" by auto
  show ?thesis
  proof (cases "fetch env (a_rel a) (a_remote_size a) (sw_remote w)")
    case None
    then show ?thesis using m False assms(3) mkdir_all_keeps [OF m] by (auto simp: resolve_conflict_def failed_def)
  next
    case (Some n)
    let ?w = "w\<lparr>sw_local := en_here env here\<rparr>"
    have k: "map_of (sw_local w) q = Some f \<or> saves_file env q f \<Longrightarrow> map_of (sw_local ?w) q = Some f"
      using mkdir_all_keeps [OF m] assms(2) by (auto simp: keeps_file_def saves_file_def)
    have "sw_local w' = sw_local ?w \<or>
      (\<exists>rel. map_of (sw_local ?w) rel = None \<and> sw_local w' = install env rel n (a_remote_mod a) (sw_local ?w))"
      using False m Some assms(3) keep_both_sides [of pf env planned_remote a n ?w w' out err]
      by (auto simp: resolve_conflict_def failed_def Let_def split: if_splits option.splits bool.splits)
    then have "map_of (sw_local ?w) q = Some f \<Longrightarrow> map_of (sw_local w') q = Some f"
      using install_keeps [of q] by (metis option.distinct(1))
    then show ?thesis using k by blast
  qed
qed

text \<open>C18. Nothing made on this computer is destroyed: whatever people do while an action of the plan runs,
  a file that is not the version both sides agreed on - one edited since, a new one, or one saved
  during the action itself, up to the last look - is still there, unchanged, when the action ends
  (an action that failed may have ended before the save).\<close>
theorem local_versions_survive:
  assumes "a \<in> set (plan local remote base opts)" and "\<not> nd_is_dir f" and "\<not> agreed_here base q f"
    and "keeps_file env q f" and "apply_action pf env remote a w = (w', out, err)"
  shows "(map_of (sw_local w) q = Some f \<longrightarrow> map_of (sw_local w') q = Some f) \<and>
    (saves_file env q f \<and> err \<noteq> Some OtherError \<longrightarrow> map_of (sw_local w') q = Some f)"
proof -
  let ?w = "w\<lparr>sw_remote := en_there env (sw_remote w)\<rparr>"
  have k: "map_of (sw_local w) q = Some f \<or> saves_file env q f \<Longrightarrow> map_of (en_here env (sw_local w)) q = Some f"
    using assms(4) by (auto simp: keeps_file_def saves_file_def)
  show ?thesis
  proof (cases "local_path_ok (a_rel a)")
    case False
    then show ?thesis using assms(5) by (auto simp: apply_action_def failed_def)
  next
    case True
    show ?thesis
    proof (cases "a_kind a")
      case ActionDownload
      then show ?thesis
        using download_keeps [OF assms(1) ActionDownload assms(2-4), of ?w] assms(5) True by (auto simp: apply_action_def)
    next
      case ActionDeleteLocal
      then show ?thesis
        using delete_local_keeps [OF assms(1) ActionDeleteLocal assms(2-4), of ?w] assms(5) True by (auto simp: apply_action_def)
    next
      case ActionConflict
      then show ?thesis
        using conflict_keeps [OF assms(2,4), of pf remote a ?w] assms(5) True by (auto simp: apply_action_def)
    next
      case ActionMkdirLocal
      then show ?thesis
        using k assms(5) True mkdir_all_keeps
        by (auto simp: apply_action_def Let_def split: option.splits)
    next
      case ActionUpload
      then show ?thesis
        using k assms(5) True
        by (auto simp: apply_action_def failed_def Let_def split: option.splits if_splits prod.splits sum.splits)
    qed (use k assms(5) True in \<open>auto simp: apply_action_def failed_def Let_def split: option.splits if_splits\<close>)
  qed
qed

definition quiet_env :: sync_env where
  "quiet_env = \<lparr>en_here = (\<lambda>side. side), en_there = (\<lambda>side. side),
     en_after_fetch = (\<lambda>side. side), en_before_over = (\<lambda>side. side), en_disk_fails = False, en_rename_fails = False,
     en_refuses = False, en_side_refuses = False, en_tells = True, en_stamp = 77, en_clock = 78, en_stamps_local = True,
     en_same_bytes = Some False, en_side_unread = False, en_untracked = False, en_other_names = (\<lambda>_. NotThere)\<rparr>"

text \<open>Somebody saves \<open>a\<close> here while it is being deleted, and \<open>b\<close> on the server before it is replaced.\<close>

definition saved_a :: node where "saved_a = file_node ''a'' 4 50"
definition saved_b :: node where "saved_b = file_node ''b'' 9 51"

definition saving_here :: sync_env where
  "saving_here = quiet_env\<lparr>en_here := AList.update ''a'' saved_a\<rparr>"

definition saving_there :: sync_env where
  "saving_there = quiet_env\<lparr>en_there := AList.update ''b'' saved_b\<rparr>"

definition world1 :: sync_world where "world1 = \<lparr>sw_local = here1, sw_remote = there1\<rparr>"

theorem local_versions_survive_witness:
  "case apply_action False saving_here there1 (plan1 ! 1) world1 of
     (w', out, err) \<Rightarrow> err = Some ErrLocalChanged \<and> map_of (sw_local w') ''a'' = Some saved_a"
proof -
  obtain w' out err where r: "apply_action False saving_here there1 (plan1 ! 1) world1 = (w', out, err)"
    using prod_cases3 by blast
  have "snd (snd (apply_action False saving_here there1 (plan1 ! 1) world1)) = Some ErrLocalChanged" by code_simp
  then have e: "err = Some ErrLocalChanged" using r by simp
  have b: "map_of base1 ''a'' = Some (file_row ''3:10'' ''3:11'')" "signature saved_a = ''4:50''" by code_simp+
  have a: "\<not> nd_is_dir saved_a" "\<not> agreed_here base1 ''a'' saved_a"
    using b by (simp_all add: saved_a_def file_node_def agreed_here_def file_row_def)
  have k: "keeps_file saving_here ''a'' saved_a" "saves_file saving_here ''a'' saved_a"
    by (simp_all add: keeps_file_def saves_file_def saving_here_def quiet_env_def update_conv')
  show ?thesis using local_versions_survive [OF plan1_in(2) a k(1) r] k(2) e r by simp
qed

section \<open>Versions made on the server\<close>

lemma ensure_remote_parent_keeps:
  "map_of remote q = Some n \<Longrightarrow> map_of (ensure_remote_parent env planned rel remote) q = Some n"
  using mkdir_all_keeps by (auto simp: ensure_remote_parent_def Let_def split: option.splits)

lemma upload_keeps:
  assumes "a \<in> set (plan local remote base opts)" and "a_kind a = ActionUpload" and "\<not> agreed_there base q f"
    and "\<not> nd_is_dir f"
    and "api_upload env refuses (a_rel a) n (expect_for a) there = (res, there')" and "map_of there q = Some f"
  shows "map_of there' q = Some f"
proof (rule ccontr)
  assume "map_of there' q \<noteq> Some f"
  then have q: "q = a_rel a" using api_upload_local [OF assms(5)] assms(6) by metis
  have "sig_at there q = signature f" using assms(6) by (rule sig_at_Some)
  with api_upload_local [OF assms(5)] assms(6) \<open>map_of there' q \<noteq> Some f\<close>
  have q: "q = a_rel a" "sig_at there q = a_remote_sig a" "a_remote_sig a \<noteq> []"
    unfolding q by (auto simp: expect_for_def split: if_splits)
  have "a_remote_sig a = sig_of (map_of remote (a_rel a))" using assms(1) by (auto simp: plan_iff)
  then obtain r where "map_of remote (a_rel a) = Some r" "signature f = signature r"
    using q assms(6) by (cases "map_of remote (a_rel a)") (auto simp: sig_of_def sig_at_Some)
  then show False using planned_kind [OF assms(1)] assms(2,3) q(1) by (auto simp: agreed_there_def)
qed

text \<open>What other people do to the server while an action runs: they leave a file alone, or save it.\<close>

definition keeps_there :: "(snapshot \<Rightarrow> snapshot) \<Rightarrow> string \<Rightarrow> node \<Rightarrow> bool" where
  "keeps_there g q f \<longleftrightarrow> (\<forall>side. map_of side q = Some f \<longrightarrow> map_of (g side) q = Some f)"

definition saves_there :: "(snapshot \<Rightarrow> snapshot) \<Rightarrow> string \<Rightarrow> node \<Rightarrow> bool" where
  "saves_there g q f \<longleftrightarrow> (\<forall>side. map_of (g side) q = Some f)"

text \<open>A file that a save made between the fetch of a conflict and the last upload, and that stayed.\<close>

definition saved_since_fetch :: "sync_env \<Rightarrow> string \<Rightarrow> node \<Rightarrow> bool" where
  "saved_since_fetch env q f \<longleftrightarrow>
     saves_there (en_after_fetch env) q f \<and> keeps_there (en_before_over env) q f \<or> saves_there (en_before_over env) q f"

definition copied_beside :: "outcome \<Rightarrow> sync_world \<Rightarrow> int \<Rightarrow> bool" where
  "copied_beside out w bytes \<longleftrightarrow>
     (\<exists>sd m. oc_side out = Some sd \<and> map_of (sw_local w) (so_rel sd) = Some m \<and> nd_size m = bytes)"

lemma copied_beside_installed:
  "oc_side out = Some sd \<Longrightarrow> sw_local w = install env (so_rel sd) n t here \<Longrightarrow> nd_size n = bytes \<Longrightarrow> copied_beside out w bytes"
  using install_at [of env "so_rel sd" n t here] unfolding copied_beside_def by force

lemma conflict_rescues:
  assumes "map_of remote (a_rel a) \<noteq> None" and "resolve_conflict pf env remote a w = (w', out, err)"
    and "\<not> nd_is_dir f"
  shows "(map_of (sw_remote w) q = Some f \<and> keeps_there (en_after_fetch env) q f \<and> keeps_there (en_before_over env) q f \<longrightarrow>
      map_of (sw_remote w') q = Some f \<or> q = a_rel a \<and> copied_beside out w' (nd_size f)) \<and>
    (oc_side out \<noteq> None \<and> saved_since_fetch env q f \<longrightarrow> map_of (sw_remote w') q = Some f \<or>
      q = a_rel a \<and> signature f = a_remote_sig a \<and> (0 \<le> a_remote_size a \<longrightarrow> copied_beside out w' (a_remote_size a)))"
proof (cases "sw_remote w' = sw_remote w \<and> oc_side out = None")
  case True
  then show ?thesis by simp
next
  case False
  then obtain here n where m: "mkdir_all (parent_dir (a_rel a)) (sw_local w) = Some here"
      "fetch env (a_rel a) (a_remote_size a) (sw_remote w) = Some n"
    using assms(2) by (auto simp: resolve_conflict_def failed_def no_outcome_def split: if_splits option.splits)
  let ?w = "w\<lparr>sw_local := en_here env here\<rparr>"
  have "keep_both pf env remote a n ?w = (w', out, err)"
    using assms(2) m False
    by (auto simp: resolve_conflict_def failed_def no_outcome_def Let_def split: if_splits option.splits bool.splits)
  from keep_both_sides [OF this] have "\<exists>rel sd there. sw_local w' = install env rel n (a_remote_mod a) (en_here env here) \<and>
      oc_side out = Some sd \<and> so_rel sd = rel \<and>
      (\<forall>q. map_of there q = map_of (en_after_fetch env (sw_remote w)) q \<or>
         q = rel \<and> map_of (en_after_fetch env (sw_remote w)) q = None) \<and>
      (\<forall>q. map_of (sw_remote w') q = map_of (en_before_over env there) q \<or>
         q = a_rel a \<and> sig_at (en_before_over env there) q = a_remote_sig a)"
  proof (elim disjE)
    assume "sw_remote w' = sw_remote ?w \<and> oc_side out = None \<and> (w' = ?w \<or> (\<exists>rel. map_of (sw_local ?w) rel = None \<and>
        sw_local w' = install env rel n (a_remote_mod a) (sw_local ?w)))"
    then show ?thesis using False by simp
  qed (simp, blast)
  then obtain rel sd there where k: "sw_local w' = install env rel n (a_remote_mod a) (en_here env here)"
      "oc_side out = Some sd" "so_rel sd = rel"
      "map_of there q = map_of (en_after_fetch env (sw_remote w)) q \<or>
         q = rel \<and> map_of (en_after_fetch env (sw_remote w)) q = None"
      "map_of (sw_remote w') q = map_of (en_before_over env there) q \<or>
         q = a_rel a \<and> sig_at (en_before_over env there) q = a_remote_sig a"
    by blast
  have copied: "copied_beside out w' (nd_size n)" 
    by (rule copied_beside_installed [OF k(2) _ refl, where env = env and t = "a_remote_mod a" and here = "en_here env here"]) (use k(1,3) in simp)
  have "nd_size n = nd_size f" if "q = a_rel a" "map_of (sw_remote w) q = Some f"
    using m(2) that by (auto simp: fetch_def split: if_splits)
  moreover have "nd_size n = a_remote_size a" if "0 \<le> a_remote_size a"
    using m(2) that by (auto simp: fetch_def split: if_splits option.splits)
  moreover have "map_of (sw_remote w') q = Some f \<or> q = a_rel a \<and> signature f = a_remote_sig a"
    if "map_of (en_before_over env there) q = Some f" using k(5) that by (auto simp: sig_at_Some)
  moreover have "map_of (en_before_over env there) q = Some f"
    if "map_of (en_after_fetch env (sw_remote w)) q = Some f" "keeps_there (en_before_over env) q f"
    using that k(4) by (auto simp: keeps_there_def)
  ultimately show ?thesis using copied by (auto simp: saved_since_fetch_def saves_there_def keeps_there_def)
qed

lemma other_actions_make_no_copy:
  assumes "apply_action pf env remote a w = (w', out, err)" and "\<not> (a_kind a = ActionConflict \<and> local_path_ok (a_rel a))"
  shows "oc_side out = None"
  using assms
  by (cases "a_kind a") (auto simp: apply_action_def failed_def no_outcome_def download_def delete_local_def uploaded_def Let_def
    split: option.splits if_splits prod.splits sum.splits)

lemma other_actions_keep:
  assumes "a \<in> set (plan local remote base opts)" and "a_kind a \<noteq> ActionDeleteRemot" and "\<not> nd_is_dir f"
    and "\<not> agreed_there base q f" and "apply_action pf env remote a w = (w', out, err)"
    and "\<not> (a_kind a = ActionConflict \<and> local_path_ok (a_rel a))"
  shows "map_of (en_there env (sw_remote w)) q = Some f \<longrightarrow> map_of (sw_remote w') q = Some f"
proof (cases "local_path_ok (a_rel a)")
  case False
  then show ?thesis using assms(5) by (auto simp: apply_action_def failed_def)
next
  case True
  show ?thesis
  proof (cases "a_kind a")
    case ActionUpload
    let ?there = "ensure_remote_parent env remote (a_rel a) (en_there env (sw_remote w))"
    have "sw_remote w' = ?there \<or>
      (\<exists>n res. api_upload env (en_refuses env) (a_rel a) n (expect_for a) ?there = (res, sw_remote w'))"
      using assms(5) True ActionUpload
      by (force simp: apply_action_def failed_def Let_def split: option.splits if_splits prod.splits sum.splits)
    then show ?thesis
      using upload_keeps [OF assms(1) ActionUpload assms(4,3)] ensure_remote_parent_keeps by metis
  next
    case ActionDownload
    then show ?thesis
      using assms(5) True by (auto simp: apply_action_def download_def failed_def Let_def split: option.splits if_splits)
  next
    case ActionDeleteLocal
    then show ?thesis
      using assms(5) True by (auto simp: apply_action_def delete_local_def failed_def Let_def split: if_splits)
  next
    case ActionMkdirLocal
    then show ?thesis using assms(5) True by (auto simp: apply_action_def Let_def split: option.splits)
  next
    case ActionMkdirRemote
    then show ?thesis
      using assms(5) True mkdir_all_keeps by (auto simp: apply_action_def Let_def split: option.splits if_splits)
  qed (use assms(2,6) True in simp_all)
qed

text \<open>C19. Nothing made on the server is overwritten: a file there that is not the version both sides
  agreed on, whoever saved it up to an action's request - before a conflict's fetch, or between
  the fetch and the last upload - and that other people then leave alone, is still there when an
  action other than a delete ends; or it is the version the conflict fetched (a save made since
  is never that one, unless it has the very signature the plan saw), and that was first written
  beside the person's own file, in its full length.\<close>
theorem server_versions_survive:
  assumes "a \<in> set (plan local remote base opts)" and "a_kind a \<noteq> ActionDeleteRemot" and "\<not> nd_is_dir f"
    and "\<not> agreed_there base q f" and "apply_action pf env remote a w = (w', out, err)"
  shows "(map_of (en_there env (sw_remote w)) q = Some f \<and>
        keeps_there (en_after_fetch env) q f \<and> keeps_there (en_before_over env) q f \<longrightarrow>
      map_of (sw_remote w') q = Some f \<or>
      a_kind a = ActionConflict \<and> q = a_rel a \<and> copied_beside out w' (nd_size f)) \<and>
    (oc_side out \<noteq> None \<and> saved_since_fetch env q f \<longrightarrow>
      map_of (sw_remote w') q = Some f \<or>
      q = a_rel a \<and> signature f = a_remote_sig a \<and> (0 \<le> a_remote_size a \<longrightarrow> copied_beside out w' (a_remote_size a)))"
proof -
  let ?w = "w\<lparr>sw_remote := en_there env (sw_remote w)\<rparr>"
  show ?thesis
  proof (cases "a_kind a = ActionConflict \<and> local_path_ok (a_rel a)")
    case True
    moreover have "map_of remote (a_rel a) \<noteq> None" using planned_kind [OF assms(1)] True by auto
    ultimately show ?thesis
      using conflict_rescues [of remote a pf env ?w w' out err f q] assms(3,5) by (simp add: apply_action_def)
  next
    case False
    then have side: "oc_side out = None" by (rule other_actions_make_no_copy [OF assms(5)])
    show ?thesis using side other_actions_keep [OF assms(1-5) False] by blast
  qed
qed

text \<open>Both sides changed \<open>c\<close>; after the fetch somebody saves it once more on the server.\<close>

definition saved_c :: node where "saved_c = file_node ''c'' 12 90"

definition here2 :: snapshot where "here2 = [(''c'', file_node ''c'' 7 60)]"
definition there2 :: snapshot where "there2 = [(''c'', file_node ''c'' 8 61)]"
definition base2 :: baseline where "base2 = [(''c'', file_row ''5:20'' ''5:30'')]"

definition saving_late :: sync_env where
  "saving_late = quiet_env\<lparr>en_before_over := AList.update ''c'' saved_c\<rparr>"

theorem server_versions_survive_witness:
  "case apply_action False saving_late there2 (plan here2 there2 base2 later_run ! 0) \<lparr>sw_local = here2, sw_remote = there2\<rparr> of
     (w', out, err) \<Rightarrow> map_of (sw_remote w') ''c'' = Some saved_c \<and> err = Some ErrRemoteChanged"
proof -
  let ?p = "plan here2 there2 base2 later_run" and ?w = "\<lparr>sw_local = here2, sw_remote = there2\<rparr>"
  obtain w' out err where r: "apply_action False saving_late there2 (?p ! 0) ?w = (w', out, err)"
    using prod_cases3 by blast
  have p: "length ?p = 1" "a_kind (?p ! 0) \<noteq> ActionDeleteRemot" "a_remote_sig (?p ! 0) \<noteq> signature saved_c"
    "oc_side (fst (snd (apply_action False saving_late there2 (?p ! 0) ?w))) \<noteq> None"
    "snd (snd (apply_action False saving_late there2 (?p ! 0) ?w)) = Some ErrRemoteChanged" by code_simp+
  then have i: "?p ! 0 \<in> set ?p" by simp
  have b: "map_of base2 ''c'' = Some (file_row ''5:20'' ''5:30'')" "signature saved_c = ''12:90''" by code_simp+
  have a: "\<not> nd_is_dir saved_c" "\<not> agreed_there base2 ''c'' saved_c"
    using b by (simp_all add: saved_c_def file_node_def agreed_there_def file_row_def)
  have s: "saved_since_fetch saving_late ''c'' saved_c"
    by (simp add: saved_since_fetch_def saves_there_def saving_late_def quiet_env_def update_conv')
  show ?thesis using server_versions_survive [OF i p(2) a r] s p r by auto
qed

text \<open>The one way past it. A folder gone here and left over on the server is removed there with everything in
  it, also with what was edited or added there since; the local half of the same step looks into
  the folder first. The plan downloads the edited file and deletes its folder in one pass, and
  the next pass finds the file gone from the server and unchanged here.\<close>

definition edited_there :: snapshot where
  "edited_there = [(''d'', dir_node ''d''), (''d/f'', file_node ''d/f'' 9 60)]"

definition base_d :: baseline where
  "base_d = [(''d'', dir_row), (''d/f'', file_row ''5:20'' ''5:30'')]"

lemma removed_folder_takes_edits:
  "map (\<lambda>a. (a_kind a, a_rel a)) (plan [] edited_there base_d later_run) =
     [(ActionDownload, ''d/f''), (ActionDeleteRemot, ''d'')]"
  "(case apply_plan False (\<lambda>_. quiet_env) (\<lambda>xs. xs) (plan [] edited_there base_d later_run) [] edited_there base_d
      (\<lparr>sw_local = [], sw_remote = edited_there\<rparr>, new_ledger base_d) of
    (w, l) \<Rightarrow> (sw_remote w, map (\<lambda>a. (a_kind a, a_rel a)) (plan (sw_local w) (sw_remote w) (lg_rows l) later_run))) =
     ([], [(ActionMkdirRemote, ''d''), (ActionDeleteLocal, ''d/f'')])"
  by code_simp+

section \<open>What the ledger records\<close>

lemma settle_rows [frame_simps]:
  "map_of (lg_rows (settle a oc l)) q =
    (if q \<noteq> a_rel a then map_of (lg_rows l) q
     else if oc_drop oc then None else case oc_row oc of Some row \<Rightarrow> Some row | None \<Rightarrow> map_of (lg_rows l) q)"
  by (auto simp: settle_def count_dirty_def drop_row_def set_row_def set_pending_def update_conv' delete_conv'
      split: option.splits)

lemma settle_row_rows [frame_simps]:
  "map_of (lg_rows (settle_row rel row l)) q = (if q = rel then Some row else map_of (lg_rows l) q)"
  by (simp add: settle_row_def count_dirty_def set_row_def update_conv')

lemma settle_side_rows [frame_simps]:
  "map_of (lg_rows (settle_side sd l)) q =
    (if q = so_rel sd \<and> so_uploaded sd \<and> so_row sd \<noteq> None then so_row sd else map_of (lg_rows l) q)"
  by (auto simp: settle_side_def count_dirty_def set_row_def set_pending_def update_conv' split: option.splits)

lemma uploaded_row:
  assumes "api_upload env refuses rel n expect remote = (Inr got, remote')"
  shows "oc_drop (uploaded a got) = False \<and> oc_side (uploaded a got) = None \<and>
    (\<forall>row. oc_row (uploaded a got) = Some row \<longrightarrow> row = file_row (a_local_sig a) (sig_at remote' rel))"
  using assms
  by (auto simp: api_upload_def uploaded_def no_outcome_def Let_def update_conv' sig_at_def sig_of_def file_node_def
      split: if_splits)

text \<open>A row an action may leave: the folder row, or the plan's signatures - except for the half the action
  itself wrote, which is what it left there, and the half a rescued conflict leaves open.\<close>

definition seen_row :: "action \<Rightarrow> sync_world \<Rightarrow> baseline_entry \<Rightarrow> bool" where
  "seen_row a w b \<longleftrightarrow> b = dir_row \<or>
     (be_local b = a_local_sig a \<or> be_local b = [] \<or> a_kind a = ActionDownload \<and> be_local b = sig_at (sw_local w) (a_rel a)) \<and>
     (be_remote b = a_remote_sig a \<or>
      (a_kind a = ActionUpload \<or> a_kind a = ActionConflict) \<and> be_remote b = sig_at (sw_remote w) (a_rel a))"

definition good_outcome :: "action \<Rightarrow> sync_world \<Rightarrow> outcome \<Rightarrow> bool" where
  "good_outcome a w oc \<longleftrightarrow>
     (case oc_row oc of None \<Rightarrow> True | Some b \<Rightarrow> seen_row a w b) \<and>
     (case oc_on_error oc of None \<Rightarrow> True | Some b \<Rightarrow> seen_row a w b) \<and>
     (case oc_side oc of None \<Rightarrow> True | Some sd \<Rightarrow> so_rel sd \<noteq> a_rel a)"

lemma good_failed: "failed w e = (w', oc, err) \<Longrightarrow> good_outcome a w' oc"
  by (auto simp: failed_def good_outcome_def no_outcome_def)

lemma good_uploaded:
  assumes "api_upload env refuses (a_rel a) n expect remote = (Inr got, sw_remote w)"
    and "a_kind a = ActionUpload \<or> a_kind a = ActionConflict"
  shows "good_outcome a w (uploaded a got)"
  using uploaded_row [OF assms(1), of a] assms(2)
  by (auto simp: good_outcome_def seen_row_def file_row_def uploaded_def no_outcome_def split: option.splits if_splits)

lemma good_upload_over:
  assumes "upload_over env a out w = (w', out', err)" and "a_kind a = ActionConflict"
    and "oc_row out = None" and "oc_on_error out = Some (file_row [] (a_remote_sig a))"
    and "case oc_side out of None \<Rightarrow> True | Some sd \<Rightarrow> so_rel sd \<noteq> a_rel a"
  shows "good_outcome a w' out'"
proof (cases "map_of (sw_local w) (a_rel a)")
  case None
  then show ?thesis using assms by (auto simp: upload_over_def Let_def good_outcome_def seen_row_def file_row_def)
next
  case (Some n)
  obtain res remote where u: "api_upload env (en_refuses env) (a_rel a) n (expect_for a) (en_before_over env (sw_remote w)) = (res, remote)"
    by fastforce
  show ?thesis
  proof (cases res)
    case (Inl e)
    then show ?thesis using assms Some u by (auto simp: upload_over_def Let_def good_outcome_def seen_row_def file_row_def)
  next
    case (Inr got)
    then have w': "w' = w\<lparr>sw_remote := remote\<rparr>" "oc_row out' = oc_row (uploaded a got)" "oc_on_error out' = None"
        "oc_side out' = oc_side out"
      using assms(1) Some u by (auto simp: upload_over_def Let_def)
    have "good_outcome a w' (uploaded a got)"
      by (rule good_uploaded [of env "en_refuses env" a n "expect_for a" "en_before_over env (sw_remote w)"]) (use u Inr w' assms(2) in auto)
    then show ?thesis using w' assms(5) by (simp add: good_outcome_def)
  qed
qed

lemma good_conflict:
  assumes "map_of remote (a_rel a) \<noteq> None" and "a_kind a = ActionConflict"
    and "resolve_conflict pf env remote a w = (w', out, err)"
  shows "good_outcome a w' out"
proof -
  consider (fail) w0 e where "failed w0 e = (w', out, err)"
    | (same) "out = no_outcome\<lparr>oc_identical := True, oc_row := Some (file_row (a_local_sig a) (a_remote_sig a))\<rparr>"
    | (held) "out = no_outcome\<lparr>oc_held := True\<rparr>"
    | (both) n w0 where "keep_both pf env remote a n w0 = (w', out, err)"
    using assms(3) by (auto simp: resolve_conflict_def Let_def split: if_splits option.splits bool.splits)
  then show ?thesis
  proof cases
    case fail
    then show ?thesis by (rule good_failed)
  next
    case both
    let ?dir = "parent_dir (a_rel a)"
    show ?thesis
    proof (cases "free_side_name (lstat_of env (sw_local w0) ?dir) ?dir (a_conflict_name a) remote 1")
      case None
      then show ?thesis using both good_failed by (auto simp: keep_both_def Let_def)
    next
      case (Some name)
      have "in_folder ?dir name \<noteq> a_rel a" using free_side_name_free [OF Some] assms(1) by auto
      then show ?thesis
        using both Some assms(2) good_failed
        by (auto simp: keep_both_def Let_def no_outcome_def split: if_splits prod.splits sum.splits
            elim!: good_upload_over)
    qed
  qed (auto simp: good_outcome_def seen_row_def file_row_def no_outcome_def)
qed

lemma good_apply:
  assumes "a \<in> set (plan local remote base opts)" and "apply_action pf env remote a w = (w', out, err)"
  shows "good_outcome a w' out"
proof (cases "local_path_ok (a_rel a)")
  case False
  then show ?thesis using assms(2) good_failed by (auto simp: apply_action_def)
next
  case True
  let ?w = "w\<lparr>sw_remote := en_there env (sw_remote w)\<rparr>"
  show ?thesis
  proof (cases "a_kind a")
    case ActionConflict
    moreover have "map_of remote (a_rel a) \<noteq> None" using planned_kind [OF assms(1)] ActionConflict by auto
    ultimately show ?thesis using good_conflict [of remote a pf env ?w] assms(2) True by (auto simp: apply_action_def)
  next
    case ActionUpload
    let ?there = "ensure_remote_parent env remote (a_rel a) (en_there env (sw_remote w))"
    have "(\<exists>w0 e. failed w0 e = (w', out, err)) \<or>
      (\<exists>n got. api_upload env (en_refuses env) (a_rel a) n (expect_for a) ?there = (Inr got, sw_remote w') \<and> out = uploaded a got)"
      using assms(2) True ActionUpload
      by (fastforce simp: apply_action_def Let_def split: option.splits if_splits prod.splits sum.splits)
    then show ?thesis using good_failed good_uploaded ActionUpload by metis
  next
    case ActionDownload
    then show ?thesis
      using assms(2) True good_failed
      by (auto simp: apply_action_def download_def Let_def good_outcome_def seen_row_def file_row_def no_outcome_def
          failed_def split: option.splits if_splits)
  qed (use assms(2) True in \<open>auto simp: apply_action_def delete_local_def failed_def Let_def good_outcome_def
      seen_row_def no_outcome_def split: option.splits if_splits\<close>)
qed

text \<open>The ledger swallows no edit: an action that was raced leaves its path's row as it was, and any new
  row holds the signatures of the plan, except for a half the action itself wrote, which holds
  what it left there - so a change made meanwhile differs from it and comes back as a change.\<close>
theorem ledger_records_what_was_seen:
  assumes "a \<in> set (plan local remote base opts)" and "apply_action pf env remote a w = (w', out, err)"
  shows "case map_of (lg_rows (record_outcome a out err l)) (a_rel a) of
      None \<Rightarrow> map_of (lg_rows l) (a_rel a) = None \<or> err = None \<and> oc_drop out
    | Some b \<Rightarrow> map_of (lg_rows l) (a_rel a) = Some b \<or>
        err \<noteq> Some ErrLocalChanged \<and> err \<noteq> Some ErrRemoteChanged \<and> seen_row a w' b"
proof -
  have g: "good_outcome a w' out" by (rule good_apply [OF assms(1,2)])
  let ?l1 = "case oc_side out of None \<Rightarrow> l | Some sd \<Rightarrow> settle_side sd l"
  have l1: "map_of (lg_rows ?l1) (a_rel a) = map_of (lg_rows l) (a_rel a)"
    using g by (auto simp: good_outcome_def settle_side_rows split: option.splits)
  then show ?thesis
    using g by (auto simp: record_outcome_def Let_def settle_rows settle_row_rows good_outcome_def split: option.splits)
qed

theorem ledger_records_what_was_seen_witness:
  "case apply_action False saving_here there1 (plan1 ! 1) world1 of
     (w', out, err) \<Rightarrow> map_of (lg_rows (record_outcome (plan1 ! 1) out err (new_ledger base1))) ''a'' =
       Some (file_row ''3:10'' ''3:11'')"
proof -
  obtain w' out err where r: "apply_action False saving_here there1 (plan1 ! 1) world1 = (w', out, err)"
    using prod_cases3 by blast
  have "snd (snd (apply_action False saving_here there1 (plan1 ! 1) world1)) = Some ErrLocalChanged" by code_simp
  then have e: "err = Some ErrLocalChanged" using r by simp
  have b: "map_of (lg_rows (new_ledger base1)) ''a'' = Some (file_row ''3:10'' ''3:11'')" "a_rel (plan1 ! 1) = ''a''"
    by code_simp+
  show ?thesis
    using ledger_records_what_was_seen [OF plan1_in(2) r, of "new_ledger base1"] e r b
    by (simp split: option.splits)
qed

end
