(* ===== verification/SyncPass.thy ===== *)
theory SyncPass
  imports SyncSafety
begin

text \<open>
  Whole passes: what a pair that waits for a decision withholds, and that a quiet pass - nobody
  interferes, nothing refuses - leaves nothing to do.
\<close>

section \<open>Holding\<close>

lemma hold_conflict_remote:
  assumes "resolve_conflict pf env remote a w = (w', out, err)" and "a_hold a"
  shows "sw_remote w' = sw_remote w"
  using assms by (auto simp: resolve_conflict_def failed_def Let_def split: if_splits option.splits bool.splits)

text \<open>A hold sends nothing unknown: on a pair that waits for its person's decision - one already
  waiting, or a first run that would send more than a hundred files to a server folder that has
  some - no action that is left makes or writes anything on the server for a path the baseline
  does not know, and every file and folder held back is listed with its signature.\<close>
theorem hold_sends_nothing_unknown:
  assumes "hold_local_only (plan local remote base opts) base local = (kept, held)"
    and "a \<in> set kept" and "map_of base (a_rel a) = None"
    and "apply_action pf env remote a w = (w', out, err)"
  shows "sw_remote w' = en_there env (sw_remote w) \<and>
    (\<forall>b \<in> set (plan local remote base opts). map_of base (a_rel b) = None \<and>
       (a_kind b = ActionUpload \<or> a_kind b = ActionMkdirRemote) \<longrightarrow> (a_rel b, sig_at local (a_rel b)) \<in> set held) \<and>
    (fst (should_hold pf acts remote first holding) \<longleftrightarrow> holding \<or> first \<and> \<not> pf \<and>
       100 < length (filter (\<lambda>a. a_kind a = ActionUpload) acts) \<and> (\<exists>(k, n) \<in> set remote. \<not> nd_is_dir n))"
proof -
  let ?w = "w\<lparr>sw_remote := en_there env (sw_remote w)\<rparr>"
  obtain b where b: "b \<in> set (plan local remote base opts)" "\<not> withheld base b"
      "a = (if a_kind b = ActionConflict \<and> map_of base (a_rel b) = None then b\<lparr>a_hold := True\<rparr> else b)"
    using assms(1,2) by (auto simp: hold_local_only_def)
  then have eq: "a_rel a = a_rel b" "a_kind a = a_kind b" by auto
  have "sw_remote w' = en_there env (sw_remote w)"
  proof (cases "a_kind a")
    case ActionConflict
    then have "a_hold a" using b(3) eq assms(3) by auto
    then show ?thesis
      using hold_conflict_remote [of pf env remote a ?w w' out err] assms(4) ActionConflict
      by (cases "local_path_ok (a_rel a)") (auto simp: apply_action_def failed_def)
  qed (use assms(3,4) b(2) eq planned_kind [OF b(1)] in
      \<open>auto simp: withheld_def apply_action_def download_def delete_local_def failed_def Let_def
         split: if_splits option.splits\<close>)
  moreover have "(a_rel b, sig_at local (a_rel b)) \<in> set held"
    if "b \<in> set (plan local remote base opts)" "map_of base (a_rel b) = None"
      "a_kind b = ActionUpload \<or> a_kind b = ActionMkdirRemote" for b
  proof -
    have "withheld base b" using that by (simp add: withheld_def)
    moreover have "held_sig local (a_rel b) = sig_at local (a_rel b)"
      using planned_kind [OF that(1)] that(3) by (auto simp: held_sig_def sig_at_def sig_of_def)
    ultimately have "(a_rel b, sig_at local (a_rel b)) \<in>
        (\<lambda>a. (a_rel a, held_sig local (a_rel a))) ` set (filter (withheld base) (plan local remote base opts))"
      using that(1) by (intro image_eqI [of _ _ b]) simp_all
    then show ?thesis using assms(1) by (auto simp: hold_local_only_def)
  qed
  moreover have "fst (should_hold pf acts remote first holding) \<longleftrightarrow> holding \<or> first \<and> \<not> pf \<and>
       100 < length (filter (\<lambda>a. a_kind a = ActionUpload) acts) \<and> (\<exists>(k, n) \<in> set remote. \<not> nd_is_dir n)"
    by (auto simp: should_hold_def MassUploadThreshold_def list_ex_iff)
  ultimately show ?thesis by blast
qed

theorem hold_sends_nothing_unknown_witness:
  "let p = plan [(''u'', file_node ''u'' 1 2)] [(''n'', file_node ''n'' 3 4)] [] later_run;
       (kept, held) = hold_local_only p [] [(''u'', file_node ''u'' 1 2)]
   in sw_remote (fst (apply_action False quiet_env [(''n'', file_node ''n'' 3 4)] (hd kept)
        \<lparr>sw_local = [(''u'', file_node ''u'' 1 2)], sw_remote = [(''n'', file_node ''n'' 3 4)]\<rparr>)) =
        [(''n'', file_node ''n'' 3 4)] \<and>
      (''u'', ''1:2'') \<in> set held"
proof -
  let ?l = "[(''u'', file_node ''u'' 1 2)]" and ?r = "[(''n'', file_node ''n'' 3 4)]"
  let ?p = "plan ?l ?r [] later_run" and ?w = "\<lparr>sw_local = ?l, sw_remote = ?r\<rparr>"
  obtain kept held where h: "hold_local_only ?p [] ?l = (kept, held)" by fastforce
  have "map a_rel (fst (hold_local_only ?p [] ?l)) = [''n'']" by code_simp
  then have k: "hd kept \<in> set kept" using h by (cases kept) auto
  obtain w' out err where r: "apply_action False quiet_env ?r (hd kept) ?w = (w', out, err)"
    using prod_cases3 by blast
  have up: "map (\<lambda>a. (a_rel a, a_kind a)) ?p = [(''n'', ActionDownload), (''u'', ActionUpload)]" by code_simp
  then have u: "?p ! 1 \<in> set ?p" "a_rel (?p ! 1) = ''u''" "a_kind (?p ! 1) = ActionUpload"
    by (cases ?p; cases "tl ?p"; simp)+
  have sig: "sig_at ?l ''u'' = ''1:2''" by code_simp
  have none: "map_of [] (a_rel (hd kept)) = (None :: baseline_entry option)" by simp
  note all = hold_sends_nothing_unknown [OF h k none r, of "[]" False False]
  have "(a_rel (?p ! 1), sig_at ?l (a_rel (?p ! 1))) \<in> set held"
    using conjunct1 [OF conjunct2 [OF all]] u by fastforce
  moreover have "sw_remote w' = ?r" using conjunct1 [OF all] by (simp add: quiet_env_def)
  ultimately show ?thesis using h r u(2) sig by simp
qed

section \<open>Well-formed trees\<close>

lemma local_path_segs: "local_path_ok k \<Longrightarrow> s \<in> set (split_on slash k) \<Longrightarrow> seg_ok s"
  using split_on_no_sep [of s slash k] by (auto simp: local_path_ok_def seg_ok_def list_all_iff)

lemma clean_segs_trailing:
  "\<forall>s \<in> set ss. seg_ok s \<Longrightarrow> clean_segs r out (ss @ [[]]) = rev out @ ss"
  by (induction ss arbitrary: out) (auto simp: seg_ok_def)

lemma parent_dir_join:
  assumes "\<forall>s \<in> set ss. seg_ok s" and "seg_ok x"
  shows "parent_dir (join slash (ss @ [x])) = join slash ss"
proof (cases "ss = []")
  case True
  have "dropWhile (\<lambda>c. c \<noteq> slash) (rev x) = []"
    using assms(2) by (auto simp: dropWhile_eq_Nil_conv seg_ok_def)
  then have "path_dir x = ''.''" by (simp only: path_dir_def path_clean_def rev.simps list.case)
  then show ?thesis using True by (simp add: parent_dir_def)
next
  case False
  note j = join_last_ok [OF False assms(1)]
  have "dropWhile (\<lambda>c. c \<noteq> slash) (rev x @ slash # rev (join slash ss)) = slash # rev (join slash ss)"
    using assms(2) by (subst dropWhile_append2) (auto simp: seg_ok_def)
  moreover have "split_on slash (join slash ss @ [slash]) = ss @ [[]]"
    using assms(1) False by (simp add: split_on_append split_join seg_ok_def)
  moreover have "clean_segs False [] (ss @ [[]]) = ss" using clean_segs_trailing [OF assms(1), of False "[]"] by simp
  ultimately have "path_dir (join slash (ss @ [x])) = join slash ss"
    using False j by (cases "join slash ss") (auto simp: path_dir_def path_clean_def join_append)
  moreover have "join slash ss \<noteq> ''.''"
  proof
    assume "join slash ss = ''.''"
    then have "split_on slash (join slash ss) = [''.'']" by simp
    then show False using assms(1) False by (simp add: split_join seg_ok_def)
  qed
  ultimately show ?thesis using j by (auto simp: parent_dir_def Let_def)
qed

lemma local_path_cases:
  assumes "local_path_ok k"
  obtains ss x where "k = join slash (ss @ [x])" "\<forall>s \<in> set (ss @ [x]). seg_ok s" "split_on slash k = ss @ [x]"
  using that [of "butlast (split_on slash k)" "last (split_on slash k)"] local_path_segs [OF assms]
    join_split [of slash k] by simp

lemma dirs_of_join:
  "\<forall>s \<in> set ss. seg_ok s \<Longrightarrow> dirs_of (join slash ss) = map (\<lambda>i. join slash (take i ss)) [1 ..< Suc (length ss)]"
  using join_last_ok [of ss] by (cases "ss = []") (auto simp: dirs_of_def split_join seg_ok_def)

lemma dirs_of_path:
  assumes "local_path_ok k"
  shows "dirs_of k = dirs_of (parent_dir k) @ [k]"
proof -
  obtain ss x where k: "k = join slash (ss @ [x])" "\<forall>s \<in> set (ss @ [x]). seg_ok s"
    using local_path_cases [OF assms] by metis
  then have "parent_dir k = join slash ss" using parent_dir_join [of ss x] by simp
  moreover have "map (\<lambda>i. join slash (take i (ss @ [x]))) [1 ..< Suc (length (ss @ [x]))] =
      map (\<lambda>i. join slash (take i ss)) [1 ..< Suc (length ss)] @ [k]"
    using k(1) by auto
  ultimately show ?thesis using k dirs_of_join [of "ss @ [x]"] dirs_of_join [of ss] by simp
qed

lemma ancestor_below:
  assumes "local_path_ok k" and "d \<in> set (dirs_of (parent_dir k))"
  shows "below d k \<and> depth d < depth k \<and> d \<noteq> k"
proof -
  obtain ss x where k: "k = join slash (ss @ [x])" "\<forall>s \<in> set (ss @ [x]). seg_ok s"
    using local_path_cases [OF assms(1)] by metis
  then have "parent_dir k = join slash ss" using parent_dir_join [of ss x] by simp
  then obtain i where i: "1 \<le> i" "i \<le> length ss" "d = join slash (take i ss)"
    using assms(2) k dirs_of_join [of ss] by auto
  have "take i ss \<noteq> []" "ss @ [x] = take i ss @ (drop i ss @ [x])" using i by (cases ss; simp)+
  then have "k = d @ slash # join slash (drop i ss @ [x])"
    unfolding i(3) k(1) by (metis append_is_Nil_conv join_append not_Cons_self2)
  then show ?thesis by (auto simp: below_def has_prefix_iff depth_def count_byte_def)
qed

definition tree_ok :: "snapshot \<Rightarrow> bool" where
  "tree_ok side \<longleftrightarrow> list_all (\<lambda>(k, _). local_path_ok k \<and>
     list_all (\<lambda>d. case map_of side d of None \<Rightarrow> False | Some m \<Rightarrow> nd_is_dir m) (dirs_of (parent_dir k))) side"

definition is_dir_at :: "snapshot \<Rightarrow> string \<Rightarrow> bool" where
  "is_dir_at side d \<longleftrightarrow> (case map_of side d of None \<Rightarrow> False | Some m \<Rightarrow> nd_is_dir m)"

lemma tree_ok_at:
  "tree_ok side \<Longrightarrow> map_of side k = Some n \<Longrightarrow>
    local_path_ok k \<and> (\<forall>d \<in> set (dirs_of (parent_dir k)). is_dir_at side d)"
  using map_of_SomeD [of side k n] by (fastforce simp: tree_ok_def is_dir_at_def list_all_iff)

lemma below_ancestor:
  assumes "local_path_ok k" and "below d k" and "local_path_ok d"
  shows "d \<in> set (dirs_of (parent_dir k))"
proof -
  obtain ss x where k: "k = join slash (ss @ [x])" "\<forall>s \<in> set (ss @ [x]). seg_ok s"
    using local_path_cases [OF assms(1)] by metis
  obtain ts y where d: "d = join slash (ts @ [y])" "\<forall>s \<in> set (ts @ [y]). seg_ok s"
    using local_path_cases [OF assms(3)] by metis
  have "prefix (ts @ [y]) (ss @ [x])"
    using prefix_join_slash [OF d(2) k(2)] assms(2) k(1) d(1) by (auto simp: below_def)
  moreover have "ts @ [y] \<noteq> ss @ [x]"
    using assms(2) k(1) d(1) by (auto simp: below_def has_prefix_iff prefix_def)
  ultimately have p: "prefix (ts @ [y]) ss" by (metis prefix_snoc)
  have "parent_dir k = join slash ss" using k parent_dir_join [of ss x] by simp
  moreover have "take (length (ts @ [y])) ss = ts @ [y]" "length (ts @ [y]) \<le> length ss"
    using p by (auto simp: prefix_def)
  moreover have "dirs_of (join slash ss) = map (\<lambda>i. join slash (take i ss)) [1 ..< Suc (length ss)]"
    using k(2) by (intro dirs_of_join) simp
  ultimately show ?thesis
    unfolding d(1) by (simp del: upt_Suc, intro image_eqI [of _ _ "length (ts @ [y])"]) simp_all
qed

lemma make_dirs_there: "\<forall>d \<in> set ds. is_dir_at side d \<Longrightarrow> make_dirs ds side = Some side"
  by (induction ds) (auto simp: is_dir_at_def split: option.splits)

lemma mkdir_all_there: "\<forall>d \<in> set (dirs_of p). is_dir_at side d \<Longrightarrow> mkdir_all p side = Some side"
  by (simp add: mkdir_all_def make_dirs_there)

lemma make_dirs_append:
  "make_dirs (ds @ es) side = (case make_dirs ds side of None \<Rightarrow> None | Some side' \<Rightarrow> make_dirs es side')"
  by (induction ds side rule: make_dirs.induct) (auto split: option.splits)

lemma mkdir_all_new:
  assumes "local_path_ok k" and "\<forall>d \<in> set (dirs_of (parent_dir k)). is_dir_at side d" and "map_of side k = None"
  shows "mkdir_all k side = Some (side @ [(k, dir_node k)])"
  using assms by (simp add: mkdir_all_def dirs_of_path make_dirs_append make_dirs_there)

end
