(* ===== verification/SyncQuiet.thy ===== *)
theory SyncQuiet
  imports SyncPass
begin

text \<open>
  A quiet pass settles everything: nobody interferes, neither disk nor server refuses, the server
  tells what it stored. The steps of such a pass touch the path of their action and nothing
  else, provided the folders above it are there and, for a delete, nothing is left below it;
  that these hold when a step's turn comes is what the order of the plan is for.
\<close>

section \<open>One quiet step\<close>

definition calm :: "sync_env \<Rightarrow> bool" where
  "calm env \<longleftrightarrow> (\<forall>side. en_here env side = side) \<and> (\<forall>side. en_there env side = side) \<and>
     \<not> en_disk_fails env \<and> \<not> en_rename_fails env \<and> \<not> en_refuses env \<and> en_tells env \<and> \<not> en_untracked env"

definition untouched :: "string \<Rightarrow> sync_world \<times> ledger \<Rightarrow> sync_world \<times> ledger \<Rightarrow> bool" where
  "untouched rel s s' \<longleftrightarrow> (\<forall>q. q \<noteq> rel \<longrightarrow>
     map_of (sw_local (fst s')) q = map_of (sw_local (fst s)) q \<and>
     map_of (sw_remote (fst s')) q = map_of (sw_remote (fst s)) q \<and>
     map_of (lg_rows (snd s')) q = map_of (lg_rows (snd s)) q)"

text \<open>What an action leaves at its path: both folders, both files as recorded, or nothing.\<close>

definition settled :: "action \<Rightarrow> sync_world \<times> ledger \<Rightarrow> bool" where
  "settled a s \<longleftrightarrow> (case a_kind a of
       ActionMkdirLocal \<Rightarrow> is_dir_at (sw_local (fst s)) (a_rel a) \<and> is_dir_at (sw_remote (fst s)) (a_rel a)
     | ActionMkdirRemote \<Rightarrow> is_dir_at (sw_local (fst s)) (a_rel a) \<and> is_dir_at (sw_remote (fst s)) (a_rel a)
     | ActionDeleteLocal \<Rightarrow> map_of (sw_local (fst s)) (a_rel a) = None \<and> map_of (sw_remote (fst s)) (a_rel a) = None
     | ActionDeleteRemot \<Rightarrow> map_of (sw_local (fst s)) (a_rel a) = None \<and> map_of (sw_remote (fst s)) (a_rel a) = None
     | _ \<Rightarrow> (\<exists>l r. map_of (sw_local (fst s)) (a_rel a) = Some l \<and> map_of (sw_remote (fst s)) (a_rel a) = Some r \<and>
         \<not> nd_is_dir l \<and> \<not> nd_is_dir r \<and>
         map_of (lg_rows (snd s)) (a_rel a) = Some (file_row (signature l) (signature r))))"

text \<open>What a step needs of the tree when its turn comes.\<close>

definition ready :: "action \<Rightarrow> sync_world \<Rightarrow> bool" where
  "ready a w \<longleftrightarrow> (case a_kind a of
       ActionMkdirLocal \<Rightarrow> (\<forall>d \<in> set (dirs_of (parent_dir (a_rel a))). is_dir_at (sw_local w) d)
     | ActionDownload \<Rightarrow> (\<forall>d \<in> set (dirs_of (parent_dir (a_rel a))). is_dir_at (sw_local w) d)
     | ActionMkdirRemote \<Rightarrow> (\<forall>d \<in> set (dirs_of (parent_dir (a_rel a))). is_dir_at (sw_remote w) d)
     | ActionUpload \<Rightarrow> (\<forall>d \<in> set (dirs_of (parent_dir (a_rel a))). is_dir_at (sw_remote w) d)
     | ActionDeleteLocal \<Rightarrow> (\<forall>q. below (a_rel a) q \<longrightarrow> map_of (sw_local w) q = None)
     | ActionDeleteRemot \<Rightarrow> (\<forall>q. below (a_rel a) q \<longrightarrow> map_of (sw_remote w) q = None)
     | ActionConflict \<Rightarrow> False)"

lemma calm_simps:
  "calm env \<Longrightarrow> en_here env side = side" "calm env \<Longrightarrow> en_there env side = side"
  "calm env \<Longrightarrow> \<not> en_disk_fails env" "calm env \<Longrightarrow> \<not> en_rename_fails env"
  "calm env \<Longrightarrow> \<not> en_refuses env" "calm env \<Longrightarrow> en_tells env" "calm env \<Longrightarrow> \<not> en_untracked env"
  by (auto simp: calm_def)

text \<open>The turn of a planned action in a quiet pass: nothing happened to its path yet.\<close>

definition its_turn :: "snapshot \<Rightarrow> snapshot \<Rightarrow> baseline \<Rightarrow> options \<Rightarrow> action \<Rightarrow> sync_world \<Rightarrow> bool" where
  "its_turn local remote base opts a w \<longleftrightarrow> a \<in> set (plan local remote base opts) \<and> local_path_ok (a_rel a) \<and>
     map_of (sw_local w) (a_rel a) = map_of local (a_rel a) \<and>
     map_of (sw_remote w) (a_rel a) = map_of remote (a_rel a) \<and> ready a w"

lemma its_turnD:
  assumes "its_turn local remote base opts a w"
  shows "a \<in> set (plan local remote base opts)" "local_path_ok (a_rel a)"
    "map_of (sw_local w) (a_rel a) = map_of local (a_rel a)"
    "map_of (sw_remote w) (a_rel a) = map_of remote (a_rel a)" "ready a w"
    "a_local_sig a = sig_at (sw_local w) (a_rel a)" "a_remote_sig a = sig_at (sw_remote w) (a_rel a)"
  using assms by (auto simp: its_turn_def plan_iff sig_at_def)

lemma quiet_mkdir:
  assumes t: "its_turn local remote base opts a w" and calm: "calm env" and k: "a_kind a = ActionMkdirLocal \<or> a_kind a = ActionMkdirRemote"
  shows "untouched (a_rel a) (w, l) (run_one pf (\<lambda>_. env) remote (w, l) a) \<and>
    settled a (run_one pf (\<lambda>_. env) remote (w, l) a)"
  using k planned_kind [OF its_turnD(1) [OF t]] its_turnD(5) [OF t] its_turnD(2) [OF t] its_turnD(3) [OF t] its_turnD(4) [OF t]
  by (auto simp: run_one_def apply_action_def calm_simps [OF calm] ready_def mkdir_all_new untouched_def settled_def
      record_outcome_def no_outcome_def settle_rows is_dir_at_def dir_node_def Let_def map_add_def split: option.splits)

lemma quiet_download:
  assumes t: "its_turn local remote base opts a w" and calm: "calm env" and k: "a_kind a = ActionDownload"
  shows "untouched (a_rel a) (w, l) (run_one pf (\<lambda>_. env) remote (w, l) a) \<and>
    settled a (run_one pf (\<lambda>_. env) remote (w, l) a)"
proof -
  obtain r where r: "map_of remote (a_rel a) = Some r" "\<not> nd_is_dir r" "a_remote_size a = nd_size r"
    using planned_kind [OF its_turnD(1) [OF t]] k by auto
  have d: "a_local_sig a \<noteq> dir_sig"
    using planned_kind [OF its_turnD(1) [OF t]] k its_turnD(3) [OF t] its_turnD(6) [OF t] signature_dir
    by (cases "map_of local (a_rel a)") (auto simp: sig_at_def sig_of_def dir_sig_def)
  have f: "fetch env (a_rel a) (a_remote_size a) (sw_remote w) = Some r"
    using r its_turnD(4) [OF t] by (simp add: fetch_def calm_simps [OF calm])
  have m: "mkdir_all (parent_dir (a_rel a)) (sw_local w) = Some (sw_local w)"
    using its_turnD(5) [OF t] k by (intro mkdir_all_there) (simp add: ready_def)
  have s: "still_as_planned (sw_local w) (a_rel a) (a_local_sig a)"
    using its_turnD(6) [OF t] d by (simp add: still_as_planned_def)
  obtain n where n: "map_of (install env (a_rel a) r (a_remote_mod a) (sw_local w)) (a_rel a) = Some n" "\<not> nd_is_dir n"
    using install_at by blast
  show ?thesis
    using k its_turnD(2) [OF t] f m s r n its_turnD(4) [OF t] its_turnD(7) [OF t]
    by (auto simp: run_one_def apply_action_def download_def calm_simps [OF calm] untouched_def settled_def
        record_outcome_def no_outcome_def settle_rows install_keeps sig_at_Some Let_def)
qed

lemma quiet_upload:
  assumes t: "its_turn local remote base opts a w" and calm: "calm env" and k: "a_kind a = ActionUpload"
  shows "untouched (a_rel a) (w, l) (run_one pf (\<lambda>_. env) remote (w, l) a) \<and>
    settled a (run_one pf (\<lambda>_. env) remote (w, l) a)"
proof -
  obtain n where n: "map_of local (a_rel a) = Some n" "\<not> nd_is_dir n"
    using planned_kind [OF its_turnD(1) [OF t]] k by auto
  have p: "ensure_remote_parent env remote (a_rel a) (sw_remote w) = sw_remote w"
    using its_turnD(5) [OF t] k mkdir_all_there [of "parent_dir (a_rel a)" "sw_remote w"]
    by (simp add: ensure_remote_parent_def ready_def Let_def)
  let ?new = "file_node (a_rel a) (nd_size n) (en_stamp env)"
  have u: "api_upload env False (a_rel a) n (expect_for a) (sw_remote w) =
      (Inr (Some ?new), AList.update (a_rel a) ?new (sw_remote w))"
    using its_turnD(7) [OF t] by (auto simp: api_upload_def expect_for_def Let_def calm_simps [OF calm])
  show ?thesis
    using k its_turnD(2) [OF t] n p u its_turnD(3) [OF t] its_turnD(6) [OF t]
    by (auto simp: run_one_def apply_action_def calm_simps [OF calm] untouched_def settled_def
        record_outcome_def uploaded_def no_outcome_def settle_rows sig_at_Some update_conv' file_node_def Let_def)
qed

lemma quiet_delete:
  assumes t: "its_turn local remote base opts a w" and calm: "calm env" and k: "is_delete (a_kind a)"
  shows "untouched (a_rel a) (w, l) (run_one pf (\<lambda>_. env) remote (w, l) a) \<and>
    settled a (run_one pf (\<lambda>_. env) remote (w, l) a)"
proof (cases "a_kind a = ActionDeleteLocal")
  case True
  have below: "map_of (sw_local w) q = None" if "below (a_rel a) q" for q
    using its_turnD(5) [OF t] True that by (simp add: ready_def)
  have "\<not> list_ex (\<lambda>(k, _). below (a_rel a) k) (sw_local w)"
    using below by (auto simp: list_ex_iff map_of_eq_None_iff) (metis fst_conv image_eqI)
  then have s: "still_as_planned (sw_local w) (a_rel a) (a_local_sig a)"
    using its_turnD(6) [OF t] by (simp add: still_as_planned_def)
  have "map_of (sw_remote w) (a_rel a) = None" using planned_kind [OF its_turnD(1) [OF t]] True its_turnD(4) [OF t] by simp
  then show ?thesis
    using True its_turnD(2) [OF t] s below
    by (auto simp: run_one_def apply_action_def delete_local_def calm_simps [OF calm] untouched_def settled_def
        record_outcome_def no_outcome_def settle_rows remove_tree_at delete_conv' Let_def)
next
  case False
  then have k: "a_kind a = ActionDeleteRemot" using k by (simp add: is_delete_def)
  have below: "map_of (sw_remote w) q = None" if "below (a_rel a) q" for q
    using its_turnD(5) [OF t] k that by (simp add: ready_def)
  have "map_of (sw_local w) (a_rel a) = None" using planned_kind [OF its_turnD(1) [OF t]] k its_turnD(3) [OF t] by simp
  then show ?thesis
    using k its_turnD(2) [OF t] below
    by (auto simp: run_one_def apply_action_def calm_simps [OF calm] untouched_def settled_def
        record_outcome_def no_outcome_def settle_rows remove_tree_at Let_def)
qed

lemma quiet_step:
  assumes t: "its_turn local remote base opts a w" and calm: "calm env"
  shows "untouched (a_rel a) (w, l) (run_one pf (\<lambda>_. env) remote (w, l) a) \<and>
    settled a (run_one pf (\<lambda>_. env) remote (w, l) a)"
proof (cases "a_kind a = ActionConflict")
  case True
  then show ?thesis using its_turnD(5) [OF t] by (simp add: ready_def)
next
  case False
  then show ?thesis
    using quiet_mkdir [OF t calm] quiet_download [OF t calm] quiet_upload [OF t calm] quiet_delete [OF t calm]
    by (cases "a_kind a") (auto simp: is_delete_def)
qed

section \<open>Whose turn it is\<close>

definition is_mkdir :: "action_kind \<Rightarrow> bool" where
  "is_mkdir k \<longleftrightarrow> k = ActionMkdirLocal \<or> k = ActionMkdirRemote"

definition comes_first :: "action \<Rightarrow> action \<Rightarrow> bool" where
  "comes_first b a \<longleftrightarrow>
     is_mkdir (a_kind b) \<and> (\<not> is_mkdir (a_kind a) \<or> depth (a_rel b) < depth (a_rel a)) \<or>
     is_delete (a_kind b) \<and> is_delete (a_kind a) \<and> depth (a_rel a) < depth (a_rel b)"

definition quiet_inv :: "snapshot \<Rightarrow> snapshot \<Rightarrow> baseline \<Rightarrow> action set \<Rightarrow> sync_world \<times> ledger \<Rightarrow> bool" where
  "quiet_inv local remote base done s \<longleftrightarrow> (\<forall>a \<in> done. settled a s) \<and>
     (\<forall>q. q \<notin> a_rel ` done \<longrightarrow> map_of (sw_local (fst s)) q = map_of local q \<and>
        map_of (sw_remote (fst s)) q = map_of remote q \<and> map_of (lg_rows (snd s)) q = map_of base q)"

text \<open>What may be synchronised without a question: both sides are trees, nothing is in conflict, and a
  folder that goes holds nothing that stays.\<close>

definition cleared :: "action list \<Rightarrow> snapshot \<Rightarrow> string \<Rightarrow> bool" where
  "cleared p side rel \<longleftrightarrow> list_all (\<lambda>(q, _). below rel q \<longrightarrow> list_ex (\<lambda>b. a_rel b = q \<and> is_delete (a_kind b)) p) side"

definition no_questions :: "snapshot \<Rightarrow> snapshot \<Rightarrow> action list \<Rightarrow> bool" where
  "no_questions local remote p \<longleftrightarrow> tree_ok local \<and> tree_ok remote \<and>
     list_all (\<lambda>a. a_kind a \<noteq> ActionConflict \<and>
       (a_kind a = ActionDeleteLocal \<longrightarrow> cleared p local (a_rel a)) \<and>
       (a_kind a = ActionDeleteRemot \<longrightarrow> cleared p remote (a_rel a))) p"

lemma no_questionsD:
  assumes "no_questions local remote p"
  shows "tree_ok local" "tree_ok remote" "a \<in> set p \<Longrightarrow> a_kind a \<noteq> ActionConflict"
    "a \<in> set p \<Longrightarrow> a_kind a = ActionDeleteLocal \<Longrightarrow> below (a_rel a) q \<Longrightarrow> map_of local q \<noteq> None \<Longrightarrow>
      \<exists>b \<in> set p. a_rel b = q \<and> is_delete (a_kind b)"
    "a \<in> set p \<Longrightarrow> a_kind a = ActionDeleteRemot \<Longrightarrow> below (a_rel a) q \<Longrightarrow> map_of remote q \<noteq> None \<Longrightarrow>
      \<exists>b \<in> set p. a_rel b = q \<and> is_delete (a_kind b)"
  using assms by (fastforce simp: no_questions_def cleared_def list_all_iff list_ex_iff dest: map_of_SomeD)+

lemma plan_unique:
  "a \<in> set (plan local remote base opts) \<Longrightarrow> b \<in> set (plan local remote base opts) \<Longrightarrow> a_rel a = a_rel b \<Longrightarrow> a = b"
  using plan_distinct [of local remote base opts] by (auto simp: distinct_map dest: inj_onD)

lemma plan_covers:
  assumes "plan_at local remote base opts q \<noteq> None"
  obtains b where "b \<in> set (plan local remote base opts)" "a_rel b = q"
proof -
  obtain x where x: "plan_at local remote base opts q = Some x" using assms by blast
  then have "a_rel x = q" using plan_one_rel by (simp add: plan_at_def)
  then show ?thesis using that [of "with_sigs local remote x"] x by (auto simp: plan_iff)
qed

lemma planned_somewhere:
  "b \<in> set (plan local remote base opts) \<Longrightarrow> map_of local (a_rel b) \<noteq> None \<or> map_of remote (a_rel b) \<noteq> None"
  using planned_kind [of b local remote base opts] by (cases "a_kind b") auto

lemma folder_above_here:
  assumes nq: "no_questions local remote p" and p: "p = plan local remote base opts"
    and inv: "quiet_inv local remote base done s" and sub: "done \<subseteq> set p"
    and a: "a \<in> set p" "\<not> is_delete (a_kind a)" "map_of remote (a_rel a) = Some r"
    and first: "\<And>b. b \<in> set p \<Longrightarrow> comes_first b a \<Longrightarrow> b \<in> done"
    and d: "d \<in> set (dirs_of (parent_dir (a_rel a)))"
  shows "is_dir_at (sw_local (fst s)) d"
proof -
  have t: "local_path_ok (a_rel a)" "is_dir_at remote d"
    using tree_ok_at [OF no_questionsD(2) [OF nq] a(3)] d by auto
  then have b: "below d (a_rel a)" "depth d < depth (a_rel a)" using ancestor_below [OF t(1) d] by auto
  obtain m where m: "map_of remote d = Some m" "nd_is_dir m" using t(2) by (auto simp: is_dir_at_def split: option.splits)
  show ?thesis
  proof (cases "plan_at local remote base opts d")
    case None
    then obtain l where l: "map_of local d = Some l" "nd_is_dir l"
      using m by (auto simp: plan_at_def plan_one_None split: option.splits)
    have "d \<notin> a_rel ` done"
      using None sub p by (auto simp: plan_iff)
    then show ?thesis using inv l by (simp add: quiet_inv_def is_dir_at_def)
  next
    case (Some x)
    then obtain c where c: "c \<in> set p" "a_rel c = d" using plan_covers p by (metis option.distinct(1))
    have "a_kind c \<noteq> ActionDeleteRemot"
    proof
      assume "a_kind c = ActionDeleteRemot"
      then obtain e where "e \<in> set p" "a_rel e = a_rel a" "is_delete (a_kind e)"
        using no_questionsD(5) [OF nq c(1), of "a_rel a"] b(1) c(2) a(3) by auto
      then show False using plan_unique a(1,2) p by blast
    qed
    then have "is_mkdir (a_kind c)"
      using planned_kind [of c local remote base opts] c m no_questionsD(3) [OF nq c(1)] p
      by (cases "a_kind c") (auto simp: is_mkdir_def)
    moreover from this have "c \<in> done" using first [OF c(1)] b(2) c(2) by (auto simp: comes_first_def)
    ultimately show ?thesis using inv c(2) by (auto simp: quiet_inv_def settled_def is_mkdir_def)
  qed
qed

lemma folder_above_there:
  assumes nq: "no_questions local remote p" and p: "p = plan local remote base opts"
    and inv: "quiet_inv local remote base done s" and sub: "done \<subseteq> set p"
    and a: "a \<in> set p" "\<not> is_delete (a_kind a)" "map_of local (a_rel a) = Some r"
    and first: "\<And>b. b \<in> set p \<Longrightarrow> comes_first b a \<Longrightarrow> b \<in> done"
    and d: "d \<in> set (dirs_of (parent_dir (a_rel a)))"
  shows "is_dir_at (sw_remote (fst s)) d"
proof -
  have t: "local_path_ok (a_rel a)" "is_dir_at local d"
    using tree_ok_at [OF no_questionsD(1) [OF nq] a(3)] d by auto
  then have b: "below d (a_rel a)" "depth d < depth (a_rel a)" using ancestor_below [OF t(1) d] by auto
  obtain m where m: "map_of local d = Some m" "nd_is_dir m" using t(2) by (auto simp: is_dir_at_def split: option.splits)
  show ?thesis
  proof (cases "plan_at local remote base opts d")
    case None
    then obtain l where l: "map_of remote d = Some l" "nd_is_dir l"
      using m by (auto simp: plan_at_def plan_one_None split: option.splits)
    have "d \<notin> a_rel ` done"
      using None sub p by (auto simp: plan_iff)
    then show ?thesis using inv l by (simp add: quiet_inv_def is_dir_at_def)
  next
    case (Some x)
    then obtain c where c: "c \<in> set p" "a_rel c = d" using plan_covers p by (metis option.distinct(1))
    have "a_kind c \<noteq> ActionDeleteLocal"
    proof
      assume "a_kind c = ActionDeleteLocal"
      then obtain e where "e \<in> set p" "a_rel e = a_rel a" "is_delete (a_kind e)"
        using no_questionsD(4) [OF nq c(1), of "a_rel a"] b(1) c(2) a(3) by auto
      then show False using plan_unique a(1,2) p by blast
    qed
    then have "is_mkdir (a_kind c)"
      using planned_kind [of c local remote base opts] c m no_questionsD(3) [OF nq c(1)] p
      by (cases "a_kind c") (auto simp: is_mkdir_def)
    moreover from this have "c \<in> done" using first [OF c(1)] b(2) c(2) by (auto simp: comes_first_def)
    ultimately show ?thesis using inv c(2) by (auto simp: quiet_inv_def settled_def is_mkdir_def)
  qed
qed

lemma emptied_here:
  assumes nq: "no_questions local remote p" and p: "p = plan local remote base opts"
    and inv: "quiet_inv local remote base done s" and sub: "done \<subseteq> set p"
    and a: "a \<in> set p" "a_kind a = ActionDeleteLocal"
    and first: "\<And>b. b \<in> set p \<Longrightarrow> comes_first b a \<Longrightarrow> b \<in> done" and q: "below (a_rel a) q"
  shows "map_of (sw_local (fst s)) q = None"
proof -
  have k: "map_of remote (a_rel a) = None" "map_of local (a_rel a) \<noteq> None"
    using planned_kind [of a local remote base opts] a p by auto
  have ka: "local_path_ok (a_rel a)" using k(2) tree_ok_at [OF no_questionsD(1) [OF nq]] by blast
  have deep: "depth (a_rel a) < depth q" if "local_path_ok q"
    using ancestor_below [OF that below_ancestor [OF that q ka]] by simp
  have not_there: "map_of remote q = None"
  proof (rule ccontr)
    assume "map_of remote q \<noteq> None"
    then obtain r where "map_of remote q = Some r" by blast
    from tree_ok_at [OF no_questionsD(2) [OF nq] this] below_ancestor [OF _ q ka]
    show False using k(1) by (auto simp: is_dir_at_def)
  qed
  show ?thesis
  proof (cases "map_of local q")
    case None
    then have "b \<in> set p \<Longrightarrow> a_rel b \<noteq> q" for b
      using not_there planned_somewhere [of b local remote base opts] p by auto
    then have "q \<notin> a_rel ` done" using sub by auto
    then show ?thesis using inv None by (simp add: quiet_inv_def)
  next
    case (Some n)
    then obtain b where b: "b \<in> set p" "a_rel b = q" "is_delete (a_kind b)"
      using no_questionsD(4) [OF nq a q] by auto
    have "local_path_ok q" using tree_ok_at [OF no_questionsD(1) [OF nq] Some] by simp
    then have "b \<in> done" using first [OF b(1)] b a(2) deep by (auto simp: comes_first_def is_delete_def)
    then show ?thesis using inv b by (auto simp: quiet_inv_def settled_def is_delete_def)
  qed
qed

lemma emptied_there:
  assumes nq: "no_questions local remote p" and p: "p = plan local remote base opts"
    and inv: "quiet_inv local remote base done s" and sub: "done \<subseteq> set p"
    and a: "a \<in> set p" "a_kind a = ActionDeleteRemot"
    and first: "\<And>b. b \<in> set p \<Longrightarrow> comes_first b a \<Longrightarrow> b \<in> done" and q: "below (a_rel a) q"
  shows "map_of (sw_remote (fst s)) q = None"
proof -
  have k: "map_of local (a_rel a) = None" "map_of remote (a_rel a) \<noteq> None"
    using planned_kind [of a local remote base opts] a p by auto
  have ka: "local_path_ok (a_rel a)" using k(2) tree_ok_at [OF no_questionsD(2) [OF nq]] by blast
  have deep: "depth (a_rel a) < depth q" if "local_path_ok q"
    using ancestor_below [OF that below_ancestor [OF that q ka]] by simp
  have not_here: "map_of local q = None"
  proof (rule ccontr)
    assume "map_of local q \<noteq> None"
    then obtain r where "map_of local q = Some r" by blast
    from tree_ok_at [OF no_questionsD(1) [OF nq] this] below_ancestor [OF _ q ka]
    show False using k(1) by (auto simp: is_dir_at_def)
  qed
  show ?thesis
  proof (cases "map_of remote q")
    case None
    then have "b \<in> set p \<Longrightarrow> a_rel b \<noteq> q" for b
      using not_here planned_somewhere [of b local remote base opts] p by auto
    then have "q \<notin> a_rel ` done" using sub by auto
    then show ?thesis using inv None by (simp add: quiet_inv_def)
  next
    case (Some n)
    then obtain b where b: "b \<in> set p" "a_rel b = q" "is_delete (a_kind b)"
      using no_questionsD(5) [OF nq a q] by auto
    have "local_path_ok q" using tree_ok_at [OF no_questionsD(2) [OF nq] Some] by simp
    then have "b \<in> done" using first [OF b(1)] b a(2) deep by (auto simp: comes_first_def is_delete_def)
    then show ?thesis using inv b by (auto simp: quiet_inv_def settled_def is_delete_def)
  qed
qed

lemma planned_turn:
  assumes nq: "no_questions local remote p" and p: "p = plan local remote base opts"
    and inv: "quiet_inv local remote base done s" and sub: "done \<subseteq> set p" and a: "a \<in> set p" "a \<notin> done"
    and first: "\<And>b. b \<in> set p \<Longrightarrow> comes_first b a \<Longrightarrow> b \<in> done"
  shows "its_turn local remote base opts a (fst s)"
proof -
  have "a_rel a \<notin> a_rel ` done" using a sub plan_unique p by blast
  then have same: "map_of (sw_local (fst s)) (a_rel a) = map_of local (a_rel a)"
      "map_of (sw_remote (fst s)) (a_rel a) = map_of remote (a_rel a)"
    using inv by (auto simp: quiet_inv_def)
  have ok: "local_path_ok (a_rel a)"
    using planned_somewhere [of a local remote base opts] a p tree_ok_at no_questionsD(1,2) [OF nq] by blast
  note here = folder_above_here [OF nq p inv sub a(1) _ _ first]
    and there = folder_above_there [OF nq p inv sub a(1) _ _ first]
    and gone_here = emptied_here [OF nq p inv sub a(1) _ first]
    and gone_there = emptied_there [OF nq p inv sub a(1) _ first]
  have "ready a (fst s)"
    using planned_kind [of a local remote base opts] a(1) p no_questionsD(3) [OF nq a(1)] here there gone_here gone_there
    by (cases "a_kind a") (auto simp: ready_def is_delete_def)
  then show ?thesis using a(1) p ok same by (simp add: its_turn_def)
qed

section \<open>The pass\<close>

lemma phases_order:
  assumes "\<And>xs. mset (interleave xs) = mset xs"
  shows "sorted_wrt (\<lambda>a b. \<not> comes_first b a) (phases interleave (plan local remote base opts))"
proof -
  let ?R = "\<lambda>a b. \<not> comes_first b a" and ?p = "plan local remote base opts"
  let ?M = "filter (\<lambda>a. a_kind a = ActionMkdirLocal \<or> a_kind a = ActionMkdirRemote) ?p"
  let ?T = "filter (\<lambda>a. a_kind a = ActionUpload \<or> a_kind a = ActionDownload) ?p"
  let ?D = "filter (\<lambda>a. a_kind a = ActionDeleteLocal \<or> a_kind a = ActionDeleteRemot \<or> a_kind a = ActionConflict) ?p"
  have perm: "set (interleave xs) = set xs" for xs using assms by (metis set_mset_mset)
  have ordered: "sorted_wrt in_order (filter P ?p)" for P by (rule sorted_wrt_filter [OF plan_sorted])
  have "sorted_wrt ?R ?M"
    by (rule sorted_wrt_mono_rel [OF _ ordered]) (auto simp: comes_first_def is_mkdir_def is_delete_def in_order_def)
  moreover have "sorted_wrt ?R (interleave ?T)"
    by (rule sorted_wrt_mono_rel [OF _ sorted_wrt_true]) (auto simp: perm comes_first_def is_mkdir_def is_delete_def)
  moreover have "sorted_wrt ?R ?D"
    by (rule sorted_wrt_mono_rel [OF _ ordered])
      (auto simp: comes_first_def is_mkdir_def is_delete_def in_order_def split: if_splits)
  moreover have "\<forall>x \<in> set ?M. \<forall>y \<in> set (interleave ?T @ ?D). ?R x y" "\<forall>x \<in> set (interleave ?T). \<forall>y \<in> set ?D. ?R x y"
    by (auto simp: perm comes_first_def is_mkdir_def is_delete_def)
  ultimately show ?thesis unfolding phases_def sorted_wrt_append by blast
qed

lemma phases_set:
  assumes "\<And>xs. mset (interleave xs) = mset xs"
  shows "set (phases interleave p) = set p" "distinct p \<Longrightarrow> distinct (phases interleave p)"
proof -
  have perm: "set (interleave xs) = set xs" for xs using assms by (metis set_mset_mset)
  have dist: "distinct (interleave xs) = distinct xs" for xs using assms by (metis mset_eq_imp_distinct_iff)
  show "set (phases interleave p) = set p"
  proof (intro set_eqI)
    show "a \<in> set (phases interleave p) \<longleftrightarrow> a \<in> set p" for a
      by (cases "a_kind a") (auto simp: phases_def perm)
  qed
  show "distinct p \<Longrightarrow> distinct (phases interleave p)"
    by (auto simp: phases_def perm dist)
qed

lemma settled_frame [frame_simps]:
  "untouched rel s s' \<Longrightarrow> a_rel b \<noteq> rel \<Longrightarrow> settled b s' \<longleftrightarrow> settled b s"
  by (cases "a_kind b") (simp_all add: settled_def untouched_def is_dir_at_def)

lemma quiet_run:
  assumes nq: "no_questions local remote p" and p: "p = plan local remote base opts"
    and perm: "\<And>xs. mset (interleave xs) = mset xs" and calm: "\<And>a. calm (env a)"
    and split: "phases interleave p = xs @ ys"
  shows "quiet_inv local remote base (set xs)
    (foldl (run_one pf env remote) (\<lparr>sw_local = local, sw_remote = remote\<rparr>, new_ledger base) xs)"
  using split
proof (induction xs arbitrary: ys rule: rev_induct)
  case Nil
  show ?case by (simp add: quiet_inv_def new_ledger_def)
next
  case (snoc a xs)
  let ?s = "foldl (run_one pf env remote) (\<lparr>sw_local = local, sw_remote = remote\<rparr>, new_ledger base) xs"
  have inv: "quiet_inv local remote base (set xs) ?s" using snoc.IH [of "a # ys"] snoc.prems by simp
  have all: "set p = set (xs @ [a] @ ys)" using phases_set(1) [of interleave p, OF perm] snoc.prems by simp
  have "distinct p" using plan_distinct [of local remote base opts] p by (simp add: distinct_map)
  then have a: "a \<notin> set xs" using phases_set(2) [of interleave p, OF perm] snoc.prems by simp
  have "sorted_wrt (\<lambda>a b. \<not> comes_first b a) (xs @ a # ys)"
    using phases_order [of interleave local remote base opts, OF perm] snoc.prems p by simp
  then have late: "\<not> comes_first b a" if "b \<in> set ys" for b using that by (simp add: sorted_wrt_append)
  have first: "b \<in> set xs" if "b \<in> set p" "comes_first b a" for b
    using that late all by (auto simp: comes_first_def)
  have turn: "its_turn local remote base opts a (fst ?s)"
    by (rule planned_turn [OF nq p inv _ _ a first]) (use all in auto)
  let ?s' = "run_one pf (\<lambda>_. env a) remote (fst ?s, snd ?s) a"
  have step: "untouched (a_rel a) ?s ?s'" "settled a ?s'"
    using quiet_step [OF turn calm, where l = "snd ?s" and pf = pf] by simp_all
  have other: "settled b ?s'" if "b \<in> set xs" for b
  proof -
    have "a_rel b \<noteq> a_rel a" using that a plan_unique all p by (metis UnCI list.set_intros(1) set_append append_Cons)
    moreover have "settled b ?s" using inv that by (simp add: quiet_inv_def)
    ultimately show ?thesis using settled_frame [OF step(1)] by blast
  qed
  have "quiet_inv local remote base (set (xs @ [a])) ?s'"
    using inv step other by (auto simp: quiet_inv_def untouched_def)
  moreover have "run_one pf env remote ?s a = ?s'" by (simp add: run_one_def)
  ultimately show ?case by simp
qed

lemma keep_visit_in_step:
  assumes "plan_one opts q (map_of local q) (map_of remote q) (map_of rows q) = None"
  shows "plan_one opts q (map_of local q) (map_of remote q) (map_of (keep_visit local remote base acted rel rows) q) = None"
  using assms
  by (auto simp: keep_visit_def plan_one_None update_conv' delete_conv' file_row_def split: option.splits)

lemma keep_visit_acted: "q \<in> acted \<Longrightarrow> map_of (keep_visit local remote base acted rel rows) q = map_of rows q"
  by (auto simp: keep_visit_def update_conv' delete_conv' split: option.splits)

lemma keep_in_step_rows:
  "q \<in> acted \<Longrightarrow> map_of (lg_rows (keep_in_step local remote base acted l)) q = map_of (lg_rows l) q"
  "plan_one opts q (map_of local q) (map_of remote q) (map_of (lg_rows l) q) = None \<Longrightarrow>
    plan_one opts q (map_of local q) (map_of remote q) (map_of (lg_rows (keep_in_step local remote base acted l)) q) = None"
proof -
  have "q \<in> acted \<Longrightarrow> map_of (foldl (\<lambda>rows rel. keep_visit local remote base acted rel rows) rows rels) q = map_of rows q"
    for rows rels by (induction rels arbitrary: rows) (auto simp: keep_visit_acted)
  then show "q \<in> acted \<Longrightarrow> map_of (lg_rows (keep_in_step local remote base acted l)) q = map_of (lg_rows l) q"
    by (simp add: keep_in_step_def)
  have "plan_one opts q (map_of local q) (map_of remote q) (map_of rows q) = None \<Longrightarrow>
      plan_one opts q (map_of local q) (map_of remote q)
        (map_of (foldl (\<lambda>rows rel. keep_visit local remote base acted rel rows) rows rels) q) = None"
    for rows rels
  proof (induction rels arbitrary: rows)
    case (Cons rel rels)
    show ?case using Cons.IH [OF keep_visit_in_step [OF Cons.prems]] by simp
  qed simp
  then show "plan_one opts q (map_of local q) (map_of remote q) (map_of (lg_rows l) q) = None \<Longrightarrow>
    plan_one opts q (map_of local q) (map_of remote q) (map_of (lg_rows (keep_in_step local remote base acted l)) q) = None"
    by (simp add: keep_in_step_def)
qed

lemma settled_in_step:
  "settled a s \<Longrightarrow> a_kind a \<noteq> ActionConflict \<Longrightarrow>
    plan_one opts (a_rel a) (map_of (sw_local (fst s)) (a_rel a)) (map_of (sw_remote (fst s)) (a_rel a))
      (map_of (lg_rows (snd s)) (a_rel a)) = None"
  by (cases "a_kind a") (auto simp: settled_def plan_one_None is_dir_at_def file_row_def split: option.splits)

lemma plan_Nil: "(\<And>q. plan_at local remote base opts q = None) \<Longrightarrow> plan local remote base opts = []"
  using plan_iff [of "hd (plan local remote base opts)" local remote base opts]
  by (cases "plan local remote base opts") auto

text \<open>C20. A quiet pass settles everything: when nobody interferes, nothing refuses, the server tells
  what it stored (so no upload waits for a listing) and nothing needs a person's answer - both sides are
  trees, no path is in conflict, and a folder that goes holds nothing that stays - then after the pass, with the transfers in any order, the next plan on what
  the pass left and remembered is empty.\<close>
theorem quiet_pass_settles:
  assumes "no_questions local remote (plan local remote base opts)"
    and "\<And>xs. mset (interleave xs) = mset xs" and "\<And>a. calm (env a)"
    and "apply_plan pf env interleave (plan local remote base opts) local remote base
      (\<lparr>sw_local = local, sw_remote = remote\<rparr>, new_ledger base) = (w, l)"
  shows "plan (sw_local w) (sw_remote w) (lg_rows l) opts' = []"
proof (rule plan_Nil)
  fix q
  let ?p = "plan local remote base opts"
  let ?s = "foldl (run_one pf env remote) (\<lparr>sw_local = local, sw_remote = remote\<rparr>, new_ledger base) (phases interleave ?p)"
  have inv: "quiet_inv local remote base (set ?p) ?s"
    using quiet_run [OF assms(1) refl assms(2,3), of "phases interleave ?p" "[]"] phases_set(1) [of interleave ?p, OF assms(2)]
    by simp
  have w: "w = fst ?s" "l = keep_in_step local remote base (set (map a_rel ?p)) (snd ?s)"
    using assms(4) by (auto simp: apply_plan_def split: prod.splits)
  show "plan_at (sw_local w) (sw_remote w) (lg_rows l) opts' q = None"
  proof (cases "q \<in> a_rel ` set ?p")
    case True
    then obtain a where a: "a \<in> set ?p" "q = a_rel a" by blast
    have "settled a ?s" using inv a by (simp add: quiet_inv_def)
    from settled_in_step [OF this, of opts'] no_questionsD(3) [OF assms(1) a(1)]
    show ?thesis using a w True keep_in_step_rows(1) [of q "set (map a_rel ?p)" local remote base "snd ?s"]
      by (simp add: plan_at_def)
  next
    case False
    have none: "plan_at local remote base opts q = None"
    proof (rule ccontr)
      assume "plan_at local remote base opts q \<noteq> None"
      then show False using False plan_covers by (metis image_eqI)
    qed
    then have "plan_one opts' q (map_of local q) (map_of remote q) (map_of base q) = None"
      by (simp add: plan_at_def plan_one_None)
    moreover have "map_of (sw_local w) q = map_of local q" "map_of (sw_remote w) q = map_of remote q"
      "map_of (lg_rows (snd ?s)) q = map_of base q"
      using inv False w(1) by (auto simp: quiet_inv_def)
    ultimately show ?thesis
      using keep_in_step_rows(2) [of opts' q local remote "snd ?s" base "set (map a_rel ?p)"] w(2)
      by (simp add: plan_at_def)
  qed
qed

theorem quiet_pass_settles_witness:
  "case apply_plan False (\<lambda>_. quiet_env) (\<lambda>xs. xs) (plan here1 there1 base1 later_run) here1 there1 base1
      (world1, new_ledger base1) of
     (w, l) \<Rightarrow> plan (sw_local w) (sw_remote w) (lg_rows l) later_run = []"
proof -
  obtain w l where r: "apply_plan False (\<lambda>_. quiet_env) (\<lambda>xs. xs) (plan here1 there1 base1 later_run) here1 there1 base1
      (world1, new_ledger base1) = (w, l)"
    by fastforce
  have nq: "no_questions here1 there1 (plan here1 there1 base1 later_run)" by code_simp
  have calm: "calm quiet_env" by (simp add: calm_def quiet_env_def)
  show ?thesis
    using quiet_pass_settles [OF nq refl calm r [unfolded world1_def]] r by simp
qed

end
