(* ===== verification/Identity.thy ===== *)
theory Identity
  imports PathMatch Syspath
begin

text \<open>
  \<open>internal/identity\<close> with \<open>identitystore/store.go\<close>: the rule for login names, the one function that
  turns what a person typed into an account, the names accounts are given, and the addresses made up
  for accounts that have none. The account table is the list of its rows; a lookup may find a row,
  find none or fail. \<open>uni\<close> are Unicode's case tables.
\<close>

section \<open>Login names\<close>

abbreviation MinLen :: nat where "MinLen \<equiv> 3"
abbreviation MaxLen :: nat where "MaxLen \<equiv> 32"

definition reserved_names :: "string list" where
  "reserved_names = [''admin'', ''administrator'', ''root'', ''filex'', ''api'', ''www'', ''ftp'', ''sftp'', ''webdav'',
     ''dav'', ''s3'', ''nfs'', ''smb'', ''system'', ''support'', ''help'', ''null'', ''undefined'', ''anonymous'', ''guest'',
     ''nobody'']"

definition looks_like_email :: "string \<Rightarrow> bool" where
  "looks_like_email identifier \<longleftrightarrow> CHR ''@'' \<in> set identifier"

definition normalize :: "(string \<Rightarrow> string) \<Rightarrow> string \<Rightarrow> string" where
  "normalize uni identifier = to_lower uni (trim_space identifier)"

datatype problem =
    ProblemEmpty | ProblemAt | ProblemShort | ProblemLong | ProblemUpper | ProblemDigit | ProblemChar nat | ProblemReserved

definition is_username_rune :: "nat \<Rightarrow> bool" where
  "is_username_rune r \<longleftrightarrow> 97 \<le> r \<and> r \<le> 122 \<or> 48 \<le> r \<and> r \<le> 57 \<or> r = 46 \<or> r = 45 \<or> r = 95"

definition check_name :: "(string \<Rightarrow> string) \<Rightarrow> string \<Rightarrow> problem option" where
  "check_name uni username =
     (if username = [] then Some ProblemEmpty
      else if CHR ''@'' \<in> set username then Some ProblemAt
      else if length username < MinLen then Some ProblemShort
      else if length username > MaxLen then Some ProblemLong
      else if username \<noteq> to_lower uni username then Some ProblemUpper
      else if is_digit (hd username) then Some ProblemDigit
      else (case find (\<lambda>(r, _). \<not> is_username_rune r) (runes username) of
              Some (r, _) \<Rightarrow> Some (ProblemChar r)
            | None \<Rightarrow> if username \<in> set reserved_names then Some ProblemReserved else None))"

datatype id_error = ErrInvalidUsername | ErrReservedUsername | ErrNotFound | ErrStore

definition validate_name :: "(string \<Rightarrow> string) \<Rightarrow> string \<Rightarrow> id_error option" where
  "validate_name uni username =
     (case check_name uni username of
        None \<Rightarrow> None
      | Some ProblemReserved \<Rightarrow> Some ErrReservedUsername
      | Some _ \<Rightarrow> Some ErrInvalidUsername)"

section \<open>A name made from an address\<close>

definition translit :: "(nat \<times> string) list" where
  "translit = [(0x131, ''i''), (0x130, ''i''), (0x15F, ''s''), (0x15E, ''s''), (0x11F, ''g''), (0x11E, ''g''),
     (0xFC, ''u''), (0xDC, ''u''), (0xF6, ''o''), (0xD6, ''o''), (0xE7, ''c''), (0xC7, ''c''),
     (0xE4, ''a''), (0xC4, ''a''), (0xDF, ''ss''), (0xE9, ''e''), (0xC9, ''e''), (0xE8, ''e''),
     (0xE1, ''a''), (0xC1, ''a''), (0xED, ''i''), (0xF3, ''o''), (0xFA, ''u''), (0xF1, ''n''), (0xD1, ''n''),
     (0xE5, ''a''), (0xF8, ''o''), (0xE6, ''ae'')]"

definition clean_rune :: "nat \<times> string \<Rightarrow> string" where
  "clean_rune x = (case x of (r, bytes) \<Rightarrow>
     if is_username_rune r then bytes
     else if 65 \<le> r \<and> r \<le> 90 then [char_of (r + 32)]
     else (case map_of translit r of Some t \<Rightarrow> t | None \<Rightarrow> ''.''))"

text \<open>\<open>strings.ReplaceAll(out, "..", ".")\<close>, and the loop around it.\<close>

fun halve_dots :: "string \<Rightarrow> string" where
  "halve_dots (a # b # s) = (if a = CHR ''.'' \<and> b = CHR ''.'' then CHR ''.'' # halve_dots s else a # halve_dots (b # s))"
| "halve_dots s = s"

lemma halve_dots_shorter: "length (halve_dots s) \<le> length s"
  by (induction s rule: halve_dots.induct) auto

lemma halve_dots_same: "index_of s ''..'' \<noteq> None \<Longrightarrow> length (halve_dots s) < length s"
proof (induction s rule: halve_dots.induct)
  case (1 a b s)
  show ?case
  proof (cases "a = CHR ''.'' \<and> b = CHR ''.''")
    case True
    then show ?thesis using halve_dots_shorter [of s] by simp
  next
    case False
    then have "index_of (b # s) ''..'' \<noteq> None"
      using 1(3) by (auto simp: index_of.simps [of "a # b # s"] has_prefix_def split: if_splits)
    then show ?thesis using 1(2) False by auto
  qed
qed (auto simp: index_of.simps has_prefix_def split: if_splits)

function squeeze_dots :: "string \<Rightarrow> string" where
  "squeeze_dots out = (if index_of out ''..'' = None then out else squeeze_dots (halve_dots out))"
  by pat_completeness auto
termination
  by (relation "measure length") (use halve_dots_same in auto)

declare squeeze_dots.simps [simp del]

definition separator :: "char \<Rightarrow> bool" where
  "separator c \<longleftrightarrow> c = CHR ''.'' \<or> c = CHR ''_'' \<or> c = CHR ''-''"

definition clean_name :: "string \<Rightarrow> string" where
  "clean_name s = trim separator (squeeze_dots (concat (map clean_rune (runes s))))"

definition split_email :: "string \<Rightarrow> string \<times> string" where
  "split_email email =
     (case last_index (CHR ''@'') email of Some i \<Rightarrow> (take i email, drop (i + 1) email) | None \<Rightarrow> (email, []))"

definition first_label :: "string \<Rightarrow> string" where
  "first_label domain = (case index_byte domain (CHR ''.'') of Some i \<Rightarrow> take i domain | None \<Rightarrow> domain)"

definition suggest :: "(string \<Rightarrow> string) \<Rightarrow> string \<Rightarrow> string" where
  "suggest uni email =
     (let (local0, domain) = split_email (normalize uni email);
          local1 = (case index_byte local0 (CHR ''+'') of Some i \<Rightarrow> take i local0 | None \<Rightarrow> local0);
          out0 = clean_name local1;
          out1 = (if length out0 > MaxLen then trim separator (take MaxLen out0) else out0);
          out2 = (if out1 \<noteq> [] \<and> is_digit (hd out1) then CHR ''u'' # out1 else out1)
      in if length out2 < MinLen then
           (let label = clean_name (first_label domain);
                out3 = (if label \<noteq> [] then trim separator (out2 @ CHR ''.'' # label) else out2)
            in out3 @ replicate (MinLen - length out3) (CHR ''x''))
         else out2)"

definition trim_trailing_separators :: "string \<Rightarrow> string" where
  "trim_trailing_separators s = rev (dropWhile separator (rev s))"

definition with_suffix :: "string \<Rightarrow> nat \<Rightarrow> string" where
  "with_suffix base n =
     (let suffix = format_int (int n);
          base1 = (if length base + length suffix > MaxLen then take (MaxLen - length suffix) base else base);
          base2 = trim_trailing_separators base1;
          base3 = (if base2 = [] then ''u'' else base2)
      in base3 @ suffix)"

section \<open>Accounts\<close>

record account =
  ac_id :: int
  ac_email :: string
  ac_username :: string
  ac_provider :: "int option"

datatype lookup = LFound account | LNone | LError

type_synonym accounts = "account list"

definition row_by :: "(account \<Rightarrow> string) \<Rightarrow> accounts \<Rightarrow> string \<Rightarrow> lookup" where
  "row_by f us x = (case find (\<lambda>u. f u = x) us of Some u \<Rightarrow> LFound u | None \<Rightarrow> LNone)"

record directory =
  dy_by_email :: "string \<Rightarrow> lookup"
  dy_by_username :: "string \<Rightarrow> lookup"

definition answer_of :: "lookup \<Rightarrow> id_error + account" where
  "answer_of l = (case l of LFound u \<Rightarrow> Inr u | LNone \<Rightarrow> Inl ErrNotFound | LError \<Rightarrow> Inl ErrStore)"

definition unusable :: "(string \<Rightarrow> string) \<Rightarrow> string \<Rightarrow> bool" where
  "unusable uni name \<longleftrightarrow> check_name uni name \<noteq> None \<and> check_name uni name \<noteq> Some ProblemReserved"

definition resolve_account :: "(string \<Rightarrow> string) \<Rightarrow> directory \<Rightarrow> string \<Rightarrow> id_error + account" where
  "resolve_account uni d identifier =
     (let name = normalize uni identifier in
      if name = [] then Inl ErrNotFound
      else if looks_like_email name then answer_of (dy_by_email d name)
      else if unusable uni name then Inl ErrNotFound
      else answer_of (dy_by_username d name))"

record tenant =
  tn_provider :: int
  tn_realm :: string
  tn_main :: bool
  tn_token :: string

definition owns :: "tenant option \<Rightarrow> account option \<Rightarrow> bool" where
  "owns t u =
     (case u of
        None \<Rightarrow> False
      | Some u \<Rightarrow>
        (case t of
           None \<Rightarrow> True
         | Some t \<Rightarrow>
           (case ac_provider u of
              None \<Rightarrow> tn_main t
            | Some p \<Rightarrow> if p = 0 then tn_main t else tn_provider t \<noteq> 0 \<and> p = tn_provider t)))"

definition trimmed_domain :: "(string \<Rightarrow> string) \<Rightarrow> string \<Rightarrow> string" where
  "trimmed_domain uni domain = to_lower uni (trim_space (trim_prefix (trim_space domain) ''@''))"

definition token_domain :: "(string \<Rightarrow> string) \<Rightarrow> string \<Rightarrow> string \<Rightarrow> string" where
  "token_domain uni realm token =
     (let t = to_lower uni (trim_space token); t = (if t = [] then ''local'' else t); r = to_lower uni (trim_space realm)
      in if r = [] then t else r @ CHR ''.'' # t)"

definition derive_email :: "(string \<Rightarrow> string) \<Rightarrow> string \<Rightarrow> string \<Rightarrow> string \<Rightarrow> string \<Rightarrow> string" where
  "derive_email uni name domain realm token =
     (let n = normalize uni name in
      if n = [] \<or> CHR ''@'' \<in> set n then n
      else let d = trimmed_domain uni domain; d = (if d = [] then token_domain uni realm token else d)
        in n @ CHR ''@'' # d)"

definition owned_or_not_found :: "tenant option \<Rightarrow> id_error + account \<Rightarrow> id_error + account" where
  "owned_or_not_found t a = (case a of Inl e \<Rightarrow> Inl e | Inr u \<Rightarrow> if owns t (Some u) then Inr u else Inl ErrNotFound)"

definition resolve_in :: "(string \<Rightarrow> string) \<Rightarrow> directory \<Rightarrow> tenant option \<Rightarrow> string \<Rightarrow> id_error + account" where
  "resolve_in uni d t identifier =
     (case t of
        None \<Rightarrow> resolve_account uni d identifier
      | Some tn \<Rightarrow>
        let name = normalize uni identifier in
        if name = [] then Inl ErrNotFound
        else if looks_like_email name then owned_or_not_found t (answer_of (dy_by_email d name))
        else
          let by_name = (if unusable uni name then Inl ErrNotFound
                         else owned_or_not_found t (answer_of (dy_by_username d name)))
          in (case answer_of (dy_by_email d (derive_email uni name [] (tn_realm tn) (tn_token tn))) of
                Inl e \<Rightarrow> if e \<noteq> ErrNotFound then Inl e else by_name
              | Inr u \<Rightarrow> if owns t (Some u) then Inr u else by_name))"

definition names_account :: "(string \<Rightarrow> string) \<Rightarrow> account \<Rightarrow> string \<Rightarrow> bool" where
  "names_account uni u identifier =
     (let name = normalize uni identifier in
      if name = [] then False
      else name = normalize uni (ac_email u) \<or> ac_username u \<noteq> [] \<and> name = normalize uni (ac_username u))"

definition names_in :: "(string \<Rightarrow> string) \<Rightarrow> account \<Rightarrow> string \<Rightarrow> string \<Rightarrow> string \<Rightarrow> bool" where
  "names_in uni u identifier realm token =
     (if names_account uni u identifier then True
      else let name = normalize uni identifier in
        if name = [] \<or> looks_like_email name then False
        else derive_email uni name [] realm token = normalize uni (ac_email u))"

section \<open>Claiming a name\<close>

text \<open>
  What fails during one attempt: the lookup, or the write although nobody holds the name (a race that
  was lost). The write is refused as well when the unique index finds the name at another account.
\<close>

record attempt_io =
  ai_lookup :: bool
  ai_write :: bool

definition set_username :: "bool \<Rightarrow> int \<Rightarrow> string \<Rightarrow> accounts \<Rightarrow> accounts option" where
  "set_username fails uid name us =
     (if fails \<or> list_ex (\<lambda>u. ac_username u = name \<and> ac_id u \<noteq> uid) us then None
      else Some (map (\<lambda>u. if ac_id u = uid then u\<lparr>ac_username := name\<rparr> else u) us))"

definition candidate :: "string \<Rightarrow> nat \<Rightarrow> string" where
  "candidate base attempt = (if attempt > 0 then with_suffix base (attempt + 1) else base)"

text \<open>One attempt: over with an answer, or on to the next.\<close>

definition claim_once ::
  "(string \<Rightarrow> string) \<Rightarrow> attempt_io \<Rightarrow> int \<Rightarrow> string \<Rightarrow> accounts \<Rightarrow> (accounts \<times> (id_error + string)) option" where
  "claim_once uni io uid name us =
     (if validate_name uni name \<noteq> None then None
      else if ai_lookup io then Some (us, Inl ErrStore)
      else (case row_by ac_username us name of
              LFound u \<Rightarrow>
                if ac_id u \<noteq> uid then None
                else map_option (\<lambda>us'. (us', Inr name)) (set_username (ai_write io) uid name us)
            | _ \<Rightarrow> map_option (\<lambda>us'. (us', Inr name)) (set_username (ai_write io) uid name us)))"

fun claim_from ::
  "(string \<Rightarrow> string) \<Rightarrow> (nat \<Rightarrow> attempt_io) \<Rightarrow> int \<Rightarrow> string \<Rightarrow> nat list \<Rightarrow> accounts \<Rightarrow> accounts \<times> (id_error + string)" where
  "claim_from uni io uid base [] us = (us, Inl ErrInvalidUsername)"
| "claim_from uni io uid base (k # ks) us =
     (case claim_once uni (io k) uid (candidate base k) us of
        Some r \<Rightarrow> r
      | None \<Rightarrow> claim_from uni io uid base ks us)"

definition max_claim_attempts :: nat where "max_claim_attempts = 50"

definition ensure_username ::
  "(string \<Rightarrow> string) \<Rightarrow> (nat \<Rightarrow> attempt_io) \<Rightarrow> account \<Rightarrow> accounts \<Rightarrow> accounts \<times> (id_error + string)" where
  "ensure_username uni io u us =
     (if ac_username u \<noteq> [] then (us, Inr (ac_username u))
      else claim_from uni io (ac_id u) (suggest uni (ac_email u)) [0..<max_claim_attempts] us)"

definition claim_bootstrap :: "attempt_io \<Rightarrow> account \<Rightarrow> accounts \<Rightarrow> accounts \<times> id_error option" where
  "claim_bootstrap io u us =
     (if ac_username u = ''admin'' then (us, None)
      else if ai_lookup io then (us, Some ErrStore)
      else (case row_by ac_username us ''admin'' of
              LFound e \<Rightarrow>
                if ac_id e \<noteq> ac_id u then (us, Some ErrReservedUsername)
                else (case set_username (ai_write io) (ac_id u) ''admin'' us of
                        Some us' \<Rightarrow> (us', None) | None \<Rightarrow> (us, Some ErrStore))
            | _ \<Rightarrow> (case set_username (ai_write io) (ac_id u) ''admin'' us of
                      Some us' \<Rightarrow> (us', None) | None \<Rightarrow> (us, Some ErrStore))))"

text \<open>The start's repair: every account with no name gets one; one that cannot be named is skipped.\<close>

fun backfill_rows ::
  "(string \<Rightarrow> string) \<Rightarrow> (int \<Rightarrow> nat \<Rightarrow> attempt_io) \<Rightarrow> accounts \<Rightarrow> accounts \<Rightarrow> accounts \<times> nat" where
  "backfill_rows uni io [] us = (us, 0)"
| "backfill_rows uni io (u # rows) us =
     (if ac_username u \<noteq> [] then backfill_rows uni io rows us
      else (case ensure_username uni (io (ac_id u)) u us of
              (us1, Inl _) \<Rightarrow> backfill_rows uni io rows us1
            | (us1, Inr _) \<Rightarrow> let (us2, n) = backfill_rows uni io rows us1 in (us2, Suc n)))"

definition backfill :: "(string \<Rightarrow> string) \<Rightarrow> (int \<Rightarrow> nat \<Rightarrow> attempt_io) \<Rightarrow> accounts \<Rightarrow> accounts \<times> nat" where
  "backfill uni io us = backfill_rows uni io us us"

section \<open>The first sign-in\<close>

definition forbidden_names :: "string list" where
  "forbidden_names = [''administrator'', ''guest'', ''defaultaccount'', ''wdagutilityaccount'', ''krbtgt'', ''system'',
     ''localservice'', ''networkservice'', ''trustedinstaller'', ''local.service'', ''network.service'', ''root'',
     ''daemon'', ''bin'', ''sys'', ''sync'', ''games'', ''man'', ''lp'', ''mail'', ''news'', ''uucp'', ''proxy'', ''www-data'',
     ''backup'', ''list'', ''irc'', ''gnats'', ''nobody'', ''nogroup'', ''sshd'', ''messagebus'', ''syslog'', ''polkitd'',
     ''postgres'', ''mysql'', ''redis'', ''nginx'', ''apache'', ''docker'', ''filex'']"

definition forbidden_account :: "(string \<Rightarrow> string) \<Rightarrow> string \<Rightarrow> bool" where
  "forbidden_account uni name =
     (let n = normalize uni name in
      if n = [] then False
      else n \<in> set forbidden_names \<or> n \<in> set reserved_names \<or> list_ex (\<lambda>p. has_prefix n p) [''systemd-'', ''_''])"

datatype refusal_reason = RefuseInvalidName | RefuseForbidden

text \<open>\<open>checker\<close>: what the operating system says - a system account, not one, or it cannot tell.\<close>

definition check_os_login ::
  "(string \<Rightarrow> string) \<Rightarrow> (string \<Rightarrow> bool option) option \<Rightarrow> string \<Rightarrow> refusal_reason + string" where
  "check_os_login uni checker raw =
     (let n = normalize uni raw in
      if forbidden_account uni n then Inl RefuseForbidden
      else if check_name uni n \<noteq> None then Inl RefuseInvalidName
      else (case checker of
              None \<Rightarrow> Inr n
            | Some f \<Rightarrow> if f n \<noteq> Some False then Inl RefuseForbidden else Inr n))"

definition dns_char :: "nat \<Rightarrow> bool" where
  "dns_char r \<longleftrightarrow> 97 \<le> r \<and> r \<le> 122 \<or> 48 \<le> r \<and> r \<le> 57 \<or> r = 46 \<or> r = 45"

definition dns_like :: "string \<Rightarrow> bool" where
  "dns_like s \<longleftrightarrow>
     s \<noteq> [] \<and> hd s \<noteq> CHR ''.'' \<and> hd s \<noteq> CHR ''-'' \<and> last s \<noteq> CHR ''.'' \<and> last s \<noteq> CHR ''-'' \<and>
     list_all (\<lambda>(r, _). dns_char r) (runes s) \<and> index_of s ''..'' = None"

definition email_token :: "(string \<Rightarrow> string) \<Rightarrow> string \<Rightarrow> string option" where
  "email_token uni raw =
     (let t = trimmed_domain uni raw in
      if t = [] then Some ''local'' else if \<not> dns_like t then None else Some t)"

definition login_name_of :: "(string \<Rightarrow> string) \<Rightarrow> string \<Rightarrow> string \<Rightarrow> string \<Rightarrow> string option" where
  "login_name_of uni email realm token =
     (let e = normalize uni email in
      case last_index (CHR ''@'') e of
        None \<Rightarrow> None
      | Some i \<Rightarrow>
        if i = 0 \<or> drop (i + 1) e \<noteq> token_domain uni realm token then None
        else if CHR ''@'' \<in> set (take i e) then None
        else Some (take i e))"

end
