(* ===== verification/IdentityRules.thy ===== *)
theory IdentityRules
  imports Identity
begin

text \<open>
  What login names guarantee: a name that is claimed signs in to the account that claimed it and to no
  other, a lookup for a tenant never leaves it, and an address made up for a login name reads back.
\<close>

section \<open>Names are printable ASCII\<close>

lemma decode_rune_ascii: "byte c < 128 \<Longrightarrow> decode_rune (c # s) = (byte c, 1)"
  by (simp add: decode_rune_def)

lemma decode_rune_wide:
  assumes "\<not> byte c < 128" shows "128 \<le> fst (decode_rune (c # s))"
proof -
  consider "194 \<le> byte c" "byte c \<le> 223" | "224 \<le> byte c" "byte c \<le> 239" | "240 \<le> byte c" "byte c \<le> 244"
    | "byte c < 194 \<or> 244 < byte c" by linarith
  then show ?thesis
  proof cases
    case 1
    then have "128 \<le> (byte c - 192) * 64 + (b - 128)" for b by linarith
    then show ?thesis using 1 by (simp add: decode_rune_def split: list.split)
  next
    case 2
    then have "128 \<le> (byte c - 224) * 4096 + (b - 128) * 64 + (d - 128)" if "(if byte c = 224 then 160 else 128) \<le> b" for b d :: nat
      using that by (cases "byte c = 224") auto
    then show ?thesis using 2 by (auto simp: decode_rune_def split: list.split)
  next
    case 3
    then have "128 \<le> (byte c - 240) * 262144 + (b - 128) * 4096 + (d - 128) * 64 + (f - 128)"
      if "(if byte c = 240 then 144 else 128) \<le> b" for b d f :: nat
      using that by (cases "byte c = 240") auto
    then show ?thesis using 3 by (auto simp: decode_rune_def split: list.split)
  next
    case 4
    then have "decode_rune (c # s) = (65533, 1)" using assms by (auto simp: decode_rune_def)
    then show ?thesis by simp
  qed
qed

lemma runes_Cons: "runes (c # s) =
  (let (r, w) = decode_rune (c # s) in (r, if r = 65533 \<and> w = 1 then bad_rune else take w (c # s)) # runes (drop w (c # s)))"
  by (subst runes.simps) simp

lemma runes_Nil [simp]: "runes [] = []"
  by (subst runes.simps) simp

lemma runes_ascii_Cons: "byte c < 128 \<Longrightarrow> runes (c # s) = (byte c, [c]) # runes s"
  by (simp add: runes_Cons decode_rune_ascii)

lemma runes_small: "\<forall>(r, _) \<in> set (runes s). r < 128 \<Longrightarrow> runes s = map (\<lambda>c. (byte c, [c])) s"
proof (induction s)
  case (Cons c s)
  have "byte c < 128"
    using Cons.prems decode_rune_wide [of c s] by (cases "decode_rune (c # s)") (force simp: runes_Cons)
  then show ?case using Cons by (simp add: runes_ascii_Cons)
qed simp

lemma runes_ascii: "\<forall>c \<in> set s. byte c < 128 \<Longrightarrow> runes s = map (\<lambda>c. (byte c, [c])) s"
  by (induction s) (simp_all add: runes_ascii_Cons)

definition name_char :: "char \<Rightarrow> bool" where
  "name_char c \<longleftrightarrow> is_username_rune (byte c)"

lemma name_char_printable: "name_char c \<Longrightarrow> 32 < (of_char c :: nat) \<and> (of_char c :: nat) < 128"
  by (auto simp: name_char_def is_username_rune_def byte_def)

lemma trim_space_name: "\<forall>c \<in> set s. name_char c \<Longrightarrow> trim_space s = s"
  by (rule trim_space_ascii) (use name_char_printable in blast)

text \<open>What an acceptable name is, in one line.\<close>

definition good_name :: "string \<Rightarrow> bool" where
  "good_name s \<longleftrightarrow> MinLen \<le> length s \<and> length s \<le> MaxLen \<and> (\<forall>c \<in> set s. name_char c) \<and> \<not> is_digit (hd s)"

lemma lower_name: "\<forall>c \<in> set s. name_char c \<Longrightarrow> to_lower uni s = s"
  by (auto simp: to_lower_def lower_byte_def name_char_def is_username_rune_def byte_def list_all_iff Let_def
      intro!: map_idI)

lemma runes_name:
  "find (\<lambda>(r, _). \<not> is_username_rune r) (runes s) = None \<longleftrightarrow> (\<forall>c \<in> set s. name_char c)"
proof
  assume "find (\<lambda>(r, _). \<not> is_username_rune r) (runes s) = None"
  then have u: "\<forall>(r, _) \<in> set (runes s). is_username_rune r" by (auto simp: find_None_all)
  then have "\<forall>(r, _) \<in> set (runes s). r < 128" by (fastforce simp: is_username_rune_def)
  from runes_small [OF this] show "\<forall>c \<in> set s. name_char c" using u by (auto simp: name_char_def)
next
  assume n: "\<forall>c \<in> set s. name_char c"
  then have "runes s = map (\<lambda>c. (byte c, [c])) s"
    using name_char_printable by (intro runes_ascii) (auto simp: byte_def)
  then show "find (\<lambda>(r, _). \<not> is_username_rune r) (runes s) = None" using n by (auto simp: find_None_all name_char_def)
qed

lemma name_char_no_at: "name_char c \<Longrightarrow> c \<noteq> CHR ''@''"
  by (auto simp: name_char_def is_username_rune_def byte_def)

lemma check_name_iff: "check_name uni s = None \<longleftrightarrow> good_name s \<and> s \<notin> set reserved_names"
proof
  assume "check_name uni s = None"
  moreover then have "\<forall>c \<in> set s. name_char c"
    unfolding check_name_def runes_name [symmetric] by (auto split: if_splits option.splits)
  ultimately show "good_name s \<and> s \<notin> set reserved_names"
    by (auto simp: check_name_def good_name_def split: if_splits option.splits)
next
  assume g: "good_name s \<and> s \<notin> set reserved_names"
  then have "s \<noteq> []" "CHR ''@'' \<notin> set s" using name_char_no_at by (auto simp: good_name_def)
  then show "check_name uni s = None"
    using g runes_name [of s] by (simp add: check_name_def good_name_def lower_name)
qed

lemma usable_iff: "\<not> unusable uni s \<longleftrightarrow> good_name s"
proof
  assume "\<not> unusable uni s"
  then have c: "check_name uni s = None \<or> check_name uni s = Some ProblemReserved" by (auto simp: unusable_def)
  then have "find (\<lambda>(r, _). \<not> is_username_rune r) (runes s) = None"
    by (auto simp: check_name_def split: if_splits option.splits)
  then show "good_name s" using c runes_name [of s]
    by (auto simp: check_name_def good_name_def split: if_splits option.splits)
next
  assume g: "good_name s"
  then have "s \<noteq> []" "CHR ''@'' \<notin> set s" using name_char_no_at by (auto simp: good_name_def)
  then show "\<not> unusable uni s"
    using g runes_name [of s] by (simp add: unusable_def check_name_def good_name_def lower_name)
qed

lemma normalize_name: "\<forall>c \<in> set s. name_char c \<Longrightarrow> normalize uni s = s"
  by (simp add: normalize_def trim_space_name lower_name)

section \<open>Accounts\<close>

definition directory_of :: "accounts \<Rightarrow> directory" where
  "directory_of us = \<lparr>dy_by_email = row_by ac_email us, dy_by_username = row_by ac_username us\<rparr>"

text \<open>The account table: ids and addresses are unique, addresses are stored folded, and names are names.\<close>

definition accounts_ok :: "(string \<Rightarrow> string) \<Rightarrow> accounts \<Rightarrow> bool" where
  "accounts_ok uni us \<longleftrightarrow> distinct (map ac_id us) \<and> distinct (map ac_email us) \<and>
     (\<forall>u \<in> set us. CHR ''@'' \<in> set (ac_email u) \<and> normalize uni (ac_email u) = ac_email u) \<and>
     (\<forall>u \<in> set us. ac_username u = [] \<or> good_name (ac_username u)) \<and>
     (\<forall>u \<in> set us. \<forall>v \<in> set us. ac_username u \<noteq> [] \<longrightarrow> ac_username u = ac_username v \<longrightarrow> u = v)"

lemma row_by_Found: "row_by f us x = LFound u \<Longrightarrow> u \<in> set us \<and> f u = x"
  by (auto simp: row_by_def find_Some_iff split: option.splits)

lemma row_by_unique:
  "u \<in> set us \<Longrightarrow> f u = x \<Longrightarrow> (\<And>v. v \<in> set us \<Longrightarrow> f v = x \<Longrightarrow> v = u) \<Longrightarrow> row_by f us x = LFound u"
proof -
  assume u: "u \<in> set us" "f u = x" and only: "\<And>v. v \<in> set us \<Longrightarrow> f v = x \<Longrightarrow> v = u"
  obtain v where v: "find (\<lambda>u. f u = x) us = Some v" using u by (cases "find (\<lambda>u. f u = x) us") (auto simp: find_None_all)
  then have "v = u" using only find_Some_in_set [OF v] by simp
  then show "row_by f us x = LFound u" using v by (simp add: row_by_def)
qed

lemma row_by_no_error: "row_by f us x \<noteq> LError"
  by (simp add: row_by_def split: option.split)

lemma good_name_no_at: "good_name s \<Longrightarrow> CHR ''@'' \<notin> set s"
  using name_char_no_at by (auto simp: good_name_def)

lemma normalize_good: "good_name s \<Longrightarrow> normalize uni s = s"
  by (simp add: normalize_name good_name_def)

lemma names_account_iff:
  assumes "accounts_ok uni us" "u \<in> set us"
  shows "names_account uni u typed \<longleftrightarrow>
    normalize uni typed \<noteq> [] \<and> (normalize uni typed = ac_email u \<or>
      ac_username u \<noteq> [] \<and> normalize uni typed = ac_username u)"
proof -
  have "normalize uni (ac_email u) = ac_email u" using assms by (auto simp: accounts_ok_def)
  moreover have "ac_username u \<noteq> [] \<Longrightarrow> normalize uni (ac_username u) = ac_username u"
    using assms by (auto simp: accounts_ok_def normalize_good)
  ultimately show ?thesis by (auto simp: names_account_def Let_def)
qed

lemma resolve_iff:
  assumes "accounts_ok uni us"
  shows "resolve_account uni (directory_of us) typed = Inr u \<longleftrightarrow> u \<in> set us \<and> names_account uni u typed"
proof -
  define x where "x = normalize uni typed"
  have at: "CHR ''@'' \<in> set (ac_email v)" "CHR ''@'' \<notin> set (ac_username v)" if "v \<in> set us" for v
    using assms that good_name_no_at by (auto simp: accounts_ok_def)
  have email: "v = u" if "u \<in> set us" "v \<in> set us" "ac_email v = ac_email u" for u v
    using assms that by (auto simp: accounts_ok_def distinct_map inj_on_def)
  have name: "v = u" if "u \<in> set us" "v \<in> set us" "ac_username v = ac_username u" "ac_username u \<noteq> []" for u v
    using assms that unfolding accounts_ok_def by metis
  have found: "answer_of (row_by f us x) = Inr u \<longleftrightarrow> row_by f us x = LFound u" for f
    by (auto simp: answer_of_def split: lookup.split)
  show ?thesis
  proof (cases "x = []")
    case True
    then show ?thesis using assms names_account_iff [OF assms, where u = u and typed = typed]
      by (auto simp: resolve_account_def Let_def x_def [symmetric])
  next
    case False
    note defs = resolve_account_def directory_of_def Let_def x_def [symmetric] False if_False directory.simps looks_like_email_def found
    show ?thesis
    proof (cases "CHR ''@'' \<in> set x")
      case True
      have "row_by ac_email us x = LFound u \<longleftrightarrow> u \<in> set us \<and> ac_email u = x"
        using row_by_Found row_by_unique [of u us ac_email x] email by metis
      moreover have "x \<noteq> ac_username v" if "v \<in> set us" for v using at(2) [OF that] True by auto
      ultimately show ?thesis using True names_account_iff [OF assms, where u = u and typed = typed] False
        by (auto simp: defs)
    next
      case no_at: False
      then have ne: "x \<noteq> ac_email v" if "v \<in> set us" for v using at(1) [OF that] by auto
      have by_name: "row_by ac_username us x = LFound u \<longleftrightarrow> u \<in> set us \<and> ac_username u = x"
        using row_by_Found row_by_unique [of u us ac_username x] name False by metis
      have "good_name x" if "v \<in> set us" "ac_username v = x" for v
        using that assms False by (auto simp: accounts_ok_def)
      then show ?thesis using no_at names_account_iff [OF assms, where u = u and typed = typed] False ne by_name usable_iff [of uni x]
        by (auto simp: defs)
    qed
  qed
qed

text \<open>One lookup decides, whatever the tables answer, a failure included: an address is never looked for among the
  names, a name never among the addresses, and what is no name is not looked for.\<close>

lemma resolve_one_lookup:
  assumes "n = normalize uni typed"
  shows "CHR ''@'' \<in> set n \<Longrightarrow> resolve_account uni d typed = answer_of (dy_by_email d n)"
    "CHR ''@'' \<notin> set n \<Longrightarrow> good_name n \<Longrightarrow> resolve_account uni d typed = answer_of (dy_by_username d n)"
    "CHR ''@'' \<notin> set n \<Longrightarrow> \<not> good_name n \<Longrightarrow> resolve_account uni d typed = Inl ErrNotFound"
proof -
  have ne: "good_name n \<Longrightarrow> n \<noteq> []" by (auto simp: good_name_def)
  note defs = resolve_account_def Let_def assms [symmetric] looks_like_email_def usable_iff [of uni n, symmetric]
  show "CHR ''@'' \<in> set n \<Longrightarrow> resolve_account uni d typed = answer_of (dy_by_email d n)" by (auto simp: defs)
  show "CHR ''@'' \<notin> set n \<Longrightarrow> good_name n \<Longrightarrow> resolve_account uni d typed = answer_of (dy_by_username d n)"
    using ne by (auto simp: defs)
  show "CHR ''@'' \<notin> set n \<Longrightarrow> \<not> good_name n \<Longrightarrow> resolve_account uni d typed = Inl ErrNotFound" by (auto simp: defs)
qed

lemma resolve_nobody:
  "(\<forall>u. resolve_account uni (directory_of us) typed \<noteq> Inr u) \<Longrightarrow> resolve_account uni (directory_of us) typed = Inl ErrNotFound"
  by (auto simp: resolve_account_def directory_of_def Let_def answer_of_def row_by_def split: if_splits option.splits)

text \<open>C38. One identifier, one account. In an account table whose addresses are stored folded, \<open>Resolve\<close> answers exactly
  the account that \<open>Names\<close> says the identifier addresses, and ``not found'' when there is none. It never tries both:
  whatever the store answers, failures included, an identifier with an \<open>@\<close> is answered by the one lookup by address, a
  well-formed name by the one lookup by login name, and nothing else is looked for.\<close>

theorem resolve_finds_who_is_named:
  assumes "accounts_ok uni us"
  shows "(resolve_account uni (directory_of us) typed = Inr u \<longleftrightarrow> u \<in> set us \<and> names_account uni u typed) \<and>
    ((\<forall>u \<in> set us. \<not> names_account uni u typed) \<longrightarrow> resolve_account uni (directory_of us) typed = Inl ErrNotFound) \<and>
    resolve_account uni d typed =
      (if CHR ''@'' \<in> set (normalize uni typed) then answer_of (dy_by_email d (normalize uni typed))
       else if good_name (normalize uni typed) then answer_of (dy_by_username d (normalize uni typed))
       else Inl ErrNotFound)"
  using resolve_iff [OF assms, of typed] resolve_nobody [of uni us typed] resolve_one_lookup [OF refl, of uni typed d] by simp

text \<open>An address that was stored as it was written, with a capital letter, is named by what its owner types and is not
  found by it: the first administrator's is stored so.\<close>

lemma unfolded_address_not_found:
  "let boss = \<lparr>ac_id = 1, ac_email = ''Boss@corp.example'', ac_username = ''admin'', ac_provider = None\<rparr>;
       typed = ''Boss@corp.example'' in
   names_account id boss typed \<and> resolve_account id (directory_of [boss]) typed = Inl ErrNotFound"
proof -
  have "trim_space ''Boss@corp.example'' = ''Boss@corp.example''" by (rule trim_space_ascii) auto
  moreover have "char_of (98 :: nat) = CHR ''b''" by code_simp
  ultimately have "normalize id ''Boss@corp.example'' = ''boss@corp.example''"
    by (simp add: normalize_def to_lower_def lower_byte_def)
  then show ?thesis
    by (simp add: names_account_def resolve_account_def looks_like_email_def directory_of_def row_by_def answer_of_def)
qed

section \<open>Claiming\<close>

definition renamed :: "int \<Rightarrow> string \<Rightarrow> accounts \<Rightarrow> accounts" where
  "renamed uid name us = map (\<lambda>u. if ac_id u = uid then u\<lparr>ac_username := name\<rparr> else u) us"

lemma renamed_keys: "map ac_id (renamed uid name us) = map ac_id us" "map ac_email (renamed uid name us) = map ac_email us"
  by (induction us) (auto simp: renamed_def)

lemma renamed_set:
  "v \<in> set (renamed uid name us) \<longleftrightarrow>
    (\<exists>w \<in> set us. v = (if ac_id w = uid then w\<lparr>ac_username := name\<rparr> else w))"
  unfolding renamed_def by (simp only: set_map image_iff)

lemma accounts_ok_renamed:
  assumes ok: "accounts_ok uni us" and name: "good_name name"
    and free: "\<forall>v \<in> set us. ac_username v = name \<longrightarrow> ac_id v = uid"
  shows "accounts_ok uni (renamed uid name us)"
proof -
  have ids: "v = w" if "v \<in> set us" "w \<in> set us" "ac_id v = ac_id w" for v w
    using ok that by (auto simp: accounts_ok_def distinct_map inj_on_def)
  have "v = w" if "v \<in> set (renamed uid name us)" "w \<in> set (renamed uid name us)"
    "ac_username v \<noteq> []" "ac_username v = ac_username w" for v w
  proof -
    note prems = that
    obtain v0 w0 where r: "v0 \<in> set us" "w0 \<in> set us" "v = (if ac_id v0 = uid then v0\<lparr>ac_username := name\<rparr> else v0)"
      "w = (if ac_id w0 = uid then w0\<lparr>ac_username := name\<rparr> else w0)" using prems(1,2) unfolding renamed_set by blast
    show ?thesis
    proof (cases "ac_id v0 = uid"; cases "ac_id w0 = uid")
      assume "ac_id v0 \<noteq> uid" "ac_id w0 \<noteq> uid"
      then show ?thesis using r prems(3,4) ok unfolding accounts_ok_def by metis
    qed (use r prems(3,4) free ids in auto)
  qed
  moreover have "distinct (map ac_id (renamed uid name us))" "distinct (map ac_email (renamed uid name us))"
    using ok by (simp_all only: renamed_keys accounts_ok_def)
  moreover have "CHR ''@'' \<in> set (ac_email v) \<and> normalize uni (ac_email v) = ac_email v"
    "ac_username v = [] \<or> good_name (ac_username v)" if v: "v \<in> set (renamed uid name us)" for v
  proof -
    obtain w where "w \<in> set us" "v = (if ac_id w = uid then w\<lparr>ac_username := name\<rparr> else w)"
      using v unfolding renamed_set by blast
    then show "CHR ''@'' \<in> set (ac_email v) \<and> normalize uni (ac_email v) = ac_email v"
      "ac_username v = [] \<or> good_name (ac_username v)" using ok name unfolding accounts_ok_def by simp_all
  qed
  ultimately show ?thesis unfolding accounts_ok_def by blast
qed

lemma set_username_renamed:
  "set_username fails uid name us = Some us' \<Longrightarrow>
    us' = renamed uid name us \<and> (\<forall>v \<in> set us. ac_username v = name \<longrightarrow> ac_id v = uid)"
  by (auto simp: set_username_def renamed_def list_ex_iff split: if_splits)

lemma claim_once_cases:
  assumes "claim_once uni io uid name us = Some (us', r)"
  shows "us' = us \<and> r = Inl ErrStore \<or>
    r = Inr name \<and> check_name uni name = None \<and> us' = renamed uid name us \<and> (\<forall>v \<in> set us. ac_username v = name \<longrightarrow> ac_id v = uid)"
proof -
  have "check_name uni name = None" if "validate_name uni name = None"
    using that by (auto simp: validate_name_def split: option.splits problem.splits)
  then show ?thesis using assms set_username_renamed [of _ uid name us]
    by (auto simp: claim_once_def split: if_splits lookup.splits)
qed

lemma claim_from_cases:
  "claim_from uni io uid base ks us = (us', r) \<Longrightarrow> (us' = us \<and> (\<exists>e. r = Inl e)) \<or>
    (\<exists>name. r = Inr name \<and> check_name uni name = None \<and> us' = renamed uid name us \<and>
      (\<forall>v \<in> set us. ac_username v = name \<longrightarrow> ac_id v = uid))"
proof (induction ks)
  case (Cons k ks)
  then show ?case using claim_once_cases [of uni "io k" uid "candidate base k" us us' r]
    by (auto split: option.splits)
qed auto

lemma ensure_username_ok:
  assumes ok: "accounts_ok uni us" and u: "u \<in> set us" and run: "ensure_username uni io u us = (us', r)"
  shows "accounts_ok uni us' \<and> (\<forall>w \<in> set us. w \<noteq> u \<longrightarrow> w \<in> set us') \<and>
    (case r of
       Inl e \<Rightarrow> us' = us
     | Inr name \<Rightarrow> resolve_account uni (directory_of us') name = Inr (u\<lparr>ac_username := name\<rparr>))"
proof -
  have ids: "w = u" if "w \<in> set us" "ac_id w = ac_id u" for w
    using ok u that by (auto simp: accounts_ok_def distinct_map inj_on_def)
  have signs: "resolve_account uni (directory_of vs) name = Inr v"
    if "accounts_ok uni vs" "v \<in> set vs" "ac_username v = name" "good_name name" for vs v name
  proof -
    have "name \<noteq> []" using that(4) by (auto simp: good_name_def)
    then have "names_account uni v name" using that names_account_iff [OF that(1,2)] by (simp add: normalize_good)
    then show ?thesis using resolve_iff [OF that(1)] that(2) by blast
  qed
  show ?thesis
  proof (cases "ac_username u = []")
    case False
    then have "us' = us" "r = Inr (ac_username u)" using run by (auto simp: ensure_username_def)
    moreover have "good_name (ac_username u)" using False ok u by (auto simp: accounts_ok_def)
    ultimately show ?thesis using signs [OF ok u] ok by simp
  next
    case True
    then have "claim_from uni io (ac_id u) (suggest uni (ac_email u)) [0..<max_claim_attempts] us = (us', r)"
      using run by (simp add: ensure_username_def)
    from claim_from_cases [OF this] show ?thesis
    proof (elim disjE conjE exE)
      fix name assume r: "r = Inr name" and c: "check_name uni name = None" and us': "us' = renamed (ac_id u) name us"
        and free: "\<forall>v \<in> set us. ac_username v = name \<longrightarrow> ac_id v = ac_id u"
      have good: "good_name name" using c check_name_iff by blast
      have ok': "accounts_ok uni us'" unfolding us' by (rule accounts_ok_renamed [OF ok good free])
      have "u\<lparr>ac_username := name\<rparr> \<in> set us'" using u unfolding us' renamed_set by force
      then have "resolve_account uni (directory_of us') name = Inr (u\<lparr>ac_username := name\<rparr>)"
        using signs [OF ok' _ _ good] by simp
      moreover have "\<forall>w \<in> set us. w \<noteq> u \<longrightarrow> w \<in> set us'" using ids unfolding us' renamed_set by force
      ultimately show ?thesis using ok' r by simp
    qed (use ok in auto)
  qed
qed

text \<open>C39. A claimed name is the account's own: whatever fails while \<open>EnsureUsername\<close> looks for one, the table
  stays sound and every other account as it was; with an answer, the name signs in to this account from
  now on, without one nothing has changed (a write that answers with an error being one that wrote nothing).\<close>

theorem claimed_names_sign_in:
  assumes "accounts_ok uni us" and "u \<in> set us" and "ensure_username uni io u us = (us', r)"
  shows "accounts_ok uni us' \<and> (\<forall>w \<in> set us. w \<noteq> u \<longrightarrow> w \<in> set us') \<and>
    (case r of
       Inl e \<Rightarrow> us' = us
     | Inr name \<Rightarrow> resolve_account uni (directory_of us') name = Inr (u\<lparr>ac_username := name\<rparr>))"
  by (rule ensure_username_ok [OF assms])

lemma backfill_ok:
  "accounts_ok uni us \<Longrightarrow> distinct rows \<Longrightarrow> (\<forall>u \<in> set rows. u \<in> set us) \<Longrightarrow> accounts_ok uni (fst (backfill_rows uni io rows us))"
proof (induction rows arbitrary: us)
  case (Cons u rows)
  show ?case
  proof (cases "ac_username u = []")
    case True
    obtain us1 r where run: "ensure_username uni (io (ac_id u)) u us = (us1, r)" by fastforce
    have "\<forall>w \<in> set us. w \<noteq> u \<longrightarrow> w \<in> set us1" "accounts_ok uni us1"
      using ensure_username_ok [OF Cons.prems(1) _ run] Cons.prems(3) by auto
    moreover have "\<forall>w \<in> set rows. w \<in> set us \<and> w \<noteq> u" using Cons.prems(2,3) by auto
    ultimately have "accounts_ok uni (fst (backfill_rows uni io rows us1))"
      by (intro Cons.IH) (use Cons.prems(2) in auto)
    then show ?thesis using True run by (cases r) (auto simp: case_prod_unfold Let_def)
  qed (use Cons in auto)
qed simp

section \<open>Tenants\<close>

lemma answer_Inr: "answer_of l = Inr u \<longleftrightarrow> l = LFound u"
  by (auto simp: answer_of_def split: lookup.split)

lemma owned_Inr: "owned_or_not_found t a = Inr u \<longleftrightarrow> a = Inr u \<and> owns t (Some u)"
  by (auto simp: owned_or_not_found_def split: sum.split)

text \<open>C40. A sign-in for a tenant never leaves it: the account found belongs to the tenant, and what was typed
  names it there - its address, its login name, or the login name its made-up address came from.\<close>

theorem tenants_stay_apart:
  assumes "accounts_ok uni us" and "resolve_in uni (directory_of us) (Some t) typed = Inr u"
  shows "u \<in> set us \<and> owns (Some t) (Some u) \<and> names_in uni u typed (tn_realm t) (tn_token t)"
proof -
  define x where "x = normalize uni typed"
  let ?e = "derive_email uni x [] (tn_realm t) (tn_token t)"
  have x: "x \<noteq> []" using assms(2) by (auto simp: resolve_in_def x_def split: if_splits)
  define by_name where "by_name = (if unusable uni x then Inl ErrNotFound
    else owned_or_not_found (Some t) (answer_of (row_by ac_username us x)))"
  have name: "by_name = Inr u \<Longrightarrow> owns (Some t) (Some u) \<and> row_by ac_username us x = LFound u"
    by (simp add: by_name_def owned_Inr answer_Inr split: if_splits)
  have r: "resolve_in uni (directory_of us) (Some t) typed =
      (if looks_like_email x then owned_or_not_found (Some t) (answer_of (row_by ac_email us x))
       else (case answer_of (row_by ac_email us ?e) of
               Inl e \<Rightarrow> if e \<noteq> ErrNotFound then Inl e else by_name
             | Inr v \<Rightarrow> if owns (Some t) (Some v) then Inr v else by_name))"
    unfolding resolve_in_def option.case Let_def x_def [symmetric] by_name_def directory_of_def directory.simps
    by (simp only: x if_False)
  have cases: "owns (Some t) (Some u) \<and> (row_by ac_email us x = LFound u \<and> looks_like_email x \<or>
      \<not> looks_like_email x \<and> (row_by ac_username us x = LFound u \<or> row_by ac_email us ?e = LFound u))"
  proof (cases "looks_like_email x")
    case True
    then show ?thesis using assms(2) unfolding r by (simp add: owned_Inr answer_Inr)
  next
    case False
    show ?thesis
    proof (cases "answer_of (row_by ac_email us ?e)")
      case (Inl e)
      then have "by_name = Inr u" using assms(2) False unfolding r by (simp split: if_splits)
      then show ?thesis using name False by simp
    next
      case (Inr v)
      then have "v = u \<and> owns (Some t) (Some u) \<or> by_name = Inr u" using assms(2) False unfolding r by (auto split: if_splits)
      then show ?thesis using name False Inr answer_Inr by blast
    qed
  qed
  then have mem: "u \<in> set us" using row_by_Found by blast
  have "names_account uni u typed" if "row_by ac_email us x = LFound u \<or> row_by ac_username us x = LFound u"
    using that row_by_Found [of ac_email us x u] row_by_Found [of ac_username us x u]
      names_account_iff [OF assms(1) mem, where typed = typed] x
    by (auto simp: x_def)
  moreover have "names_in uni u typed (tn_realm t) (tn_token t)" if "\<not> looks_like_email x" "row_by ac_email us ?e = LFound u"
  proof -
    have "ac_email u = ?e" "normalize uni (ac_email u) = ac_email u"
      using row_by_Found [OF that(2)] assms(1) mem by (auto simp: accounts_ok_def)
    then show ?thesis using x that(1) by (simp add: names_in_def Let_def x_def [symmetric])
  qed
  moreover have "names_in uni u typed (tn_realm t) (tn_token t)" if "names_account uni u typed"
    using that by (simp add: names_in_def)
  ultimately show ?thesis using cases mem by blast
qed

section \<open>Addresses that are made up\<close>

text \<open>Printable ASCII with no capital letter: what folding leaves as it is.\<close>

definition plain_char :: "char \<Rightarrow> bool" where
  "plain_char c \<longleftrightarrow> 32 < byte c \<and> byte c < 128 \<and> \<not> (65 \<le> byte c \<and> byte c \<le> 90)"

lemma plain_folds:
  assumes "\<forall>c \<in> set s. plain_char c" shows "trim_space s = s" "to_lower uni s = s"
proof -
  show "trim_space s = s" by (rule trim_space_ascii) (use assms in \<open>auto simp: plain_char_def byte_def\<close>)
  show "to_lower uni s = s"
    using assms by (auto simp: to_lower_def lower_byte_def plain_char_def byte_def list_all_iff Let_def intro!: map_idI)
qed

lemma name_char_plain: "name_char c \<Longrightarrow> plain_char c"
  by (auto simp: name_char_def is_username_rune_def plain_char_def)

lemma dns_like_plain:
  assumes "dns_like s" shows "\<forall>c \<in> set s. plain_char c \<and> c \<noteq> CHR ''@''"
proof -
  have d: "\<forall>(r, _) \<in> set (runes s). dns_char r" using assms by (simp add: dns_like_def list_all_iff)
  then have "\<forall>(r, _) \<in> set (runes s). r < 128" by (fastforce simp: dns_char_def)
  from runes_small [OF this] have "\<forall>c \<in> set s. dns_char (byte c)" using d by auto
  then show ?thesis by (auto simp: dns_char_def plain_char_def byte_def)
qed

lemma email_token_plain:
  assumes "email_token uni raw = Some t" shows "(\<forall>c \<in> set t. plain_char c \<and> c \<noteq> CHR ''@'') \<and> t \<noteq> []"
proof -
  have "t = ''local'' \<or> dns_like t" using assms by (auto simp: email_token_def Let_def split: if_splits)
  then show ?thesis
  proof
    assume "t = ''local''"
    then show ?thesis by (simp add: plain_char_def byte_def)
  qed (use dns_like_plain in \<open>auto simp: dns_like_def\<close>)
qed

definition realm_ok :: "string \<Rightarrow> bool" where
  "realm_ok realm \<longleftrightarrow> realm = [] \<or> dns_like realm"

lemma token_domain_plain:
  assumes "email_token uni raw = Some t" "realm_ok realm"
  shows "token_domain uni realm t = (if realm = [] then t else realm @ CHR ''.'' # t)"
proof -
  have "\<forall>c \<in> set realm. plain_char c" using assms(2) dns_like_plain by (auto simp: realm_ok_def)
  then show ?thesis using email_token_plain [OF assms(1)] by (simp add: token_domain_def plain_folds)
qed

lemma derived_address:
  assumes "good_name n" "email_token uni raw = Some t" "realm_ok realm"
  shows "derive_email uni n [] realm t = n @ CHR ''@'' # token_domain uni realm t"
    and "normalize uni (n @ CHR ''@'' # token_domain uni realm t) = n @ CHR ''@'' # token_domain uni realm t"
    and "CHR ''@'' \<notin> set (token_domain uni realm t)"
proof -
  have n: "n \<noteq> []" "CHR ''@'' \<notin> set n" "normalize uni n = n"
    using assms(1) good_name_no_at normalize_good by (auto simp: good_name_def)
  have "trim_space [] = []" by code_simp
  then have "trimmed_domain uni [] = []" by (simp add: trimmed_domain_def trim_prefix_def has_prefix_def to_lower_def)
  then show "derive_email uni n [] realm t = n @ CHR ''@'' # token_domain uni realm t"
    using n by (simp add: derive_email_def)
  have r: "\<forall>c \<in> set realm. plain_char c \<and> c \<noteq> CHR ''@''" using assms(3) dns_like_plain by (auto simp: realm_ok_def)
  then show "CHR ''@'' \<notin> set (token_domain uni realm t)"
    using email_token_plain [OF assms(2)] by (auto simp: token_domain_plain [OF assms(2,3)])
  have dot: "plain_char (CHR ''.'')" by (simp add: plain_char_def byte_def)
  have "\<forall>c \<in> set (token_domain uni realm t). plain_char c" unfolding token_domain_plain [OF assms(2,3)]
    using r email_token_plain [OF assms(2)] dot by auto
  moreover have "\<forall>c \<in> set n. plain_char c" using assms(1) name_char_plain by (simp add: good_name_def)
  moreover have "plain_char (CHR ''@'')" by (simp add: plain_char_def byte_def)
  ultimately have "\<forall>c \<in> set (n @ CHR ''@'' # token_domain uni realm t). plain_char c" by auto
  then show "normalize uni (n @ CHR ''@'' # token_domain uni realm t) = n @ CHR ''@'' # token_domain uni realm t"
    by (simp add: normalize_def plain_folds)
qed

text \<open>An address made up for a login name reads back as that name in its realm, and no two people get one
  address: the same address means the same name in the same realm.\<close>

theorem derived_addresses_read_back:
  assumes "good_name n" and "good_name m" and "email_token uni raw = Some t" and "realm_ok realm" and "realm_ok realm'"
  shows "login_name_of uni (derive_email uni n [] realm t) realm t = Some n \<and>
    (derive_email uni n [] realm t = derive_email uni m [] realm' t \<longrightarrow> n = m \<and> realm = realm')"
proof -
  note d = derived_address [OF assms(1,3,4)] and d' = derived_address [OF assms(2,3,5)]
  have n: "n \<noteq> []" "CHR ''@'' \<notin> set n" "CHR ''@'' \<notin> set m"
    using assms(1,2) good_name_no_at by (auto simp: good_name_def)
  have "login_name_of uni (derive_email uni n [] realm t) realm t = Some n"
    using n by (simp add: login_name_of_def d last_index_append Let_def)
  moreover have "n = m \<and> realm = realm'" if eq: "derive_email uni n [] realm t = derive_email uni m [] realm' t"
  proof -
    have split: "n @ CHR ''@'' # token_domain uni realm t = m @ CHR ''@'' # token_domain uni realm' t" using eq d(1) d'(1) by simp
    then have nm: "n = m" using n index_byte_append [of "CHR ''@''"] by (metis append_eq_conv_conj option.inject)
    then have "token_domain uni realm t = token_domain uni realm' t" using split by simp
    then have "realm = realm'" unfolding token_domain_plain [OF assms(3,4)] token_domain_plain [OF assms(3,5)]
      by (auto split: if_splits dest: arg_cong [of _ _ length])
    then show ?thesis using nm by simp
  qed
  ultimately show ?thesis by blast
qed

section \<open>Samples\<close>

definition sample_accounts :: accounts where
  "sample_accounts =
     [\<lparr>ac_id = 1, ac_email = ''ann@corp.example'', ac_username = ''ann'', ac_provider = None\<rparr>,
      \<lparr>ac_id = 2, ac_email = ''bob@acme.local'', ac_username = [], ac_provider = Some 7\<rparr>]"

lemma normalize_plain: "list_all plain_char s \<Longrightarrow> normalize uni s = s"
  by (simp add: normalize_def plain_folds list_all_iff)

lemma sample_plain [simp]:
  "normalize uni ''ann@corp.example'' = ''ann@corp.example''" "normalize uni ''bob@acme.local'' = ''bob@acme.local''"
  "normalize uni ''bob'' = ''bob''" "normalize uni ''ann'' = ''ann''"
  by (rule normalize_plain, simp add: plain_char_def byte_def)+

lemma sample_good: "good_name ''ann'' \<and> good_name ''bob''"
  by (simp add: good_name_def name_char_def is_username_rune_def byte_def is_digit_def)

lemma sample_accounts_ok: "accounts_ok uni sample_accounts"
  using sample_good by (simp add: accounts_ok_def sample_accounts_def)

text \<open>A store whose lookup by name is down, and holds somebody under the address \<open>ann\<close>: the failure is the answer.\<close>

definition name_down :: directory where
  "name_down = \<lparr>dy_by_email = row_by ac_email [\<lparr>ac_id = 9, ac_email = ''ann'', ac_username = [], ac_provider = None\<rparr>],
     dy_by_username = (\<lambda>_. LError)\<rparr>"

theorem resolve_finds_who_is_named_witness:
  "resolve_account (\<lambda>s. s) (directory_of sample_accounts) ''ann'' =
     Inr \<lparr>ac_id = 1, ac_email = ''ann@corp.example'', ac_username = ''ann'', ac_provider = None\<rparr> \<and>
   resolve_account (\<lambda>s. s) (directory_of sample_accounts) ''zoe'' = Inl ErrNotFound \<and>
   resolve_account (\<lambda>s. s) name_down ''ann'' = Inl ErrStore"
proof -
  note t = resolve_finds_who_is_named [OF sample_accounts_ok]
  have ann: "good_name ''ann''" and zoe: "good_name ''zoe''" by code_simp+
  have "resolve_account (\<lambda>s. s) (directory_of sample_accounts) ''ann'' =
      Inr \<lparr>ac_id = 1, ac_email = ''ann@corp.example'', ac_username = ''ann'', ac_provider = None\<rparr>"
    by (subst t [THEN conjunct1]) (simp add: sample_accounts_def names_account_def)
  moreover have "resolve_account (\<lambda>s. s) (directory_of sample_accounts) ''zoe'' = Inl ErrNotFound"
    by (rule t [THEN conjunct2, THEN conjunct1, rule_format])
      (auto simp: names_account_iff [OF sample_accounts_ok] normalize_good [OF zoe] sample_accounts_def)
  moreover have "resolve_account (\<lambda>s. s) name_down ''ann'' = Inl ErrStore"
    by (subst t [THEN conjunct2, THEN conjunct2]) (simp add: normalize_good [OF ann] ann name_down_def answer_of_def)
  ultimately show ?thesis by blast
qed

definition no_trouble :: "nat \<Rightarrow> attempt_io" where
  "no_trouble k = \<lparr>ai_lookup = False, ai_write = False\<rparr>"

definition sample_bob :: account where
  "sample_bob = \<lparr>ac_id = 2, ac_email = ''bob@acme.local'', ac_username = [], ac_provider = Some 7\<rparr>"

lemmas name_evals = clean_name_def runes_ascii byte_def clean_rune_def is_username_rune_def squeeze_dots.simps
  index_of.simps has_prefix_def trim_def trim_right_def separator_def

lemma suggest_bob: "suggest uni ''bob@acme.local'' = ''bob''"
proof -
  have "split_email ''bob@acme.local'' = (''bob'', ''acme.local'')" "index_byte ''bob'' (CHR ''+'') = None" by code_simp+
  moreover have "clean_name ''bob'' = ''bob''" by (simp add: name_evals)
  ultimately show ?thesis by (simp add: suggest_def is_digit_def)
qed

theorem claimed_names_sign_in_witness:
  "resolve_account (\<lambda>s. s) (directory_of (renamed 2 ''bob'' sample_accounts)) ''bob'' = Inr (sample_bob\<lparr>ac_username := ''bob''\<rparr>)"
proof -
  have c: "check_name (\<lambda>s. s) ''bob'' = None" using sample_good check_name_iff by (simp add: reserved_names_def)
  have free: "row_by ac_username sample_accounts ''bob'' = LNone" by (simp add: row_by_def sample_accounts_def)
  have "set_username False 2 ''bob'' sample_accounts = Some (renamed 2 ''bob'' sample_accounts)"
    by (simp add: set_username_def renamed_def sample_accounts_def)
  then have "claim_once (\<lambda>s. s) (no_trouble 0) 2 ''bob'' sample_accounts = Some (renamed 2 ''bob'' sample_accounts, Inr ''bob'')"
    by (simp add: claim_once_def c validate_name_def no_trouble_def free)
  then have "claim_from (\<lambda>s. s) no_trouble 2 ''bob'' (0 # ks) sample_accounts = (renamed 2 ''bob'' sample_accounts, Inr ''bob'')" for ks
    by (simp add: candidate_def)
  moreover have "[0..<max_claim_attempts] = 0 # [1..<max_claim_attempts]" by (simp add: max_claim_attempts_def upt_conv_Cons)
  ultimately have run: "ensure_username (\<lambda>s. s) no_trouble sample_bob sample_accounts = (renamed 2 ''bob'' sample_accounts, Inr ''bob'')"
    by (simp add: ensure_username_def sample_bob_def suggest_bob)
  have "sample_bob \<in> set sample_accounts" by (simp add: sample_bob_def sample_accounts_def)
  from claimed_names_sign_in [OF sample_accounts_ok this run] show ?thesis by simp
qed

definition acme :: tenant where
  "acme = \<lparr>tn_provider = 7, tn_realm = ''acme'', tn_main = False, tn_token = ''local''\<rparr>"

lemma realm_acme: "realm_ok ''acme'' \<and> realm_ok ''corp''"
  by (simp add: realm_ok_def dns_like_def dns_char_def name_evals)

lemma token_local: "email_token uni [] = Some ''local''"
proof -
  have "trim_space [] = []" by code_simp
  then have "trimmed_domain uni [] = []" by (simp add: trimmed_domain_def trim_prefix_def has_prefix_def to_lower_def)
  then show ?thesis by (simp add: email_token_def)
qed

theorem tenants_stay_apart_witness:
  "owns (Some acme) (Some sample_bob) \<and> names_in (\<lambda>s. s) sample_bob ''bob'' ''acme'' ''local''"
proof -
  have "derive_email (\<lambda>s. s) ''bob'' [] ''acme'' ''local'' = ''bob@acme.local''"
    using derived_address(1) [of "''bob''", OF _ token_local conjunct1 [OF realm_acme]] sample_good
      token_domain_plain [OF token_local conjunct1 [OF realm_acme]] by simp
  then have "resolve_in (\<lambda>s. s) (directory_of sample_accounts) (Some acme) ''bob'' = Inr sample_bob"
    by (simp add: resolve_in_def acme_def directory_of_def sample_accounts_def row_by_def looks_like_email_def answer_of_def
      owns_def sample_bob_def)
  from tenants_stay_apart [OF sample_accounts_ok this] show ?thesis by (simp add: acme_def)
qed

theorem derived_addresses_read_back_witness:
  "login_name_of (\<lambda>s. s) (derive_email (\<lambda>s. s) ''bob'' [] ''acme'' ''local'') ''acme'' ''local'' = Some ''bob''"
  using derived_addresses_read_back [OF _ _ token_local conjunct1 [OF realm_acme] conjunct2 [OF realm_acme]] sample_good by blast

text \<open>
  An address whose local part leaves no letter and whose domain starts with a digit gives a base that no
  counter mends: every one of the fifty candidates starts with the digit, and the account stays unnamed.
\<close>

definition cyrillic_at_1c :: string where
  "cyrillic_at_1c = CHR 0xD0 # CHR 0xB8 # ''@1c.ru''"

lemma suggest_1c:
  assumes "uni cyrillic_at_1c = cyrillic_at_1c" shows "suggest uni cyrillic_at_1c = ''1cx''"
proof -
  have "trim_space cyrillic_at_1c = cyrillic_at_1c" by code_simp
  moreover have "\<not> list_all (\<lambda>c. (of_char c :: nat) < 128) cyrillic_at_1c" by (simp add: cyrillic_at_1c_def)
  ultimately have "normalize uni cyrillic_at_1c = cyrillic_at_1c" using assms by (simp add: normalize_def to_lower_def)
  moreover have "split_email cyrillic_at_1c = ([CHR 0xD0, CHR 0xB8], ''1c.ru'')"
    "index_byte [CHR 0xD0, CHR 0xB8] (CHR ''+'') = None" "first_label ''1c.ru'' = ''1c''" by code_simp+
  moreover have "runes [CHR 0xD0, CHR 0xB8] = [(0x438, [CHR 0xD0, CHR 0xB8])]"
    by (simp add: runes_Cons decode_rune_def byte_def cont_def)
  then have "clean_name [CHR 0xD0, CHR 0xB8] = []" by (simp add: name_evals translit_def)
  moreover have "clean_name ''1c'' = ''1c''" by (simp add: name_evals)
  moreover have "trim separator (CHR ''.'' # ''1c'') = ''1c''" by (simp add: trim_def trim_right_def separator_def)
  ultimately show ?thesis by (simp add: suggest_def)
qed

lemma digit_base_never_named:
  assumes "uni cyrillic_at_1c = cyrillic_at_1c" and "ac_username u = []" and "ac_email u = cyrillic_at_1c"
  shows "ensure_username uni io u us = (us, Inl ErrInvalidUsername)"
proof -
  have "list_all (\<lambda>k. hd (candidate ''1cx'' k) = CHR ''1'') [0..<50]" by code_simp
  then have "\<forall>k \<in> set [0..<max_claim_attempts]. is_digit (hd (candidate ''1cx'' k))"
    by (simp add: list_all_iff max_claim_attempts_def is_digit_def)
  then have bad: "\<forall>k \<in> set [0..<max_claim_attempts]. validate_name uni (candidate ''1cx'' k) \<noteq> None"
    using check_name_iff [of uni] by (auto simp: validate_name_def good_name_def split: option.split problem.split)
  have "\<forall>k \<in> set ks. validate_name uni (candidate b k) \<noteq> None \<Longrightarrow>
      claim_from uni io uid b ks us = (us, Inl ErrInvalidUsername)" for b uid ks
    by (induction ks) (auto simp: claim_once_def)
  from this [OF bad] show ?thesis using assms suggest_1c [of uni] by (simp add: ensure_username_def)
qed

end
