(* ===== verification/Dbsetting.thy ===== *)
theory Dbsetting
  imports Syspath
begin

text \<open>
  \<open>internal/dbsetting\<close>: settings kept in a table, seeded once from the environment, read with a
  fallback and validated when written. The table is a map from keys to texts; whether a read or a
  write of it fails is an argument, \<open>uni\<close> are Unicode's case tables (\<open>to_lower\<close>). A spec's own
  functions (\<open>SeedParse\<close>, \<open>Normalize\<close>, \<open>Check\<close>) are fields of it, nil is None.
\<close>

datatype answer = Found string | NoRow | ReadError

type_synonym getter = "string \<Rightarrow> answer"
type_synonym settings = "string \<rightharpoonup> string"

definition table_get :: "settings \<Rightarrow> getter" where
  "table_get m key = (case m key of None \<Rightarrow> NoRow | Some v \<Rightarrow> Found v)"

section \<open>Numbers\<close>

record int_spec =
  is_key :: string
  is_env :: string
  is_default :: int
  is_min :: int
  is_max :: int
  is_seed_parse :: "(string \<Rightarrow> int option) option"

definition clamp :: "int_spec \<Rightarrow> int \<Rightarrow> int \<times> bool" where
  "clamp s v = (if v < is_min s then (is_min s, True) else if v > is_max s then (is_max s, True) else (v, False))"

definition validate_int :: "int_spec \<Rightarrow> int \<Rightarrow> bool" where
  "validate_int s v \<longleftrightarrow> \<not> (v < is_min s \<or> v > is_max s)"

definition resolve_int :: "int_spec \<Rightarrow> getter option \<Rightarrow> int" where
  "resolve_int s g =
     (case g of
        None \<Rightarrow> is_default s
      | Some get \<Rightarrow>
        (case get (is_key s) of
           Found raw \<Rightarrow>
             if raw = [] then is_default s
             else (case parse_int64 raw of None \<Rightarrow> is_default s | Some n \<Rightarrow> fst (clamp s n))
         | _ \<Rightarrow> is_default s))"

definition parse_seed :: "int_spec \<Rightarrow> string \<Rightarrow> int option" where
  "parse_seed s raw = (case is_seed_parse s of Some f \<Rightarrow> f raw | None \<Rightarrow> parse_int64 raw)"

text \<open>What a seed leaves in the table, and whether it succeeded. \<open>get\<close> answers its one read.\<close>

definition put_setting :: "bool \<Rightarrow> string \<Rightarrow> string \<Rightarrow> settings \<Rightarrow> settings \<times> bool" where
  "put_setting fails key v m = (if fails then (m, False) else (m(key \<mapsto> v), True))"

definition already_stored :: "answer \<Rightarrow> bool" where
  "already_stored cur \<longleftrightarrow> (case cur of Found v \<Rightarrow> v \<noteq> [] | _ \<Rightarrow> False)"

definition seed_int :: "int_spec \<Rightarrow> (string \<Rightarrow> string) \<Rightarrow> getter \<Rightarrow> bool \<Rightarrow> settings \<Rightarrow> settings \<times> bool" where
  "seed_int s getenv get fails m =
     (if is_env s = [] then (m, True)
      else let raw = getenv (is_env s) in
        if raw = [] then (m, True)
        else if already_stored (get (is_key s)) then (m, True)
        else (case parse_seed s raw of
                None \<Rightarrow> (m, True)
              | Some n \<Rightarrow> put_setting fails (is_key s) (format_int (fst (clamp s n))) m))"

section \<open>Switches\<close>

record bool_spec =
  bs_key :: string
  bs_env :: string
  bs_default :: bool

definition parse_bool :: "(string \<Rightarrow> string) \<Rightarrow> string \<Rightarrow> bool option" where
  "parse_bool uni raw =
     (let w = to_lower uni (trim_space raw) in
      if w \<in> {''1'', ''true'', ''t'', ''yes'', ''y'', ''on''} then Some True
      else if w \<in> {''0'', ''false'', ''f'', ''no'', ''n'', ''off''} then Some False
      else None)"

definition format_bool :: "bool \<Rightarrow> string" where
  "format_bool v = (if v then ''true'' else ''false'')"

definition resolve_bool :: "(string \<Rightarrow> string) \<Rightarrow> bool_spec \<Rightarrow> getter option \<Rightarrow> bool" where
  "resolve_bool uni s g =
     (case g of
        None \<Rightarrow> bs_default s
      | Some get \<Rightarrow>
        (case get (bs_key s) of
           Found raw \<Rightarrow>
             if trim_space raw = [] then bs_default s
             else (case parse_bool uni raw of None \<Rightarrow> bs_default s | Some v \<Rightarrow> v)
         | _ \<Rightarrow> bs_default s))"

definition seed_bool :: "(string \<Rightarrow> string) \<Rightarrow> bool_spec \<Rightarrow> (string \<Rightarrow> string) \<Rightarrow> getter \<Rightarrow> bool \<Rightarrow> settings \<Rightarrow> settings \<times> bool" where
  "seed_bool uni s getenv get fails m =
     (if bs_env s = [] then (m, True)
      else let raw = getenv (bs_env s) in
        if raw = [] then (m, True)
        else if already_stored (get (bs_key s)) then (m, True)
        else (case parse_bool uni raw of
                None \<Rightarrow> (m, True)
              | Some v \<Rightarrow> put_setting fails (bs_key s) (format_bool v) m))"

section \<open>Texts\<close>

record string_spec =
  ss_key :: string
  ss_env :: string
  ss_default :: string
  ss_normalize :: "(string \<Rightarrow> string) option"
  ss_check :: "(string \<Rightarrow> bool) option"

definition norm_text :: "string_spec \<Rightarrow> string \<Rightarrow> string" where
  "norm_text s raw = (case ss_normalize s of Some f \<Rightarrow> f raw | None \<Rightarrow> trim_space raw)"

definition passes :: "string_spec \<Rightarrow> string \<Rightarrow> bool" where
  "passes s v \<longleftrightarrow> (case ss_check s of None \<Rightarrow> True | Some f \<Rightarrow> f v)"

definition canonical :: "string_spec \<Rightarrow> string \<Rightarrow> string option" where
  "canonical s raw = (let v = norm_text s raw in if passes s v then Some v else None)"

definition validate_text :: "string_spec \<Rightarrow> string \<Rightarrow> bool" where
  "validate_text s raw \<longleftrightarrow> canonical s raw \<noteq> None"

text \<open>The text, and whether it is in force.\<close>

definition resolve_strict :: "string_spec \<Rightarrow> getter option \<Rightarrow> string \<times> bool" where
  "resolve_strict s g =
     (case g of
        None \<Rightarrow> (ss_default s, True)
      | Some get \<Rightarrow>
        (case get (ss_key s) of
           Found raw \<Rightarrow>
             let v = norm_text s raw in
             if v = [] then (ss_default s, True) else (v, passes s v)
         | _ \<Rightarrow> (ss_default s, True)))"

definition resolve_text :: "string_spec \<Rightarrow> getter option \<Rightarrow> string" where
  "resolve_text s g = (let (v, ok) = resolve_strict s g in if ok then v else ss_default s)"

definition seed_from :: "string_spec \<Rightarrow> string \<Rightarrow> getter \<Rightarrow> bool \<Rightarrow> settings \<Rightarrow> settings \<times> bool" where
  "seed_from s raw get fails m =
     (if already_stored (get (ss_key s)) then (m, True)
      else (case canonical s raw of
              None \<Rightarrow> (m, True)
            | Some v \<Rightarrow> put_setting fails (ss_key s) v m))"

definition seed_text :: "string_spec \<Rightarrow> (string \<Rightarrow> string) \<Rightarrow> getter \<Rightarrow> bool \<Rightarrow> settings \<Rightarrow> settings \<times> bool" where
  "seed_text s getenv get fails m =
     (if ss_env s = [] then (m, True)
      else let raw = getenv (ss_env s) in
        if trim_space raw = [] then (m, True) else seed_from s raw get fails m)"

definition seed_value_from :: "string_spec \<Rightarrow> string \<Rightarrow> getter \<Rightarrow> bool \<Rightarrow> settings \<Rightarrow> settings \<times> bool" where
  "seed_value_from s raw get fails m = (if trim_space raw = [] then (m, True) else seed_from s raw get fails m)"

definition one_of :: "string list \<Rightarrow> string \<Rightarrow> bool" where
  "one_of allowed v \<longleftrightarrow> list_ex (\<lambda>a. v = a) allowed"

section \<open>Seeders together: seeding a given value, drift, reseeding\<close>

definition seed_int_value :: "int_spec \<Rightarrow> int \<Rightarrow> getter \<Rightarrow> bool \<Rightarrow> settings \<Rightarrow> settings \<times> bool" where
  "seed_int_value s v get fails m =
     (if already_stored (get (is_key s)) then (m, True)
      else put_setting fails (is_key s) (format_int (fst (clamp s v))) m)"

definition seed_bool_value :: "bool_spec \<Rightarrow> bool \<Rightarrow> getter \<Rightarrow> bool \<Rightarrow> settings \<Rightarrow> settings \<times> bool" where
  "seed_bool_value s v get fails m =
     (if already_stored (get (bs_key s)) then (m, True)
      else put_setting fails (bs_key s) (format_bool v) m)"

datatype seeder = SInt int_spec | SBool bool_spec | SText string_spec

definition seeder_key :: "seeder \<Rightarrow> string" where
  "seeder_key sp = (case sp of SInt s \<Rightarrow> is_key s | SBool s \<Rightarrow> bs_key s | SText s \<Rightarrow> ss_key s)"

definition env_var_of :: "seeder \<Rightarrow> string" where
  "env_var_of sp = (case sp of SInt s \<Rightarrow> is_env s | SBool s \<Rightarrow> bs_env s | SText s \<Rightarrow> ss_env s)"

definition seed :: "(string \<Rightarrow> string) \<Rightarrow> seeder \<Rightarrow> (string \<Rightarrow> string) \<Rightarrow> getter \<Rightarrow> bool \<Rightarrow> settings \<Rightarrow> settings \<times> bool" where
  "seed uni sp getenv get fails m =
     (case sp of
        SInt s \<Rightarrow> seed_int s getenv get fails m
      | SBool s \<Rightarrow> seed_bool uni s getenv get fails m
      | SText s \<Rightarrow> seed_text s getenv get fails m)"

text \<open>The text a seed of this environment value would store.\<close>

definition seed_text_of :: "(string \<Rightarrow> string) \<Rightarrow> seeder \<Rightarrow> string \<Rightarrow> string option" where
  "seed_text_of uni sp raw =
     (case sp of
        SInt s \<Rightarrow> map_option (\<lambda>n. format_int (fst (clamp s n))) (parse_seed s raw)
      | SBool s \<Rightarrow> map_option format_bool (parse_bool uni raw)
      | SText s \<Rightarrow> (case canonical s raw of None \<Rightarrow> None | Some v \<Rightarrow> if v = [] then None else Some v))"

definition drifted :: "string \<Rightarrow> string \<Rightarrow> bool" where
  "drifted configured stored \<longleftrightarrow> trim_space stored \<noteq> [] \<and> configured \<noteq> stored"

definition drift_of :: "(string \<Rightarrow> string) \<Rightarrow> (string \<Rightarrow> string) \<Rightarrow> getter \<Rightarrow> seeder list \<Rightarrow> (string \<times> string) list" where
  "drift_of uni getenv get specs =
     concat (map (\<lambda>sp.
       let env = env_var_of sp; raw = getenv env in
       if env = [] \<or> trim_space raw = [] then []
       else (case seed_text_of uni sp raw of
               None \<Rightarrow> []
             | Some want \<Rightarrow>
               (case get (seeder_key sp) of
                  Found cur \<Rightarrow> if drifted want cur then [(seeder_key sp, env)] else []
                | _ \<Rightarrow> []))) specs)"

text \<open>Which of the reads and writes of one spec's turn fail.\<close>

record turn_io =
  io_before :: bool
  io_blank :: bool
  io_seed_read :: bool
  io_seed_write :: bool
  io_after :: bool
  io_restore :: bool

definition io_ok :: turn_io where
  "io_ok = \<lparr>io_before = False, io_blank = False, io_seed_read = False, io_seed_write = False, io_after = False,
     io_restore = False\<rparr>"

definition read_value :: "bool \<Rightarrow> settings \<Rightarrow> string \<Rightarrow> string" where
  "read_value fails m key = (if fails then [] else case m key of None \<Rightarrow> [] | Some v \<Rightarrow> v)"

definition reseed_one :: "(string \<Rightarrow> string) \<Rightarrow> (string \<Rightarrow> string) \<Rightarrow> turn_io \<Rightarrow> seeder \<Rightarrow> settings \<Rightarrow> settings \<times> bool" where
  "reseed_one uni getenv io sp m =
     (let key = seeder_key sp; env = env_var_of sp in
      if env = [] \<or> trim_space (getenv env) = [] then (m, False)
      else let before = read_value (io_before io) m key in
        if io_blank io then (m, False)
        else let m1 = m(key \<mapsto> []);
               get = (if io_seed_read io then (\<lambda>_. ReadError) else table_get m1);
               m2 = fst (seed uni sp getenv get (io_seed_write io) m1)
          in if read_value (io_after io) m2 key = [] then (fst (put_setting (io_restore io) key before m2), False)
             else (m2, True))"

fun reseed :: "(string \<Rightarrow> string) \<Rightarrow> (string \<Rightarrow> string) \<Rightarrow> (string \<Rightarrow> turn_io) \<Rightarrow> string list \<Rightarrow> seeder list
    \<Rightarrow> settings \<Rightarrow> settings \<times> string list" where
  "reseed uni getenv io keys [] m = (m, [])"
| "reseed uni getenv io keys (sp # sps) m =
     (if keys \<noteq> [] \<and> seeder_key sp \<notin> set keys then reseed uni getenv io keys sps m
      else let (m1, done) = reseed_one uni getenv (io (seeder_key sp)) sp m;
             (m2, rest) = reseed uni getenv io keys sps m1
        in (m2, if done then seeder_key sp # rest else rest))"

section \<open>What the specs promise\<close>

definition spec_ok :: "int_spec \<Rightarrow> bool" where
  "spec_ok s \<longleftrightarrow> is_min s \<le> is_default s \<and> is_default s \<le> is_max s"

lemma clamp_range: "is_min s \<le> is_max s \<Longrightarrow> is_min s \<le> fst (clamp s v) \<and> fst (clamp s v) \<le> is_max s"
  by (simp add: clamp_def)

lemma clamp_id: "validate_int s v \<Longrightarrow> clamp s v = (v, False)"
  by (auto simp: clamp_def validate_int_def)

text \<open>Whatever the table answers, the number in force is within its bounds.\<close>

lemma resolve_int_range:
  assumes "spec_ok s"
  shows "is_min s \<le> resolve_int s g \<and> resolve_int s g \<le> is_max s"
  using assms clamp_range [of s]
  by (auto simp: resolve_int_def spec_ok_def split: option.split answer.split)

lemma format_int_nonempty: "format_int n \<noteq> []"
  using digits_props by (simp add: format_int_def)

text \<open>What a page may save is what is read: a valid number, a switch, a text in its canonical form.\<close>

lemma saved_number_is_read:
  assumes "validate_int s v" "- (2 ^ 63) \<le> v" "v < 2 ^ 63"
  shows "resolve_int s (Some (table_get (m(is_key s \<mapsto> format_int v)))) = v"
  using assms by (simp add: resolve_int_def table_get_def parse_format_int format_int_nonempty clamp_id)

lemma saved_switch_is_read: "resolve_bool uni s (Some (table_get (m(bs_key s \<mapsto> format_bool v)))) = v"
proof -
  have "trim_space (format_bool v) = format_bool v" by (rule trim_space_ascii) (auto simp: format_bool_def split: if_splits)
  moreover have "to_lower uni (format_bool v) = format_bool v" by (cases v) (simp_all add: format_bool_def to_lower_def lower_byte_def)
  ultimately show ?thesis by (cases v) (simp_all add: resolve_bool_def table_get_def parse_bool_def format_bool_def)
qed

lemma saved_text_is_read:
  assumes "canonical s raw = Some v" "v \<noteq> []" "\<And>x. norm_text s (norm_text s x) = norm_text s x"
  shows "resolve_text s (Some (table_get (m(ss_key s \<mapsto> v)))) = v"
  using assms by (auto simp: canonical_def Let_def resolve_text_def resolve_strict_def table_get_def split: if_splits)

text \<open>A stored value survives every seed, provided the table could be read.\<close>

lemma seeds_spare_stored:
  assumes "m key = Some v" "v \<noteq> []"
  shows "fst (seed_int s getenv (table_get m) fails m) key = Some v"
    and "fst (seed_bool uni b getenv (table_get m) fails m) key = Some v"
    and "fst (seed_text t getenv (table_get m) fails m) key = Some v"
    and "fst (seed_value_from t raw (table_get m) fails m) key = Some v"
  using assms
  by (auto simp: seed_int_def seed_bool_def seed_text_def seed_from_def seed_value_from_def put_setting_def
    already_stored_def table_get_def Let_def split: option.splits)

text \<open>A read that fails is taken for a missing row: the seed writes over what is stored.\<close>

lemma failed_read_lets_seed_overwrite:
  fixes s :: int_spec
  assumes "s = \<lparr>is_key = ''trash.days'', is_env = ''TRASH_DAYS'', is_default = 30, is_min = 1, is_max = 365, is_seed_parse = None\<rparr>"
  shows "fst (seed_int s (\<lambda>_. ''7'') (\<lambda>_. ReadError) False [''trash.days'' \<mapsto> ''90'']) ''trash.days'' = Some ''7''"
proof -
  have "parse_int64 ''7'' = Some 7" "format_int 7 = ''7''" by code_simp+
  then show ?thesis
    by (simp add: assms seed_int_def already_stored_def parse_seed_def clamp_def put_setting_def)
qed

section \<open>Reseeding\<close>

lemma seed_key_only: "k \<noteq> seeder_key sp \<Longrightarrow> fst (seed uni sp getenv get fails m) k = m k"
  by (auto simp: seed_def seeder_key_def seed_int_def seed_bool_def seed_text_def seed_from_def put_setting_def Let_def
    split: seeder.split option.split)

lemma seed_blank:
  assumes "m (seeder_key sp) = Some []" "env_var_of sp \<noteq> []" "trim_space (getenv (env_var_of sp)) \<noteq> []"
  shows "fst (seed uni sp getenv (table_get m) False m) =
    (case seed_text_of uni sp (getenv (env_var_of sp)) of None \<Rightarrow> m | Some v \<Rightarrow> m(seeder_key sp \<mapsto> v))"
proof -
  have "getenv (env_var_of sp) \<noteq> []" using assms(3) trim_space_ascii [of "[]"] by auto
  moreover have "\<not> already_stored (table_get m (seeder_key sp))" by (simp add: already_stored_def table_get_def assms(1))
  moreover have "m(seeder_key sp \<mapsto> []) = m" using assms(1) by auto
  ultimately show ?thesis using assms
    by (cases sp) (auto simp: seed_def seeder_key_def env_var_of_def seed_int_def seed_bool_def seed_text_def seed_from_def
      put_setting_def seed_text_of_def Let_def split: option.split)
qed

lemma seed_text_nonempty: "seed_text_of uni sp raw = Some v \<Longrightarrow> v \<noteq> []"
  by (auto simp: seed_text_of_def format_int_nonempty format_bool_def split: seeder.splits option.splits if_splits)

lemma reseed_one_ok:
  "reseed_one uni getenv io_ok sp m =
    (let raw = getenv (env_var_of sp) in
     if env_var_of sp = [] \<or> trim_space raw = [] then (m, False)
     else (case seed_text_of uni sp raw of
             None \<Rightarrow> (m(seeder_key sp \<mapsto> (case m (seeder_key sp) of None \<Rightarrow> [] | Some v \<Rightarrow> v)), False)
           | Some v \<Rightarrow> (m(seeder_key sp \<mapsto> v), True)))"
  using seed_blank [of "m(seeder_key sp \<mapsto> [])" sp getenv uni] seed_text_nonempty [of uni sp]
  by (auto simp: reseed_one_def io_ok_def read_value_def put_setting_def Let_def split: option.split)

lemma reseed_other: "k \<notin> seeder_key ` set sps \<Longrightarrow> fst (reseed uni getenv io keys sps m) k = m k"
proof (induction sps arbitrary: m)
  case (Cons sp sps)
  obtain m1 d where one: "reseed_one uni getenv (io (seeder_key sp)) sp m = (m1, d)" by fastforce
  obtain m2 dn where rest: "reseed uni getenv io keys sps m1 = (m2, dn)" by fastforce
  have "fst (reseed_one uni getenv (io (seeder_key sp)) sp m) k = m k"
    using Cons.prems seed_key_only [of k sp] by (auto simp: reseed_one_def put_setting_def Let_def)
  moreover have "fst (reseed uni getenv io keys sps x) k = x k" for x using Cons by simp
  note this [of m] this [of m1]
  ultimately show ?case using one rest by auto
qed simp

lemma reseed_one_effect:
  assumes "reseed_one uni getenv io_ok sp m = (m1, d)"
  shows "d \<Longrightarrow> \<exists>v. seed_text_of uni sp (getenv (env_var_of sp)) = Some v \<and> m1 = m(seeder_key sp \<mapsto> v)"
    and "\<not> d \<Longrightarrow> m k = Some v \<Longrightarrow> m1 k = Some v"
    and "k \<noteq> seeder_key sp \<Longrightarrow> m1 k = m k"
  using assms by (auto simp: reseed_one_ok Let_def split: if_splits option.splits)

definition reseeded :: "(string \<Rightarrow> string) \<Rightarrow> (string \<Rightarrow> string) \<Rightarrow> seeder list \<Rightarrow> settings \<Rightarrow> settings \<Rightarrow> string list \<Rightarrow> bool" where
  "reseeded uni getenv sps m m' done \<longleftrightarrow>
     set done \<subseteq> seeder_key ` set sps \<and>
     (\<forall>sp \<in> set sps. seeder_key sp \<in> set done \<longrightarrow>
        (\<exists>v. seed_text_of uni sp (getenv (env_var_of sp)) = Some v \<and> m' (seeder_key sp) = Some v)) \<and>
     (\<forall>k v. k \<notin> set done \<longrightarrow> m k = Some v \<longrightarrow> m' k = Some v)"

lemma reseed_inv:
  "distinct (map seeder_key sps) \<Longrightarrow>
    reseeded uni getenv sps m (fst (reseed uni getenv (\<lambda>_. io_ok) keys sps m)) (snd (reseed uni getenv (\<lambda>_. io_ok) keys sps m))"
proof (induction sps arbitrary: m)
  case Nil
  then show ?case by (simp add: reseeded_def)
next
  case (Cons x sps)
  then have dist: "distinct (map seeder_key sps)" "seeder_key x \<notin> seeder_key ` set sps" by auto
  note IH = Cons.IH [OF dist(1)]
  note other = reseed_other [OF dist(2), of uni getenv "\<lambda>_. io_ok" keys]
  show ?case
  proof (cases "keys \<noteq> [] \<and> seeder_key x \<notin> set keys")
    case True
    then show ?thesis using IH [of m] dist(2) by (auto simp: reseeded_def)
  next
    case False
    obtain m1 d where one: "reseed_one uni getenv io_ok x m = (m1, d)" by fastforce
    obtain m2 dn where rest: "reseed uni getenv (\<lambda>_. io_ok) keys sps m1 = (m2, dn)" by fastforce
    have r: "reseed uni getenv (\<lambda>_. io_ok) keys (x # sps) m = (m2, if d then seeder_key x # dn else dn)"
      using False one rest by auto
    have g: "reseeded uni getenv sps m1 m2 dn" using IH [of m1] rest by simp
    have x2: "m2 (seeder_key x) = m1 (seeder_key x)" using other [of m1] rest by simp
    have xd: "seeder_key x \<notin> set dn" using g dist(2) by (auto simp: reseeded_def)
    have ne: "seeder_key sp \<noteq> seeder_key x" if "sp \<in> set sps" for sp using dist(2) that by (metis imageI)
    note eff = reseed_one_effect [OF one]
    show ?thesis
    proof (cases d)
      case True
      then obtain v where v: "seed_text_of uni x (getenv (env_var_of x)) = Some v" "m1 = m(seeder_key x \<mapsto> v)"
        using eff(1) by blast
      then show ?thesis unfolding r using True g x2 xd ne by (auto simp: reseeded_def)
    next
      case False
      then show ?thesis unfolding r using g x2 xd ne eff(2) by (auto simp: reseeded_def)
    qed
  qed
qed

text \<open>C25. Reseeding applies the environment or leaves the stored value alone: when the table answers,
  each setting done holds the text its environment gives, every other row with a value keeps it, and
  the drift report names none of the settings done.\<close>

theorem reseed_applies_or_keeps:
  assumes "distinct (map seeder_key sps)" and "reseed uni getenv (\<lambda>_. io_ok) keys sps m = (m', done)"
  shows "reseeded uni getenv sps m m' done \<and>
    (\<forall>(k, e) \<in> set (drift_of uni getenv (table_get m') sps). k \<notin> set done)"
proof -
  have g: "reseeded uni getenv sps m m' done" using reseed_inv [OF assms(1), of uni getenv m keys] assms(2) by simp
  then show ?thesis
    by (fastforce simp: reseeded_def drift_of_def drifted_def table_get_def Let_def split: option.splits if_splits)
qed

definition trash_days :: int_spec where
  "trash_days = \<lparr>is_key = ''trash.days'', is_env = ''TRASH_DAYS'', is_default = 30, is_min = 1, is_max = 365, is_seed_parse = None\<rparr>"

definition webdav_on :: bool_spec where
  "webdav_on = \<lparr>bs_key = ''dav.on'', bs_env = ''DAV'', bs_default = True\<rparr>"

theorem reseed_applies_or_keeps_witness:
  "reseeded (\<lambda>s. s) ((\<lambda>_. [])(''TRASH_DAYS'' := ''900'', ''DAV'' := ''maybe'')) [SInt trash_days, SBool webdav_on]
     [''trash.days'' \<mapsto> ''90'', ''dav.on'' \<mapsto> ''false''] [''trash.days'' \<mapsto> ''365'', ''dav.on'' \<mapsto> ''false''] [''trash.days'']"
proof -
  have p: "parse_int64 ''900'' = Some 900" "format_int 365 = ''365''" by code_simp+
  have "\<And>s. list_all (\<lambda>c. 32 < (of_char c :: nat) \<and> (of_char c :: nat) < 128) s \<Longrightarrow> trim_space s = s"
    by (rule trim_space_ascii) (simp add: list_all_iff)
  then have t: "trim_space ''900'' = ''900''" "trim_space ''maybe'' = ''maybe''" by simp_all
  have "to_lower (\<lambda>s. s) ''maybe'' = ''maybe''" by (simp add: to_lower_def lower_byte_def)
  then have b: "parse_bool (\<lambda>s. s) ''maybe'' = None" by (simp add: parse_bool_def t)
  have r: "reseed (\<lambda>s. s) ((\<lambda>_. [])(''TRASH_DAYS'' := ''900'', ''DAV'' := ''maybe'')) (\<lambda>_. io_ok) []
      [SInt trash_days, SBool webdav_on] [''trash.days'' \<mapsto> ''90'', ''dav.on'' \<mapsto> ''false''] =
    ([''trash.days'' \<mapsto> ''365'', ''dav.on'' \<mapsto> ''false''], [''trash.days''])"
    using p t b by (simp add: reseed_one_ok seed_text_of_def env_var_of_def seeder_key_def trash_days_def webdav_on_def
      parse_seed_def clamp_def Let_def fun_upd_twist)
  have d: "distinct (map seeder_key [SInt trash_days, SBool webdav_on])"
    by (simp add: seeder_key_def trash_days_def webdav_on_def)
  show ?thesis using reseed_applies_or_keeps [OF d r] by blast
qed

text \<open>When the read before the blanking write fails, an environment text that cannot be used costs the stored value.\<close>

lemma failed_read_loses_the_value:
  "fst (reseed_one (\<lambda>s. s) ((\<lambda>_. [])(''DAV'' := ''maybe'')) (io_ok\<lparr>io_before := True\<rparr>) (SBool webdav_on) [''dav.on'' \<mapsto> ''false'']) ''dav.on'' = Some []"
  by code_simp

end
