(* ===== verification/Loginguard.thy ===== *)
theory Loginguard
  imports Dbsetting Clientip Identity "HOL-Library.AList"
begin

text \<open>
  \<open>internal/loginguard\<close>: how many wrong sign-in attempts an account name and an address may make.
  The counters in memory are an association list in the order the map's iteration visits them; the
  table is the one \<open>db/login_throttle_sql.go\<close> reads and writes, in the order of its ids. Times are
  Unix nanoseconds, \<open>se_keep\<close> is what the engine keeps of one (whole seconds for SQLite and MySQL).
  Which reads and writes the table refuses is an argument. The mutex \<open>mu\<close> makes one step of what
  runs under it; what is written to the table afterwards is the newest state of each counter, as
  \<open>dbMu\<close> orders it. \<open>uni\<close> are Unicode's case tables, \<open>sha_hex\<close> the hexadecimal SHA-256 prefix a long
  name is shortened with.
\<close>

section \<open>Counters\<close>

abbreviation ScopeAccount :: string where "ScopeAccount \<equiv> ''account''"
abbreviation ScopeIP :: string where "ScopeIP \<equiv> ''ip''"

type_synonym counter_key = "string \<times> string"

record throttle =
  th_scope :: string
  th_subject :: string
  th_fails :: int
  th_lock_level :: int
  th_window_start :: nanos
  th_locked_until :: "nanos option"
  th_last_fail_at :: nanos
  th_last_ip :: string
  th_last_protocol :: string

definition key_of :: "throttle \<Rightarrow> counter_key" where
  "key_of t = (th_scope t, th_subject t)"

definition throttle_locked :: "throttle option \<Rightarrow> nanos \<Rightarrow> bool" where
  "throttle_locked t now =
     (case t of
        None \<Rightarrow> False
      | Some t \<Rightarrow> (case th_locked_until t of None \<Rightarrow> False | Some u \<Rightarrow> u > now))"

section \<open>Settings\<close>

abbreviation second :: int where "second \<equiv> 1000000000"

definition EnabledSetting :: bool_spec where
  "EnabledSetting = \<lparr>bs_key = ''login.throttle_enabled'', bs_env = [], bs_default = True\<rparr>"

definition number_setting :: "string \<Rightarrow> int \<Rightarrow> int \<Rightarrow> int \<Rightarrow> int_spec" where
  "number_setting key d lo hi =
     \<lparr>is_key = key, is_env = [], is_default = d, is_min = lo, is_max = hi, is_seed_parse = None\<rparr>"

definition AccountMaxSetting :: int_spec where "AccountMaxSetting = number_setting ''login.account_max_fails'' 5 1 1000"
definition IPMaxSetting :: int_spec where "IPMaxSetting = number_setting ''login.ip_max_fails'' 10 1 10000"
definition WindowSetting :: int_spec where "WindowSetting = number_setting ''login.window_seconds'' 600 10 86400"
definition LockBaseSetting :: int_spec where "LockBaseSetting = number_setting ''login.lock_base_seconds'' 60 1 86400"
definition LockMaxSetting :: int_spec where "LockMaxSetting = number_setting ''login.lock_max_seconds'' 900 1 86400"

definition parse_allowlist :: "string \<Rightarrow> cset option" where
  "parse_allowlist text = parse_entries (fields_func list_separator [] text)"

definition IPAllowlistSetting :: string_spec where
  "IPAllowlistSetting = \<lparr>ss_key = ''login.ip_allowlist'', ss_env = [], ss_default = [], ss_normalize = None,
     ss_check = Some (\<lambda>v. parse_allowlist v \<noteq> None)\<rparr>"

definition TrustedProxiesSetting :: "(string \<Rightarrow> string) \<Rightarrow> string_spec" where
  "TrustedProxiesSetting uni = \<lparr>ss_key = ''login.trusted_proxies'', ss_env = [], ss_default = [], ss_normalize = None,
     ss_check = Some (\<lambda>v. parse_list uni v \<noteq> None)\<rparr>"

definition setting_keys :: "string list" where
  "setting_keys = [''login.throttle_enabled'', ''login.account_max_fails'', ''login.ip_max_fails'',
     ''login.window_seconds'', ''login.lock_base_seconds'', ''login.lock_max_seconds'', ''login.ip_allowlist'',
     ''login.trusted_proxies'']"

definition is_setting_key :: "string \<Rightarrow> bool" where
  "is_setting_key key \<longleftrightarrow> list_ex (\<lambda>k. k = key) setting_keys"

record config =
  cf_enabled :: bool
  cf_account_max :: int
  cf_ip_max :: int
  cf_window :: nanos
  cf_lock_base :: nanos
  cf_lock_max :: nanos
  cf_allow :: "cset option"

definition load_config :: "(string \<Rightarrow> string) \<Rightarrow> getter option \<Rightarrow> config" where
  "load_config uni g =
     (let base = resolve_int LockBaseSetting g * second;
          ceil = resolve_int LockMaxSetting g * second;
          raw = fst (resolve_strict IPAllowlistSetting g)
      in \<lparr>cf_enabled = resolve_bool uni EnabledSetting g,
          cf_account_max = resolve_int AccountMaxSetting g,
          cf_ip_max = resolve_int IPMaxSetting g,
          cf_window = resolve_int WindowSetting g * second,
          cf_lock_base = base,
          cf_lock_max = (if ceil < base then base else ceil),
          cf_allow = parse_allowlist raw\<rparr>)"

record login_snapshot =
  sn_stored :: settings
  sn_config :: config
  sn_proxies :: "cset option"

definition build_snapshot :: "(string \<Rightarrow> string) \<Rightarrow> settings \<Rightarrow> login_snapshot" where
  "build_snapshot uni raw =
     (let (text, ok) = resolve_strict (TrustedProxiesSetting uni) (Some (table_get raw))
      in \<lparr>sn_stored = raw, sn_config = load_config uni (Some (table_get raw)),
          sn_proxies = (if ok then (case parse_list uni text of None \<Rightarrow> None | Some s \<Rightarrow> s) else None)\<rparr>)"

text \<open>A key the table cannot answer keeps the value last known. The answer: nothing failed.\<close>

definition reload_settings :: "(string \<Rightarrow> string) \<Rightarrow> getter \<Rightarrow> login_snapshot option \<Rightarrow> login_snapshot \<times> bool" where
  "reload_settings uni get prev =
     (let raw = (\<lambda>k. if k \<notin> set setting_keys then None
                     else (case get k of
                             Found v \<Rightarrow> Some v
                           | NoRow \<Rightarrow> None
                           | ReadError \<Rightarrow> (case prev of None \<Rightarrow> None | Some p \<Rightarrow> sn_stored p k)))
      in (build_snapshot uni raw, list_all (\<lambda>k. get k \<noteq> ReadError) setting_keys))"

definition config_in_force :: "(string \<Rightarrow> string) \<Rightarrow> login_snapshot option \<Rightarrow> config" where
  "config_in_force uni s = (case s of Some s \<Rightarrow> sn_config s | None \<Rightarrow> load_config uni None)"

text \<open>Saving one setting: refused for another key, and nothing changes when the table refuses.\<close>

definition save_setting :: "(string \<Rightarrow> string) \<Rightarrow> bool \<Rightarrow> string \<Rightarrow> string \<Rightarrow> login_snapshot option \<Rightarrow> login_snapshot option \<times> bool" where
  "save_setting uni fails key value prev =
     (if \<not> is_setting_key key \<or> fails then (prev, False)
      else (Some (build_snapshot uni ((case prev of None \<Rightarrow> Map.empty | Some p \<Rightarrow> sn_stored p)(key \<mapsto> value))), True))"

definition trusted_proxy_source :: "(string \<Rightarrow> string) \<Rightarrow> string \<Rightarrow> login_snapshot option \<Rightarrow> cset option" where
  "trusted_proxy_source uni env s =
     (case (case s of None \<Rightarrow> None | Some s \<Rightarrow> sn_proxies s) of
        Some p \<Rightarrow> Some p
      | None \<Rightarrow> (case parse_list uni env of None \<Rightarrow> None | Some e \<Rightarrow> e))"

section \<open>Whom an attempt is counted against\<close>

record attempt =
  at_identifier :: string
  at_realm :: string
  at_ip :: string
  at_protocol :: string

definition strip_domain_prefix :: "string \<Rightarrow> string" where
  "strip_domain_prefix s =
     (if CHR ''@'' \<in> set s then s
      else (case last_index CHR 0x5C s of
              None \<Rightarrow> s
            | Some i \<Rightarrow> if trim_space (drop (i + 1) s) = [] then s else trim_space (drop (i + 1) s)))"

definition is_control :: "nat \<Rightarrow> bool" where
  "is_control r \<longleftrightarrow> r < 32 \<or> 127 \<le> r \<and> r < 160"

definition maxSubject :: nat where "maxSubject = 190"

definition subject_in :: "(string \<Rightarrow> string) \<Rightarrow> (string \<Rightarrow> string) \<Rightarrow> string \<Rightarrow> string \<Rightarrow> string" where
  "subject_in uni sha_hex realm identifier =
     (let s0 = normalize uni identifier;
          r0 = to_lower uni (trim_space realm);
          (r, s1) =
            (if r0 = [] then
               (case index_byte s0 slash of
                  Some i \<Rightarrow> if i > 0 \<and> CHR ''@'' \<notin> set (take i s0) \<and> CHR 0x5C \<notin> set (take i s0)
                            then (take i s0, drop (i + 1) s0) else (r0, s0)
                | None \<Rightarrow> (r0, s0))
             else (r0, s0));
          s2 = strip_domain_prefix (trim_space s1);
          s3 = (if r \<noteq> [] \<and> s2 \<noteq> [] then r @ slash # s2 else s2)
      in if s3 = [] then ''(empty)''
         else let rs = filter (\<lambda>(c, b). \<not> is_control c) (runes s3);
                  s4 = concat (map snd rs)
           in if s4 = [] then ''(empty)''
              else if length rs > maxSubject - 20
                   then concat (map snd (take (maxSubject - 20 - 17) rs)) @ CHR ''~'' # sha_hex s4
              else s4)"

definition addr_subject :: "string \<Rightarrow> string" where
  "addr_subject ip = (let ip = trim_space ip in if ip = [] then ''(unknown)'' else ip)"

text \<open>What decides for one attempt besides the counters: the settings, the names, the exempt accounts.\<close>

record guard_env =
  ge_config :: config
  ge_subject :: "string \<Rightarrow> string \<Rightarrow> string"
  ge_auto :: auto_set
  ge_exempt :: "string list"
  ge_max_counters :: int

definition subject_of :: "guard_env \<Rightarrow> attempt \<Rightarrow> string" where
  "subject_of e a = ge_subject e (at_realm a) (at_identifier a)"

definition account_exempt :: "guard_env \<Rightarrow> attempt \<Rightarrow> bool" where
  "account_exempt e a \<longleftrightarrow> subject_of e a \<in> set (ge_exempt e)"

definition allowlisted :: "guard_env \<Rightarrow> attempt \<Rightarrow> bool" where
  "allowlisted e a \<longleftrightarrow> contains_string (ge_auto e) (cf_allow (ge_config e)) (at_ip a)"

definition account_key :: "guard_env \<Rightarrow> attempt \<Rightarrow> counter_key" where
  "account_key e a = (ScopeAccount, subject_of e a)"

definition ip_key :: "attempt \<Rightarrow> counter_key" where
  "ip_key a = (ScopeIP, addr_subject (at_ip a))"

section \<open>The guard\<close>

record guard =
  gd_counters :: "(counter_key \<times> throttle) list"
  gd_pending :: "counter_key list"
  gd_need_load :: bool
  gd_table :: "(counter_key \<times> throttle) list"

record verdict =
  vd_blocked :: bool
  vd_scope :: string
  vd_retry_after :: int
  vd_allowlisted :: bool
  vd_disabled :: bool

definition no_verdict :: verdict where
  "no_verdict = \<lparr>vd_blocked = False, vd_scope = [], vd_retry_after = 0, vd_allowlisted = False, vd_disabled = False\<rparr>"

fun worst_lock :: "(counter_key \<times> throttle) list \<Rightarrow> nanos \<Rightarrow> counter_key list \<Rightarrow> verdict \<Rightarrow> verdict" where
  "worst_lock cs now [] v = v"
| "worst_lock cs now (k # ks) v =
     (case map_of cs k of
        None \<Rightarrow> worst_lock cs now ks v
      | Some row \<Rightarrow>
        (case th_locked_until row of
           None \<Rightarrow> worst_lock cs now ks v
         | Some u \<Rightarrow>
           if u > now \<and> u - now > vd_retry_after v
           then worst_lock cs now ks (v\<lparr>vd_blocked := True, vd_scope := fst k, vd_retry_after := u - now\<rparr>)
           else worst_lock cs now ks v))"

definition checked_keys :: "guard_env \<Rightarrow> attempt \<Rightarrow> counter_key list" where
  "checked_keys e a = ip_key a # (if account_exempt e a then [] else [account_key e a])"

definition check_attempt :: "guard_env \<Rightarrow> nanos \<Rightarrow> attempt \<Rightarrow> guard \<Rightarrow> verdict" where
  "check_attempt e now a g =
     (if \<not> cf_enabled (ge_config e) then no_verdict\<lparr>vd_disabled := True\<rparr>
      else if allowlisted e a then no_verdict\<lparr>vd_allowlisted := True\<rparr>
      else worst_lock (gd_counters g) now (checked_keys e a) no_verdict)"

datatype audit =
    AuditFailed attempt string "int option" bool
  | AuditLocked attempt string int nanos
  | AuditUnlocked attempt string nanos
  | AuditAllowlistPass attempt string nanos

definition subject_label :: "throttle \<Rightarrow> string" where
  "subject_label row = (if th_scope row = ScopeAccount then th_subject row else [])"

definition ip_label :: "throttle \<Rightarrow> string" where
  "ip_label row = (if th_scope row = ScopeIP then th_subject row else th_last_ip row)"

definition expired_lock :: "throttle \<Rightarrow> nanos \<Rightarrow> throttle \<times> audit list" where
  "expired_lock row now =
     (case th_locked_until row of
        None \<Rightarrow> (row, [])
      | Some u \<Rightarrow>
        if u > now then (row, [])
        else (row\<lparr>th_locked_until := None\<rparr>,
              [AuditUnlocked \<lparr>at_identifier = subject_label row, at_realm = [], at_ip = ip_label row, at_protocol = []\<rparr>
                 (th_scope row) u]))"

definition lock_event :: "throttle \<Rightarrow> nanos \<Rightarrow> attempt \<Rightarrow> audit" where
  "lock_event row u a =
     (if th_scope row = ScopeIP
      then AuditLocked \<lparr>at_identifier = [], at_realm = [], at_ip = th_subject row, at_protocol = at_protocol a\<rparr>
             (th_scope row) (th_lock_level row) u
      else AuditLocked a (th_scope row) (th_lock_level row) u)"

fun double_up :: "int \<Rightarrow> int \<Rightarrow> nat \<Rightarrow> int" where
  "double_up ceil d 0 = d"
| "double_up ceil d (Suc n) = (if d < ceil then double_up ceil (d * 2) n else d)"

definition lock_duration :: "config \<Rightarrow> int \<Rightarrow> nanos" where
  "lock_duration c level =
     (let d = double_up (cf_lock_max c) (cf_lock_base c) (nat (level - 1))
      in if d > cf_lock_max c then cf_lock_max c else d)"

definition prune_after :: nanos where "prune_after = 24 * 3600 * second"

definition idle :: "throttle \<Rightarrow> nanos \<Rightarrow> bool" where
  "idle row now \<longleftrightarrow> th_last_fail_at row < now - prune_after \<and>
     (case th_locked_until row of None \<Rightarrow> True | Some u \<Rightarrow> u < now - prune_after)"

definition max_counters :: "guard_env \<Rightarrow> nat" where
  "max_counters e = (if ge_max_counters e > 0 then nat (ge_max_counters e) else 100000)"

definition forget :: "counter_key \<Rightarrow> guard \<Rightarrow> guard" where
  "forget k g = g\<lparr>gd_counters := AList.delete k (gd_counters g), gd_pending := removeAll k (gd_pending g)\<rparr>"

definition forget_all :: "counter_key list \<Rightarrow> guard \<Rightarrow> guard" where
  "forget_all ks g = fold forget ks g"

definition goes_first :: "nanos \<Rightarrow> counter_key \<times> throttle \<Rightarrow> counter_key \<times> throttle \<Rightarrow> bool" where
  "goes_first now a b \<longleftrightarrow>
     (let la = throttle_locked (Some (snd a)) now; lb = throttle_locked (Some (snd b)) now
      in if la \<noteq> lb then \<not> la else th_last_fail_at (snd a) < th_last_fail_at (snd b))"

definition make_room :: "guard_env \<Rightarrow> nanos \<Rightarrow> guard \<Rightarrow> guard" where
  "make_room e now g =
     (let mx = max_counters e in
      if length (gd_counters g) < mx then g
      else let g1 = forget_all (map fst (filter (\<lambda>(k, row). idle row now) (gd_counters g))) g in
        if length (gd_counters g1) < mx then g1
        else let cands = stable_sort (goes_first now) (gd_counters g1);
                 n = length (gd_counters g1) - mx + 1 + mx div 10
          in forget_all (map fst (take n cands)) g1)"

text \<open>One failure on one counter.\<close>

definition count_failure :: "config \<Rightarrow> int \<Rightarrow> attempt \<Rightarrow> nanos \<Rightarrow> throttle \<Rightarrow> throttle \<times> bool \<times> audit list" where
  "count_failure c mx a now row0 =
     (let (row1, released) = expired_lock row0 now;
          row2 = (if now - th_window_start row1 > cf_window c
                  then row1\<lparr>th_fails := 0, th_window_start := now\<rparr> else row1);
          row3 = (if th_lock_level row2 > 0 \<and> th_locked_until row2 = None \<and>
                     now - th_last_fail_at row2 > cf_lock_max c + cf_window c
                  then row2\<lparr>th_lock_level := 0\<rparr> else row2);
          row4 = row3\<lparr>th_fails := th_fails row3 + 1, th_last_fail_at := now, th_last_ip := at_ip a,
                      th_last_protocol := at_protocol a\<rparr>
      in if th_fails row4 \<ge> mx then
           let level = th_lock_level row4 + 1;
               u = now + lock_duration c level;
               row5 = row4\<lparr>th_lock_level := level, th_locked_until := Some u, th_fails := 0, th_window_start := now\<rparr>
           in (row5, True, released @ [lock_event row5 u a])
         else (row4, False, released))"

definition new_throttle :: "counter_key \<Rightarrow> nanos \<Rightarrow> throttle" where
  "new_throttle k now = \<lparr>th_scope = fst k, th_subject = snd k, th_fails = 0, th_lock_level = 0,
     th_window_start = now, th_locked_until = None, th_last_fail_at = 0, th_last_ip = [], th_last_protocol = []\<rparr>"

definition bump :: "guard_env \<Rightarrow> counter_key \<Rightarrow> int \<Rightarrow> attempt \<Rightarrow> nanos \<Rightarrow> guard \<Rightarrow> guard \<times> throttle \<times> bool \<times> audit list" where
  "bump e k mx a now g =
     (let (g1, row0) =
        (case map_of (gd_counters g) k of
           Some row \<Rightarrow> (g, row)
         | None \<Rightarrow> (make_room e now g, new_throttle k now));
          (row, locked, events) = count_failure (ge_config e) mx a now row0
      in (g1\<lparr>gd_counters := AList.update k row (gd_counters g1)\<rparr>, row, locked, events))"

section \<open>The table\<close>

record store_env =
  se_store :: bool
  se_refuses :: "counter_key \<Rightarrow> bool"
  se_keep :: "nanos \<Rightarrow> nanos"

definition kept_row :: "store_env \<Rightarrow> throttle \<Rightarrow> throttle" where
  "kept_row st t = t\<lparr>th_window_start := se_keep st (th_window_start t),
     th_locked_until := map_option (se_keep st) (th_locked_until t),
     th_last_fail_at := se_keep st (th_last_fail_at t)\<rparr>"

definition save_throttle :: "store_env \<Rightarrow> throttle \<Rightarrow> (counter_key \<times> throttle) list \<Rightarrow> (counter_key \<times> throttle) list option" where
  "save_throttle st t tb =
     (if th_scope t = [] \<or> th_subject t = [] \<or> se_refuses st (key_of t) then None
      else Some (AList.update (key_of t) (kept_row st t) tb))"

definition delete_throttle :: "store_env \<Rightarrow> counter_key \<Rightarrow> (counter_key \<times> throttle) list \<Rightarrow> ((counter_key \<times> throttle) list \<times> bool) option" where
  "delete_throttle st k tb = (if se_refuses st k then None else Some (AList.delete k tb, map_of tb k \<noteq> None))"

text \<open>\<open>ORDER BY last_fail_at DESC, id DESC\<close>.\<close>

definition newest_first :: "(counter_key \<times> throttle) list \<Rightarrow> throttle list" where
  "newest_first tb = stable_sort (\<lambda>a b. th_last_fail_at a > th_last_fail_at b) (rev (map snd tb))"

definition list_throttles :: "store_env \<Rightarrow> string \<Rightarrow> nanos option \<Rightarrow> int \<Rightarrow> (counter_key \<times> throttle) list \<Rightarrow> throttle list" where
  "list_throttles st scope locked_at limit tb =
     (let n = (if limit \<le> 0 then 200 else if limit > 1000 then 1000 else limit)
      in take (nat n) (filter (\<lambda>t. (scope = [] \<or> th_scope t = scope) \<and>
           (case locked_at of
              None \<Rightarrow> True
            | Some at \<Rightarrow> (case th_locked_until t of None \<Rightarrow> False | Some u \<Rightarrow> u > se_keep st at))) (newest_first tb)))"

definition load_throttles :: "store_env \<Rightarrow> nanos \<Rightarrow> nat \<Rightarrow> (counter_key \<times> throttle) list \<Rightarrow> throttle list" where
  "load_throttles st since limit tb =
     (let rows = filter (\<lambda>t. th_last_fail_at t \<ge> se_keep st since \<or>
           (case th_locked_until t of None \<Rightarrow> False | Some u \<Rightarrow> u \<ge> se_keep st since)) (newest_first tb)
      in if limit > 0 then take limit rows else rows)"

definition prune_throttles :: "store_env \<Rightarrow> nanos \<Rightarrow> (counter_key \<times> throttle) list \<Rightarrow> (counter_key \<times> throttle) list" where
  "prune_throttles st before tb =
     filter (\<lambda>(k, t). \<not> (th_last_fail_at t < se_keep st before \<and>
       (case th_locked_until t of None \<Rightarrow> True | Some u \<Rightarrow> u < se_keep st before))) tb"

section \<open>Writing through\<close>

definition owe :: "counter_key \<Rightarrow> guard \<Rightarrow> guard" where
  "owe k g = g\<lparr>gd_pending := List.insert k (gd_pending g)\<rparr>"

definition paid :: "counter_key \<Rightarrow> guard \<Rightarrow> guard" where
  "paid k g = g\<lparr>gd_pending := removeAll k (gd_pending g)\<rparr>"

definition write_one :: "store_env \<Rightarrow> counter_key \<Rightarrow> guard \<Rightarrow> guard \<times> bool" where
  "write_one st k g =
     (case (case map_of (gd_counters g) k of
              Some row \<Rightarrow> save_throttle st row (gd_table g)
            | None \<Rightarrow> map_option fst (delete_throttle st k (gd_table g))) of
        None \<Rightarrow> (owe k g, False)
      | Some tb \<Rightarrow> (paid k (g\<lparr>gd_table := tb\<rparr>), True))"

fun write_locked :: "store_env \<Rightarrow> counter_key list \<Rightarrow> guard \<Rightarrow> guard \<times> bool" where
  "write_locked st [] g = (g, True)"
| "write_locked st (k # ks) g =
     (let (g1, ok) = write_one st k g; (g2, rest) = write_locked st ks g1 in (g2, ok \<and> rest))"

definition flush_locked :: "store_env \<Rightarrow> guard \<Rightarrow> guard" where
  "flush_locked st g = fst (write_locked st (gd_pending g) g)"

definition persist :: "store_env \<Rightarrow> counter_key list \<Rightarrow> guard \<Rightarrow> guard" where
  "persist st ks g =
     (if ks = [] \<or> \<not> se_store st then g
      else let (g1, all) = write_locked st ks g in if all then flush_locked st g1 else g1)"

definition flush :: "store_env \<Rightarrow> guard \<Rightarrow> guard" where
  "flush st g = (if \<not> se_store st then g else flush_locked st g)"

section \<open>A wrong attempt\<close>

record outcome_told =
  ot_locked :: bool
  ot_scope :: string
  ot_remaining :: int
  ot_limit :: int
  ot_retry_after :: int
  ot_unlimited :: bool

definition nothing_told :: outcome_told where
  "nothing_told = \<lparr>ot_locked = False, ot_scope = [], ot_remaining = 0, ot_limit = 0, ot_retry_after = 0, ot_unlimited = False\<rparr>"

definition limit_for :: "string \<Rightarrow> config \<Rightarrow> int" where
  "limit_for scope c = (if scope = ScopeIP then cf_ip_max c else cf_account_max c)"

definition lock_left :: "throttle option \<Rightarrow> nanos \<Rightarrow> int" where
  "lock_left t now = (case t of
     None \<Rightarrow> 0
   | Some t \<Rightarrow> (case th_locked_until t of None \<Rightarrow> 0 | Some u \<Rightarrow> u - now))"

definition tell :: "config \<Rightarrow> bool \<Rightarrow> throttle option \<Rightarrow> bool \<Rightarrow> throttle \<Rightarrow> bool \<Rightarrow> nanos \<Rightarrow> outcome_told" where
  "tell c exempt acct a_locked ip i_locked now =
     (if exempt \<and> i_locked then
        nothing_told\<lparr>ot_locked := True, ot_scope := ScopeIP, ot_retry_after := lock_left (Some ip) now, ot_limit := cf_ip_max c\<rparr>
      else if exempt then
        nothing_told\<lparr>ot_scope := ScopeIP, ot_limit := cf_ip_max c, ot_remaining := cf_ip_max c - th_fails ip\<rparr>
      else if a_locked \<or> i_locked then
        (let left = lock_left acct now; d = lock_left (Some ip) now;
             (scope, retry) = (if i_locked \<and> (\<not> a_locked \<or> d > left) then (ScopeIP, d) else (ScopeAccount, left))
         in nothing_told\<lparr>ot_locked := True, ot_scope := scope, ot_retry_after := retry, ot_limit := limit_for scope c\<rparr>)
      else
        (let ra = cf_account_max c - (case acct of None \<Rightarrow> 0 | Some t \<Rightarrow> th_fails t); ri = cf_ip_max c - th_fails ip
         in if ri < ra then nothing_told\<lparr>ot_scope := ScopeIP, ot_limit := cf_ip_max c, ot_remaining := ri\<rparr>
            else nothing_told\<lparr>ot_scope := ScopeAccount, ot_limit := cf_account_max c, ot_remaining := ra\<rparr>))"

text \<open>Under the mutex: the two counters, the account's first.\<close>

definition count_attempt :: "guard_env \<Rightarrow> nanos \<Rightarrow> attempt \<Rightarrow> guard \<Rightarrow> guard \<times> outcome_told \<times> audit list" where
  "count_attempt e now a g =
     (let c = ge_config e;
          (g1, acct, a_locked, ev1) =
            (if account_exempt e a then (g, None, False, [])
             else let (g1, row, l, ev) = bump e (account_key e a) (cf_account_max c) a now g in (g1, Some row, l, ev));
          (g2, ip, i_locked, ev2) = bump e (ip_key a) (cf_ip_max c) a now g1
      in (g2, tell c (account_exempt e a) acct a_locked ip i_locked now, ev1 @ ev2))"

definition failed_attempt :: "guard_env \<Rightarrow> store_env \<Rightarrow> nanos \<Rightarrow> attempt \<Rightarrow> string \<Rightarrow> guard \<Rightarrow> guard \<times> outcome_told \<times> audit list" where
  "failed_attempt e st now a reason g =
     (if \<not> cf_enabled (ge_config e) then (g, nothing_told\<lparr>ot_unlimited := True\<rparr>, [])
      else if allowlisted e a then (g, nothing_told\<lparr>ot_unlimited := True\<rparr>, [AuditFailed a reason None True])
      else let (g1, told, events) = count_attempt e now a g;
               ks = (if account_exempt e a then [ip_key a] else [account_key e a, ip_key a])
        in (persist st ks g1, told,
            events @ [AuditFailed a reason (if ot_locked told then None else Some (ot_remaining told)) False]))"

section \<open>A right one, and the administrator\<close>

definition succeeded :: "guard_env \<Rightarrow> store_env \<Rightarrow> nanos \<Rightarrow> attempt \<Rightarrow> guard \<Rightarrow> guard \<times> audit list" where
  "succeeded e st now a g =
     (if \<not> cf_enabled (ge_config e) then (g, [])
      else if allowlisted e a then
        (let ks = (if account_exempt e a then [] else [account_key e a]) @ [ip_key a]
         in case find (\<lambda>k. throttle_locked (map_of (gd_counters g) k) now) ks of
              None \<Rightarrow> (g, [])
            | Some k \<Rightarrow>
              (case map_of (gd_counters g) k of
                 Some row \<Rightarrow>
                   (case th_locked_until row of
                      Some u \<Rightarrow> (g, [AuditAllowlistPass a (fst k) u])
                    | None \<Rightarrow> (g, []))
               | None \<Rightarrow> (g, [])))
      else if account_exempt e a then (g, [])
      else let k = account_key e a in
        (case map_of (gd_counters g) k of
           None \<Rightarrow> (g, [])
         | Some row \<Rightarrow>
           if th_fails row = 0 \<and> th_lock_level row = 0 \<and> th_locked_until row = None then (g, [])
           else (persist st [k] (g\<lparr>gd_counters := AList.delete k (gd_counters g)\<rparr>), snd (expired_lock row now))))"

text \<open>The answer: whether there was a counter, and whether the table refused.\<close>

definition unlock :: "store_env \<Rightarrow> counter_key \<Rightarrow> guard \<Rightarrow> guard \<times> bool \<times> bool" where
  "unlock st k g =
     (let had = map_of (gd_counters g) k \<noteq> None;
          g1 = g\<lparr>gd_counters := AList.delete k (gd_counters g)\<rparr>
      in if \<not> se_store st then (g1, had, False)
         else (case delete_throttle st k (gd_table g1) of
                 None \<Rightarrow> (owe k g1, had, \<not> had)
               | Some (tb, in_table) \<Rightarrow> (paid k (g1\<lparr>gd_table := tb\<rparr>), had \<or> in_table, False)))"

fun unlock_rows :: "store_env \<Rightarrow> counter_key list \<Rightarrow> guard \<Rightarrow> guard \<times> nat" where
  "unlock_rows st [] g = (g, 0)"
| "unlock_rows st (k # ks) g =
     (let (g1, ok, _) = unlock st k g; (g2, n) = unlock_rows st ks g1 in (g2, if ok then Suc n else n))"

definition unlock_all :: "store_env \<Rightarrow> bool \<Rightarrow> nanos \<Rightarrow> guard \<Rightarrow> guard \<times> nat" where
  "unlock_all st list_fails now g =
     (let ks = map fst (filter (\<lambda>(k, row). throttle_locked (Some row) now) (gd_counters g));
          g1 = persist st ks (g\<lparr>gd_counters := filter (\<lambda>(k, row). \<not> throttle_locked (Some row) now) (gd_counters g)\<rparr>)
      in if \<not> se_store st \<or> list_fails then (g1, length ks)
         else let (g2, n) = unlock_rows st (map key_of (list_throttles st [] (Some now) 1000 (gd_table g1))) g1
           in (g2, length ks + n))"

definition active_before :: "throttle \<Rightarrow> throttle \<Rightarrow> bool" where
  "active_before a b \<longleftrightarrow>
     (if th_last_fail_at a \<noteq> th_last_fail_at b then th_last_fail_at a > th_last_fail_at b
      else if th_scope a \<noteq> th_scope b then str_less (th_scope a) (th_scope b)
      else str_less (th_subject a) (th_subject b))"

definition list_counters :: "string \<Rightarrow> nanos option \<Rightarrow> int \<Rightarrow> guard \<Rightarrow> throttle list" where
  "list_counters scope locked_at limit g =
     (let n = (if limit \<le> 0 then 200 else if limit > 1000 then 1000 else limit);
          out = filter (\<lambda>row. (scope = [] \<or> th_scope row = scope) \<and>
            (case locked_at of None \<Rightarrow> True | Some t \<Rightarrow> throttle_locked (Some row) t)) (map snd (gd_counters g))
      in take (nat n) (stable_sort active_before out))"

section \<open>Loading and sweeping\<close>

fun fill_memory :: "nat \<Rightarrow> throttle list \<Rightarrow> guard \<Rightarrow> guard" where
  "fill_memory mx [] g = g"
| "fill_memory mx (r # rs) g =
     (let k = key_of r in
      if map_of (gd_counters g) k \<noteq> None \<or> k \<in> set (gd_pending g) then fill_memory mx rs g
      else if length (gd_counters g) \<ge> mx then g
      else fill_memory mx rs (g\<lparr>gd_counters := gd_counters g @ [(k, r)]\<rparr>))"

definition load_counters :: "guard_env \<Rightarrow> store_env \<Rightarrow> bool \<Rightarrow> nanos \<Rightarrow> guard \<Rightarrow> guard" where
  "load_counters e st fails now g =
     (if se_store st \<and> fails then g\<lparr>gd_need_load := True\<rparr>
      else let rows = (if se_store st then load_throttles st (now - prune_after) (max_counters e) (gd_table g) else [])
        in fill_memory (max_counters e) rows (g\<lparr>gd_need_load := False\<rparr>))"

text \<open>What one visit of the sweep does to a counter: nothing left of it when it is idle.\<close>

definition swept :: "nanos \<Rightarrow> (counter_key \<times> throttle) list \<Rightarrow> (counter_key \<times> throttle) list" where
  "swept now cs = filter (\<lambda>(k, row). \<not> idle row now) (map (\<lambda>(k, row). (k, fst (expired_lock row now))) cs)"

definition sweep :: "guard_env \<Rightarrow> store_env \<Rightarrow> bool \<Rightarrow> bool \<Rightarrow> nanos \<Rightarrow> guard \<Rightarrow> guard \<times> audit list" where
  "sweep e st load_fails prune_fails now g0 =
     (let g = (if gd_need_load g0 then load_counters e st load_fails now g0 else g0);
          cs = gd_counters g;
          released = map fst (filter (\<lambda>(k, row). snd (expired_lock row now) \<noteq> []) cs);
          gone = map fst (filter (\<lambda>(k, row). idle (fst (expired_lock row now)) now) cs);
          events = concat (map (\<lambda>(k, row). snd (expired_lock row now)) cs);
          g1 = g\<lparr>gd_counters := swept now cs, gd_pending := filter (\<lambda>k. k \<notin> set gone) (gd_pending g)\<rparr>;
          g2 = flush st (persist st (filter (\<lambda>k. k \<notin> set gone) released) g1)
      in (if se_store st \<and> \<not> prune_fails then g2\<lparr>gd_table := prune_throttles st (now - prune_after) (gd_table g2)\<rparr> else g2,
          events))"

text \<open>The accounts exempt from now on, and their counters let go of. \<open>answer\<close> is the installed function's.\<close>

definition refresh_exempt :: "store_env \<Rightarrow> bool \<Rightarrow> string list \<times> bool \<Rightarrow> string list option \<Rightarrow> guard \<Rightarrow> string list option \<times> guard" where
  "refresh_exempt st force answer prev g =
     (if prev \<noteq> None \<and> \<not> force then (prev, g)
      else let (subjects, err) = answer in
        if err \<and> prev \<noteq> None then (prev, g)
        else let ss = remdups (filter (\<lambda>s. s \<noteq> []) (map trim_space subjects));
                 ks = map (\<lambda>s. (ScopeAccount, s)) ss
          in (Some ss, persist st ks (g\<lparr>gd_counters := filter (\<lambda>(k, _). k \<notin> set ks) (gd_counters g)\<rparr>)))"

section \<open>Seeding the trusted proxies\<close>

definition proxy_entries :: "(string \<Rightarrow> string) \<Rightarrow> string \<Rightarrow> string list" where
  "proxy_entries uni text = stable_sort str_less (fields_func list_separator [] (to_lower uni text))"

definition same_proxy_list :: "(string \<Rightarrow> string) \<Rightarrow> string \<Rightarrow> string \<Rightarrow> bool" where
  "same_proxy_list uni a b \<longleftrightarrow> proxy_entries uni a = proxy_entries uni b"

text \<open>The table afterwards, whether the stored list overrules the configured one, and whether it failed.\<close>

definition seed_trusted_proxies ::
  "(string \<Rightarrow> string) \<Rightarrow> string \<Rightarrow> getter \<Rightarrow> bool \<Rightarrow> settings \<Rightarrow> settings \<times> bool \<times> bool" where
  "seed_trusted_proxies uni configured0 get fails m =
     (let configured = trim_space configured0; key = ss_key (TrustedProxiesSetting uni) in
      if configured = [] then (m, False, False)
      else (case get key of
              ReadError \<Rightarrow> (m, False, True)
            | cur \<Rightarrow>
              let text = (case cur of Found v \<Rightarrow> v | _ \<Rightarrow> []) in
              if trim_space text \<noteq> [] then (m, \<not> same_proxy_list uni text configured, False)
              else (let (m1, ok) = seed_value_from (TrustedProxiesSetting uni) configured get fails m in (m1, False, \<not> ok))))"

definition reseed_trusted_proxies :: "(string \<Rightarrow> string) \<Rightarrow> string \<Rightarrow> bool \<Rightarrow> settings \<Rightarrow> settings \<times> bool \<times> bool" where
  "reseed_trusted_proxies uni configured0 fails m =
     (let configured = trim_space configured0 in
      if configured = [] then (m, False, False)
      else (case canonical (TrustedProxiesSetting uni) configured of
              None \<Rightarrow> (m, False, True)
            | Some v \<Rightarrow>
              (let (m1, ok) = put_setting fails (ss_key (TrustedProxiesSetting uni)) v m in (m1, ok, \<not> ok))))"

definition retry_after_seconds :: "int \<Rightarrow> int" where
  "retry_after_seconds d = (let secs = (d + second - 1) div second in if secs < 1 then 1 else secs)"

end
