(* ===== verification/LoginguardRules.thy ===== *)
theory LoginguardRules
  imports Loginguard
begin

text \<open>
  What the sign-in limiter guarantees: the settings in force are always of their type, the memory is
  bounded, and guessing is slow - the number of wrong attempts that reach a password check is bounded
  by the time they take, whatever names, addresses and sweeps they are mixed with and however they overlap, as long
  as no more of them than the limit are under way at once.
\<close>

section \<open>The settings in force\<close>

definition config_ok :: "config \<Rightarrow> bool" where
  "config_ok c \<longleftrightarrow> 1 \<le> cf_account_max c \<and> cf_account_max c \<le> 1000 \<and> 1 \<le> cf_ip_max c \<and> cf_ip_max c \<le> 10000 \<and>
     10 * second \<le> cf_window c \<and> cf_window c \<le> 86400 * second \<and>
     second \<le> cf_lock_base c \<and> cf_lock_base c \<le> cf_lock_max c \<and> cf_lock_max c \<le> 86400 * second \<and>
     (\<forall>s. cf_allow c = Some s \<longrightarrow> cs_classes s = no_classes)"

lemma add_entries_classes: "add_entries es st = Some s \<Longrightarrow> cs_classes s = cs_classes st"
  by (induction es st rule: add_entries.induct) (auto simp: Let_def split: if_splits option.splits)

lemma load_config_ok: "config_ok (load_config uni g)"
proof -
  note specs = AccountMaxSetting_def IPMaxSetting_def WindowSetting_def LockBaseSetting_def LockMaxSetting_def
    number_setting_def spec_ok_def
  have "cs_classes s = no_classes" if "parse_allowlist raw = Some s" for raw s
    using that add_entries_classes by (fastforce simp: parse_allowlist_def parse_entries_def empty_set_def)
  then show ?thesis
    using resolve_int_range [of AccountMaxSetting g] resolve_int_range [of IPMaxSetting g]
      resolve_int_range [of WindowSetting g] resolve_int_range [of LockBaseSetting g] resolve_int_range [of LockMaxSetting g]
    by (simp add: config_ok_def load_config_def Let_def specs)
qed

inductive in_force :: "(string \<Rightarrow> string) \<Rightarrow> login_snapshot option \<Rightarrow> bool" for uni where
  in_force_start: "in_force uni None"
| in_force_reload: "in_force uni s \<Longrightarrow> in_force uni (Some (fst (reload_settings uni get s)))"
| in_force_save: "in_force uni s \<Longrightarrow> in_force uni (fst (save_setting uni fails key value s))"


lemma build_snapshot_config: "sn_config (build_snapshot uni raw) = load_config uni (Some (table_get raw))"
  by (simp add: build_snapshot_def split: prod.split)

text \<open>C24. The settings in force are always of their type.\<close>

theorem settings_stay_in_range:
  assumes "in_force uni s" shows "config_ok (config_in_force uni s)"
  using assms
proof induction
  case in_force_start
  then show ?case by (simp add: config_in_force_def load_config_ok)
next
  case (in_force_reload s get)
  then show ?case by (simp add: config_in_force_def reload_settings_def build_snapshot_config load_config_ok Let_def)
next
  case (in_force_save s fails key v)
  then show ?case by (auto simp: config_in_force_def save_setting_def build_snapshot_config load_config_ok)
qed

section \<open>The memory\<close>

lemma map_of_filter_keys: "map_of (filter (\<lambda>(k', _). P k') al) k = (if P k then map_of al k else None)"
  by (induction al) auto

lemma map_of_filter_distinct:
  "distinct (map fst al) \<Longrightarrow> map_of (filter P al) k = (case map_of al k of None \<Rightarrow> None | Some v \<Rightarrow> if P (k, v) then Some v else None)"
  by (induction al) (auto split: option.splits simp: map_of_eq_None_iff image_iff)

definition memory_ok :: "nat \<Rightarrow> guard \<Rightarrow> bool" where
  "memory_ok mx g \<longleftrightarrow> length (gd_counters g) \<le> mx \<and> distinct (map fst (gd_counters g)) \<and>
     (\<forall>(k, row) \<in> set (gd_counters g). key_of row = k)"

lemma forget_all_counters:
  "gd_counters (forget_all ks g) = filter (\<lambda>(k, _). k \<notin> set ks) (gd_counters g)"
proof (induction ks arbitrary: g)
  case Nil
  then show ?case by (simp add: forget_all_def case_prod_unfold)
next
  case (Cons k ks)
  have "forget_all (k # ks) g = forget_all ks (forget k g)" by (simp add: forget_all_def)
  then show ?case using Cons [of "forget k g"]
    by (auto simp: forget_def AList.delete_eq filter_filter case_prod_unfold intro: filter_cong)
qed

lemma memory_ok_filter:
  "memory_ok mx g \<Longrightarrow> gd_counters g' = filter P (gd_counters g) \<Longrightarrow> memory_ok mx g'"
  by (auto simp: memory_ok_def distinct_map_filter intro: order_trans [OF length_filter_le])

lemma write_one_counters [simp]:
  "gd_counters (fst (write_one st k g)) = gd_counters g" "gd_need_load (fst (write_one st k g)) = gd_need_load g"
  by (auto simp: write_one_def owe_def paid_def split: option.splits)

lemma write_locked_counters [simp]:
  "gd_counters (fst (write_locked st ks g)) = gd_counters g" "gd_need_load (fst (write_locked st ks g)) = gd_need_load g"
proof (induction ks arbitrary: g)
  case (Cons k ks)
  { case 1 show ?case using Cons(1) [of "fst (write_one st k g)"] by (simp add: case_prod_unfold Let_def) }
  { case 2 show ?case using Cons(2) [of "fst (write_one st k g)"] by (simp add: case_prod_unfold Let_def) }
qed simp_all

lemma persist_counters [simp]:
  "gd_counters (persist st ks g) = gd_counters g" "gd_need_load (persist st ks g) = gd_need_load g"
  "gd_counters (flush st g) = gd_counters g" "gd_need_load (flush st g) = gd_need_load g"
  by (auto simp: persist_def flush_def flush_locked_def case_prod_unfold Let_def)

lemma filter_out_taken:
  assumes "distinct (map fst cands)" and "mset cands = mset cs"
  shows "length (filter (\<lambda>(k, _). k \<notin> set (map fst (take n cands))) cs) = length cs - n"
proof -
  have "length (filter P cs) = length (filter P cands)" for P
    using assms(2) by (metis mset_filter size_mset)
  moreover have "filter (\<lambda>(k, _). k \<notin> set (map fst (take n cands))) cands = drop n cands"
  proof -
    have d: "fst ` set (take n cands) \<inter> fst ` set (drop n cands) = {}"
      using assms(1) by (metis append_take_drop_id distinct_append map_append list.set_map)
    have "filter (\<lambda>(k, _). k \<notin> set (map fst (take n cands))) (take n cands) = []"
      by (auto simp: filter_empty_conv image_iff)
    moreover have "filter (\<lambda>(k, _). k \<notin> set (map fst (take n cands))) (drop n cands) = drop n cands"
      using d by (auto simp: filter_id_conv) (metis disjoint_iff fst_conv image_eqI)
    ultimately show ?thesis by (metis append_take_drop_id filter_append self_append_conv2)
  qed
  ultimately show ?thesis using assms(2) by (metis length_drop size_mset)
qed

lemma max_counters_pos: "0 < max_counters e"
  by (simp add: max_counters_def)

lemma make_room_filter: "\<exists>P. gd_counters (make_room e now g) = filter P (gd_counters g)"
proof -
  have t: "\<exists>P. gd_counters g = filter P (gd_counters g)" by (rule exI [of _ "\<lambda>_. True"]) simp
  have f: "\<exists>P. gd_counters (forget_all ks g) = filter P (gd_counters g)" for ks g
    unfolding forget_all_counters by blast
  have ff: "\<exists>P. gd_counters (forget_all ks (forget_all ls g)) = filter P (gd_counters g)" for ks ls g
    unfolding forget_all_counters filter_filter by blast
  show ?thesis unfolding make_room_def Let_def using t f ff by presburger
qed

lemma make_room_length:
  assumes "distinct (map fst (gd_counters g))"
  shows "length (gd_counters (make_room e now g)) < max_counters e"
proof -
  define g1 where "g1 = forget_all (map fst (filter (\<lambda>(k, row). idle row now) (gd_counters g))) g"
  have d1: "distinct (map fst (gd_counters g1))" using assms by (simp add: g1_def forget_all_counters distinct_map_filter)
  define cands where "cands = stable_sort (goes_first now) (gd_counters g1)"
  have m: "mset cands = mset (gd_counters g1)" by (simp add: cands_def)
  then have "distinct (map fst cands)" using d1 by (metis mset_eq_imp_distinct_iff mset_map)
  note taken = filter_out_taken [OF this m]
  have "length (gd_counters g1) - (length (gd_counters g1) - mx + 1 + mx div 10) < mx" if "0 < mx" for mx
    using that by linarith
  then show ?thesis
    unfolding make_room_def Let_def g1_def [symmetric] cands_def [symmetric] forget_all_counters
    using taken max_counters_pos [of e] by (auto simp: forget_all_counters)
qed

lemma count_failure_key: "key_of (fst (count_failure c mx a now row)) = key_of row"
  by (simp add: count_failure_def expired_lock_def key_of_def Let_def case_prod_unfold split: option.split)

lemma bump_result:
  "bump e k mx a now g =
    (let r = count_failure (ge_config e) mx a now (case map_of (gd_counters g) k of Some row \<Rightarrow> row | None \<Rightarrow> new_throttle k now);
         g1 = (case map_of (gd_counters g) k of Some _ \<Rightarrow> g | None \<Rightarrow> make_room e now g)
     in (g1\<lparr>gd_counters := AList.update k (fst r) (gd_counters g1)\<rparr>, fst r, fst (snd r), snd (snd r)))"
  by (simp add: bump_def Let_def case_prod_unfold split: option.split)

lemma length_update: "length (AList.update k v al) = length al + (if map_of al k = None then 1 else 0)"
  by (induction al) auto

lemma set_update: "(k', v') \<in> set (AList.update k v al) \<Longrightarrow> (k', v') = (k, v) \<or> (k', v') \<in> set al"
  by (induction al) (auto split: if_splits)

lemma memory_ok_update:
  "memory_ok mx g \<Longrightarrow> map_of (gd_counters g) k \<noteq> None \<or> length (gd_counters g) < mx \<Longrightarrow> key_of row = k \<Longrightarrow>
    memory_ok mx (g\<lparr>gd_counters := AList.update k row (gd_counters g)\<rparr>)"
  by (auto simp: memory_ok_def length_update distinct_update dest!: set_update)

lemma memory_ok_bump:
  assumes "memory_ok (max_counters e) g"
  shows "memory_ok (max_counters e) (fst (bump e k mx a now g))"
proof (cases "map_of (gd_counters g) k")
  case None
  obtain P where "gd_counters (make_room e now g) = filter P (gd_counters g)" using make_room_filter by blast
  then have "memory_ok (max_counters e) (make_room e now g)" by (rule memory_ok_filter [OF assms])
  moreover have "length (gd_counters (make_room e now g)) < max_counters e"
    by (rule make_room_length) (use assms in \<open>simp add: memory_ok_def\<close>)
  moreover have "key_of (fst (count_failure c mx a now (new_throttle k now))) = k" for c
    unfolding count_failure_key by (simp add: new_throttle_def key_of_def)
  ultimately show ?thesis
    unfolding bump_result Let_def None by (simp add: memory_ok_update)
next
  case (Some row)
  then have "key_of row = k" using assms by (auto simp: memory_ok_def dest: map_of_SomeD)
  then show ?thesis unfolding bump_result Let_def Some
    by (simp add: memory_ok_update [OF assms] count_failure_key Some)
qed

lemma memory_ok_persist [simp]:
  "memory_ok mx (persist st ks g) = memory_ok mx g" "memory_ok mx (flush st g) = memory_ok mx g"
  by (simp_all add: memory_ok_def)

lemma memory_ok_counters: "gd_counters g' = gd_counters g \<Longrightarrow> memory_ok mx g' = memory_ok mx g"
  by (simp add: memory_ok_def)

lemma memory_ok_failed:
  assumes "memory_ok (max_counters e) g"
  shows "memory_ok (max_counters e) (fst (failed_attempt e st now a reason g))"
proof -
  have "memory_ok (max_counters e) (fst (count_attempt e now a g))"
    by (simp add: count_attempt_def Let_def case_prod_unfold memory_ok_bump assms)
  then show ?thesis using assms by (simp add: failed_attempt_def Let_def case_prod_unfold)
qed

lemma memory_ok_delete: "memory_ok mx g \<Longrightarrow> memory_ok mx (g\<lparr>gd_counters := AList.delete k (gd_counters g)\<rparr>)"
  by (erule memory_ok_filter) (simp add: AList.delete_eq)

lemma memory_ok_succeeded:
  "memory_ok mx g \<Longrightarrow> memory_ok mx (fst (succeeded e st now a g))"
  by (simp add: succeeded_def Let_def memory_ok_delete split: option.split)

lemma memory_ok_unlock:
  "memory_ok mx g \<Longrightarrow> memory_ok mx (fst (unlock st k g))"
  by (drule memory_ok_delete [of _ _ k]) (simp add: unlock_def Let_def owe_def paid_def memory_ok_def split: option.split prod.split)

lemma memory_ok_unlock_rows:
  "memory_ok mx g \<Longrightarrow> memory_ok mx (fst (unlock_rows st ks g))"
proof (induction ks arbitrary: g)
  case (Cons k ks)
  then show ?case using memory_ok_unlock [of mx g st k] by (simp add: case_prod_unfold Let_def)
qed simp

lemma memory_ok_unlock_all:
  assumes "memory_ok mx g" shows "memory_ok mx (fst (unlock_all st fails now g))"
proof -
  have "memory_ok mx (g\<lparr>gd_counters := filter P (gd_counters g)\<rparr>)" for P
    by (rule memory_ok_filter [OF assms]) simp
  then show ?thesis by (simp add: unlock_all_def Let_def case_prod_unfold memory_ok_unlock_rows)
qed

lemma memory_ok_fill:
  "memory_ok mx g \<Longrightarrow> memory_ok mx (fill_memory mx rs g)"
proof (induction rs arbitrary: g)
  case (Cons r rs)
  have "memory_ok mx (g\<lparr>gd_counters := gd_counters g @ [(key_of r, r)]\<rparr>)"
    if "map_of (gd_counters g) (key_of r) = None" "length (gd_counters g) < mx"
    using that Cons.prems by (auto simp: memory_ok_def map_of_eq_None_iff)
  then show ?case using Cons by (simp add: Let_def)
qed simp

lemma memory_ok_load:
  "memory_ok (max_counters e) g \<Longrightarrow> memory_ok (max_counters e) (load_counters e st fails now g)"
  by (auto simp: load_counters_def memory_ok_counters [of "g\<lparr>gd_need_load := _\<rparr>" g] intro!: memory_ok_fill)

lemma expired_lock_key [simp]: "key_of (fst (expired_lock row now)) = key_of row"
  by (simp add: expired_lock_def key_of_def split: option.split)

lemma swept_keys: "map fst (map (\<lambda>(k, row). (k, fst (expired_lock row now))) cs) = map fst cs"
  by (induction cs) auto

lemma memory_ok_swept:
  assumes "memory_ok mx g" and "gd_counters g' = swept now (gd_counters g)"
  shows "memory_ok mx g'"
proof -
  have "memory_ok mx (g\<lparr>gd_counters := map (\<lambda>(k, row). (k, fst (expired_lock row now))) (gd_counters g)\<rparr>)"
    using assms(1) by (auto simp: memory_ok_def swept_keys simp del: map_map)
  then show ?thesis by (rule memory_ok_filter) (simp add: assms(2) swept_def)
qed

lemma sweep_counters:
  "gd_counters (fst (sweep e st lf pf now g)) =
    swept now (gd_counters (if gd_need_load g then load_counters e st lf now g else g))"
  by (simp add: sweep_def Let_def)

lemma memory_ok_sweep:
  assumes "memory_ok (max_counters e) g" shows "memory_ok (max_counters e) (fst (sweep e st lf pf now g))"
  by (rule memory_ok_swept [OF _ sweep_counters]) (use assms memory_ok_load in simp)

lemma memory_ok_refresh:
  assumes "memory_ok mx g" shows "memory_ok mx (snd (refresh_exempt st force answer prev g))"
proof -
  have "memory_ok mx (g\<lparr>gd_counters := filter P (gd_counters g)\<rparr>)" for P
    by (rule memory_ok_filter [OF assms]) simp
  then show ?thesis using assms by (simp add: refresh_exempt_def Let_def case_prod_unfold)
qed

text \<open>Everything that happens to a guard, at any times, under any settings, with a table that answers
  as it pleases.\<close>

inductive guard_history :: "nat \<Rightarrow> guard \<Rightarrow> bool" for mx where
  gh_new: "gd_counters g = [] \<Longrightarrow> guard_history mx g"
| gh_load: "guard_history mx g \<Longrightarrow> max_counters e = mx \<Longrightarrow> guard_history mx (load_counters e st fails now g)"
| gh_failed: "guard_history mx g \<Longrightarrow> max_counters e = mx \<Longrightarrow> guard_history mx (fst (failed_attempt e st now a reason g))"
| gh_succeeded: "guard_history mx g \<Longrightarrow> guard_history mx (fst (succeeded e st now a g))"
| gh_unlock: "guard_history mx g \<Longrightarrow> guard_history mx (fst (unlock st k g))"
| gh_unlock_all: "guard_history mx g \<Longrightarrow> guard_history mx (fst (unlock_all st fails now g))"
| gh_sweep: "guard_history mx g \<Longrightarrow> max_counters e = mx \<Longrightarrow> guard_history mx (fst (sweep e st lf pf now g))"
| gh_exempt: "guard_history mx g \<Longrightarrow> guard_history mx (snd (refresh_exempt st force answer prev g))"

text \<open>The limiter's memory is bounded: after any history of attempts, sign-ins, unlocks, sweeps and
  loads it holds at most \<open>MaxCounters\<close> counters, one per name or address, each under its own key.\<close>

theorem memory_is_bounded:
  assumes "guard_history mx g" shows "memory_ok mx g"
  using assms
proof induction
  case (gh_new g)
  then show ?case by (simp add: memory_ok_def)
qed (auto simp: memory_ok_load memory_ok_failed memory_ok_succeeded memory_ok_unlock memory_ok_unlock_all
      memory_ok_sweep memory_ok_refresh)

section \<open>What guessing costs\<close>

text \<open>
  The potential of a counter at a time: how many more attempts can be judged on it before \<open>b\<close>. What is
  left until it locks; per lock that still fits its limit - at most \<open>J\<close> of the locks between two times
  the level is forgotten are shorter than the ceiling; per window that still fits one less.
\<close>

definition memory_span :: "config \<Rightarrow> nanos" where
  "memory_span c = min (cf_lock_max c + cf_window c) prune_after"

definition full_locks :: "config \<Rightarrow> nanos \<Rightarrow> nanos \<Rightarrow> int" where
  "full_locks c b from = (if b < from then 0 else 1 + (b - from) div cf_lock_max c)"

definition locks_left :: "config \<Rightarrow> nat \<Rightarrow> nanos \<Rightarrow> int \<Rightarrow> nanos \<Rightarrow> nanos \<Rightarrow> int" where
  "locks_left c J b level last_fail from =
     max 0 (int J - level) + int J * ((b - last_fail) div (memory_span c + 1)) + full_locks c b from"

definition potential :: "config \<Rightarrow> nat \<Rightarrow> int \<Rightarrow> nanos \<Rightarrow> nanos \<Rightarrow> throttle \<Rightarrow> int" where
  "potential c J mx b now row =
     (mx - 1 - th_fails row) +
     mx * locks_left c J b (th_lock_level row) (th_last_fail_at row)
       (case th_locked_until row of None \<Rightarrow> now | Some u \<Rightarrow> max now u) +
     (mx - 1) * ((b - th_window_start row) div (cf_window c + 1))"

definition guess_bound :: "config \<Rightarrow> nat \<Rightarrow> int \<Rightarrow> nanos \<Rightarrow> int" where
  "guess_bound c J mx d =
     (mx - 1) + mx * (int J + int J * (d div (memory_span c + 1)) + (1 + d div cf_lock_max c)) +
     (mx - 1) * (d div (cf_window c + 1))"

definition row_fine :: "int \<Rightarrow> nanos \<Rightarrow> throttle \<Rightarrow> bool" where
  "row_fine mx now row \<longleftrightarrow> 0 \<le> th_fails row \<and> th_fails row < mx \<and> 0 \<le> th_lock_level row \<and>
     th_window_start row \<le> th_last_fail_at row \<and> th_last_fail_at row \<le> now"

lemma config_okD:
  assumes "config_ok c"
  shows "0 < cf_lock_base c" "cf_lock_base c \<le> cf_lock_max c" "0 < cf_lock_max c" "0 < cf_window c"
    "cf_window c \<le> prune_after" "0 < memory_span c" "1 \<le> limit_for s c"
  using assms by (auto simp: config_ok_def prune_after_def memory_span_def limit_for_def)

lemma double_up_ge: "0 \<le> d \<Longrightarrow> d \<le> double_up ceil d n"
proof (induction n arbitrary: d)
  case (Suc n)
  have "d * 2 \<le> double_up ceil (d * 2) n" using Suc.IH [of "d * 2"] Suc.prems by simp
  then have "d \<le> double_up ceil (d * 2) n" using Suc.prems by linarith
  then show ?case by simp
qed simp

lemma double_up_reaches: "0 \<le> d \<Longrightarrow> ceil \<le> d * 2 ^ J \<Longrightarrow> J \<le> n \<Longrightarrow> ceil \<le> double_up ceil d n"
proof (induction n arbitrary: d J)
  case (Suc n)
  show ?case
  proof (cases J)
    case 0
    then show ?thesis using Suc.prems double_up_ge [of d ceil "Suc n"] by simp
  next
    case (Suc J')
    then show ?thesis using Suc.prems Suc.IH [of "d * 2" J'] by simp
  qed
qed simp

lemma lock_duration_ge:
  assumes "config_ok c" shows "0 < lock_duration c level"
  using double_up_ge [of "cf_lock_base c" "cf_lock_max c" "nat (level - 1)"] config_okD(1,3) [OF assms]
  by (simp add: lock_duration_def Let_def)

lemma lock_duration_full:
  assumes "config_ok c" "cf_lock_max c \<le> cf_lock_base c * 2 ^ J" "int J < level"
  shows "lock_duration c level = cf_lock_max c"
proof -
  have "cf_lock_max c \<le> double_up (cf_lock_max c) (cf_lock_base c) (nat (level - 1))"
    by (rule double_up_reaches [of _ _ J]) (use config_okD(1) [OF assms(1)] assms(2,3) in auto)
  then show ?thesis by (simp add: lock_duration_def Let_def)
qed

lemma div_step:
  fixes x d y :: int assumes "0 < d" "x + d \<le> y" shows "x div d + 1 \<le> y div d"
proof -
  have "(x + d) div d \<le> y div d" using assms by (intro zdiv_mono1) auto
  moreover have "(x + d) div d = x div d + 1" by (rule div_add_self2) (use assms(1) in simp)
  ultimately show ?thesis by simp
qed

lemma full_locks_mono: "config_ok c \<Longrightarrow> from \<le> from' \<Longrightarrow> full_locks c b from' \<le> full_locks c b from"
  using zdiv_mono1 [of "b - from'" "b - from" "cf_lock_max c"] config_okD(3) [of c] pos_imp_zdiv_nonneg_iff [of "cf_lock_max c" "b - from"]
  by (auto simp: full_locks_def)

lemma full_locks_step:
  assumes "config_ok c" "now \<le> b" "now + cf_lock_max c \<le> from"
  shows "full_locks c b from + 1 \<le> full_locks c b now"
  using div_step [of "cf_lock_max c" "b - from" "b - now"] config_okD(3) [OF assms(1)] assms(2,3)
    pos_imp_zdiv_nonneg_iff [of "cf_lock_max c" "b - now"]
  by (auto simp: full_locks_def)

text \<open>A lock uses up a short one or a full one; a forgotten level is paid with the time it took.\<close>

lemma lock_pays:
  assumes c: "config_ok c" "cf_lock_max c \<le> cf_lock_base c * 2 ^ J" and l: "0 \<le> level" and t: "now \<le> b"
  shows "locks_left c J b (level + 1) lf (now + lock_duration c (level + 1)) + 1 \<le> locks_left c J b level lf now"
proof (cases "int J < level + 1")
  case True
  then show ?thesis using full_locks_step [OF c(1) t, of "now + lock_duration c (level + 1)"] lock_duration_full [OF c True] l
    by (simp add: locks_left_def)
next
  case False
  then show ?thesis using full_locks_mono [OF c(1), of now "now + lock_duration c (level + 1)" b] lock_duration_ge [OF c(1), of "level + 1"]
    by (simp add: locks_left_def)
qed

lemma last_fail_mono:
  "config_ok c \<Longrightarrow> lf \<le> now \<Longrightarrow> locks_left c J b level now from \<le> locks_left c J b level lf from"
  using zdiv_mono1 [of "b - now" "b - lf" "memory_span c + 1"] config_okD(6) [of c]
  by (simp add: locks_left_def mult_left_mono)

lemma forgetting_pays:
  assumes "config_ok c" "memory_span c < now - lf" "0 \<le> level"
  shows "locks_left c J b 0 now from \<le> locks_left c J b level lf from"
proof -
  have "(b - now) div (memory_span c + 1) + 1 \<le> (b - lf) div (memory_span c + 1)"
    by (rule div_step) (use assms(2) config_okD(6) [OF assms(1)] in auto)
  then have "int J * ((b - now) div (memory_span c + 1) + 1) \<le> int J * ((b - lf) div (memory_span c + 1))"
    by (rule mult_left_mono) simp
  then show ?thesis using assms(3) by (simp add: locks_left_def distrib_left)
qed

lemma window_mono:
  assumes "config_ok c" "1 \<le> mx" "ws \<le> now"
  shows "(mx - 1) * ((b - now) div (cf_window c + 1)) \<le> (mx - 1) * ((b - ws) div (cf_window c + 1))"
  using assms zdiv_mono1 [of "b - now" "b - ws" "cf_window c + 1"] config_okD(4) [OF assms(1)] by (simp add: mult_left_mono)

lemma window_pays:
  assumes "config_ok c" "1 \<le> mx" "cf_window c < now - ws"
  shows "(mx - 1) * ((b - now) div (cf_window c + 1)) + (mx - 1) \<le> (mx - 1) * ((b - ws) div (cf_window c + 1))"
proof -
  have "(b - now) div (cf_window c + 1) + 1 \<le> (b - ws) div (cf_window c + 1)"
    by (rule div_step) (use assms(3) config_okD(4) [OF assms(1)] in auto)
  then have "(mx - 1) * ((b - now) div (cf_window c + 1) + 1) \<le> (mx - 1) * ((b - ws) div (cf_window c + 1))"
    by (rule mult_left_mono) (use assms(2) in simp)
  then show ?thesis by (simp add: distrib_left)
qed

definition fails_from :: "config \<Rightarrow> nanos \<Rightarrow> throttle \<Rightarrow> int" where
  "fails_from c now row = (if now - th_window_start row > cf_window c then 0 else th_fails row)"

definition window_from :: "config \<Rightarrow> nanos \<Rightarrow> throttle \<Rightarrow> nanos" where
  "window_from c now row = (if now - th_window_start row > cf_window c then now else th_window_start row)"

definition level_from :: "config \<Rightarrow> nanos \<Rightarrow> throttle \<Rightarrow> int" where
  "level_from c now row =
     (if th_lock_level row > 0 \<and> now - th_last_fail_at row > cf_lock_max c + cf_window c then 0 else th_lock_level row)"

lemma count_failure_row:
  assumes "\<not> throttle_locked (Some row) now"
  shows "fst (count_failure c mx a now row) =
    (let f = fails_from c now row + 1; l = level_from c now row;
         row' = row\<lparr>th_last_fail_at := now, th_last_ip := at_ip a, th_last_protocol := at_protocol a\<rparr>
     in if mx \<le> f then row'\<lparr>th_fails := 0, th_window_start := now, th_lock_level := l + 1,
                          th_locked_until := Some (now + lock_duration c (l + 1))\<rparr>
        else row'\<lparr>th_fails := f, th_window_start := window_from c now row, th_lock_level := l, th_locked_until := None\<rparr>)"
proof -
  have "fst (expired_lock row now) = row\<lparr>th_locked_until := None\<rparr>"
    using assms by (cases row) (auto simp: expired_lock_def throttle_locked_def split: option.splits)
  then obtain ev where ev: "expired_lock row now = (row\<lparr>th_locked_until := None\<rparr>, ev)" by (cases "expired_lock row now") auto
  show ?thesis
    by (rule throttle.equality; cases "cf_window c < now - th_window_start row"; cases "th_lock_level row > 0";
        cases "now - th_last_fail_at row > cf_lock_max c + cf_window c")
      (simp_all add: count_failure_def ev Let_def fails_from_def window_from_def level_from_def)
qed

lemma count_failure_fields:
  assumes "\<not> throttle_locked (Some row) now" and "r = fst (count_failure c mx a now row)"
  shows "th_last_fail_at r = now"
    and "fails_from c now row + 1 < mx \<Longrightarrow> th_fails r = fails_from c now row + 1 \<and> th_window_start r = window_from c now row \<and>
      th_lock_level r = level_from c now row \<and> th_locked_until r = None"
    and "mx \<le> fails_from c now row + 1 \<Longrightarrow> th_fails r = 0 \<and> th_window_start r = now \<and>
      th_lock_level r = level_from c now row + 1 \<and>
      th_locked_until r = Some (now + lock_duration c (level_from c now row + 1))"
  unfolding assms(2) count_failure_row [OF assms(1)] by (simp_all add: Let_def)

lemma level_forgotten: "th_lock_level row = 0 \<Longrightarrow> th_locked_until row = None \<Longrightarrow>
  count_failure c mx a now (row\<lparr>th_last_fail_at := x\<rparr>) = count_failure c mx a now row"
  by (simp add: count_failure_def expired_lock_def Let_def)

lemma slack_pays:
  assumes "config_ok c" "1 \<le> mx" "row_fine mx now row"
  shows "(mx - 1 - fails_from c now row) + (mx - 1) * ((b - window_from c now row) div (cf_window c + 1)) \<le>
    (mx - 1 - th_fails row) + (mx - 1) * ((b - th_window_start row) div (cf_window c + 1))"
  using window_pays [OF assms(1,2), of now "th_window_start row" b] assms(3)
  by (auto simp: fails_from_def window_from_def row_fine_def)

lemma levels_pay:
  assumes "config_ok c" "row_fine mx now row"
  shows "locks_left c J b (level_from c now row) now now \<le> locks_left c J b (th_lock_level row) (th_last_fail_at row) now"
  using forgetting_pays [OF assms(1), of now "th_last_fail_at row" "th_lock_level row" J b now]
    last_fail_mono [OF assms(1), of "th_last_fail_at row" now J b "th_lock_level row" now] assms(2)
  by (auto simp: level_from_def memory_span_def row_fine_def)

lemma count_failure_pays:
  assumes c: "config_ok c" "cf_lock_max c \<le> cf_lock_base c * 2 ^ J" and mx: "1 \<le> mx" and t: "now \<le> b"
    and free: "\<not> throttle_locked (Some row) now" and fine: "row_fine mx now row"
  shows "row_fine mx now (fst (count_failure c mx a now row)) \<and>
    potential c J mx b now (fst (count_failure c mx a now row)) + 1 \<le> potential c J mx b now row"
proof -
  let ?f = "fails_from c now row" and ?w = "window_from c now row" and ?l = "level_from c now row"
  let ?r = "fst (count_failure c mx a now row)"
  have from_now: "(case th_locked_until row of None \<Rightarrow> now | Some u \<Rightarrow> max now u) = now"
    using free by (auto simp: throttle_locked_def split: option.split)
  have f: "0 \<le> ?f" "?f < mx" "?w \<le> now" "0 \<le> ?l"
    using fine by (auto simp: fails_from_def window_from_def level_from_def row_fine_def)
  have levels: "mx * locks_left c J b ?l now now \<le> mx * locks_left c J b (th_lock_level row) (th_last_fail_at row) now"
    by (rule mult_left_mono [OF levels_pay [OF c(1) fine]]) (use mx in simp)
  note slack = slack_pays [OF c(1) mx fine, of b]
  note fields = count_failure_fields [OF free refl, where c = c and mx = mx and a = a]
  show ?thesis
  proof (cases "?f + 1 < mx")
    case True
    note r = fields(1) fields(2) [OF True]
    have "potential c J mx b now ?r = (mx - 1 - (?f + 1)) + mx * locks_left c J b ?l now now +
      (mx - 1) * ((b - ?w) div (cf_window c + 1))" by (simp add: potential_def r)
    then have "potential c J mx b now ?r + 1 \<le> potential c J mx b now row"
      using slack levels unfolding potential_def from_now by linarith
    then show ?thesis using r f True by (simp add: row_fine_def)
  next
    case False
    then have locking: "mx \<le> ?f + 1" "?f = mx - 1" using f by auto
    have "locks_left c J b (?l + 1) now (now + lock_duration c (?l + 1)) + 1 \<le> locks_left c J b ?l now now"
      by (rule lock_pays [OF c f(4) t])
    then have "mx * (locks_left c J b (?l + 1) now (now + lock_duration c (?l + 1)) + 1) \<le> mx * locks_left c J b ?l now now"
      by (rule mult_left_mono) (use mx in simp)
    then have lock: "mx * locks_left c J b (?l + 1) now (now + lock_duration c (?l + 1)) + mx \<le> mx * locks_left c J b ?l now now"
      by (simp only: distrib_left mult_1_right)
    have until: "max now (now + lock_duration c (?l + 1)) = now + lock_duration c (?l + 1)"
      using lock_duration_ge [OF c(1), of "?l + 1"] by simp
    note window = window_mono [OF c(1) mx f(3), of b]
    note r = fields(1) fields(3) [OF locking(1)]
    have "potential c J mx b now ?r = (mx - 1) + mx * locks_left c J b (?l + 1) now (now + lock_duration c (?l + 1)) +
      (mx - 1) * ((b - now) div (cf_window c + 1))" by (simp add: potential_def r until)
    then have "potential c J mx b now ?r + 1 \<le> potential c J mx b now row"
      using slack levels window lock locking(2) unfolding potential_def from_now by linarith
    then show ?thesis using r f mx by (simp add: row_fine_def)
  qed
qed

text \<open>
  A failure that meets a running lock - of an attempt that was checked before the lock closed - is
  counted too, as the first tries after the lock. It locks nothing as long as a try is left.
\<close>

lemma count_failure_meets_lock:
  assumes c: "config_ok c" and mx: "1 \<le> mx" and locked: "throttle_locked (Some row) now" and fine: "row_fine mx now row"
    and f: "th_fails row + 1 < mx" and r: "r = fst (count_failure c mx a now row)"
  shows "row_fine mx now r" "potential c J mx b now r + 1 \<le> potential c J mx b now row"
    "th_fails r \<le> th_fails row + 1" "th_locked_until r = th_locked_until row"
proof -
  obtain u where u: "th_locked_until row = Some u" "u > now"
    using locked by (auto simp: throttle_locked_def split: option.splits)
  have ff: "fails_from c now row + 1 < mx" "0 \<le> fails_from c now row" "fails_from c now row \<le> th_fails row"
    "window_from c now row \<le> now"
    using f fine by (auto simp: fails_from_def window_from_def row_fine_def)
  have fields: "th_fails r = fails_from c now row + 1" "th_window_start r = window_from c now row"
    "th_lock_level r = th_lock_level row" "th_locked_until r = Some u" "th_last_fail_at r = now"
    using u ff(1) f unfolding r
    by (auto simp: count_failure_def expired_lock_def fails_from_def window_from_def Let_def)
  have l: "0 \<le> th_lock_level row" "th_last_fail_at row \<le> now" using fine by (simp_all add: row_fine_def)
  have "mx * locks_left c J b (th_lock_level row) now (max now u) \<le>
      mx * locks_left c J b (th_lock_level row) (th_last_fail_at row) (max now u)"
    using last_fail_mono [OF c l(2)] mx by (intro mult_left_mono) auto
  then show "potential c J mx b now r + 1 \<le> potential c J mx b now row"
    using slack_pays [OF c mx fine, of b] by (simp add: potential_def fields u(1))
  show "row_fine mx now r" "th_fails r \<le> th_fails row + 1" "th_locked_until r = th_locked_until row"
    using fields ff l u(1) by (simp_all add: row_fine_def)
qed

text \<open>
  What happens at the doors, in order, with the attempts under way. \<open>Checked\<close>: an attempt asks, and is
  under way when nothing blocks it. \<open>Wrong\<close>: the password of one under way was compared and found
  wrong. \<open>Right\<close>: it was right, and the sign-in was recorded. \<open>Dropped\<close>: it ended with neither. Between
  its check and its end anything may happen. \<open>judged\<close> counts the wrong passwords compared for attempts
  that count on one counter.
\<close>

datatype login_event =
    Checked nanos attempt
  | Wrong store_env nanos attempt string
  | Right store_env nanos attempt
  | Dropped nanos attempt
  | Sweeping store_env nanos bool

fun event_time :: "login_event \<Rightarrow> nanos" where
  "event_time (Checked t a) = t"
| "event_time (Wrong st t a reason) = t"
| "event_time (Right st t a) = t"
| "event_time (Dropped t a) = t"
| "event_time (Sweeping st t pf) = t"

fun spares :: "guard_env \<Rightarrow> counter_key \<Rightarrow> login_event \<Rightarrow> bool" where
  "spares e k (Right st t a) \<longleftrightarrow> account_key e a \<noteq> k"
| "spares e k ev \<longleftrightarrow> True"

fun event_step :: "guard_env \<Rightarrow> login_event \<Rightarrow> guard \<times> attempt list \<Rightarrow> guard \<times> attempt list" where
  "event_step e (Checked t a) (g, under_way) =
     (g, if vd_blocked (check_attempt e t a g) then under_way else a # under_way)"
| "event_step e (Wrong st t a reason) (g, under_way) =
     (if a \<in> set under_way then (fst (failed_attempt e st t a reason g), remove1 a under_way) else (g, under_way))"
| "event_step e (Right st t a) (g, under_way) =
     (if a \<in> set under_way then (fst (succeeded e st t a g), remove1 a under_way) else (g, under_way))"
| "event_step e (Dropped t a) (g, under_way) = (g, remove1 a under_way)"
| "event_step e (Sweeping st t pf) (g, under_way) = (fst (sweep e st False pf t g), under_way)"

definition counts_against :: "guard_env \<Rightarrow> counter_key \<Rightarrow> attempt \<Rightarrow> bool" where
  "counts_against e k a \<longleftrightarrow> cf_enabled (ge_config e) \<and> \<not> allowlisted e a \<and> k \<in> set (checked_keys e a)"

fun judges :: "guard_env \<Rightarrow> counter_key \<Rightarrow> login_event \<Rightarrow> attempt list \<Rightarrow> nat" where
  "judges e k (Wrong st t a reason) under_way = (if a \<in> set under_way \<and> counts_against e k a then 1 else 0)"
| "judges e k ev under_way = 0"

fun judged :: "guard_env \<Rightarrow> counter_key \<Rightarrow> login_event list \<Rightarrow> guard \<times> attempt list \<Rightarrow> nat" where
  "judged e k [] d = 0"
| "judged e k (ev # evs) d = judges e k ev (snd d) + judged e k evs (event_step e ev d)"

text \<open>How many attempts count on one counter and are under way at once, at most.\<close>

definition in_flight :: "guard_env \<Rightarrow> counter_key \<Rightarrow> attempt list \<Rightarrow> nat" where
  "in_flight e k under_way = length (filter (counts_against e k) under_way)"

fun crowd :: "guard_env \<Rightarrow> counter_key \<Rightarrow> login_event list \<Rightarrow> guard \<times> attempt list \<Rightarrow> nat" where
  "crowd e k [] d = in_flight e k (snd d)"
| "crowd e k (ev # evs) d = max (in_flight e k (snd d)) (crowd e k evs (event_step e ev d))"

lemma in_flight_Cons [simp]: "in_flight e k (a # fl) = (if counts_against e k a then 1 else 0) + in_flight e k fl"
  by (simp add: in_flight_def)

lemma in_flight_remove: "a \<in> set fl \<Longrightarrow>
    in_flight e k fl = (if counts_against e k a then 1 else 0) + in_flight e k (remove1 a fl)"
  by (induction fl) auto

lemma in_flight_remove_le: "in_flight e k (remove1 a fl) \<le> in_flight e k fl"
  by (cases "a \<in> set fl") (auto simp: in_flight_remove remove1_idem)

lemma crowd_now: "in_flight e k (snd d) \<le> crowd e k evs d"
  by (cases evs) simp_all

lemma worst_lock_step:
  "worst_lock cs now (k # ks) v =
    (if throttle_locked (map_of cs k) now \<and> lock_left (map_of cs k) now > vd_retry_after v
     then worst_lock cs now ks (v\<lparr>vd_blocked := True, vd_scope := fst k, vd_retry_after := lock_left (map_of cs k) now\<rparr>)
     else worst_lock cs now ks v)"
  by (auto simp: throttle_locked_def lock_left_def split: option.split)

lemma worst_lock_finds:
  "\<not> vd_blocked (worst_lock cs now ks v) \<Longrightarrow> vd_retry_after v = 0 \<or> vd_blocked v \<Longrightarrow>
    \<not> vd_blocked v \<and> (k \<in> set ks \<longrightarrow> \<not> throttle_locked (map_of cs k) now)"
proof (induction ks arbitrary: v)
  case (Cons k' ks)
  have "throttle_locked (map_of cs k') now \<Longrightarrow> lock_left (map_of cs k') now > 0"
    by (auto simp: throttle_locked_def lock_left_def split: option.splits)
  then show ?case
    using Cons.prems Cons.IH [of v]
      Cons.IH [of "v\<lparr>vd_blocked := True, vd_scope := fst k', vd_retry_after := lock_left (map_of cs k') now\<rparr>"]
    unfolding worst_lock_step by (cases "throttle_locked (map_of cs k') now") (simp_all split: if_splits)
qed simp

lemma judged_unlocked:
  assumes "\<not> vd_blocked (check_attempt e now a g)" "counts_against e k a"
  shows "\<not> throttle_locked (map_of (gd_counters g) k) now"
  using assms worst_lock_finds [of "gd_counters g" now "checked_keys e a" no_verdict k]
  by (auto simp: check_attempt_def counts_against_def no_verdict_def)

definition row_at :: "guard \<Rightarrow> counter_key \<Rightarrow> nanos \<Rightarrow> throttle" where
  "row_at g k now = (case map_of (gd_counters g) k of Some row \<Rightarrow> row | None \<Rightarrow> new_throttle k now)"

lemma bump_with_room:
  assumes "length (gd_counters g) < max_counters e"
  shows "gd_counters (fst (bump e k mx a now g)) =
      AList.update k (fst (count_failure (ge_config e) mx a now (row_at g k now))) (gd_counters g)"
    and "gd_need_load (fst (bump e k mx a now g)) = gd_need_load g"
  using assms by (auto simp: bump_result row_at_def make_room_def Let_def split: option.splits)

lemma limit_of_checked:
  "k \<in> set (checked_keys e a) \<Longrightarrow>
    limit_for (fst k) c = (if k = ip_key a then cf_ip_max c else cf_account_max c)"
  by (auto simp: checked_keys_def limit_for_def ip_key_def account_key_def split: if_splits)

lemma keys_differ: "account_key e a \<noteq> ip_key a"
  by (simp add: account_key_def ip_key_def)

lemma count_attempt_counters:
  assumes room: "length (gd_counters g) + 2 \<le> max_counters e"
    and res: "g' = fst (count_attempt e now a g)"
  shows "map_of (gd_counters g') k =
      (if k \<in> set (checked_keys e a)
       then Some (fst (count_failure (ge_config e) (limit_for (fst k) (ge_config e)) a now (row_at g k now)))
       else map_of (gd_counters g) k)"
    and "length (gd_counters g') \<le> length (gd_counters g) + 2"
    and "distinct (map fst (gd_counters g)) \<Longrightarrow> distinct (map fst (gd_counters g'))"
    and "gd_need_load g' = gd_need_load g"
proof -
  let ?c = "ge_config e"
  define g1 where "g1 = (if account_exempt e a then g else fst (bump e (account_key e a) (cf_account_max ?c) a now g))"
  have g': "g' = fst (bump e (ip_key a) (cf_ip_max ?c) a now g1)"
    by (simp add: res g1_def count_attempt_def Let_def case_prod_unfold)
  have "length (gd_counters g) < max_counters e" using room by simp
  note first = bump_with_room [OF this, of "account_key e a" "cf_account_max ?c" a now]
  have l1: "length (gd_counters g1) \<le> length (gd_counters g) + 1" by (simp add: g1_def first length_update)
  then have "length (gd_counters g1) < max_counters e" using room by simp
  note second = bump_with_room [OF this, of "ip_key a" "cf_ip_max ?c" a now]
  have c1: "gd_counters g1 = (if account_exempt e a then gd_counters g
      else AList.update (account_key e a)
        (fst (count_failure ?c (cf_account_max ?c) a now (row_at g (account_key e a) now))) (gd_counters g))"
    by (simp add: g1_def first)
  have same: "row_at g1 (ip_key a) now = row_at g (ip_key a) now"
    using keys_differ [of e a] by (simp add: c1 row_at_def update_conv)
  have c2: "gd_counters g' = AList.update (ip_key a)
      (fst (count_failure ?c (cf_ip_max ?c) a now (row_at g (ip_key a) now))) (gd_counters g1)"
    by (simp add: g' second same)
  show "map_of (gd_counters g') k =
      (if k \<in> set (checked_keys e a)
       then Some (fst (count_failure ?c (limit_for (fst k) ?c) a now (row_at g k now))) else map_of (gd_counters g) k)"
    using keys_differ [of e a] limit_of_checked [of k e a ?c]
    by (auto simp: c2 update_conv c1 checked_keys_def)
  show "length (gd_counters g') \<le> length (gd_counters g) + 2" using l1 by (simp add: c2 length_update)
  show "distinct (map fst (gd_counters g'))" if "distinct (map fst (gd_counters g))"
    using that by (simp add: c2 c1 distinct_update)
  have "gd_need_load g1 = gd_need_load g" by (simp add: g1_def first)
  then show "gd_need_load g' = gd_need_load g" by (simp add: g' second)
qed

text \<open>The state that is followed: the counter, its potential, and that nothing else is pending.\<close>

definition tracked :: "int \<Rightarrow> counter_key \<Rightarrow> nanos \<Rightarrow> guard \<Rightarrow> bool" where
  "tracked mx k now g \<longleftrightarrow> distinct (map fst (gd_counters g)) \<and> \<not> gd_need_load g \<and>
     (case map_of (gd_counters g) k of None \<Rightarrow> True | Some row \<Rightarrow> row_fine mx now row)"

definition chances :: "config \<Rightarrow> nat \<Rightarrow> int \<Rightarrow> counter_key \<Rightarrow> nanos \<Rightarrow> nanos \<Rightarrow> guard \<Rightarrow> int" where
  "chances c J mx k b now g =
     (case map_of (gd_counters g) k of None \<Rightarrow> guess_bound c J mx (b - now) | Some row \<Rightarrow> potential c J mx b now row)"

definition fresh :: "counter_key \<Rightarrow> nanos \<Rightarrow> throttle" where
  "fresh k now = (new_throttle k now)\<lparr>th_last_fail_at := now\<rparr>"

lemma fresh_facts:
  assumes "1 \<le> mx" "now \<le> b"
  shows "potential c J mx b now (fresh k now) = guess_bound c J mx (b - now)"
    and "row_fine mx now (fresh k now)" and "\<not> throttle_locked (Some (fresh k now)) now"
  using assms by (auto simp: fresh_def new_throttle_def potential_def guess_bound_def locks_left_def full_locks_def
    row_fine_def throttle_locked_def)

text \<open>While the counter is locked, the tries it has left are more than the attempts under way.\<close>

definition lock_covered :: "guard_env \<Rightarrow> int \<Rightarrow> counter_key \<Rightarrow> nanos \<Rightarrow> guard \<times> attempt list \<Rightarrow> bool" where
  "lock_covered e mx k now d \<longleftrightarrow> (case map_of (gd_counters (fst d)) k of None \<Rightarrow> True
     | Some row \<Rightarrow> throttle_locked (Some row) now \<longrightarrow> th_fails row + int (in_flight e k (snd d)) < mx)"

lemma lock_covered_fewer:
  "lock_covered e mx k now (g, fl) \<Longrightarrow> map_of (gd_counters g') k = map_of (gd_counters g) k \<Longrightarrow>
    in_flight e k fl' \<le> in_flight e k fl \<Longrightarrow> lock_covered e mx k now (g', fl')"
  by (auto simp: lock_covered_def split: option.splits)

lemma lock_covered_later: "lock_covered e mx k now d \<Longrightarrow> now \<le> now' \<Longrightarrow> lock_covered e mx k now' d"
  by (auto simp: lock_covered_def throttle_locked_def split: option.splits)

lemma counted_pays:
  assumes c: "config_ok c" "cf_lock_max c \<le> cf_lock_base c * 2 ^ J" and mx: "1 \<le> mx" and t: "now \<le> b"
    and tr: "tracked mx k now g"
    and free: "case map_of (gd_counters g) k of None \<Rightarrow> True
      | Some row \<Rightarrow> throttle_locked (Some row) now \<longrightarrow> th_fails row + 1 + int n < mx" and n: "int n < mx"
    and r: "r = fst (count_failure c mx a now (row_at g k now))"
  shows "row_fine mx now r \<and> potential c J mx b now r + 1 \<le> chances c J mx k b now g \<and>
    (throttle_locked (Some r) now \<longrightarrow> th_fails r + int n < mx)"
proof -
  have late: "th_fails r + int n < mx" if "\<not> throttle_locked (Some row) now" "throttle_locked (Some r) now"
    "r = fst (count_failure c mx a now row)" for row
    using count_failure_fields [OF that(1,3)] that(2) n
    by (cases "fails_from c now row + 1 < mx") (auto simp: throttle_locked_def)
  show ?thesis
  proof (cases "map_of (gd_counters g) k")
    case None
    have eq: "count_failure c mx a now (new_throttle k now) = count_failure c mx a now (fresh k now)"
      unfolding fresh_def by (rule level_forgotten [symmetric]) (simp_all add: new_throttle_def)
    then show ?thesis
      using count_failure_pays [OF c mx t fresh_facts(3,2) [OF mx t, of k], of a] fresh_facts(1) [OF mx t, of c J k]
        late [OF fresh_facts(3) [OF mx t, of k]] r
      by (simp add: row_at_def None chances_def)
  next
    case (Some row)
    have fine: "row_fine mx now row" using tr by (simp add: Some tracked_def)
    have r: "r = fst (count_failure c mx a now row)" using r by (simp add: row_at_def Some)
    show ?thesis
    proof (cases "throttle_locked (Some row) now")
      case True
      then have "th_fails row + 1 + int n < mx" using free by (simp add: Some)
      then show ?thesis using count_failure_meets_lock(1,3,4) [OF c(1) mx True fine _ r]
          count_failure_meets_lock(2) [OF c(1) mx True fine _ r, of J b] n by (simp add: Some chances_def)
    next
      case False
      then show ?thesis using count_failure_pays [OF c mx t False fine, of a] late [OF False _ r] r by (simp add: Some chances_def)
    qed
  qed
qed

lemma waiting_pays:
  assumes c: "config_ok c" and mx: "1 \<le> mx" and t: "now \<le> now'" "now' \<le> b" and tr: "tracked mx k now g"
  shows "tracked mx k now' g \<and> chances c J mx k b now' g \<le> chances c J mx k b now g"
proof (cases "map_of (gd_counters g) k")
  case None
  have J: "int J * ((b - now') div (memory_span c + 1)) \<le> int J * ((b - now) div (memory_span c + 1))"
    using t config_okD(6) [OF c] by (intro mult_left_mono zdiv_mono1) auto
  have "(b - now') div cf_lock_max c \<le> (b - now) div cf_lock_max c"
    using t config_okD(3) [OF c] by (intro zdiv_mono1) auto
  then have "mx * (int J + int J * ((b - now') div (memory_span c + 1)) + (1 + (b - now') div cf_lock_max c)) \<le>
      mx * (int J + int J * ((b - now) div (memory_span c + 1)) + (1 + (b - now) div cf_lock_max c))"
    using J mx by (intro mult_left_mono) linarith+
  moreover have "(mx - 1) * ((b - now') div (cf_window c + 1)) \<le> (mx - 1) * ((b - now) div (cf_window c + 1))"
    using t mx config_okD(4) [OF c] by (intro mult_left_mono zdiv_mono1) auto
  ultimately have "guess_bound c J mx (b - now') \<le> guess_bound c J mx (b - now)"
    unfolding guess_bound_def by linarith
  then show ?thesis using tr by (simp add: None tracked_def chances_def)
next
  case (Some row)
  let ?from = "\<lambda>now. case th_locked_until row of None \<Rightarrow> now | Some u \<Rightarrow> max now u"
  have "?from now \<le> ?from now'" using t by (auto split: option.split)
  then have "locks_left c J b l lf (?from now') \<le> locks_left c J b l lf (?from now)" for l lf
    using full_locks_mono [OF c] by (simp add: locks_left_def)
  then have "mx * locks_left c J b l lf (?from now') \<le> mx * locks_left c J b l lf (?from now)" for l lf
    by (rule mult_left_mono) (use mx in simp)
  from this [of "th_lock_level row" "th_last_fail_at row"]
  have "potential c J mx b now' row \<le> potential c J mx b now row"
    unfolding potential_def by linarith
  then show ?thesis using tr t by (auto simp: Some tracked_def chances_def row_fine_def)
qed

lemma forgotten_row_pays:
  assumes c: "config_ok c" and mx: "1 \<le> mx" and t: "now \<le> b" and fine: "row_fine mx now row"
    and idle: "idle row now"
  shows "guess_bound c J mx (b - now) \<le> potential c J mx b now row"
proof -
  have old: "memory_span c < now - th_last_fail_at row" "cf_window c < now - th_window_start row"
    using idle fine config_okD(5) [OF c] by (auto simp: idle_def row_fine_def memory_span_def)
  have from_now: "(case th_locked_until row of None \<Rightarrow> now | Some u \<Rightarrow> max now u) = now"
    using idle by (auto simp: idle_def prune_after_def split: option.splits)
  have "locks_left c J b 0 now now \<le> locks_left c J b (th_lock_level row) (th_last_fail_at row) now"
    by (rule forgetting_pays [OF c old(1)]) (use fine in \<open>simp add: row_fine_def\<close>)
  then have "mx * locks_left c J b 0 now now \<le> mx * locks_left c J b (th_lock_level row) (th_last_fail_at row) now"
    by (rule mult_left_mono) (use mx in simp)
  moreover have "mx * locks_left c J b 0 now now =
      mx * (int J + int J * ((b - now) div (memory_span c + 1)) + (1 + (b - now) div cf_lock_max c))"
    using t by (simp add: locks_left_def full_locks_def)
  moreover note window_pays [OF c mx old(2), of b]
  ultimately show ?thesis using fine unfolding guess_bound_def potential_def from_now row_fine_def by linarith
qed

text \<open>Each event: the counter stays tracked, the lock covered, and what was judged is paid for.\<close>

definition follows :: "guard_env \<Rightarrow> nat \<Rightarrow> int \<Rightarrow> counter_key \<Rightarrow> nanos \<Rightarrow> nanos \<Rightarrow> login_event \<Rightarrow>
    guard \<times> attempt list \<Rightarrow> bool" where
  "follows e J mx k b now ev d \<longleftrightarrow>
     (let d' = event_step e ev d in
      tracked mx k now (fst d') \<and> lock_covered e mx k now d' \<and>
      length (gd_counters (fst d')) \<le> length (gd_counters (fst d)) + 2 \<and>
      chances (ge_config e) J mx k b now (fst d') + int (judges e k ev (snd d)) \<le> chances (ge_config e) J mx k b now (fst d))"

lemma followsI:
  "event_step e ev (g, fl) = (g', fl') \<Longrightarrow> tracked mx k now g' \<Longrightarrow> lock_covered e mx k now (g', fl') \<Longrightarrow>
    length (gd_counters g') \<le> length (gd_counters g) + 2 \<Longrightarrow>
    chances (ge_config e) J mx k b now g' + int (judges e k ev fl) \<le> chances (ge_config e) J mx k b now g \<Longrightarrow>
    follows e J mx k b now ev (g, fl)"
  by (simp add: follows_def)

lemma step_checked:
  assumes "tracked mx k now g" and "lock_covered e mx k now (g, fl)" and "ev = Checked now a"
  shows "follows e J mx k b now ev (g, fl)"
proof (cases "vd_blocked (check_attempt e now a g)")
  case True
  then show ?thesis using assms by (simp add: follows_def)
next
  case False
  have "lock_covered e mx k now (g, a # fl)"
  proof (cases "counts_against e k a")
    case True
    then show ?thesis using judged_unlocked [OF False True]
      by (auto simp: lock_covered_def throttle_locked_def split: option.splits)
  next
    case no: False
    then show ?thesis using assms(2) by (auto simp: lock_covered_def split: option.splits)
  qed
  then show ?thesis using assms False by (simp add: follows_def)
qed

lemma step_wrong:
  assumes c: "config_ok (ge_config e)" "cf_lock_max (ge_config e) \<le> cf_lock_base (ge_config e) * 2 ^ J"
    and mx: "mx = limit_for (fst k) (ge_config e)" and t: "now \<le> b" and tr: "tracked mx k now g"
    and cov: "lock_covered e mx k now (g, fl)" and few: "int (in_flight e k fl) \<le> mx"
    and room: "length (gd_counters g) + 2 \<le> max_counters e" and ev: "ev = Wrong st now a reason"
  shows "follows e J mx k b now ev (g, fl)"
proof (cases "a \<in> set fl \<and> cf_enabled (ge_config e) \<and> \<not> allowlisted e a")
  case False
  then have "fst (event_step e ev (g, fl)) = g" "judges e k ev fl = 0"
    "in_flight e k (snd (event_step e ev (g, fl))) \<le> in_flight e k fl"
    by (auto simp: ev failed_attempt_def counts_against_def in_flight_remove_le)
  then show ?thesis using tr lock_covered_fewer [OF cov, of g] by (cases "event_step e ev (g, fl)") (simp add: follows_def)
next
  case True
  define g' where "g' = fst (count_attempt e now a g)"
  define g1 where "g1 = fst (failed_attempt e st now a reason g)"
  let ?fl = "remove1 a fl"
  have step: "gd_counters g1 = gd_counters g'" "gd_need_load g1 = gd_need_load g'" "event_step e ev (g, fl) = (g1, ?fl)"
    using True by (simp_all add: ev g1_def failed_attempt_def Let_def case_prod_unfold g'_def)
  have n: "judges e k ev fl = (if k \<in> set (checked_keys e a) then 1 else 0)"
    "counts_against e k a \<longleftrightarrow> k \<in> set (checked_keys e a)"
    using True by (simp_all add: ev counts_against_def)
  have one: "1 \<le> mx" unfolding mx by (rule config_okD(7) [OF c(1)])
  note after = count_attempt_counters [OF room g'_def]
  have base: "distinct (map fst (gd_counters g1))" "\<not> gd_need_load g1" "length (gd_counters g1) \<le> length (gd_counters g) + 2"
    using after(2-4) tr by (auto simp: step tracked_def)
  show ?thesis
  proof (cases "k \<in> set (checked_keys e a)")
    case k: True
    have p: "in_flight e k fl = 1 + in_flight e k ?fl" using in_flight_remove [of a fl e k] True n(2) k by simp
    define r where "r = fst (count_failure (ge_config e) mx a now (row_at g k now))"
    have "case map_of (gd_counters g) k of None \<Rightarrow> True
        | Some row \<Rightarrow> throttle_locked (Some row) now \<longrightarrow> th_fails row + 1 + int (in_flight e k ?fl) < mx"
      using cov p by (auto simp: lock_covered_def split: option.splits)
    moreover have "int (in_flight e k ?fl) < mx" using few p by simp
    ultimately have pays: "row_fine mx now r" "potential (ge_config e) J mx b now r + 1 \<le> chances (ge_config e) J mx k b now g"
      "throttle_locked (Some r) now \<longrightarrow> th_fails r + int (in_flight e k ?fl) < mx"
      using counted_pays [OF c one t tr _ _ r_def] by blast+
    have row: "map_of (gd_counters g1) k = Some r" using after(1) [of k] k by (simp add: step mx r_def)
    have "tracked mx k now g1" using base pays(1) unfolding tracked_def row by simp
    moreover have "chances (ge_config e) J mx k b now g1 + 1 \<le> chances (ge_config e) J mx k b now g"
      using pays(2) unfolding chances_def [of _ _ _ _ _ _ g1] row by simp
    moreover have "lock_covered e mx k now (g1, ?fl)" using pays(3) unfolding lock_covered_def fst_conv row by simp
    ultimately show ?thesis by (intro followsI [OF step(3)]) (use base n(1) k in simp_all)
  next
    case no: False
    then have row: "map_of (gd_counters g1) k = map_of (gd_counters g) k" using after(1) [of k] by (simp add: step)
    have "tracked mx k now g1" using base tr unfolding tracked_def row by simp
    moreover have "lock_covered e mx k now (g1, ?fl)" by (rule lock_covered_fewer [OF cov row in_flight_remove_le])
    moreover have "chances (ge_config e) J mx k b now g1 = chances (ge_config e) J mx k b now g"
      unfolding chances_def row ..
    ultimately show ?thesis by (intro followsI [OF step(3)]) (use base n(1) no in simp_all)
  qed
qed

lemma step_right:
  assumes tr: "tracked mx k now g" and cov: "lock_covered e mx k now (g, fl)" and ev: "ev = Right st now a" and sp: "spares e k ev"
  shows "follows e J mx k b now ev (g, fl)"
proof (cases "a \<in> set fl")
  case False
  then show ?thesis using tr cov by (simp add: ev follows_def)
next
  case True
  let ?g = "fst (succeeded e st now a g)"
  have "gd_counters ?g = gd_counters g \<or> gd_counters ?g = AList.delete (account_key e a) (gd_counters g)"
    by (auto simp: succeeded_def Let_def split: option.split)
  moreover have nl: "gd_need_load ?g = gd_need_load g"
    by (auto simp: succeeded_def Let_def split: option.split)
  moreover have "map_of (AList.delete (account_key e a) (gd_counters g)) k = map_of (gd_counters g) k"
    using sp by (simp add: ev delete_conv)
  moreover have "length (AList.delete (account_key e a) (gd_counters g)) \<le> length (gd_counters g)"
    by (simp add: AList.delete_eq)
  ultimately have g: "map_of (gd_counters ?g) k = map_of (gd_counters g) k" "length (gd_counters ?g) \<le> length (gd_counters g)"
    "distinct (map fst (gd_counters g)) \<Longrightarrow> distinct (map fst (gd_counters ?g))"
    by (auto simp: distinct_delete)
  have "lock_covered e mx k now (?g, remove1 a fl)" by (rule lock_covered_fewer [OF cov g(1) in_flight_remove_le])
  then show ?thesis using tr True g nl by (simp add: ev follows_def tracked_def chances_def)
qed

lemma step_dropped:
  assumes "tracked mx k now g" and "lock_covered e mx k now (g, fl)" and "ev = Dropped now a"
  shows "follows e J mx k b now ev (g, fl)"
  using assms lock_covered_fewer [OF assms(2) refl in_flight_remove_le] by (simp add: follows_def)

lemma swept_row:
  assumes "distinct (map fst cs)"
  shows "map_of (swept now cs) k = (case map_of cs k of None \<Rightarrow> None
    | Some row \<Rightarrow> if idle (fst (expired_lock row now)) now then None else Some (fst (expired_lock row now)))"
proof -
  have m: "map_of (map (\<lambda>(k, row). (k, fst (expired_lock row now))) cs) k = map_option (\<lambda>row. fst (expired_lock row now)) (map_of cs k)"
    by (induction cs) auto
  have d: "distinct (map fst (map (\<lambda>(k, row). (k, fst (expired_lock row now))) cs))"
    unfolding swept_keys by (rule assms)
  show ?thesis unfolding swept_def map_of_filter_distinct [OF d] m by (simp split: option.split)
qed

lemma expired_lock_potential:
  "potential c J mx b now (fst (expired_lock row now)) = potential c J mx b now row"
  "row_fine mx now (fst (expired_lock row now)) = row_fine mx now row"
  by (auto simp: expired_lock_def potential_def row_fine_def split: option.split)

lemma step_sweep:
  assumes c: "config_ok (ge_config e)" and mx: "1 \<le> mx" and t: "now \<le> b" and tr: "tracked mx k now g"
    and cov: "lock_covered e mx k now (g, fl)" and ev: "ev = Sweeping st now pf"
  shows "follows e J mx k b now ev (g, fl)"
proof -
  let ?g = "fst (sweep e st False pf now g)"
  have g': "gd_counters ?g = swept now (gd_counters g)" "\<not> gd_need_load ?g"
    using tr sweep_counters [of e st False pf now g] by (simp_all add: tracked_def sweep_def Let_def)
  have keys: "distinct (map fst (gd_counters g))" using tr by (simp add: tracked_def)
  then have "distinct (map fst (swept now (gd_counters g)))"
    unfolding swept_def by (intro distinct_map_filter) (simp only: swept_keys)
  moreover have "length (swept now (gd_counters g)) \<le> length (gd_counters g)"
    by (simp add: swept_def order_trans [OF length_filter_le])
  ultimately have base: "distinct (map fst (gd_counters ?g))" "length (gd_counters ?g) \<le> length (gd_counters g)"
    by (simp_all add: g')
  show ?thesis
  proof (cases "map_of (gd_counters g) k")
    case None
    then have "map_of (gd_counters ?g) k = None" by (simp add: g' swept_row [OF keys])
    then show ?thesis using base g'(2) None by (simp add: ev follows_def tracked_def chances_def lock_covered_def)
  next
    case (Some row)
    let ?row = "fst (expired_lock row now)"
    have fine: "row_fine mx now ?row" using tr Some by (simp add: tracked_def expired_lock_potential)
    have "throttle_locked (Some ?row) now \<longrightarrow> ?row = row"
      by (auto simp: expired_lock_def throttle_locked_def split: option.splits)
    then have "lock_covered e mx k now (?g, fl)"
      using cov Some by (auto simp: lock_covered_def g'(1) swept_row [OF keys])
    moreover have "chances (ge_config e) J mx k b now ?g \<le> chances (ge_config e) J mx k b now g" "tracked mx k now ?g"
      using base g'(2) forgotten_row_pays [OF c mx t fine, of J] Some fine
      by (simp_all add: tracked_def chances_def g'(1) swept_row [OF keys] expired_lock_potential)
    ultimately show ?thesis using base by (simp add: ev follows_def)
  qed
qed

lemma chances_nonneg:
  assumes c: "config_ok c" and mx: "1 \<le> mx" and t: "now \<le> b" and tr: "tracked mx k now g"
  shows "0 \<le> chances c J mx k b now g"
proof (cases "map_of (gd_counters g) k")
  case None
  then show ?thesis using mx t config_okD(3,4,6) [OF c]
    by (simp add: chances_def guess_bound_def pos_imp_zdiv_nonneg_iff)
next
  case (Some row)
  then have fine: "row_fine mx now row" using tr by (simp add: tracked_def)
  then have "0 \<le> locks_left c J b (th_lock_level row) (th_last_fail_at row) from" for "from"
    using t config_okD(3,6) [OF c] by (simp add: locks_left_def full_locks_def row_fine_def pos_imp_zdiv_nonneg_iff)
  then show ?thesis using fine mx t config_okD(4) [OF c]
    by (simp add: Some chances_def potential_def row_fine_def pos_imp_zdiv_nonneg_iff)
qed

lemma step_follows:
  assumes c: "config_ok (ge_config e)" "cf_lock_max (ge_config e) \<le> cf_lock_base (ge_config e) * 2 ^ J"
    and mx: "mx = limit_for (fst k) (ge_config e)" and t: "event_time ev = now" "now \<le> b" and tr: "tracked mx k now (fst d)"
    and cov: "lock_covered e mx k now d" and few: "int (in_flight e k (snd d)) \<le> mx"
    and room: "length (gd_counters (fst d)) + 2 \<le> max_counters e" and sp: "spares e k ev"
  shows "follows e J mx k b now ev d"
proof -
  have one: "1 \<le> mx" unfolding mx by (rule config_okD(7) [OF c(1)])
  obtain g fl where d: "d = (g, fl)" by (cases d)
  note facts = tr [unfolded d fst_conv] cov [unfolded d]
  show ?thesis unfolding d
  proof (cases ev)
    case (Checked t' a)
    then have "ev = Checked now a" using t by simp
    from step_checked [OF facts this] show "follows e J mx k b now ev (g, fl)" .
  next
    case (Wrong st t' a reason)
    then have "ev = Wrong st now a reason" using t by simp
    from step_wrong [OF c mx t(2) facts _ _ this] few room d show "follows e J mx k b now ev (g, fl)" by simp
  next
    case (Right st t' a)
    then have "ev = Right st now a" using t by simp
    from step_right [OF facts this sp] show "follows e J mx k b now ev (g, fl)" .
  next
    case (Dropped t' a)
    then have "ev = Dropped now a" using t by simp
    from step_dropped [OF facts this] show "follows e J mx k b now ev (g, fl)" .
  next
    case (Sweeping st t' pf)
    then have "ev = Sweeping st now pf" using t by simp
    from step_sweep [OF c(1) one t(2) facts this] show "follows e J mx k b now ev (g, fl)" .
  qed
qed

lemma judged_bound:
  assumes c: "config_ok (ge_config e)" "cf_lock_max (ge_config e) \<le> cf_lock_base (ge_config e) * 2 ^ J"
    and mx: "mx = limit_for (fst k) (ge_config e)"
  shows "tracked mx k now (fst d) \<Longrightarrow> lock_covered e mx k now d \<Longrightarrow> now \<le> b \<Longrightarrow> sorted (map event_time evs) \<Longrightarrow>
    \<forall>ev \<in> set evs. now \<le> event_time ev \<and> event_time ev \<le> b \<and> spares e k ev \<Longrightarrow>
    length (gd_counters (fst d)) + 2 * length evs \<le> max_counters e \<Longrightarrow> int (crowd e k evs d) \<le> mx \<Longrightarrow>
    int (judged e k evs d) \<le> chances (ge_config e) J mx k b now (fst d)"
proof (induction evs arbitrary: now d)
  case Nil
  have "1 \<le> mx" unfolding mx by (rule config_okD(7) [OF c(1)])
  then show ?case using chances_nonneg [OF c(1) _ Nil(3,1)] by simp
next
  case (Cons ev evs)
  have one: "1 \<le> mx" unfolding mx by (rule config_okD(7) [OF c(1)])
  define t where "t = event_time ev"
  have t: "now \<le> t" "t \<le> b" using Cons.prems(5) by (auto simp: t_def)
  note wait = waiting_pays [OF c(1) one t Cons.prems(1), of J]
  have few: "int (in_flight e k (snd d)) \<le> mx" using Cons.prems(7) by simp
  have room: "length (gd_counters (fst d)) + 2 \<le> max_counters e" using Cons.prems(6) by simp
  have "spares e k ev" using Cons.prems(5) by simp
  note step = step_follows [OF c mx t_def [symmetric] t(2) conjunct1 [OF wait] lock_covered_later [OF Cons.prems(2) t(1)] few room this]
  have "int (judged e k evs (event_step e ev d)) \<le> chances (ge_config e) J mx k b t (fst (event_step e ev d))"
  proof (rule Cons.IH)
    show "\<forall>ev\<in>set evs. t \<le> event_time ev \<and> event_time ev \<le> b \<and> spares e k ev"
      using Cons.prems(4,5) by (auto simp: t_def)
    show "length (gd_counters (fst (event_step e ev d))) + 2 * length evs \<le> max_counters e"
      using step Cons.prems(6) by (simp add: follows_def Let_def)
  qed (use step t Cons.prems(4,7) in \<open>auto simp: follows_def Let_def\<close>)
  then show ?case using step wait by (simp add: follows_def Let_def)
qed

text \<open>C23. Guessing is slow. From the moment a name or an address has no counter, the number of wrong
  passwords compared for it within \<open>b - a\<close> nanoseconds is at most \<open>guess_bound\<close>: its limit for every
  full-length lock that fits and for each of the \<open>J\<close> shorter ones (anew only after a spell that
  forgets the level), and one less for every window. The check of an attempt and the count of its
  failure are two steps, with anything in between - other attempts, sweeps, other people's
  sign-ins - as long as the settings stay, the memory has room, nobody signs in to that name, and
  never more attempts on it are under way at once than its limit (with more, all of them are
  compared: \<open>overlapping_attempts_all_judged\<close>).\<close>

theorem guesses_are_bounded:
  assumes "config_ok (ge_config e)" and "cf_lock_max (ge_config e) \<le> cf_lock_base (ge_config e) * 2 ^ J"
    and "map_of (gd_counters g) k = None" and "distinct (map fst (gd_counters g))" and "\<not> gd_need_load g"
    and "length (gd_counters g) + 2 * length evs \<le> max_counters e"
    and "a \<le> b" and "sorted (map event_time evs)"
    and "\<forall>ev \<in> set evs. a \<le> event_time ev \<and> event_time ev \<le> b \<and> spares e k ev"
    and "int (crowd e k evs (g, under_way)) \<le> limit_for (fst k) (ge_config e)"
  shows "int (judged e k evs (g, under_way)) \<le> guess_bound (ge_config e) J (limit_for (fst k) (ge_config e)) (b - a)"
proof -
  have "tracked (limit_for (fst k) (ge_config e)) k a (fst (g, under_way))"
    "lock_covered e (limit_for (fst k) (ge_config e)) k a (g, under_way)"
    using assms(3-5) by (simp_all add: tracked_def lock_covered_def)
  from judged_bound [OF assms(1,2) refl this assms(7-9) _ assms(10)] assms(6) show ?thesis
    using assms(3) by (simp add: chances_def)
qed

section \<open>Samples\<close>

definition sample_config :: config where
  "sample_config = \<lparr>cf_enabled = True, cf_account_max = 2, cf_ip_max = 10, cf_window = 10 * second,
     cf_lock_base = second, cf_lock_max = 4 * second, cf_allow = None\<rparr>"

definition sample_guard_env :: "int \<Rightarrow> guard_env" where
  "sample_guard_env mx = \<lparr>ge_config = sample_config, ge_subject = (\<lambda>r i. i), ge_auto = \<lparr>as_nets = [], as_excl = []\<rparr>,
     ge_exempt = [], ge_max_counters = mx\<rparr>"

definition sample_store :: store_env where
  "sample_store = \<lparr>se_store = True, se_refuses = (\<lambda>k. False), se_keep = (\<lambda>t. t div second * second)\<rparr>"

definition empty_guard :: guard where
  "empty_guard = \<lparr>gd_counters = [], gd_pending = [], gd_need_load = False, gd_table = []\<rparr>"

definition attempt_by :: "string \<Rightarrow> string \<Rightarrow> attempt" where
  "attempt_by who ip = \<lparr>at_identifier = who, at_realm = [], at_ip = ip, at_protocol = ''web''\<rparr>"

definition wrong_by :: "nanos \<Rightarrow> string \<Rightarrow> string \<Rightarrow> guard \<Rightarrow> guard \<times> outcome_told \<times> audit list" where
  "wrong_by t who ip g = failed_attempt (sample_guard_env 2) sample_store t (attempt_by who ip) ''password'' g"

theorem settings_stay_in_range_witness:
  "config_ok (config_in_force (\<lambda>s. s)
     (fst (save_setting (\<lambda>s. s) False ''login.lock_base_seconds'' ''99999'' None)))"
  by (rule settings_stay_in_range) (intro in_force_save in_force_start)

theorem memory_is_bounded_witness:
  "memory_ok 2 (fst (wrong_by 9 ''bob'' ''10.0.0.8'' (fst (wrong_by 5 ''ann'' ''10.0.0.9'' empty_guard))))"
  unfolding wrong_by_def
  by (rule memory_is_bounded, intro gh_failed gh_new) (simp_all add: empty_guard_def sample_guard_env_def max_counters_def)

lemma wrong_by_sample:
  "length (gd_counters (fst (wrong_by 9 ''bob'' ''10.0.0.8'' (fst (wrong_by 5 ''ann'' ''10.0.0.9'' empty_guard))))) = 2"
  by code_simp

text \<open>Two guesses at a time on one name: the second of the first two meets the limit and locks.\<close>

definition guesses :: "login_event list" where
  "guesses = (let a = attempt_by ''ann'' ''10.0.0.9''; b = attempt_by ''ann'' ''10.0.0.7''; c = attempt_by ''bob'' ''10.0.0.9'';
       w = (\<lambda>t a. Wrong sample_store t a ''password'')
     in [Checked 0 a, Checked 5 b, w 10 b, w 20 a, Checked 500000000 a, Checked 1500000000 a,
      Checked 1500000000 c, Right sample_store 1600000000 c, w 1700000000 a, Sweeping sample_store 2000000000 False,
      Checked 2500000000 b, w 3000000000 b])"

lemma guesses_sample:
  "judged (sample_guard_env 100) (ScopeAccount, ''ann'') guesses (empty_guard, []) = 4"
  "crowd (sample_guard_env 100) (ScopeAccount, ''ann'') guesses (empty_guard, []) = 2"
  by code_simp+

theorem guesses_are_bounded_witness:
  "int (judged (sample_guard_env 100) (ScopeAccount, ''ann'') guesses (empty_guard, [])) \<le>
     guess_bound sample_config 2 2 3000000000 \<and> guess_bound sample_config 2 2 3000000000 = 7"
proof -
  have c: "config_ok sample_config" by (simp add: config_ok_def sample_config_def)
  have e: "ge_config (sample_guard_env 100) = sample_config" "max_counters (sample_guard_env 100) = 100"
    by (simp_all add: sample_guard_env_def max_counters_def)
  have times: "map event_time guesses = [0, 5, 10, 20, 500000000, 1500000000, 1500000000, 1600000000, 1700000000,
      2000000000, 2500000000, 3000000000]"
    by (simp add: guesses_def Let_def)
  have each: "\<forall>ev \<in> set guesses. 0 \<le> event_time ev \<and> event_time ev \<le> 3000000000 \<and>
      spares (sample_guard_env 100) (ScopeAccount, ''ann'') ev"
    by (simp add: guesses_def Let_def account_key_def subject_of_def sample_guard_env_def attempt_by_def)
  have l: "limit_for (fst (ScopeAccount, ''ann'')) sample_config = 2" by (simp add: limit_for_def sample_config_def)
  have few: "int (crowd (sample_guard_env 100) (ScopeAccount, ''ann'') guesses (empty_guard, [])) \<le>
      limit_for (fst (ScopeAccount, ''ann'')) (ge_config (sample_guard_env 100))"
    unfolding guesses_sample(2) e l by simp
  have "int (judged (sample_guard_env 100) (ScopeAccount, ''ann'') guesses (empty_guard, [])) \<le>
      guess_bound (ge_config (sample_guard_env 100)) 2 (limit_for (fst (ScopeAccount, ''ann'')) (ge_config (sample_guard_env 100)))
        (3000000000 - 0)"
    by (rule guesses_are_bounded [OF _ _ _ _ _ _ _ _ each few])
      (use c times in \<open>simp_all add: e empty_guard_def sample_config_def guesses_def Let_def\<close>)
  then show ?thesis unfolding e l by (simp add: sample_config_def guess_bound_def memory_span_def prune_after_def)
qed

text \<open>
  The check and the count are two steps: attempts that all pass the check before the first failure is
  counted are all compared, and a failure that meets a running lock is told it has tries left.
\<close>

lemma overlapping_attempts_all_judged:
  "let a = attempt_by ''ann'' ''10.0.0.9''; g1 = fst (wrong_by 5 ''ann'' ''10.0.0.9'' empty_guard);
       g2 = fst (wrong_by 6 ''ann'' ''10.0.0.9'' g1); told = fst (snd (wrong_by 7 ''ann'' ''10.0.0.9'' g2))
   in \<not> vd_blocked (check_attempt (sample_guard_env 2) 4 a empty_guard) \<and>
      vd_blocked (check_attempt (sample_guard_env 2) 7 a g2) \<and> \<not> ot_locked told \<and> ot_remaining told = 1"
  by code_simp

end
