(* ===== verification/Rowgate.thy ===== *)
theory Rowgate
  imports GoStrings
begin

text \<open>
  \<open>internal/rowgate\<close>: the gate that keeps the judgements of a storage's catalogue apart from the
  changes made to the storage in two steps. The gate of one storage is a record; every region of
  code under its mutex is one function on it. \<open>rg_eased\<close> stands for the channel \<open>eased\<close>: it counts how
  often the channel was closed and replaced, a goroutine that waits remembers the number it read and
  can go on once the number is another. The goroutines are the list of what each is doing; \<open>act\<close> is
  one atomic step of one of them, and an interleaving is a list of acts.
\<close>

section \<open>Fences\<close>


record fence_hold =
  fh_prefixes :: "string list"
  fh_since :: nanos

record fence_set =
  fs_list :: "string list"
  fs_kids :: "(string \<times> string list) list"

definition fence_clean :: "string \<Rightarrow> string" where
  "fence_clean p = path_clean (slash # p)"

definition fs_empty :: "fence_set option \<Rightarrow> bool" where
  "fs_empty f = (case f of None \<Rightarrow> True | Some f \<Rightarrow> fs_list f = [])"

definition fs_covers :: "fence_set option \<Rightarrow> string \<Rightarrow> bool" where
  "fs_covers f p =
     (case f of
        None \<Rightarrow> False
      | Some f \<Rightarrow> let c = fence_clean p in
          list_ex (\<lambda>pre. c = pre \<or> has_prefix c (pre @ [slash])) (fs_list f))"

definition kids_of :: "fence_set option \<Rightarrow> string \<Rightarrow> string list" where
  "kids_of f dir =
     (case f of
        None \<Rightarrow> []
      | Some f \<Rightarrow> (case map_of (fs_kids f) (fence_clean dir) of None \<Rightarrow> [] | Some ks \<Rightarrow> ks))"

fun add_kid :: "string \<Rightarrow> string \<Rightarrow> (string \<times> string list) list \<Rightarrow> (string \<times> string list) list" where
  "add_kid parent p [] = [(parent, [p])]"
| "add_kid parent p ((d, ks) # m) = (if d = parent then (d, ks @ [p]) # m else (d, ks) # add_kid parent p m)"

definition fence_set_of :: "fence_hold list \<Rightarrow> fence_set option" where
  "fence_set_of hs =
     (if hs = [] then None
      else let ps = stable_sort str_less (remdups (concat (map fh_prefixes hs)))
           in Some \<lparr>fs_list = ps, fs_kids = foldl (\<lambda>m p. add_kid (path_dir p) p m) [] ps\<rparr>)"

text \<open>The prefixes to fence, \<open>None\<close> when the storage's root is among them.\<close>

fun clean_prefixes :: "string list \<Rightarrow> string list option" where
  "clean_prefixes [] = Some []"
| "clean_prefixes (p # ps) =
     (if trim_space p = [] then clean_prefixes ps
      else if fence_clean p = [slash] then None
      else map_option ((#) (fence_clean p)) (clean_prefixes ps))"

section \<open>The gate\<close>

record gate =
  rg_changes :: "(nat \<times> nanos) list"
  rg_next :: nat
  rg_judged :: bool
  rg_waiting :: nat
  rg_wants :: nat
  rg_eased :: nat
  rg_moves :: nat
  rg_long :: nat
  rg_deferred :: nat
  rg_lapsed :: nat
  rg_fences :: "(nat \<times> fence_hold) list"
  rg_fenced :: "fence_set option"

definition new_gate :: gate where
  "new_gate = \<lparr>rg_changes = [], rg_next = 0, rg_judged = False, rg_waiting = 0, rg_wants = 0, rg_eased = 0,
     rg_moves = 0, rg_long = 0, rg_deferred = 0, rg_lapsed = 0, rg_fences = [], rg_fenced = None\<rparr>"

definition ease :: "gate \<Rightarrow> gate" where
  "ease g = g\<lparr>rg_eased := rg_eased g + 1\<rparr>"

definition gate_open :: "gate \<Rightarrow> bool" where
  "gate_open g \<longleftrightarrow> \<not> rg_judged g \<and> rg_changes g = [] \<and> rg_waiting g = 0 \<and> rg_wants g = 0"

definition stop_waiting :: "bool \<Rightarrow> gate \<Rightarrow> gate" where
  "stop_waiting waits g = (if \<not> waits then g else ease (g\<lparr>rg_waiting := rg_waiting g - 1\<rparr>))"

definition enter :: "nanos \<Rightarrow> gate \<Rightarrow> gate \<times> nat" where
  "enter now g = (g\<lparr>rg_next := rg_next g + 1, rg_changes := rg_changes g @ [(rg_next g + 1, now)]\<rparr>, rg_next g + 1)"

definition refence :: "gate \<Rightarrow> gate" where
  "refence g = g\<lparr>rg_fenced := fence_set_of (map snd (rg_fences g))\<rparr>"

definition fence_enter :: "nanos \<Rightarrow> string list \<Rightarrow> gate \<Rightarrow> gate \<times> nat" where
  "fence_enter now ps g =
     (refence (g\<lparr>rg_next := rg_next g + 1,
        rg_fences := rg_fences g @ [(rg_next g + 1, \<lparr>fh_prefixes = ps, fh_since = now\<rparr>)]\<rparr>), rg_next g + 1)"

text \<open>What a change asks for, and one turn of \<open>whenFree\<close>: over, taken, or waiting with the channel it read.\<close>

datatype request = AMove | AFence "string list" | AAwait

definition take_hold :: "request \<Rightarrow> nanos \<Rightarrow> gate \<Rightarrow> gate \<times> nat" where
  "take_hold r now g = (case r of AMove \<Rightarrow> enter now g | AFence ps \<Rightarrow> fence_enter now ps g | AAwait \<Rightarrow> (g, 0))"

datatype turn = Ended | Took nat | Waits nat

definition when_free_turn :: "bool \<Rightarrow> request \<Rightarrow> bool \<Rightarrow> nanos \<Rightarrow> gate \<Rightarrow> gate \<times> turn" where
  "when_free_turn ended r waits now g =
     (if ended then (stop_waiting waits g, Ended)
      else if \<not> rg_judged g then
        (let (g1, tok) = take_hold r now g
         in (if waits then ease (g1\<lparr>rg_waiting := rg_waiting g1 - 1\<rparr>) else g1, Took tok))
      else ((if waits then g else g\<lparr>rg_waiting := rg_waiting g + 1\<rparr>), Waits (rg_eased g)))"

definition fence_request :: "string list \<Rightarrow> request" where
  "fence_request given =
     (case clean_prefixes given of None \<Rightarrow> AMove | Some [] \<Rightarrow> AMove | Some ps \<Rightarrow> AFence ps)"

definition hold_request :: "string list \<Rightarrow> request" where
  "hold_request fence = (if fence = [] then AMove else fence_request fence)"

definition LongHold :: nanos where "LongHold = 60 * 1000000000"

text \<open>A release: counted first, then let go of.\<close>

definition count_move :: "gate \<Rightarrow> gate" where
  "count_move g = g\<lparr>rg_moves := rg_moves g + 1\<rparr>"

definition leave :: "nat \<Rightarrow> nanos \<Rightarrow> gate \<Rightarrow> gate" where
  "leave tok now g =
     (let since = (case map_of (rg_changes g) tok of None \<Rightarrow> 0 | Some t \<Rightarrow> t);
          g1 = ease (g\<lparr>rg_changes := filter (\<lambda>(t, _). t \<noteq> tok) (rg_changes g)\<rparr>)
      in if now - since \<ge> LongHold then g1\<lparr>rg_long := rg_long g1 + 1\<rparr> else g1)"

definition fence_leave :: "nat \<Rightarrow> gate \<Rightarrow> gate" where
  "fence_leave tok g = ease (refence (g\<lparr>rg_fences := filter (\<lambda>(t, _). t \<noteq> tok) (rg_fences g)\<rparr>))"

definition try_move :: "nanos \<Rightarrow> gate \<Rightarrow> gate \<times> nat option" where
  "try_move now g = (if rg_judged g then (g, None) else let (g1, tok) = enter now g in (g1, Some tok))"

definition want_begin :: "gate \<Rightarrow> gate" where
  "want_begin g = g\<lparr>rg_wants := rg_wants g + 1\<rparr>"

definition want_end :: "bool \<Rightarrow> gate \<Rightarrow> gate" where
  "want_end lapsed g =
     (let g1 = (if lapsed then g\<lparr>rg_lapsed := rg_lapsed g + 1\<rparr> else g)
      in ease (g1\<lparr>rg_wants := rg_wants g1 - 1\<rparr>))"

text \<open>One turn of \<open>JudgeCtx\<close>: the gate taken, or the channel it waits on.\<close>

definition judge_turn :: "gate \<Rightarrow> gate \<times> nat option" where
  "judge_turn g = (if gate_open g then (g\<lparr>rg_judged := True\<rparr>, None) else (g, Some (rg_eased g)))"

definition judge_defer :: "gate \<Rightarrow> gate" where
  "judge_defer g = g\<lparr>rg_deferred := rg_deferred g + 1\<rparr>"

definition judge_leave :: "gate \<Rightarrow> gate" where
  "judge_leave g = ease (g\<lparr>rg_judged := False\<rparr>)"

definition try_judge :: "gate \<Rightarrow> gate \<times> bool" where
  "try_judge g = (if \<not> gate_open g then (g, False) else (g\<lparr>rg_judged := True\<rparr>, True))"

datatype judge_answer = JudgeHeld | JudgeBusy | JudgeCtxError

definition judge_within :: "bool \<Rightarrow> bool \<Rightarrow> judge_answer" where
  "judge_within failed parent_ended =
     (if failed \<and> \<not> parent_ended then JudgeBusy else if failed then JudgeCtxError else JudgeHeld)"

text \<open>\<open>FencedChangeCtx\<close>: the steps that are made, in order, and the error answered.\<close>

datatype change_step = HoldTaken | MoveDone | MoveFailed | FollowDone | HoldLetGo

definition fenced_change :: "'e option \<Rightarrow> 'e option \<Rightarrow> change_step list \<times> 'e option" where
  "fenced_change hold_err move_err =
     (case hold_err of
        Some e \<Rightarrow> ([], Some e)
      | None \<Rightarrow> (case move_err of
                  Some e \<Rightarrow> ([HoldTaken, MoveFailed, HoldLetGo], Some e)
                | None \<Rightarrow> ([HoldTaken, MoveDone, FollowDone, HoldLetGo], None)))"

record gate_state =
  gs_changes :: nat
  gs_oldest_change :: nanos
  gs_judged :: bool
  gs_waiting :: nat
  gs_fences :: nat
  gs_oldest_fence :: nanos

definition oldest :: "nanos \<Rightarrow> nanos list \<Rightarrow> nanos" where
  "oldest now ts = foldl (\<lambda>b t. max b (now - t)) 0 ts"

definition snapshot_gate :: "nanos \<Rightarrow> gate \<Rightarrow> gate_state" where
  "snapshot_gate now g =
     \<lparr>gs_changes = length (rg_changes g), gs_oldest_change = oldest now (map snd (rg_changes g)), gs_judged = rg_judged g,
      gs_waiting = rg_waiting g + rg_wants g,
      gs_fences = (case rg_fenced g of None \<Rightarrow> 0 | Some f \<Rightarrow> length (fs_list f)),
      gs_oldest_fence = oldest now (map (fh_since \<circ> snd) (rg_fences g))\<rparr>"

section \<open>Interleavings\<close>

text \<open>
  What a goroutine is doing. \<open>PTry\<close>: about to make a turn of \<open>whenFree\<close>, and whether it is counted as
  waiting; \<open>PWait\<close>: in its \<open>select\<close>. A judgement remembers the fences as they stood when it took the gate.
\<close>

datatype proc =
    PIdle
  | PTry request bool
  | PWait request nat
  | PMoving nat
  | PMoved nat
  | PFencing nat
  | PFenced nat
  | PWanting
  | PJudgeTry
  | PJudgeWait nat
  | PJudging "(nat \<times> fence_hold) list"

record sys =
  sy_gate :: gate
  sy_procs :: "proc list"

datatype gate_act =
    ActAsk nat "string list"
  | ActAwait nat
  | ActTurn nat bool nanos
  | ActWake nat
  | ActGiveUp nat
  | ActCount nat
  | ActLeave nat nanos
  | ActTryMove nat nanos
  | ActWant nat
  | ActWantEnd nat bool
  | ActJudge nat
  | ActJudgeTurn nat
  | ActTryJudge nat
  | ActJudgeEnd nat

definition goes :: "sys \<Rightarrow> nat \<Rightarrow> gate \<Rightarrow> proc \<Rightarrow> sys" where
  "goes s i g p = \<lparr>sy_gate = g, sy_procs = (sy_procs s)[i := p]\<rparr>"

definition held_by :: "request \<Rightarrow> nat \<Rightarrow> proc" where
  "held_by r tok = (case r of AMove \<Rightarrow> PMoving tok | AFence _ \<Rightarrow> PFencing tok | AAwait \<Rightarrow> PIdle)"

text \<open>One atomic step; an act that the goroutine is not at changes nothing.\<close>

definition proc_at :: "sys \<Rightarrow> nat \<Rightarrow> proc option" where
  "proc_at s i = (if i < length (sy_procs s) then Some (sy_procs s ! i) else None)"

fun act :: "gate_act \<Rightarrow> sys \<Rightarrow> sys" where
  "act (ActAsk i fence) s =
     (if proc_at s i = Some PIdle then goes s i (sy_gate s) (PTry (hold_request fence) False) else s)"
| "act (ActAwait i) s =
     (if proc_at s i = Some PIdle then goes s i (sy_gate s) (PTry AAwait False) else s)"
| "act (ActTurn i ended now) s =
     (case proc_at s i of
        Some (PTry r waits) \<Rightarrow>
          (case when_free_turn ended r waits now (sy_gate s) of
             (g, Ended) \<Rightarrow> goes s i g PIdle
           | (g, Took tok) \<Rightarrow> goes s i g (held_by r tok)
           | (g, Waits n) \<Rightarrow> goes s i g (PWait r n))
      | _ \<Rightarrow> s)"
| "act (ActWake i) s =
     (case proc_at s i of
        Some (PWait r n) \<Rightarrow> if rg_eased (sy_gate s) \<noteq> n then goes s i (sy_gate s) (PTry r True) else s
      | Some (PJudgeWait n) \<Rightarrow> if rg_eased (sy_gate s) \<noteq> n then goes s i (sy_gate s) PJudgeTry else s
      | _ \<Rightarrow> s)"
| "act (ActGiveUp i) s =
     (case proc_at s i of
        Some (PWait r n) \<Rightarrow> goes s i (stop_waiting True (sy_gate s)) PIdle
      | Some (PJudgeWait n) \<Rightarrow> goes s i (judge_defer (sy_gate s)) PIdle
      | _ \<Rightarrow> s)"
| "act (ActCount i) s =
     (case proc_at s i of
        Some (PMoving tok) \<Rightarrow> goes s i (count_move (sy_gate s)) (PMoved tok)
      | Some (PFencing tok) \<Rightarrow> goes s i (count_move (sy_gate s)) (PFenced tok)
      | _ \<Rightarrow> s)"
| "act (ActLeave i now) s =
     (case proc_at s i of
        Some (PMoved tok) \<Rightarrow> goes s i (leave tok now (sy_gate s)) PIdle
      | Some (PFenced tok) \<Rightarrow> goes s i (fence_leave tok (sy_gate s)) PIdle
      | _ \<Rightarrow> s)"
| "act (ActTryMove i now) s =
     (if proc_at s i = Some PIdle then
        (case try_move now (sy_gate s) of
           (g, Some tok) \<Rightarrow> goes s i g (PMoving tok)
         | (g, None) \<Rightarrow> s)
      else s)"
| "act (ActWant i) s =
     (if proc_at s i = Some PIdle then goes s i (want_begin (sy_gate s)) PWanting else s)"
| "act (ActWantEnd i lapsed) s =
     (if proc_at s i = Some PWanting then goes s i (want_end lapsed (sy_gate s)) PIdle else s)"
| "act (ActJudge i) s =
     (if proc_at s i = Some PIdle then goes s i (sy_gate s) PJudgeTry else s)"
| "act (ActJudgeTurn i) s =
     (if proc_at s i = Some PJudgeTry then
        (case judge_turn (sy_gate s) of
           (g, None) \<Rightarrow> goes s i g (PJudging (rg_fences g))
         | (g, Some n) \<Rightarrow> goes s i g (PJudgeWait n))
      else s)"
| "act (ActTryJudge i) s =
     (if proc_at s i = Some PIdle then
        (case try_judge (sy_gate s) of
           (g, True) \<Rightarrow> goes s i g (PJudging (rg_fences g))
         | (g, False) \<Rightarrow> s)
      else s)"
| "act (ActJudgeEnd i) s =
     (case proc_at s i of
        Some (PJudging f) \<Rightarrow> goes s i (judge_leave (sy_gate s)) PIdle
      | _ \<Rightarrow> s)"

definition gate_start :: "nat \<Rightarrow> sys" where
  "gate_start n = \<lparr>sy_gate = new_gate, sy_procs = replicate n PIdle\<rparr>"

definition run_acts :: "gate_act list \<Rightarrow> sys \<Rightarrow> sys" where
  "run_acts as s = fold act as s"

end
