(* ===== verification/RowgateRules.thy ===== *)
theory RowgateRules
  imports Rowgate "HOL-Library.Multiset"
begin

text \<open>
  What the row gate guarantees under every interleaving of any number of goroutines: a judgement holds
  the gate alone, a change that waits is first and is woken, and a judgement knows every fence that
  stands while it judges.
\<close>

section \<open>What each goroutine holds\<close>

fun hold_toks :: "proc \<Rightarrow> nat list" where
  "hold_toks (PMoving t) = [t]"
| "hold_toks (PMoved t) = [t]"
| "hold_toks _ = []"

fun fence_toks :: "proc \<Rightarrow> nat list" where
  "fence_toks (PFencing t) = [t]"
| "fence_toks (PFenced t) = [t]"
| "fence_toks _ = []"

fun waits_of :: "proc \<Rightarrow> unit list" where
  "waits_of (PWait r n) = [()]"
| "waits_of (PTry r waits) = (if waits then [()] else [])"
| "waits_of _ = []"

fun wants_of :: "proc \<Rightarrow> unit list" where
  "wants_of PWanting = [()]"
| "wants_of _ = []"

fun judges_of :: "proc \<Rightarrow> unit list" where
  "judges_of (PJudging f) = [()]"
| "judges_of _ = []"

definition tally :: "(proc \<Rightarrow> 'a list) \<Rightarrow> proc list \<Rightarrow> 'a multiset" where
  "tally f ps = mset (concat (map f ps))"

lemma tally_update:
  "i < length ps \<Longrightarrow> tally f (ps[i := p]) + mset (f (ps ! i)) = tally f ps + mset (f p)"
proof (induction ps arbitrary: i)
  case (Cons q ps)
  then show ?case by (cases i) (auto simp: tally_def ac_simps)
qed simp

lemma tally_mem: "p \<in> set ps \<Longrightarrow> set (f p) \<subseteq> set_mset (tally f ps)"
  by (auto simp: tally_def)

fun proc_ok :: "gate \<Rightarrow> proc \<Rightarrow> bool" where
  "proc_ok g (PWait r n) \<longleftrightarrow> n \<le> rg_eased g \<and> (n = rg_eased g \<longrightarrow> rg_judged g)"
| "proc_ok g (PJudgeWait n) \<longleftrightarrow> n \<le> rg_eased g \<and> (n = rg_eased g \<longrightarrow> \<not> gate_open g)"
| "proc_ok g (PJudging f) \<longleftrightarrow> set (rg_fences g) \<subseteq> set f"
| "proc_ok g _ \<longleftrightarrow> True"

definition counts_ok :: "gate \<Rightarrow> proc list \<Rightarrow> bool" where
  "counts_ok g ps \<longleftrightarrow>
     mset (map fst (rg_changes g)) = tally hold_toks ps \<and> mset (map fst (rg_fences g)) = tally fence_toks ps \<and>
     rg_waiting g = size (tally waits_of ps) \<and> rg_wants g = size (tally wants_of ps) \<and>
     (if rg_judged g then 1 else 0) = size (tally judges_of ps)"

definition gate_ok :: "gate \<Rightarrow> bool" where
  "gate_ok g \<longleftrightarrow> distinct (map fst (rg_changes g)) \<and> distinct (map fst (rg_fences g)) \<and>
     (\<forall>t \<in> fst ` set (rg_changes g) \<union> fst ` set (rg_fences g). t \<le> rg_next g) \<and>
     (rg_judged g \<longrightarrow> rg_changes g = []) \<and> rg_fenced g = fence_set_of (map snd (rg_fences g))"

definition gate_inv :: "sys \<Rightarrow> bool" where
  "gate_inv s \<longleftrightarrow> counts_ok (sy_gate s) (sy_procs s) \<and> gate_ok (sy_gate s) \<and>
     (\<forall>p \<in> set (sy_procs s). proc_ok (sy_gate s) p)"

text \<open>A step of one goroutine that moves the counts as much as what it holds.\<close>

definition counts_move :: "gate \<Rightarrow> proc \<Rightarrow> gate \<Rightarrow> proc \<Rightarrow> bool" where
  "counts_move g p g' p' \<longleftrightarrow>
     mset (map fst (rg_changes g')) + mset (hold_toks p) = mset (map fst (rg_changes g)) + mset (hold_toks p') \<and>
     mset (map fst (rg_fences g')) + mset (fence_toks p) = mset (map fst (rg_fences g)) + mset (fence_toks p') \<and>
     rg_waiting g' + length (waits_of p) = rg_waiting g + length (waits_of p') \<and>
     rg_wants g' + length (wants_of p) = rg_wants g + length (wants_of p') \<and>
     (if rg_judged g' then 1 else 0) + length (judges_of p) = (if rg_judged g then 1 else 0) + length (judges_of p')"

lemma counts_step:
  assumes c: "counts_ok g ps" and i: "i < length ps" and m: "counts_move g (ps ! i) g' p'"
  shows "counts_ok g' (ps[i := p'])"
proof -
  have n: "size (tally f (ps[i := p'])) + length (f (ps ! i)) = size (tally f ps) + length (f p')" for f :: "proc \<Rightarrow> unit list"
    using tally_update [OF i, of f p'] by (metis size_mset size_union)
  have "mset (map fst (rg_changes g')) + mset (hold_toks (ps ! i)) = tally hold_toks (ps[i := p']) + mset (hold_toks (ps ! i))"
    using c m tally_update [OF i, of hold_toks p'] by (simp only: counts_ok_def counts_move_def)
  moreover have "mset (map fst (rg_fences g')) + mset (fence_toks (ps ! i)) = tally fence_toks (ps[i := p']) + mset (fence_toks (ps ! i))"
    using c m tally_update [OF i, of fence_toks p'] by (simp only: counts_ok_def counts_move_def)
  moreover have "rg_waiting g' = size (tally waits_of (ps[i := p']))"
    using c m n [of waits_of] unfolding counts_ok_def counts_move_def by linarith
  moreover have "rg_wants g' = size (tally wants_of (ps[i := p']))"
    using c m n [of wants_of] unfolding counts_ok_def counts_move_def by linarith
  moreover have "(if rg_judged g' then 1 else 0) = size (tally judges_of (ps[i := p']))"
    using c m n [of judges_of] unfolding counts_ok_def counts_move_def by linarith
  ultimately show ?thesis by (simp only: counts_ok_def add_right_cancel)
qed

text \<open>Waiters and judgements stay right when the channel was closed, or the gate did not open.\<close>

definition quiet_step :: "gate \<Rightarrow> gate \<Rightarrow> bool" where
  "quiet_step g g' \<longleftrightarrow>
     (rg_eased g < rg_eased g' \<or>
      rg_eased g = rg_eased g' \<and> (rg_judged g \<longrightarrow> rg_judged g') \<and> (gate_open g' \<longrightarrow> gate_open g)) \<and>
     (set (rg_fences g') \<subseteq> set (rg_fences g) \<or> \<not> rg_judged g)"

lemma proc_ok_step:
  assumes "quiet_step g g'" "proc_ok g p" "judges_of p = [] \<or> rg_judged g"
  shows "proc_ok g' p"
  using assms by (cases p) (auto simp: quiet_step_def)

lemma gate_inv_step:
  assumes inv: "gate_inv s" and i: "i < length (sy_procs s)" and m: "counts_move (sy_gate s) (sy_procs s ! i) g' p'"
    and q: "quiet_step (sy_gate s) g'" and ok: "gate_ok g'" and p: "proc_ok g' p'"
  shows "gate_inv (goes s i g' p')"
proof -
  have "rg_judged (sy_gate s)" if "q \<in> set (sy_procs s)" "judges_of q \<noteq> []" for q
  proof -
    have "tally judges_of (sy_procs s) \<noteq> {#}" using tally_mem [OF that(1), of judges_of] that(2) by fastforce
    then show ?thesis using inv by (auto simp: gate_inv_def counts_ok_def split: if_splits)
  qed
  then have "proc_ok g' q" if "q \<in> set (sy_procs s)" for q
    using inv that proc_ok_step [OF q] by (auto simp: gate_inv_def)
  then have "\<forall>q \<in> set ((sy_procs s)[i := p']). proc_ok g' q"
    using p set_update_subset_insert [of "sy_procs s" i p'] by auto
  then show ?thesis using counts_step [OF _ i m] inv ok by (simp add: gate_inv_def goes_def)
qed

lemma proc_at_Some: "proc_at s i = Some p \<longleftrightarrow> i < length (sy_procs s) \<and> sy_procs s ! i = p"
  by (auto simp: proc_at_def)

lemma filter_token:
  "distinct (map fst al) \<Longrightarrow> t \<in> fst ` set al \<Longrightarrow> add_mset t (mset (map fst (filter (\<lambda>(t', _). t' \<noteq> t) al))) = mset (map fst al)"
proof (induction al)
  case (Cons x al)
  show ?case
  proof (cases "fst x = t")
    case True
    then have "filter (\<lambda>(t', _). t' \<noteq> t) al = al" using Cons.prems by (auto simp: filter_id_conv image_iff)
    then show ?thesis using True by (cases x) simp
  next
    case False
    then show ?thesis using Cons by (cases x) auto
  qed
qed simp

lemma token_held:
  assumes "gate_inv s" "i < length (sy_procs s)"
  shows "set (hold_toks (sy_procs s ! i)) \<subseteq> fst ` set (rg_changes (sy_gate s))"
    and "set (fence_toks (sy_procs s ! i)) \<subseteq> fst ` set (rg_fences (sy_gate s))"
proof -
  have "set_mset (tally hold_toks (sy_procs s)) = fst ` set (rg_changes (sy_gate s))"
    "set_mset (tally fence_toks (sy_procs s)) = fst ` set (rg_fences (sy_gate s))"
    using assms(1) unfolding gate_inv_def counts_ok_def by (metis set_mset_mset list.set_map)+
  then show "set (hold_toks (sy_procs s ! i)) \<subseteq> fst ` set (rg_changes (sy_gate s))"
    "set (fence_toks (sy_procs s ! i)) \<subseteq> fst ` set (rg_fences (sy_gate s))"
    using tally_mem [of "sy_procs s ! i" "sy_procs s" hold_toks] tally_mem [of "sy_procs s ! i" "sy_procs s" fence_toks] assms(2)
    by auto
qed

lemmas gate_defs = ease_def gate_open_def stop_waiting_def enter_def refence_def fence_enter_def take_hold_def
  when_free_turn_def count_move_def leave_def fence_leave_def try_move_def want_begin_def want_end_def judge_turn_def
  judge_defer_def judge_leave_def try_judge_def held_by_def

section \<open>Each act keeps the invariant\<close>

lemma gate_ok_same:
  "gate_ok g \<Longrightarrow> rg_changes g' = rg_changes g \<Longrightarrow> rg_fences g' = rg_fences g \<Longrightarrow> rg_fenced g' = rg_fenced g \<Longrightarrow>
    rg_next g' = rg_next g \<Longrightarrow> (rg_judged g' \<Longrightarrow> rg_judged g \<or> rg_changes g = []) \<Longrightarrow> gate_ok g'"
  by (auto simp: gate_ok_def)

lemma next_fresh: "gate_ok g \<Longrightarrow> Suc (rg_next g) \<notin> fst ` set (rg_changes g) \<and> Suc (rg_next g) \<notin> fst ` set (rg_fences g)"
  unfolding gate_ok_def by (meson UnCI Suc_n_not_le_n)

lemma gate_ok_enter: "gate_ok g \<Longrightarrow> \<not> rg_judged g \<Longrightarrow> gate_ok (fst (enter now g))"
  using next_fresh [of g] by (auto simp: gate_ok_def enter_def le_SucI)

lemma gate_ok_fence_enter: "gate_ok g \<Longrightarrow> gate_ok (fst (fence_enter now ps g))"
  using next_fresh [of g] by (auto simp: gate_ok_def fence_enter_def refence_def le_SucI)

lemma gate_ok_take: "gate_ok g \<Longrightarrow> \<not> rg_judged g \<Longrightarrow> gate_ok (fst (take_hold r now g))"
  by (cases r) (auto simp: take_hold_def gate_ok_enter gate_ok_fence_enter)

lemma gate_ok_leave: "gate_ok g \<Longrightarrow> gate_ok (leave tok now g)"
  by (auto simp: gate_ok_def leave_def ease_def Let_def distinct_map_filter)

lemma gate_ok_fence_leave: "gate_ok g \<Longrightarrow> gate_ok (fence_leave tok g)"
  by (auto simp: gate_ok_def fence_leave_def refence_def ease_def distinct_map_filter)

lemma inv_goes:
  assumes "gate_inv s" "proc_at s i = Some p" "counts_move (sy_gate s) p g' p'" "quiet_step (sy_gate s) g'"
    "gate_ok (sy_gate s) \<Longrightarrow> gate_ok g'" "proc_ok g' p'"
  shows "gate_inv (goes s i g' p')"
  using assms gate_inv_step [OF assms(1), of i g' p'] by (simp add: proc_at_Some gate_inv_def)

lemma quiet_refl: "quiet_step g g"
  by (simp add: quiet_step_def)

lemma proc_at_mem: "proc_at s i = Some p \<Longrightarrow> p \<in> set (sy_procs s)"
  by (auto simp: proc_at_Some)

lemma tally_pos: "p \<in> set ps \<Longrightarrow> f p \<noteq> [] \<Longrightarrow> 0 < size (tally f ps)"
  by (auto simp: tally_def)

lemma act_ask: "gate_inv s \<Longrightarrow> gate_inv (act (ActAsk i fence) s)"
  by (simp add: inv_goes [where p = PIdle] counts_move_def quiet_refl)

lemma act_await: "gate_inv s \<Longrightarrow> gate_inv (act (ActAwait i) s)"
  by (simp add: inv_goes [where p = PIdle] counts_move_def quiet_refl)

lemma act_judge: "gate_inv s \<Longrightarrow> gate_inv (act (ActJudge i) s)"
  by (simp add: inv_goes [where p = PIdle] counts_move_def quiet_refl)

lemma act_wake:
  assumes "gate_inv s" shows "gate_inv (act (ActWake i) s)"
proof (cases "proc_at s i")
  case (Some p)
  then show ?thesis using assms
    by (cases p) (simp_all add: inv_goes [OF assms Some] counts_move_def quiet_refl)
qed (use assms in simp)

lemma waits_counted:
  assumes "gate_inv s" "proc_at s i = Some p" "waits_of p \<noteq> []" shows "0 < rg_waiting (sy_gate s)"
  using assms proc_at_mem [OF assms(2)] tally_pos [of p "sy_procs s" waits_of] by (auto simp: gate_inv_def counts_ok_def)

lemma act_give_up:
  assumes "gate_inv s" shows "gate_inv (act (ActGiveUp i) s)"
proof (cases "proc_at s i")
  case (Some p)
  note goes = inv_goes [OF assms Some]
  show ?thesis
  proof (cases p)
    case (PWait r n)
    have "gate_inv (goes s i (stop_waiting True (sy_gate s)) PIdle)"
      by (rule goes) (use waits_counted [OF assms Some] PWait in
        \<open>auto simp: counts_move_def quiet_step_def stop_waiting_def ease_def elim: gate_ok_same\<close>)
    then show ?thesis using Some PWait by simp
  next
    case (PJudgeWait n)
    have "gate_inv (goes s i (judge_defer (sy_gate s)) PIdle)"
      by (rule goes) (use PJudgeWait in
        \<open>auto simp: counts_move_def quiet_step_def judge_defer_def gate_open_def elim: gate_ok_same\<close>)
    then show ?thesis using Some PJudgeWait by simp
  qed (use assms Some in simp_all)
qed (use assms in simp)

lemma act_want:
  assumes "gate_inv s" shows "gate_inv (act (ActWant i) s)"
proof (cases "proc_at s i = Some PIdle")
  case True
  have "gate_inv (goes s i (want_begin (sy_gate s)) PWanting)"
    by (rule inv_goes [OF assms True])
      (auto simp: counts_move_def quiet_step_def want_begin_def gate_open_def elim: gate_ok_same)
  then show ?thesis using True by simp
qed (use assms in simp)

lemma wants_counted:
  assumes "gate_inv s" "proc_at s i = Some PWanting" shows "0 < rg_wants (sy_gate s)"
  using assms proc_at_mem [OF assms(2)] tally_pos [of PWanting "sy_procs s" wants_of] by (auto simp: gate_inv_def counts_ok_def)

lemma act_want_end:
  assumes "gate_inv s" shows "gate_inv (act (ActWantEnd i lapsed) s)"
proof (cases "proc_at s i = Some PWanting")
  case True
  have "gate_inv (goes s i (want_end lapsed (sy_gate s)) PIdle)"
    by (rule inv_goes [OF assms True]) (use wants_counted [OF assms True] in
      \<open>auto simp: counts_move_def quiet_step_def want_end_def ease_def Let_def elim: gate_ok_same\<close>)
  then show ?thesis using True by simp
qed (use assms in simp)

lemma taken_by_judgement:
  assumes "gate_inv s" "proc_at s i = Some p" "p = PIdle \<or> p = PJudgeTry" "gate_open (sy_gate s)"
  shows "gate_inv (goes s i (sy_gate s\<lparr>rg_judged := True\<rparr>) (PJudging (rg_fences (sy_gate s))))"
  by (rule inv_goes [OF assms(1,2)])
    (use assms(3,4) in \<open>auto simp: counts_move_def quiet_step_def gate_open_def elim: gate_ok_same\<close>)

lemma act_judge_turn:
  assumes "gate_inv s" shows "gate_inv (act (ActJudgeTurn i) s)"
proof (cases "proc_at s i = Some PJudgeTry")
  case True
  have "gate_inv (goes s i (sy_gate s) (PJudgeWait (rg_eased (sy_gate s))))" if "\<not> gate_open (sy_gate s)"
    by (rule inv_goes [OF assms True]) (use that in \<open>auto simp: counts_move_def quiet_refl\<close>)
  then show ?thesis using True taken_by_judgement [OF assms True] by (simp add: judge_turn_def)
qed (use assms in simp)

lemma act_try_judge:
  assumes "gate_inv s" shows "gate_inv (act (ActTryJudge i) s)"
  using assms taken_by_judgement [OF assms] by (auto simp: try_judge_def)

lemma judging_judged:
  assumes "gate_inv s" "proc_at s i = Some (PJudging f)" shows "rg_judged (sy_gate s)"
  using assms proc_at_mem [OF assms(2)] tally_pos [of "PJudging f" "sy_procs s" judges_of]
  by (auto simp: gate_inv_def counts_ok_def split: if_splits)

lemma act_judge_end:
  assumes "gate_inv s" shows "gate_inv (act (ActJudgeEnd i) s)"
proof (cases "\<exists>f. proc_at s i = Some (PJudging f)")
  case True
  then obtain f where f: "proc_at s i = Some (PJudging f)" by blast
  have "gate_inv (goes s i (judge_leave (sy_gate s)) PIdle)"
    by (rule inv_goes [OF assms f]) (use judging_judged [OF assms f] in
      \<open>auto simp: counts_move_def quiet_step_def judge_leave_def ease_def elim: gate_ok_same\<close>)
  then show ?thesis using f by simp
qed (use assms in \<open>auto split: option.split proc.split\<close>)

lemma taken_by_change:
  assumes inv: "gate_inv s" and p: "proc_at s i = Some p" "p = PTry r waits \<or> p = PIdle \<and> \<not> waits" and free: "\<not> rg_judged (sy_gate s)"
    and t: "take_hold r now (sy_gate s) = (g, tok)"
  shows "gate_inv (goes s i (if waits then ease (g\<lparr>rg_waiting := rg_waiting g - 1\<rparr>) else g) (held_by r tok))"
proof (rule inv_goes [OF inv p(1)])
  let ?g' = "if waits then ease (g\<lparr>rg_waiting := rg_waiting g - 1\<rparr>) else g"
  have w: "0 < rg_waiting (sy_gate s)" if waits using waits_counted [OF inv p(1)] that p(2) by auto
  show "counts_move (sy_gate s) p ?g' (held_by r tok)"
    using t p(2) w by (cases r) (auto simp: counts_move_def take_hold_def enter_def fence_enter_def refence_def held_by_def ease_def)
  show "quiet_step (sy_gate s) ?g'"
    using t free by (cases r) (auto simp: quiet_step_def take_hold_def enter_def fence_enter_def refence_def ease_def gate_open_def)
  show "gate_ok ?g'" if "gate_ok (sy_gate s)"
  proof -
    have "gate_ok g" using gate_ok_take [OF that free, of r now] t by simp
    then show ?thesis by (auto simp: ease_def elim: gate_ok_same)
  qed
  show "proc_ok ?g' (held_by r tok)" by (cases r) (simp_all add: held_by_def)
qed

lemma act_turn:
  assumes "gate_inv s" shows "gate_inv (act (ActTurn i ended now) s)"
proof (cases "\<exists>r waits. proc_at s i = Some (PTry r waits)")
  case True
  then obtain r waits where p: "proc_at s i = Some (PTry r waits)" by blast
  consider (ended) "ended" | (free) "\<not> ended" "\<not> rg_judged (sy_gate s)" | (busy) "\<not> ended" "rg_judged (sy_gate s)" by blast
  then show ?thesis
  proof cases
    case ended
    have "gate_inv (goes s i (stop_waiting waits (sy_gate s)) PIdle)"
      by (rule inv_goes [OF assms p]) (use waits_counted [OF assms p] in
        \<open>auto simp: counts_move_def quiet_step_def stop_waiting_def ease_def elim: gate_ok_same\<close>)
    then show ?thesis using p ended by (simp add: when_free_turn_def)
  next
    case free
    obtain g tok where t: "take_hold r now (sy_gate s) = (g, tok)" by fastforce
    show ?thesis using taken_by_change [OF assms p _ free(2) t, of waits] p free t by (simp add: when_free_turn_def)
  next
    case busy
    have "gate_inv (goes s i (if waits then sy_gate s else (sy_gate s)\<lparr>rg_waiting := rg_waiting (sy_gate s) + 1\<rparr>)
        (PWait r (rg_eased (sy_gate s))))"
      by (rule inv_goes [OF assms p])
        (use busy in \<open>auto simp: counts_move_def quiet_step_def gate_open_def elim: gate_ok_same\<close>)
    then show ?thesis using p busy by (simp add: when_free_turn_def)
  qed
qed (use assms in \<open>auto split: option.split proc.split\<close>)

lemma act_try_move:
  assumes "gate_inv s" shows "gate_inv (act (ActTryMove i now) s)"
proof (cases "proc_at s i = Some PIdle \<and> \<not> rg_judged (sy_gate s)")
  case True
  obtain g tok where t: "take_hold AMove now (sy_gate s) = (g, tok)" by fastforce
  show ?thesis
    using taken_by_change [OF assms _ _ _ t, of i PIdle False] True t
    by (simp add: try_move_def take_hold_def held_by_def)
qed (use assms in \<open>auto simp: try_move_def\<close>)

lemma act_count:
  assumes "gate_inv s" shows "gate_inv (act (ActCount i) s)"
proof (cases "proc_at s i")
  case (Some p)
  have "gate_inv (goes s i (count_move (sy_gate s)) p')" if "counts_move (sy_gate s) p (count_move (sy_gate s)) p'" "proc_ok (count_move (sy_gate s)) p'" for p'
    by (rule inv_goes [OF assms Some that(1) _ _ that(2)])
      (auto simp: count_move_def quiet_step_def gate_open_def elim: gate_ok_same)
  then show ?thesis using assms Some by (cases p) (simp_all add: counts_move_def count_move_def)
qed (use assms in simp)

lemma act_leave:
  assumes "gate_inv s" shows "gate_inv (act (ActLeave i now) s)"
proof (cases "proc_at s i")
  case (Some p)
  have i: "i < length (sy_procs s)" "sy_procs s ! i = p" using Some by (auto simp: proc_at_Some)
  note held = token_held [OF assms i(1), unfolded i(2)]
  have ok: "gate_ok (sy_gate s)" using assms by (simp add: gate_inv_def)
  show ?thesis
  proof (cases p)
    case (PMoved tok)
    have "gate_inv (goes s i (leave tok now (sy_gate s)) PIdle)"
    proof (rule inv_goes [OF assms Some])
      have "add_mset tok (mset (map fst (filter (\<lambda>(t', _). t' \<noteq> tok) (rg_changes (sy_gate s))))) = mset (map fst (rg_changes (sy_gate s)))"
        by (rule filter_token) (use ok held PMoved in \<open>auto simp: gate_ok_def\<close>)
      then show "counts_move (sy_gate s) p (leave tok now (sy_gate s)) PIdle"
        using PMoved by (simp add: counts_move_def leave_def ease_def Let_def)
      show "quiet_step (sy_gate s) (leave tok now (sy_gate s))"
        by (simp add: quiet_step_def leave_def ease_def Let_def)
    qed (auto intro: gate_ok_leave)
    then show ?thesis using Some PMoved by simp
  next
    case (PFenced tok)
    have "gate_inv (goes s i (fence_leave tok (sy_gate s)) PIdle)"
    proof (rule inv_goes [OF assms Some])
      have "add_mset tok (mset (map fst (filter (\<lambda>(t', _). t' \<noteq> tok) (rg_fences (sy_gate s))))) = mset (map fst (rg_fences (sy_gate s)))"
        by (rule filter_token) (use ok held PFenced in \<open>auto simp: gate_ok_def\<close>)
      then show "counts_move (sy_gate s) p (fence_leave tok (sy_gate s)) PIdle"
        using PFenced by (simp add: counts_move_def fence_leave_def refence_def ease_def)
      show "quiet_step (sy_gate s) (fence_leave tok (sy_gate s))"
        by (auto simp: quiet_step_def fence_leave_def refence_def ease_def)
    qed (auto intro: gate_ok_fence_leave)
    then show ?thesis using Some PFenced by simp
  qed (use assms Some in simp_all)
qed (use assms in simp)

lemma gate_inv_act: "gate_inv s \<Longrightarrow> gate_inv (act a s)"
  by (cases a) (simp_all only: act_ask act_await act_turn act_wake act_give_up act_count act_leave act_try_move act_want
    act_want_end act_judge act_judge_turn act_try_judge act_judge_end)

lemma gate_inv_start: "gate_inv (gate_start n)"
  by (auto simp: gate_inv_def gate_start_def counts_ok_def gate_ok_def new_gate_def tally_def fence_set_of_def split: if_splits)

lemma gate_inv_run: "gate_inv (run_acts as (gate_start n))"
proof -
  have "gate_inv s \<Longrightarrow> gate_inv (fold act as s)" for s
    by (induction as arbitrary: s) (simp_all add: gate_inv_act)
  then show ?thesis by (simp add: run_acts_def gate_inv_start)
qed

section \<open>Judgements are alone\<close>

lemma tally_two:
  assumes "i < length ps" "j < length ps" "i \<noteq> j" "f (ps ! i) \<noteq> []" "f (ps ! j) \<noteq> []" "f PIdle = []"
  shows "2 \<le> size (tally f ps)"
proof -
  have "size (tally f (ps[i := PIdle])) + length (f (ps ! i)) = size (tally f ps)"
    using tally_update [OF assms(1), of f PIdle] assms(6) by (metis add.right_neutral mset.simps(1) size_mset size_union)
  moreover have "ps ! j \<in> set (ps[i := PIdle])"
    using assms(2,3) by (metis length_list_update nth_list_update_neq nth_mem)
  then have "1 \<le> size (tally f (ps[i := PIdle]))" using tally_pos [of "ps ! j" _ f] assms(5) by (simp add: Suc_le_eq)
  moreover have "1 \<le> length (f (ps ! i))" using assms(4) by (cases "f (ps ! i)") auto
  ultimately show ?thesis by linarith
qed

text \<open>C36. A judgement holds the gate alone: however goroutines ask, wait, give up, announce, try and
  release, while one of them judges no other one judges and none holds the gate for a change.\<close>

theorem judgements_are_alone:
  assumes "s = run_acts as (gate_start n)" and "proc_at s i = Some (PJudging f)"
    and "proc_at s j = Some p" and "i \<noteq> j"
  shows "judges_of p = [] \<and> hold_toks p = []"
proof -
  have inv: "gate_inv s" unfolding assms(1) by (rule gate_inv_run)
  have judged: "rg_judged (sy_gate s)" by (rule judging_judged [OF inv assms(2)])
  then have "tally hold_toks (sy_procs s) = {#}"
    using inv by (auto simp: gate_inv_def counts_ok_def gate_ok_def)
  then have "hold_toks p = []" using tally_mem [OF proc_at_mem [OF assms(3)], of hold_toks] by simp
  moreover have "judges_of p = []"
  proof (rule ccontr)
    assume "judges_of p \<noteq> []"
    then have "2 \<le> size (tally judges_of (sy_procs s))"
      using assms(2-4) tally_two [of i "sy_procs s" j judges_of] by (auto simp: proc_at_Some)
    then show False using inv judged by (simp add: gate_inv_def counts_ok_def)
  qed
  ultimately show ?thesis by simp
qed

section \<open>Changes go first\<close>

fun act_of :: "gate_act \<Rightarrow> nat" where
  "act_of (ActAsk i fence) = i"
| "act_of (ActAwait i) = i"
| "act_of (ActTurn i ended now) = i"
| "act_of (ActWake i) = i"
| "act_of (ActGiveUp i) = i"
| "act_of (ActCount i) = i"
| "act_of (ActLeave i now) = i"
| "act_of (ActTryMove i now) = i"
| "act_of (ActWant i) = i"
| "act_of (ActWantEnd i lapsed) = i"
| "act_of (ActJudge i) = i"
| "act_of (ActJudgeTurn i) = i"
| "act_of (ActTryJudge i) = i"
| "act_of (ActJudgeEnd i) = i"

lemma goes_gate [simp]: "sy_gate (goes s i g p) = g"
  by (simp add: goes_def)

lemma goes_other: "i \<noteq> j \<Longrightarrow> proc_at (goes s i g p) j = proc_at s j"
  by (simp add: goes_def proc_at_def)

lemma act_other: "act_of a \<noteq> j \<Longrightarrow> proc_at (act a s) j = proc_at s j"
  by (cases a) (auto simp: goes_other split: option.split proc.split turn.split prod.split bool.split)

lemma take_judged: "rg_judged (fst (take_hold r now g)) = rg_judged g"
  by (cases r) (simp_all add: take_hold_def enter_def fence_enter_def refence_def)

lemma turn_judged: "when_free_turn ended r waits now g = (g', t) \<Longrightarrow> rg_judged g' = rg_judged g"
  using take_judged [of r now g]
  by (auto simp: when_free_turn_def stop_waiting_def ease_def split: if_splits prod.splits)

text \<open>Only an open gate is taken for a judgement.\<close>

lemma judged_from_open: "rg_judged (sy_gate (act a s)) \<Longrightarrow> rg_judged (sy_gate s) \<or> gate_open (sy_gate s)"
proof (cases a)
  case (ActTurn i ended now)
  then show "rg_judged (sy_gate (act a s)) \<Longrightarrow> ?thesis"
    by (auto split: option.splits proc.splits turn.splits prod.splits dest: turn_judged)
qed (auto simp: gate_defs Let_def split: option.splits proc.splits if_splits)

lemma waiter_keeps_judgements_out:
  assumes "gate_inv s" "proc_at s i = Some p" "waits_of p \<noteq> []" "\<not> rg_judged (sy_gate s)"
    and "\<forall>a \<in> set as. act_of a \<noteq> i"
  shows "gate_inv (run_acts as s) \<and> proc_at (run_acts as s) i = Some p \<and> \<not> rg_judged (sy_gate (run_acts as s))"
  using assms
proof (induction as arbitrary: s)
  case (Cons a as)
  have "\<not> rg_judged (sy_gate (act a s))"
    using judged_from_open [of a s] Cons.prems(4) waits_counted [OF Cons.prems(1-3)] by (auto simp: gate_open_def)
  moreover have "proc_at (act a s) i = Some p" using Cons.prems(2,5) by (simp add: act_other)
  ultimately show ?case using Cons.IH [of "act a s"] gate_inv_act [OF Cons.prems(1), of a] Cons.prems(3,5)
    by (simp add: run_acts_def)
qed (simp add: run_acts_def)

text \<open>C37. A change that waits is first: once the judgement it waited for let go, whatever the other
  goroutines do meanwhile - new judgements among them - no judgement gets the gate before it, and as soon
  as it runs again it is awake and takes what it asked for.\<close>

theorem waiting_change_gets_the_gate:
  assumes "s = run_acts as (gate_start n)" and "proc_at s i = Some (PWait r m)" and "\<not> rg_judged (sy_gate s)"
    and "\<forall>a \<in> set others. act_of a \<noteq> i"
  shows "\<not> rg_judged (sy_gate (run_acts others s)) \<and>
    (\<exists>tok. proc_at (run_acts (others @ [ActWake i, ActTurn i False now]) s) i = Some (held_by r tok))"
proof -
  have "gate_inv s" unfolding assms(1) by (rule gate_inv_run)
  from waiter_keeps_judgements_out [OF this assms(2) _ assms(3,4)]
  have t: "gate_inv (run_acts others s)" "proc_at (run_acts others s) i = Some (PWait r m)"
    "\<not> rg_judged (sy_gate (run_acts others s))" by simp_all
  then have "proc_ok (sy_gate (run_acts others s)) (PWait r m)" using proc_at_mem [OF t(2)] unfolding gate_inv_def by blast
  then have "rg_eased (sy_gate (run_acts others s)) \<noteq> m" using t(3) by auto
  then have w: "act (ActWake i) (run_acts others s) = goes (run_acts others s) i (sy_gate (run_acts others s)) (PTry r True)"
    using t(2) by simp
  obtain g tok where "take_hold r now (sy_gate (run_acts others s)) = (g, tok)" by fastforce
  then have "proc_at (act (ActTurn i False now) (act (ActWake i) (run_acts others s))) i = Some (held_by r tok)"
    using t(2,3) unfolding w by (simp add: goes_def proc_at_def when_free_turn_def split: if_splits)
  then show ?thesis using t(3) by (auto simp: run_acts_def)
qed

text \<open>Nobody sleeps through an open gate: a goroutine whose wake-up has not come is really kept out -
  a waiting change by a judgement that holds the gate, a waiting judgement by another one, or by a
  change that holds the gate, waits for it or has announced itself.\<close>

theorem nobody_sleeps_through_an_open_gate:
  assumes "s = run_acts as (gate_start n)" and "proc_at s i = Some p" and "m = rg_eased (sy_gate s)"
  shows "(p = PWait r m \<longrightarrow> (\<exists>q \<in> set (sy_procs s). judges_of q \<noteq> [])) \<and>
    (p = PJudgeWait m \<longrightarrow>
      (\<exists>q \<in> set (sy_procs s). judges_of q \<noteq> [] \<or> hold_toks q \<noteq> [] \<or> waits_of q \<noteq> [] \<or> wants_of q \<noteq> []))"
proof -
  have inv: "gate_inv s" unfolding assms(1) by (rule gate_inv_run)
  have some: "\<exists>q \<in> set (sy_procs s). f q \<noteq> []" if "tally f (sy_procs s) \<noteq> {#}" for f :: "proc \<Rightarrow> 'b list"
    using that by (auto simp: tally_def)
  have j: "\<exists>q \<in> set (sy_procs s). judges_of q \<noteq> []" if "rg_judged (sy_gate s)"
    by (rule some) (use that inv in \<open>auto simp: gate_inv_def counts_ok_def\<close>)
  have ok: "proc_ok (sy_gate s) p" using inv proc_at_mem [OF assms(2)] unfolding gate_inv_def by blast
  have "\<exists>q \<in> set (sy_procs s). judges_of q \<noteq> [] \<or> hold_toks q \<noteq> [] \<or> waits_of q \<noteq> [] \<or> wants_of q \<noteq> []"
    if "\<not> gate_open (sy_gate s)"
  proof -
    have c: "mset (map fst (rg_changes (sy_gate s))) = tally hold_toks (sy_procs s)"
      "rg_waiting (sy_gate s) = size (tally waits_of (sy_procs s))" "rg_wants (sy_gate s) = size (tally wants_of (sy_procs s))"
      using inv by (auto simp: gate_inv_def counts_ok_def)
    have "rg_judged (sy_gate s) \<or> rg_changes (sy_gate s) \<noteq> [] \<or> rg_waiting (sy_gate s) \<noteq> 0 \<or> rg_wants (sy_gate s) \<noteq> 0"
      using that by (auto simp: gate_open_def)
    then consider "rg_judged (sy_gate s)" | "tally hold_toks (sy_procs s) \<noteq> {#}" | "tally waits_of (sy_procs s) \<noteq> {#}"
      | "tally wants_of (sy_procs s) \<noteq> {#}"
      unfolding c(2,3) c(1) [symmetric] by fastforce
    then show ?thesis using j some [of hold_toks] some [of waits_of] some [of wants_of] by cases blast+
  qed
  then show ?thesis using j ok assms(3) by auto
qed

section \<open>Fences\<close>

declare norm_slash(1) [simp]

lemma fence_clean_join: "fence_clean p = slash # join slash (norm_rel p)"
  by (simp add: fence_clean_def path_clean_rooted)

lemma norm_fence_clean [simp]: "norm_rel (fence_clean p) = norm_rel p"
  by (simp add: fence_clean_join norm_rel_join norm_rel_ok)

definition fence_ok :: "string \<Rightarrow> bool" where
  "fence_ok p \<longleftrightarrow> fence_clean p = p \<and> norm_rel p \<noteq> []"

definition fence_covers :: "string \<Rightarrow> string \<Rightarrow> bool" where
  "fence_covers pre c \<longleftrightarrow> c = pre \<or> has_prefix c (pre @ [slash])"

interpretation fence_paths: path_tree fence_covers norm_rel fence_ok
proof
  show "fence_covers p q = prefix (norm_rel p) (norm_rel q)" if "fence_ok p" "fence_ok q" for p q
  proof -
    have p: "p = slash # join slash (norm_rel p)" and q: "q = slash # join slash (norm_rel q)"
      using that by (metis fence_clean_join fence_ok_def)+
    have "fence_covers p q \<longleftrightarrow> join slash (norm_rel q) = join slash (norm_rel p) \<or>
        has_prefix (join slash (norm_rel q)) (join slash (norm_rel p) @ [slash])"
      unfolding fence_covers_def by (subst p, subst q, subst (2) q, subst (2) p) (simp add: has_prefix_def)
    then show ?thesis using prefix_join_slash [of "norm_rel p" "norm_rel q"] that norm_rel_ok by (simp add: fence_ok_def)
  qed
  show "p = q" if "fence_ok p" "fence_ok q" "norm_rel p = norm_rel q" for p q
    using that by (metis fence_clean_join fence_ok_def)
qed

lemma fence_covers_root: "fence_ok pre \<Longrightarrow> \<not> fence_covers pre [slash]"
proof
  assume "fence_ok pre" "fence_covers pre [slash]"
  then have "pre = slash # join slash (norm_rel pre)" "norm_rel pre \<noteq> []" by (metis fence_clean_join fence_ok_def)+
  moreover then have "join slash (norm_rel pre) \<noteq> []" by (simp add: join_eq_Nil norm_rel_ok)
  ultimately show False using \<open>fence_covers pre [slash]\<close> by (auto simp: fence_covers_def has_prefix_def dest: arg_cong [of _ _ length])
qed

lemma fence_clean_ok: "norm_rel p \<noteq> [] \<Longrightarrow> fence_ok (fence_clean p)"
  unfolding fence_ok_def by (metis fence_clean_join norm_fence_clean)

lemma fence_clean_root: "fence_clean p = [slash] \<longleftrightarrow> norm_rel p = []"
  by (auto simp: fence_clean_join join_eq_Nil norm_rel_ok)

lemma clean_prefixes_ok: "clean_prefixes given = Some ps \<Longrightarrow> \<forall>p \<in> set ps. fence_ok p"
proof (induction given arbitrary: ps)
  case (Cons p given)
  then show ?case using fence_clean_ok [of p] by (auto simp: fence_clean_root split: if_splits)
qed simp

fun asks_clean :: "request \<Rightarrow> bool" where
  "asks_clean (AFence ps) \<longleftrightarrow> (\<forall>p \<in> set ps. fence_ok p)"
| "asks_clean r \<longleftrightarrow> True"

lemma hold_request_clean: "asks_clean (hold_request given)"
  using clean_prefixes_ok [of given]
  by (auto simp: hold_request_def fence_request_def split: option.split list.split)

fun proc_clean :: "proc \<Rightarrow> bool" where
  "proc_clean (PTry r w) \<longleftrightarrow> asks_clean r"
| "proc_clean (PWait r n) \<longleftrightarrow> asks_clean r"
| "proc_clean p \<longleftrightarrow> True"

definition fences_clean :: "sys \<Rightarrow> bool" where
  "fences_clean s \<longleftrightarrow> (\<forall>p \<in> set (sy_procs s). proc_clean p) \<and>
     (\<forall>(t, h) \<in> set (rg_fences (sy_gate s)). \<forall>p \<in> set (fh_prefixes h). fence_ok p)"

lemma fences_clean_goes:
  assumes "fences_clean s" "proc_clean p" "\<forall>(t, h) \<in> set (rg_fences g). (t, h) \<in> set (rg_fences (sy_gate s)) \<or> (\<forall>p \<in> set (fh_prefixes h). fence_ok p)"
  shows "fences_clean (goes s i g p)"
  using assms set_update_subset_insert [of "sy_procs s" i p] by (fastforce simp: fences_clean_def goes_def)

lemma fences_clean_proc: "fences_clean s \<Longrightarrow> proc_at s i = Some p \<Longrightarrow> proc_clean p"
  using proc_at_mem by (auto simp: fences_clean_def)

lemma fences_clean_turn:
  assumes "fences_clean s" shows "fences_clean (act (ActTurn i ended now) s)"
proof (cases "\<exists>r waits. proc_at s i = Some (PTry r waits)")
  case True
  then obtain r waits where p: "proc_at s i = Some (PTry r waits)" by blast
  then have "asks_clean r" using fences_clean_proc [OF assms] by fastforce
  then show ?thesis using p assms
    by (cases r) (auto simp: gate_defs Let_def intro!: fences_clean_goes)
qed (use assms in \<open>auto split: option.split proc.split\<close>)

lemma fences_clean_act:
  assumes "fences_clean s" shows "fences_clean (act a s)"
proof (cases a)
  case (ActTurn i ended now)
  then show ?thesis using fences_clean_turn [OF assms] by simp
next
  case (ActWake i)
  then show ?thesis using assms fences_clean_proc [OF assms, of i]
    by (auto split: option.split proc.split intro!: fences_clean_goes)
qed (use assms hold_request_clean in \<open>auto simp: gate_defs Let_def split: option.split proc.split intro!: fences_clean_goes\<close>)

lemma fences_clean_run: "fences_clean (run_acts as (gate_start n))"
proof -
  have "fences_clean s \<Longrightarrow> fences_clean (fold act as s)" for s
    by (induction as arbitrary: s) (simp_all add: fences_clean_act)
  moreover have "fences_clean (gate_start n)" by (auto simp: fences_clean_def gate_start_def new_gate_def)
  ultimately show ?thesis by (simp add: run_acts_def)
qed

definition fenced_prefixes :: "fence_hold list \<Rightarrow> string set" where
  "fenced_prefixes hs = (\<Union>h \<in> set hs. set (fh_prefixes h))"

lemma fs_covers_iff:
  "fs_covers (fence_set_of hs) p \<longleftrightarrow> (\<exists>pre \<in> fenced_prefixes hs. fence_covers pre (fence_clean p))"
  by (auto simp: fs_covers_def fence_set_of_def fenced_prefixes_def fence_covers_def list_ex_iff Let_def)

definition kid_list :: "(string \<times> string list) list \<Rightarrow> string \<Rightarrow> string list" where
  "kid_list m d = (case map_of m d of None \<Rightarrow> [] | Some ks \<Rightarrow> ks)"

lemma kid_list_add: "kid_list (add_kid parent p m) d = (if d = parent then kid_list m d @ [p] else kid_list m d)"
  by (induction parent p m rule: add_kid.induct) (auto simp: kid_list_def)

lemma kid_list_foldl:
  "kid_list (foldl (\<lambda>m p. add_kid (path_dir p) p m) m ps) d = kid_list m d @ filter (\<lambda>p. path_dir p = d) ps"
  by (induction ps arbitrary: m) (auto simp: kid_list_add)

lemma kids_of_iff: "k \<in> set (kids_of (fence_set_of hs) dir) \<longleftrightarrow> k \<in> fenced_prefixes hs \<and> path_dir k = fence_clean dir"
proof -
  have "kids_of (fence_set_of hs) dir =
      (if hs = [] then [] else kid_list (foldl (\<lambda>m p. add_kid (path_dir p) p m) []
        (stable_sort str_less (remdups (concat (map fh_prefixes hs))))) (fence_clean dir))"
    by (simp add: kids_of_def fence_set_of_def kid_list_def Let_def)
  then show ?thesis unfolding kid_list_foldl by (auto simp: fenced_prefixes_def kid_list_def)
qed

lemma path_dir_child:
  assumes "fence_ok c" shows "path_dir c = slash # join slash (butlast (norm_rel c))"
proof -
  obtain ss x where n: "norm_rel c = ss @ [x]" using assms by (cases "norm_rel c" rule: rev_cases) (auto simp: fence_ok_def)
  then have ok: "\<forall>s \<in> set ss. seg_ok s" "slash \<notin> set x" using norm_rel_ok [of _ c] by (auto simp: seg_ok_def)
  have c: "c = slash # join slash (ss @ [x])" using assms n by (metis fence_clean_join fence_ok_def)
  have stop: "dropWhile (\<lambda>c. c \<noteq> slash) (rev x @ slash # ys) = slash # ys" for ys
    using ok(2) by (subst dropWhile_append2) auto
  have "rev (dropWhile (\<lambda>c. c \<noteq> slash) (rev c)) = (if ss = [] then [slash] else slash # join slash ss @ [slash])"
  proof (cases "ss = []")
    case True
    then have "rev c = rev x @ [slash]" using c by simp
    then show ?thesis using True stop [of "[]"] by simp
  next
    case False
    then have "rev c = rev x @ slash # rev (join slash ss) @ [slash]" using c join_append [of ss "[x]" slash] by simp
    then show ?thesis using False stop [of "rev (join slash ss) @ [slash]"] by simp
  qed
  moreover have "norm_rel (join slash ss @ [slash]) = ss" using ok(1) by (simp add: norm_slash(2) norm_rel_join)
  ultimately have "path_dir c = slash # join slash ss" by (simp add: path_dir_def path_clean_rooted)
  then show ?thesis by (simp add: n)
qed

lemma fence_covers_child:
  assumes pre: "fence_ok pre" and c: "fence_ok c"
  shows "fence_covers pre c \<longleftrightarrow> pre = c \<or> fence_covers pre (path_dir c)"
proof -
  obtain ss x where n: "norm_rel c = ss @ [x]" using c by (cases "norm_rel c" rule: rev_cases) (auto simp: fence_ok_def)
  then have ok: "\<forall>s \<in> set ss. seg_ok s" using norm_rel_ok [of _ c] by auto
  have d: "path_dir c = slash # join slash ss" using path_dir_child [OF c] n by simp
  have nd: "norm_rel (path_dir c) = ss" by (simp add: d norm_rel_join ok)
  have "fence_covers pre c \<longleftrightarrow> norm_rel pre = ss @ [x] \<or> prefix (norm_rel pre) ss"
    using fence_paths.covers_segs [OF pre c] n by (simp add: prefix_snoc)
  moreover have "norm_rel pre = ss @ [x] \<longleftrightarrow> pre = c" using fence_paths.segs_inj [OF pre c] n by auto
  moreover have "prefix (norm_rel pre) ss \<longleftrightarrow> fence_covers pre (path_dir c)"
  proof (cases "ss = []")
    case True
    then show ?thesis using fence_covers_root [OF pre] pre d by (simp add: fence_ok_def)
  next
    case False
    then have "fence_ok (path_dir c)" using nd by (metis d fence_clean_join fence_ok_def)
    then show ?thesis using fence_paths.covers_segs [OF pre] nd by simp
  qed
  ultimately show ?thesis by simp
qed

text \<open>A judgement can trust the fences it read: while it holds the gate every path fenced was fenced
  when it took the gate; and of the children of a folder that is not fenced exactly those are fenced that
  the set lists for it, so a listing without them shows nothing a long change is at.\<close>

theorem judgements_know_the_fences:
  assumes "s = run_acts as (gate_start n)" and "proc_at s i = Some (PJudging f)" and "fence_ok c"
  shows "(fs_covers (rg_fenced (sy_gate s)) c \<longrightarrow> fs_covers (fence_set_of (map snd f)) c) \<and>
    (\<not> fs_covers (rg_fenced (sy_gate s)) (path_dir c) \<longrightarrow>
      fs_covers (rg_fenced (sy_gate s)) c = (c \<in> set (kids_of (rg_fenced (sy_gate s)) (path_dir c))))"
proof -
  have inv: "gate_inv s" and clean: "fences_clean s" unfolding assms(1) by (rule gate_inv_run fences_clean_run)+
  let ?hs = "map snd (rg_fences (sy_gate s))"
  have fenced: "rg_fenced (sy_gate s) = fence_set_of ?hs" using inv by (simp add: gate_inv_def gate_ok_def)
  have "proc_ok (sy_gate s) (PJudging f)" using inv proc_at_mem [OF assms(2)] unfolding gate_inv_def by blast
  then have sub: "fenced_prefixes ?hs \<subseteq> fenced_prefixes (map snd f)" by (auto simp: fenced_prefixes_def)
  have ok: "fence_ok pre" if "pre \<in> fenced_prefixes ?hs" for pre
    using that clean by (fastforce simp: fenced_prefixes_def fences_clean_def)
  have "\<forall>x \<in> set (butlast (norm_rel c)). seg_ok x" by (meson in_set_butlastD norm_rel_ok)
  then have cc: "fence_clean c = c" "fence_clean (path_dir c) = path_dir c"
    using assms(3) path_dir_child [OF assms(3)] by (simp_all add: fence_ok_def fence_clean_join norm_rel_join)
  show ?thesis unfolding fenced fs_covers_iff kids_of_iff cc
    using sub ok fence_covers_child [OF _ assms(3)] by (auto simp: fence_covers_def)
qed

section \<open>Samples\<close>

text \<open>Goroutine 0 judges, 1 asks for the gate and waits, 2 fences a folder before, 3 tries to judge.\<close>

definition gate_sample :: "gate_act list" where
  "gate_sample = [ActAsk 2 [''docs/old'', ''docs/new/''], ActTurn 2 False 5, ActJudge 0, ActJudgeTurn 0, ActAsk 1 [],
     ActTurn 1 False 7, ActJudge 3, ActJudgeTurn 3]"

lemma gate_sample_run:
  "sy_procs (run_acts gate_sample (gate_start 4)) =
     [PJudging [(1, \<lparr>fh_prefixes = [''/docs/old'', ''/docs/new''], fh_since = 5\<rparr>)], PWait AMove 0, PFencing 1, PJudgeWait 0] \<and>
   rg_fenced (sy_gate (run_acts gate_sample (gate_start 4))) =
     Some \<lparr>fs_list = [''/docs/new'', ''/docs/old''], fs_kids = [(''/docs'', [''/docs/new'', ''/docs/old''])]\<rparr>"
  by code_simp

theorem judgements_are_alone_witness:
  "\<exists>p. proc_at (run_acts gate_sample (gate_start 4)) 2 = Some p \<and> judges_of p = [] \<and> hold_toks p = []"
proof -
  have p: "proc_at (run_acts gate_sample (gate_start 4)) 2 = Some (PFencing 1)"
    "proc_at (run_acts gate_sample (gate_start 4)) 0 =
      Some (PJudging [(1, \<lparr>fh_prefixes = [''/docs/old'', ''/docs/new''], fh_since = 5\<rparr>)])"
    using gate_sample_run by (simp_all add: proc_at_def)
  then show ?thesis using judgements_are_alone [OF refl p(2) p(1)] by simp
qed

text \<open>The judgement ends, the other one tries at once and again, and the waiting change gets the gate.\<close>

theorem waiting_change_gets_the_gate_witness:
  "\<exists>tok. proc_at (run_acts ([ActWake 3, ActJudgeTurn 3, ActJudge 0, ActJudgeTurn 0] @ [ActWake 1, ActTurn 1 False 9])
     (run_acts (gate_sample @ [ActJudgeEnd 0]) (gate_start 4))) 1 = Some (held_by AMove tok)"
proof -
  have "proc_at (run_acts (gate_sample @ [ActJudgeEnd 0]) (gate_start 4)) 1 = Some (PWait AMove 0) \<and>
    \<not> rg_judged (sy_gate (run_acts (gate_sample @ [ActJudgeEnd 0]) (gate_start 4)))" by code_simp
  then show ?thesis
    using waiting_change_gets_the_gate [OF refl, of "gate_sample @ [ActJudgeEnd 0]" 4 1 AMove 0
      "[ActWake 3, ActJudgeTurn 3, ActJudge 0, ActJudgeTurn 0]" 9] by simp
qed

theorem nobody_sleeps_through_an_open_gate_witness:
  "\<exists>q \<in> set (sy_procs (run_acts gate_sample (gate_start 4))). judges_of q \<noteq> []"
proof -
  have "proc_at (run_acts gate_sample (gate_start 4)) 1 = Some (PWait AMove 0) \<and>
    rg_eased (sy_gate (run_acts gate_sample (gate_start 4))) = 0" by code_simp
  then show ?thesis
    using nobody_sleeps_through_an_open_gate [OF refl, of gate_sample 4 1 "PWait AMove 0" 0] by simp
qed

theorem judgements_know_the_fences_witness:
  "fs_covers (rg_fenced (sy_gate (run_acts gate_sample (gate_start 4)))) ''/docs/old'' \<longleftrightarrow>
     ''/docs/old'' \<in> set (kids_of (rg_fenced (sy_gate (run_acts gate_sample (gate_start 4)))) ''/docs'')"
proof -
  have c: "fence_ok ''/docs/old''" unfolding fence_ok_def by code_simp
  have "path_dir ''/docs/old'' = ''/docs'' \<and>
    \<not> fs_covers (rg_fenced (sy_gate (run_acts gate_sample (gate_start 4)))) ''/docs''" by code_simp
  moreover have "proc_at (run_acts gate_sample (gate_start 4)) 0 =
      Some (PJudging [(1, \<lparr>fh_prefixes = [''/docs/old'', ''/docs/new''], fh_since = 5\<rparr>)])"
    using gate_sample_run by (simp add: proc_at_def)
  ultimately show ?thesis using judgements_know_the_fences [OF refl _ c] by metis
qed

end
