(* ===== verification/Queue.thy ===== *)
theory Queue
  imports GoStrings
begin

text \<open>
  \<open>internal/queue\<close>: the persistent queue of operations (\<open>driver.go\<close>, \<open>worker.go\<close>) over the SQL driver
  of \<open>drivers/sqlite\<close>, which serves SQLite and MySQL. The table is the list of its rows in the order
  they were inserted; what the engine makes of a statement and which of several equally placed rows it
  gives first are arguments. A worker's poll and its claim are two steps, so that others may come
  between them, as they may on MySQL. Times in the table are whole seconds, a request's are nanoseconds.
\<close>

section \<open>Operations\<close>

datatype status = StatusPending | StatusRunning | StatusDone | StatusFailed | StatusCancelled

record op =
  op_id :: string
  op_type :: string
  op_payload :: string
  op_status :: status
  op_priority :: int
  op_attempts :: int
  op_max_attempts :: int
  op_last_error :: string
  op_enqueued_at :: int
  op_started_at :: "int option"
  op_finished_at :: "int option"
  op_not_before :: "int option"
  op_dedup_key :: "string option"

record request =
  rq_id :: string
  rq_type :: string
  rq_payload :: string
  rq_status :: "status option"
  rq_priority :: int
  rq_max_attempts :: int
  rq_not_before :: "int option"
  rq_dedup_key :: string

type_synonym table = "op list"

text \<open>What the engine answers to a statement: it ran, it gave way to another writer, or it failed.\<close>

datatype engine = Ran | Contended | Broken

definition default_max_attempts :: int where
  "default_max_attempts = 3"

definition orphan_spent :: string where
  "orphan_spent = ''interrupted: filex stopped while running it, and its attempts are spent''"

definition second_ns :: int where
  "second_ns = 1000000000"

definition ceil_second :: "int \<Rightarrow> int" where
  "ceil_second t = (let r = t div second_ns * second_ns in if r \<noteq> t then r + second_ns else t)"

definition sql_time :: "int option \<Rightarrow> int option" where
  "sql_time t = map_option (\<lambda>t. ceil_second t div second_ns) t"

section \<open>Enqueue\<close>

datatype enqueued = Queued string | Duplicate | NotQueued

definition row_of :: "int \<Rightarrow> request \<Rightarrow> string \<Rightarrow> string option \<Rightarrow> op" where
  "row_of now rq oid key =
     \<lparr>op_id = oid, op_type = rq_type rq, op_payload = rq_payload rq,
      op_status = (case rq_status rq of None \<Rightarrow> StatusPending | Some s \<Rightarrow> s),
      op_priority = rq_priority rq, op_attempts = 0,
      op_max_attempts = (if rq_max_attempts rq = 0 then default_max_attempts else rq_max_attempts rq),
      op_last_error = [], op_enqueued_at = now, op_started_at = None, op_finished_at = None,
      op_not_before = sql_time (rq_not_before rq), op_dedup_key = key\<rparr>"

definition taken :: "string \<Rightarrow> table \<Rightarrow> bool" where
  "taken oid t \<longleftrightarrow> list_ex (\<lambda>p. op_id p = oid) t"

definition key_pending :: "string \<Rightarrow> table \<Rightarrow> bool" where
  "key_pending key t \<longleftrightarrow> list_ex (\<lambda>p. op_dedup_key p = Some key \<and> op_status p = StatusPending) t"

text \<open>The guarded insert is tried six times while it meets another writer.\<close>

definition settled :: "(nat \<Rightarrow> engine) \<Rightarrow> engine" where
  "settled es = (case find (\<lambda>e. e \<noteq> Contended) (map es [0..<6]) of None \<Rightarrow> Contended | Some e \<Rightarrow> e)"

definition enqueue_deduped :: "int \<Rightarrow> (nat \<Rightarrow> engine) \<Rightarrow> request \<Rightarrow> string \<Rightarrow> table \<Rightarrow> table \<times> enqueued" where
  "enqueue_deduped now es rq oid t =
     (if settled es \<noteq> Ran then (t, NotQueued)
      else if key_pending (rq_dedup_key rq) t then (t, Duplicate)
      else if taken oid t then (t, Duplicate)
      else (t @ [row_of now rq oid (Some (rq_dedup_key rq))], Queued oid))"

definition enqueue :: "int \<Rightarrow> string option \<Rightarrow> (nat \<Rightarrow> engine) \<Rightarrow> request \<Rightarrow> table \<Rightarrow> table \<times> enqueued" where
  "enqueue now fresh es rq t =
     (if rq_type rq = [] then (t, NotQueued)
      else case (if rq_id rq = [] then fresh else Some (rq_id rq)) of
        None \<Rightarrow> (t, NotQueued)
      | Some oid \<Rightarrow>
          if rq_dedup_key rq \<noteq> [] then enqueue_deduped now es rq oid t
          else if es 0 \<noteq> Ran \<or> taken oid t then (t, NotQueued)
          else (t @ [row_of now rq oid None], Queued oid))"

section \<open>Dequeue\<close>

definition eligible :: "int \<Rightarrow> string list \<Rightarrow> op \<Rightarrow> bool" where
  "eligible now types p \<longleftrightarrow> op_status p = StatusPending \<and>
     (case op_not_before p of None \<Rightarrow> True | Some b \<Rightarrow> b \<le> now) \<and>
     (types = [] \<or> op_type p \<in> set types)"

text \<open>\<open>ORDER BY priority DESC, enqueued_at ASC\<close>: the rows that may come first.\<close>

definition ahead :: "op \<Rightarrow> op \<Rightarrow> bool" where
  "ahead p q \<longleftrightarrow> op_priority q < op_priority p \<or>
     op_priority p = op_priority q \<and> op_enqueued_at p < op_enqueued_at q"

definition front :: "int \<Rightarrow> string list \<Rightarrow> table \<Rightarrow> op list" where
  "front now types t =
     (let due = filter (eligible now types) t in filter (\<lambda>p. \<not> list_ex (\<lambda>q. ahead q p) due) due)"

definition select_op :: "int \<Rightarrow> string list \<Rightarrow> nat \<Rightarrow> table \<Rightarrow> string option" where
  "select_op now types k t =
     (case front now types t of [] \<Rightarrow> None | ps \<Rightarrow> Some (op_id (ps ! (k mod length ps))))"

definition claimed :: "int \<Rightarrow> op \<Rightarrow> op" where
  "claimed now p = p\<lparr>op_status := StatusRunning, op_started_at := Some now, op_attempts := op_attempts p + 1,
     op_dedup_key := None\<rparr>"

text \<open>An UPDATE: every row the condition holds of.\<close>

definition update_where :: "(op \<Rightarrow> bool) \<Rightarrow> (op \<Rightarrow> op) \<Rightarrow> table \<Rightarrow> table" where
  "update_where c f t = map (\<lambda>p. if c p then f p else p) t"

definition rows_affected :: "(op \<Rightarrow> bool) \<Rightarrow> table \<Rightarrow> nat" where
  "rows_affected c t = length (filter c t)"

definition get_op :: "string \<Rightarrow> table \<Rightarrow> op option" where
  "get_op oid t = find (\<lambda>p. op_id p = oid) t"

definition claim :: "int \<Rightarrow> string \<Rightarrow> table \<Rightarrow> table \<times> op option" where
  "claim now oid t =
     (let c = (\<lambda>p. op_id p = oid \<and> op_status p = StatusPending); t' = update_where c (claimed now) t
      in if rows_affected c t = 0 then (t, None) else (t', get_op oid t'))"

section \<open>The other operations\<close>

definition ack :: "int \<Rightarrow> string \<Rightarrow> table \<Rightarrow> table \<times> bool" where
  "ack now oid t =
     (update_where (\<lambda>p. op_id p = oid)
        (\<lambda>p. p\<lparr>op_status := StatusDone, op_finished_at := Some now, op_last_error := []\<rparr>) t,
      rows_affected (\<lambda>p. op_id p = oid) t \<noteq> 0)"

definition fail :: "int \<Rightarrow> string \<Rightarrow> string \<Rightarrow> bool \<Rightarrow> table \<Rightarrow> table" where
  "fail now oid msg retry t =
     (if retry then
        update_where (\<lambda>p. op_id p = oid)
          (\<lambda>p. p\<lparr>op_status := StatusPending, op_last_error := msg, op_started_at := None, op_finished_at := None,
             op_not_before := Some (now + 30)\<rparr>) t
      else
        update_where (\<lambda>p. op_id p = oid)
          (\<lambda>p. p\<lparr>op_status := StatusFailed, op_last_error := msg, op_started_at := None, op_finished_at := Some now\<rparr>) t)"

datatype changed = Changed | NotFound | WrongStatus status

definition cancel :: "int \<Rightarrow> string \<Rightarrow> table \<Rightarrow> table \<times> changed" where
  "cancel now oid t =
     (let c = (\<lambda>p. op_id p = oid \<and> op_status p = StatusPending) in
      (update_where c (\<lambda>p. p\<lparr>op_status := StatusCancelled, op_finished_at := Some now\<rparr>) t,
       if rows_affected c t \<noteq> 0 then Changed
       else case get_op oid t of None \<Rightarrow> NotFound | Some p \<Rightarrow> WrongStatus (op_status p)))"

definition retry_op :: "string \<Rightarrow> table \<Rightarrow> table \<times> changed" where
  "retry_op oid t =
     (let c = (\<lambda>p. op_id p = oid \<and> op_status p = StatusFailed) in
      (update_where c (\<lambda>p. p\<lparr>op_status := StatusPending, op_started_at := None, op_finished_at := None,
         op_last_error := [], op_not_before := None\<rparr>) t,
       if rows_affected c t \<noteq> 0 then Changed else NotFound))"

definition orphan :: "int \<Rightarrow> int \<Rightarrow> op \<Rightarrow> bool" where
  "orphan now older_than p \<longleftrightarrow> op_status p = StatusRunning \<and>
     (case op_started_at p of None \<Rightarrow> True | Some s \<Rightarrow> s \<le> now - max 0 (older_than div second_ns))"

definition spent :: "op \<Rightarrow> bool" where
  "spent p \<longleftrightarrow> 0 < op_max_attempts p \<and> op_max_attempts p \<le> op_attempts p"

definition recover_orphans :: "int \<Rightarrow> int \<Rightarrow> table \<Rightarrow> table \<times> nat" where
  "recover_orphans now older_than t =
     (let c = (\<lambda>p. orphan now older_than p \<and> spent p);
          t1 = update_where c (\<lambda>p. p\<lparr>op_status := StatusFailed, op_last_error := orphan_spent, op_started_at := None,
                 op_finished_at := Some now\<rparr>) t;
          t2 = update_where (orphan now older_than) (\<lambda>p. p\<lparr>op_status := StatusPending, op_started_at := None\<rparr>) t1
      in (t2, rows_affected c t + rows_affected (orphan now older_than) t1))"

definition list_ops :: "status option \<Rightarrow> int \<Rightarrow> int \<Rightarrow> table \<Rightarrow> op list \<times> nat" where
  "list_ops st limit offset t =
     (let n = (if limit \<le> 0 \<or> 500 < limit then 100 else limit); k = max 0 offset;
          rows = filter (\<lambda>p. case st of None \<Rightarrow> True | Some s \<Rightarrow> op_status p = s) t
      in (List.take (nat n) (drop (nat k) (stable_sort (\<lambda>p q. op_enqueued_at q < op_enqueued_at p) rows)), length rows))"

record stats =
  st_pending :: nat
  st_running :: nat
  st_failed :: nat
  st_done24h :: nat
  st_cancelled :: nat

definition stats_of :: "int \<Rightarrow> table \<Rightarrow> stats" where
  "stats_of now t =
     (let n = (\<lambda>s. rows_affected (\<lambda>p. op_status p = s) t) in
      \<lparr>st_pending = n StatusPending, st_running = n StatusRunning, st_failed = n StatusFailed,
       st_done24h = rows_affected (\<lambda>p. op_status p = StatusDone \<and>
         (case op_finished_at p of None \<Rightarrow> False | Some f \<Rightarrow> now - 24 * 60 * 60 \<le> f)) t,
       st_cancelled = n StatusCancelled\<rparr>)"

section \<open>The pool of workers\<close>

text \<open>
  A worker polls, has picked a row it has not claimed yet, or runs a handler on the operation the claim
  read back. The pool's table of handlers is fixed; \<open>pl_types\<close> are the types it holds one for.
\<close>

datatype wstate = Polling | Picked string | Working op

record worker =
  wk_state :: wstate
  wk_backoff :: int

record pool =
  pl_types :: "string list"
  pl_poll :: int
  pl_max_backoff :: int

record system =
  sy_table :: table
  sy_workers :: "worker list"

definition next_backoff :: "int \<Rightarrow> int \<Rightarrow> int" where
  "next_backoff d m = (if d * 2 > m then m else d * 2)"

definition worker_at :: "nat \<Rightarrow> system \<Rightarrow> wstate option" where
  "worker_at w sy = (if w < length (sy_workers sy) then Some (wk_state (sy_workers sy ! w)) else None)"

definition set_worker :: "nat \<Rightarrow> wstate \<Rightarrow> int \<Rightarrow> system \<Rightarrow> system" where
  "set_worker w st b sy = sy\<lparr>sy_workers := (sy_workers sy)[w := \<lparr>wk_state = st, wk_backoff = b\<rparr>]\<rparr>"

definition wait_error :: "pool \<Rightarrow> nat \<Rightarrow> system \<Rightarrow> system" where
  "wait_error pl w sy = set_worker w Polling (next_backoff (wk_backoff (sy_workers sy ! w)) (pl_max_backoff pl)) sy"

definition pick_step :: "pool \<Rightarrow> nat \<Rightarrow> int \<Rightarrow> nat \<Rightarrow> engine \<Rightarrow> system \<Rightarrow> system" where
  "pick_step pl w now k e sy =
     (case worker_at w sy of
        Some Polling \<Rightarrow>
          if e \<noteq> Ran then wait_error pl w sy
          else (case select_op now (pl_types pl) k (sy_table sy) of
                  None \<Rightarrow> set_worker w Polling (pl_poll pl) sy
                | Some oid \<Rightarrow> set_worker w (Picked oid) (wk_backoff (sy_workers sy ! w)) sy)
      | _ \<Rightarrow> sy)"

definition claim_step :: "pool \<Rightarrow> nat \<Rightarrow> int \<Rightarrow> engine \<Rightarrow> system \<Rightarrow> system" where
  "claim_step pl w now e sy =
     (case worker_at w sy of
        Some (Picked oid) \<Rightarrow>
          (case e of
             Broken \<Rightarrow> wait_error pl w sy
           | Contended \<Rightarrow> set_worker w Polling (pl_poll pl) sy
           | Ran \<Rightarrow>
               (case claim now oid (sy_table sy) of
                  (t, None) \<Rightarrow> set_worker w Polling (pl_poll pl) sy
                | (t, Some p) \<Rightarrow> set_worker w (Working p) (pl_poll pl) (sy\<lparr>sy_table := t\<rparr>)))
      | _ \<Rightarrow> sy)"

text \<open>The handler's end: what it returned, and whether the statement that records it ran.\<close>

definition finish_step :: "pool \<Rightarrow> nat \<Rightarrow> int \<Rightarrow> string option \<Rightarrow> engine \<Rightarrow> system \<Rightarrow> system" where
  "finish_step pl w now err e sy =
     (case worker_at w sy of
        Some (Working p) \<Rightarrow>
          set_worker w Polling (wk_backoff (sy_workers sy ! w))
            (if e \<noteq> Ran then sy
             else if op_type p \<notin> set (pl_types pl) then
               sy\<lparr>sy_table := fail now (op_id p) (''no handler for type '' @ op_type p) False (sy_table sy)\<rparr>
             else case err of
               None \<Rightarrow> sy\<lparr>sy_table := fst (ack now (op_id p) (sy_table sy))\<rparr>
             | Some msg \<Rightarrow>
                 sy\<lparr>sy_table := fail now (op_id p) msg (op_attempts p < op_max_attempts p) (sy_table sy)\<rparr>)
      | _ \<Rightarrow> sy)"

datatype act =
    ActPick nat int nat engine
  | ActClaim nat int engine
  | ActFinish nat int "string option" engine
  | ActEnqueue int "string option" "nat \<Rightarrow> engine" request
  | ActCancel int string
  | ActRetry string

fun act_step :: "pool \<Rightarrow> act \<Rightarrow> system \<Rightarrow> system" where
  "act_step pl (ActPick w now k e) sy = pick_step pl w now k e sy"
| "act_step pl (ActClaim w now e) sy = claim_step pl w now e sy"
| "act_step pl (ActFinish w now err e) sy = finish_step pl w now err e sy"
| "act_step pl (ActEnqueue now fresh es rq) sy = sy\<lparr>sy_table := fst (enqueue now fresh es rq (sy_table sy))\<rparr>"
| "act_step pl (ActCancel now oid) sy = sy\<lparr>sy_table := fst (cancel now oid (sy_table sy))\<rparr>"
| "act_step pl (ActRetry oid) sy = sy\<lparr>sy_table := fst (retry_op oid (sy_table sy))\<rparr>"

primrec run_pool :: "pool \<Rightarrow> act list \<Rightarrow> system \<Rightarrow> system" where
  "run_pool pl [] sy = sy"
| "run_pool pl (a # as) sy = run_pool pl as (act_step pl a sy)"

text \<open>The server's start: what a crash left running is recovered once, then the workers start polling.\<close>

definition boot_age :: int where
  "boot_age = 5 * 60 * second_ns"

definition boot :: "pool \<Rightarrow> nat \<Rightarrow> int \<Rightarrow> table \<Rightarrow> system" where
  "boot pl n now t =
     \<lparr>sy_table = fst (recover_orphans now boot_age t),
      sy_workers = replicate (if n < 1 then 1 else n) \<lparr>wk_state = Polling, wk_backoff = pl_poll pl\<rparr>\<rparr>"

end
