(* ===== verification/QueueRules.thy ===== *)
theory QueueRules
  imports Queue
begin

text \<open>
  What the queue promises: one pending operation for a key, the best placed operation first and never
  before its time, one worker for an operation, and no more runs of it than its attempts allow.
\<close>

section \<open>Updates\<close>

named_theorems table_simps

lemma update_ids [table_simps]: "(\<And>p. op_id (f p) = op_id p) \<Longrightarrow> map op_id (update_where c f t) = map op_id t"
  by (simp add: update_where_def)

lemma set_update_where: "set (update_where c f t) = {f p | p. p \<in> set t \<and> c p} \<union> {p \<in> set t. \<not> c p}"
  by (auto simp: update_where_def)

lemma rows_affected_0: "rows_affected c t = 0 \<longleftrightarrow> (\<forall>p \<in> set t. \<not> c p)"
  by (simp add: rows_affected_def filter_empty_conv)

lemma taken_iff: "taken oid t \<longleftrightarrow> oid \<in> op_id ` set t"
  by (auto simp: taken_def list_ex_iff)

lemma distinct_row: "distinct (map op_id t) \<Longrightarrow> p \<in> set t \<Longrightarrow> q \<in> set t \<Longrightarrow> op_id p = op_id q \<Longrightarrow> p = q"
  by (simp add: distinct_map inj_on_def)

lemma get_op_Some: "distinct (map op_id t) \<Longrightarrow> p \<in> set t \<Longrightarrow> op_id p = oid \<Longrightarrow> get_op oid t = Some p"
  by (induction t) (auto simp: get_op_def)

lemma get_op_None: "get_op oid t = None \<longleftrightarrow> \<not> taken oid t"
  by (auto simp: get_op_def taken_iff find_None_iff)

lemma get_op_mem: "get_op oid t = Some p \<Longrightarrow> p \<in> set t \<and> op_id p = oid"
  by (auto simp: get_op_def find_Some_iff)

section \<open>The table\<close>

definition ops_ok :: "table \<Rightarrow> bool" where
  "ops_ok t \<longleftrightarrow> distinct (map op_id t) \<and>
     (\<forall>p \<in> set t. op_dedup_key p \<noteq> None \<longrightarrow> op_status p \<in> {StatusPending, StatusCancelled}) \<and>
     (\<forall>p \<in> set t. \<forall>q \<in> set t. op_status p = StatusPending \<longrightarrow> op_status q = StatusPending \<longrightarrow>
        op_dedup_key p \<noteq> None \<longrightarrow> op_dedup_key p = op_dedup_key q \<longrightarrow> p = q)"

lemma ops_okI:
  assumes "distinct (map op_id t)"
    and "\<And>p. p \<in> set t \<Longrightarrow> op_dedup_key p \<noteq> None \<Longrightarrow> op_status p \<in> {StatusPending, StatusCancelled}"
    and "\<And>p q. p \<in> set t \<Longrightarrow> q \<in> set t \<Longrightarrow> op_status p = StatusPending \<Longrightarrow> op_status q = StatusPending \<Longrightarrow>
       op_dedup_key p \<noteq> None \<Longrightarrow> op_dedup_key p = op_dedup_key q \<Longrightarrow> p = q"
  shows "ops_ok t"
  unfolding ops_ok_def using assms by blast

text \<open>An update keeps the table in order when no row it changes comes out pending with a key.\<close>

lemma update_ok:
  assumes "ops_ok t" and "\<And>p. op_id (f p) = op_id p"
    and "\<And>p. p \<in> set t \<Longrightarrow> c p \<Longrightarrow> op_dedup_key (f p) = None \<or> op_status (f p) = StatusCancelled"
  shows "ops_ok (update_where c f t)"
proof -
  have old: "p \<in> set t" if "p \<in> set (update_where c f t)" "op_dedup_key p \<noteq> None" "op_status p \<noteq> StatusCancelled" for p
    using that assms(3) unfolding set_update_where by force
  have t: "distinct (map op_id t)"
    "\<And>p. p \<in> set t \<Longrightarrow> op_dedup_key p \<noteq> None \<Longrightarrow> op_status p \<in> {StatusPending, StatusCancelled}"
    "\<And>p q. p \<in> set t \<Longrightarrow> q \<in> set t \<Longrightarrow> op_status p = StatusPending \<Longrightarrow> op_status q = StatusPending \<Longrightarrow>
       op_dedup_key p \<noteq> None \<Longrightarrow> op_dedup_key p = op_dedup_key q \<Longrightarrow> p = q"
    using assms(1) by (simp_all add: ops_ok_def)
  have "op_status p \<in> {StatusPending, StatusCancelled}" if "p \<in> set (update_where c f t)" "op_dedup_key p \<noteq> None" for p
    using t(2) [OF old [OF that]] that(2) by (cases "op_status p = StatusCancelled") blast+
  moreover have "p = q" if "p \<in> set (update_where c f t)" "q \<in> set (update_where c f t)" "op_status p = StatusPending"
      "op_status q = StatusPending" "op_dedup_key p \<noteq> None" "op_dedup_key p = op_dedup_key q" for p q
    using t(3) [OF old [OF that(1)] old [OF that(2)]] that(3-6) by simp
  ultimately show ?thesis using t(1) assms(2) by (intro ops_okI) (simp_all add: update_ids)
qed

lemma running_key: "ops_ok t \<Longrightarrow> p \<in> set t \<Longrightarrow> op_status p = StatusRunning \<Longrightarrow> op_dedup_key p = None"
  by (metis insertE singletonD status.distinct(1) status.distinct(13) ops_ok_def)

lemma claim_ok: "ops_ok t \<Longrightarrow> ops_ok (fst (claim now oid t))"
  by (auto simp: claim_def Let_def claimed_def intro!: update_ok)

lemma ack_ok:
  assumes "ops_ok t" "\<And>p. p \<in> set t \<Longrightarrow> op_id p = oid \<Longrightarrow> op_status p = StatusRunning"
  shows "ops_ok (fst (ack now oid t))"
  unfolding ack_def fst_conv using assms running_key by (intro update_ok) auto

lemma fail_ok:
  assumes "ops_ok t" "\<And>p. p \<in> set t \<Longrightarrow> op_id p = oid \<Longrightarrow> op_status p = StatusRunning"
  shows "ops_ok (fail now oid msg retry t)"
  unfolding fail_def using assms running_key by (cases retry) (auto intro!: update_ok)

lemma cancel_ok: "ops_ok t \<Longrightarrow> ops_ok (fst (cancel now oid t))"
  by (auto simp: cancel_def Let_def intro!: update_ok)

lemma failed_key: "ops_ok t \<Longrightarrow> p \<in> set t \<Longrightarrow> op_status p = StatusFailed \<Longrightarrow> op_dedup_key p = None"
  by (metis insertE singletonD status.distinct ops_ok_def)

lemma retry_ok: "ops_ok t \<Longrightarrow> ops_ok (fst (retry_op oid t))"
  unfolding retry_op_def Let_def fst_conv using failed_key by (intro update_ok) auto

lemma recover_ok: "ops_ok t \<Longrightarrow> ops_ok (fst (recover_orphans now age t))"
  unfolding recover_orphans_def Let_def fst_conv
  by (rule update_ok, rule update_ok) (auto simp: orphan_def set_update_where dest: running_key)

definition plain_request :: "request \<Rightarrow> bool" where
  "plain_request rq \<longleftrightarrow> rq_status rq \<in> {None, Some StatusPending}"

lemma enqueue_cases:
  assumes "plain_request rq"
  obtains "fst (enqueue now fresh es rq t) = t"
  | oid key where "fst (enqueue now fresh es rq t) = t @ [row_of now rq oid key]" "\<not> taken oid t"
      "\<And>k. key = Some k \<Longrightarrow> \<not> key_pending k t"
  by (cases "rq_type rq = []"; cases "if rq_id rq = [] then fresh else Some (rq_id rq)";
      fastforce simp: enqueue_def enqueue_deduped_def split: if_splits)

lemma row_of_simps [simp]:
  "op_id (row_of now rq oid key) = oid" "op_dedup_key (row_of now rq oid key) = key"
  "op_attempts (row_of now rq oid key) = 0"
  by (simp_all add: row_of_def)

lemma row_of_pending: "plain_request rq \<Longrightarrow> op_status (row_of now rq oid key) = StatusPending"
  by (auto simp: row_of_def plain_request_def)

lemma enqueue_ok:
  assumes "ops_ok t" "plain_request rq" shows "ops_ok (fst (enqueue now fresh es rq t))"
proof (rule enqueue_cases [OF assms(2), of now fresh es t])
  fix oid key
  assume e: "fst (enqueue now fresh es rq t) = t @ [row_of now rq oid key]" "\<not> taken oid t"
    and k: "\<And>k. key = Some k \<Longrightarrow> \<not> key_pending k t"
  let ?r = "row_of now rq oid key"
  have free: "\<not> (op_status p = StatusPending \<and> op_dedup_key p = key)" if "p \<in> set t" "key \<noteq> None" for p
    using k that by (auto simp: key_pending_def list_ex_iff)
  have t: "distinct (map op_id t)"
    "\<And>p. p \<in> set t \<Longrightarrow> op_dedup_key p \<noteq> None \<Longrightarrow> op_status p \<in> {StatusPending, StatusCancelled}"
    "\<And>p q. p \<in> set t \<Longrightarrow> q \<in> set t \<Longrightarrow> op_status p = StatusPending \<Longrightarrow> op_status q = StatusPending \<Longrightarrow>
       op_dedup_key p \<noteq> None \<Longrightarrow> op_dedup_key p = op_dedup_key q \<Longrightarrow> p = q"
    using assms(1) by (simp_all add: ops_ok_def)
  have "p = q" if "p \<in> set (t @ [?r])" "q \<in> set (t @ [?r])" "op_status p = StatusPending" "op_status q = StatusPending"
      "op_dedup_key p \<noteq> None" "op_dedup_key p = op_dedup_key q" for p q
    using that t(3) [of p q] free [of p] free [of q] by auto
  moreover have "op_status p \<in> {StatusPending, StatusCancelled}" if "p \<in> set (t @ [?r])" "op_dedup_key p \<noteq> None" for p
    using that t(2) [of p] row_of_pending [OF assms(2), of now oid key] by auto
  moreover have "distinct (map op_id (t @ [?r]))" using t(1) e(2) by (simp add: taken_iff)
  ultimately show ?thesis unfolding e(1) by (intro ops_okI)
qed (use assms in simp)

section \<open>Workers\<close>

definition holds :: "table \<Rightarrow> op \<Rightarrow> bool" where
  "holds t p \<longleftrightarrow> (\<exists>r \<in> set t. op_id r = op_id p \<and> op_status r = StatusRunning \<and> op_attempts r = op_attempts p \<and>
     op_max_attempts r = op_max_attempts p)"

definition sys_ok :: "system \<Rightarrow> bool" where
  "sys_ok sy \<longleftrightarrow> ops_ok (sy_table sy) \<and>
     (\<forall>w p. worker_at w sy = Some (Working p) \<longrightarrow> holds (sy_table sy) p) \<and>
     (\<forall>v w p q. worker_at v sy = Some (Working p) \<longrightarrow> worker_at w sy = Some (Working q) \<longrightarrow>
        op_id p = op_id q \<longrightarrow> v = w)"

lemma sys_okI:
  assumes "ops_ok (sy_table sy)" and "\<And>w p. worker_at w sy = Some (Working p) \<Longrightarrow> holds (sy_table sy) p"
    and "\<And>v w p q. worker_at v sy = Some (Working p) \<Longrightarrow> worker_at w sy = Some (Working q) \<Longrightarrow> op_id p = op_id q \<Longrightarrow> v = w"
  shows "sys_ok sy"
  unfolding sys_ok_def using assms by blast

lemma sys_okD:
  assumes "sys_ok sy"
  shows "ops_ok (sy_table sy)" and "worker_at w sy = Some (Working p) \<Longrightarrow> holds (sy_table sy) p"
    and "worker_at v sy = Some (Working p) \<Longrightarrow> worker_at w sy = Some (Working q) \<Longrightarrow> op_id p = op_id q \<Longrightarrow> v = w"
  using assms unfolding sys_ok_def by blast+

lemma worker_at_set [simp]:
  "worker_at v (set_worker w st b sy) = (if v = w \<and> w < length (sy_workers sy) then Some st else worker_at v sy)"
  by (simp add: worker_at_def set_worker_def)

lemma worker_at_table [simp]: "worker_at v (sy\<lparr>sy_table := t\<rparr>) = worker_at v sy"
  by (simp add: worker_at_def)

lemma set_worker_table [simp]: "sy_table (set_worker w st b sy) = sy_table sy" "sy_table (wait_error pl w sy) = sy_table sy"
  by (simp_all add: set_worker_def wait_error_def)

lemma worker_at_length: "worker_at w sy = Some st \<Longrightarrow> w < length (sy_workers sy)"
  by (simp add: worker_at_def split: if_splits)

text \<open>A worker that does not work, and a table whose running rows stay.\<close>

lemma sys_ok_rest:
  assumes "sys_ok sy" "\<And>p. st \<noteq> Working p" shows "sys_ok (set_worker w st b sy)"
proof (rule sys_okI)
  show "ops_ok (sy_table (set_worker w st b sy))" using sys_okD(1) [OF assms(1)] by simp
  show "holds (sy_table (set_worker w st b sy)) p" if "worker_at v (set_worker w st b sy) = Some (Working p)" for v p
    using that assms(2) sys_okD(2) [OF assms(1), of v p] by (simp split: if_splits)
  show "u = v" if "worker_at u (set_worker w st b sy) = Some (Working p)" "worker_at v (set_worker w st b sy) = Some (Working q)"
    "op_id p = op_id q" for u v p q
    using that assms(2) sys_okD(3) [OF assms(1), of u p v q] by (simp split: if_splits)
qed

lemma sys_ok_table:
  assumes "sys_ok sy" "ops_ok t" "\<And>w p. worker_at w sy = Some (Working p) \<Longrightarrow> holds t p"
  shows "sys_ok (sy\<lparr>sy_table := t\<rparr>)"
  using assms sys_okD(3) [OF assms(1)] by (intro sys_okI) auto

lemma holds_update:
  assumes "holds t p" "\<And>r. r \<in> set t \<Longrightarrow> op_id r = op_id p \<Longrightarrow> op_status r = StatusRunning \<Longrightarrow> \<not> c r"
  shows "holds (update_where c f t) p"
  using assms unfolding holds_def set_update_where by blast

lemma holds_running:
  assumes "ops_ok t" "holds t p" "r \<in> set t" "op_id r = op_id p"
  shows "op_status r = StatusRunning \<and> op_attempts r = op_attempts p \<and> op_max_attempts r = op_max_attempts p"
  using assms distinct_row unfolding ops_ok_def holds_def by metis

lemma get_op_update:
  assumes "\<And>p. op_id (f p) = op_id p"
  shows "get_op oid (update_where c f t) = map_option (\<lambda>p. if c p then f p else p) (get_op oid t)"
  by (induction t) (auto simp: get_op_def update_where_def assms)

lemma claim_Some:
  assumes "ops_ok t" "claim now oid t = (t', Some p)"
  obtains r where "r \<in> set t" "op_id r = oid" "op_status r = StatusPending" "p = claimed now r"
    "get_op oid t = Some r" "get_op oid t' = Some p" "ops_ok t'" "\<And>q. op_id q \<noteq> oid \<Longrightarrow> holds t q \<Longrightarrow> holds t' q"
    "\<And>i. i \<noteq> oid \<Longrightarrow> get_op i t' = get_op i t"
proof -
  let ?c = "\<lambda>p. op_id p = oid \<and> op_status p = StatusPending"
  have t': "t' = update_where ?c (claimed now) t" "rows_affected ?c t \<noteq> 0" "get_op oid t' = Some p"
    using assms(2) by (auto simp: claim_def Let_def split: if_splits)
  have ids: "op_id (claimed now q) = op_id q" for q by (simp add: claimed_def)
  obtain r where r: "r \<in> set t" "op_id r = oid" "op_status r = StatusPending"
    using t'(2) by (auto simp: rows_affected_0)
  have g: "get_op oid t = Some r" using assms(1) r by (simp add: get_op_Some ops_ok_def)
  moreover have "p = claimed now r" using t'(3) g r unfolding t'(1) get_op_update [OF ids] by simp
  moreover have "holds t' q" if "op_id q \<noteq> oid" "holds t q" for q
    unfolding t'(1) using that by (intro holds_update) auto
  moreover have "get_op i t' = get_op i t" if "i \<noteq> oid" for i
    using that get_op_mem [of i t] unfolding t'(1) get_op_update [OF ids] by (cases "get_op i t") auto
  moreover have "ops_ok t'" using claim_ok [OF assms(1), of now oid] assms(2) by simp
  ultimately show ?thesis using that r t'(3) by metis
qed

lemma pick_ok: "sys_ok sy \<Longrightarrow> sys_ok (pick_step pl w now k e sy)"
  by (auto simp: pick_step_def wait_error_def intro!: sys_ok_rest split: option.split wstate.split)

lemma claim_step_ok:
  assumes "sys_ok sy" shows "sys_ok (claim_step pl w now e sy)"
proof (cases "worker_at w sy")
  case (Some st)
  show ?thesis
  proof (cases st)
    case (Picked oid)
    show ?thesis
    proof (cases "e = Ran")
      case True
      obtain t o' where c: "claim now oid (sy_table sy) = (t, o')" by fastforce
      show ?thesis
      proof (cases o')
        case (Some p)
        note ok = sys_okD [OF assms]
        obtain r where r: "r \<in> set (sy_table sy)" "op_id r = oid" "op_status r = StatusPending" "p = claimed now r"
          "get_op oid (sy_table sy) = Some r" "get_op oid t = Some p" "ops_ok t"
          "\<And>q. op_id q \<noteq> oid \<Longrightarrow> holds (sy_table sy) q \<Longrightarrow> holds t q"
          using claim_Some [OF ok(1) c [unfolded Some]] by metis
        have other: "op_id q \<noteq> oid" if "worker_at v sy = Some (Working q)" for v q
          using holds_running [OF ok(1) ok(2) [OF that] r(1)] r(2,3) by auto
        have p: "op_id p = oid" "holds t p"
          using r(2,4) get_op_mem [OF r(6)] unfolding holds_def by (simp add: claimed_def, intro bexI [of _ p]) (simp_all add: claimed_def)
        have "sys_ok (set_worker w (Working p) (pl_poll pl) (sy\<lparr>sy_table := t\<rparr>))"
        proof (rule sys_okI)
          show "holds (sy_table (set_worker w (Working p) (pl_poll pl) (sy\<lparr>sy_table := t\<rparr>))) q"
            if "worker_at v (set_worker w (Working p) (pl_poll pl) (sy\<lparr>sy_table := t\<rparr>)) = Some (Working q)" for v q
            using that p(2) other [of v q] r(8) [OF _ ok(2), of q v] by (auto split: if_splits)
          show "u = v" if "worker_at u (set_worker w (Working p) (pl_poll pl) (sy\<lparr>sy_table := t\<rparr>)) = Some (Working q)"
            "worker_at v (set_worker w (Working p) (pl_poll pl) (sy\<lparr>sy_table := t\<rparr>)) = Some (Working q')"
            "op_id q = op_id q'" for u v q q'
            using that p(1) other ok(3) [of u q v q'] by (auto split: if_splits)
        qed (use r(7) in simp)
        then show ?thesis using \<open>worker_at w sy = Some st\<close> Picked True c Some by (simp add: claim_step_def)
      qed (use Some Picked True c assms in \<open>simp add: claim_step_def sys_ok_rest\<close>)
    qed (use Some Picked assms in \<open>auto simp: claim_step_def wait_error_def intro: sys_ok_rest split: engine.split\<close>)
  qed (use Some assms in \<open>simp_all add: claim_step_def\<close>)
qed (use assms in \<open>simp add: claim_step_def\<close>)

definition kept_by :: "(table \<Rightarrow> table) \<Rightarrow> string \<Rightarrow> bool" where
  "kept_by f oid \<longleftrightarrow> (\<forall>t p. op_id p \<noteq> oid \<longrightarrow> holds t p \<longrightarrow> holds (f t) p)"

lemma kept: "kept_by (\<lambda>t. fst (ack now oid t)) oid" "kept_by (fail now oid msg retry) oid"
  unfolding kept_by_def ack_def fail_def fst_conv by (auto intro!: holds_update)

lemma finish_ok:
  assumes "sys_ok sy" shows "sys_ok (finish_step pl w now err e sy)"
proof (cases "\<exists>p. worker_at w sy = Some (Working p)")
  case True
  then obtain p where p: "worker_at w sy = Some (Working p)" by blast
  note ok = sys_okD [OF assms]
  have run: "op_status r = StatusRunning" if "r \<in> set (sy_table sy)" "op_id r = op_id p" for r
    using holds_running [OF ok(1) ok(2) [OF p] that] by simp
  have *: "sys_ok (set_worker w Polling b (sy\<lparr>sy_table := f (sy_table sy)\<rparr>))"
    if f: "kept_by f (op_id p)" "ops_ok (f (sy_table sy))" for f b
  proof (rule sys_okI)
    show "ops_ok (sy_table (set_worker w Polling b (sy\<lparr>sy_table := f (sy_table sy)\<rparr>)))" using f(2) by simp
    show "holds (sy_table (set_worker w Polling b (sy\<lparr>sy_table := f (sy_table sy)\<rparr>))) q"
      if "worker_at v (set_worker w Polling b (sy\<lparr>sy_table := f (sy_table sy)\<rparr>)) = Some (Working q)" for v q
    proof -
      have v: "v \<noteq> w" "worker_at v sy = Some (Working q)" using that worker_at_length [OF p] by (simp_all split: if_splits)
      then have "op_id q \<noteq> op_id p" using ok(3) [OF _ p] by blast
      then show ?thesis using f(1) ok(2) [OF v(2)] by (simp add: kept_by_def)
    qed
    show "u = v" if "worker_at u (set_worker w Polling b (sy\<lparr>sy_table := f (sy_table sy)\<rparr>)) = Some (Working q)"
      "worker_at v (set_worker w Polling b (sy\<lparr>sy_table := f (sy_table sy)\<rparr>)) = Some (Working q')" "op_id q = op_id q'" for u v q q'
      using that ok(3) [of u q v q'] by (simp split: if_splits)
  qed
  have "sys_ok (set_worker w Polling b sy)" for b using assms by (intro sys_ok_rest) auto
  then show ?thesis using p * [OF kept(1) ack_ok [OF ok(1) run]] * [OF kept(2) fail_ok [OF ok(1) run]]
    by (auto simp: finish_step_def split: option.split)
next
  case False
  then show ?thesis using assms by (auto simp: finish_step_def split: option.split wstate.split)
qed

definition act_ok :: "act \<Rightarrow> bool" where
  "act_ok a \<longleftrightarrow> (case a of ActEnqueue now fresh es rq \<Rightarrow> plain_request rq | _ \<Rightarrow> True)"

lemma holds_enqueue:
  assumes "plain_request rq" "holds t p" shows "holds (fst (enqueue now fresh es rq t)) p"
  by (rule enqueue_cases [OF assms(1), of now fresh es t]) (use assms(2) in \<open>auto simp: holds_def\<close>)

lemma step_ok: "sys_ok sy \<Longrightarrow> act_ok a \<Longrightarrow> sys_ok (act_step pl a sy)"
proof (cases a)
  case (ActEnqueue now fresh es rq)
  assume "sys_ok sy" "act_ok a"
  then show ?thesis using ActEnqueue sys_okD(1,2) [of sy]
    by (auto simp: act_ok_def intro!: sys_ok_table enqueue_ok holds_enqueue)
next
  case (ActCancel now oid)
  assume "sys_ok sy"
  then show ?thesis using ActCancel sys_okD(1,2) [of sy] cancel_ok [of "sy_table sy" now oid]
    by (auto simp: cancel_def Let_def intro!: sys_ok_table holds_update)
next
  case (ActRetry oid)
  assume "sys_ok sy"
  then show ?thesis using ActRetry sys_okD(1,2) [of sy] retry_ok [of "sy_table sy" oid]
    by (auto simp: retry_op_def Let_def intro!: sys_ok_table holds_update)
qed (simp_all add: pick_ok claim_step_ok finish_ok)

lemma run_ok: "sys_ok sy \<Longrightarrow> list_all act_ok as \<Longrightarrow> sys_ok (run_pool pl as sy)"
  by (induction as arbitrary: sy) (simp_all add: step_ok)

lemma boot_ok: "ops_ok t \<Longrightarrow> sys_ok (boot pl n now t)"
  using recover_ok [of t now boot_age]
  by (intro sys_okI) (auto simp: boot_def worker_at_def split: if_splits)

section \<open>What is handed out\<close>

lemma select_Some:
  assumes "select_op now types k t = Some oid"
  obtains r where "r \<in> set t" "op_id r = oid" "eligible now types r" "\<And>q. q \<in> set t \<Longrightarrow> eligible now types q \<Longrightarrow> \<not> ahead q r"
proof -
  let ?f = "front now types t"
  have "?f \<noteq> []" "oid = op_id (?f ! (k mod length ?f))" using assms by (auto simp: select_op_def split: list.splits)
  moreover from this have "?f ! (k mod length ?f) \<in> set ?f" by (intro nth_mem) simp
  ultimately show ?thesis using that by (auto simp: front_def Let_def list_ex_iff)
qed

text \<open>The same in the words of the table: what is due, and what does not come before it.\<close>

definition due :: "int \<Rightarrow> string list \<Rightarrow> op \<Rightarrow> bool" where
  "due now types p \<longleftrightarrow> op_status p = StatusPending \<and> (\<forall>b. op_not_before p = Some b \<longrightarrow> b \<le> now) \<and>
     (types = [] \<or> op_type p \<in> set types)"

lemma due_iff: "eligible now types p \<longleftrightarrow> due now types p"
  by (auto simp: eligible_def due_def split: option.split)

lemma not_ahead: "\<not> ahead q r \<longleftrightarrow>
    op_priority q < op_priority r \<or> op_priority q = op_priority r \<and> op_enqueued_at r \<le> op_enqueued_at q"
  by (auto simp: ahead_def)

lemma ahead_trans: "ahead a b \<Longrightarrow> ahead b c \<Longrightarrow> ahead a c"
  by (auto simp: ahead_def)

lemma best_exists: "ps \<noteq> [] \<Longrightarrow> \<exists>p \<in> set ps. \<forall>q \<in> set ps. \<not> ahead q p"
proof (induction ps)
  case (Cons a ps)
  show ?case
  proof (cases "ps = []")
    case False
    then obtain p where p: "p \<in> set ps" "\<forall>q \<in> set ps. \<not> ahead q p" using Cons.IH by blast
    show ?thesis
    proof (cases "ahead a p")
      case True
      then have "\<forall>q \<in> set (a # ps). \<not> ahead q a" using p(2) ahead_trans by (auto simp: ahead_def)
      then show ?thesis by auto
    qed (use p in auto)
  qed (simp add: ahead_def)
qed simp

lemma select_None: "select_op now types k t = None \<longleftrightarrow> (\<forall>p \<in> set t. \<not> eligible now types p)"
proof
  assume "select_op now types k t = None"
  then have "front now types t = []" by (auto simp: select_op_def split: list.splits)
  then have "filter (eligible now types) t = []"
    using best_exists [of "filter (eligible now types) t"] by (auto simp: front_def Let_def list_ex_iff filter_empty_conv)
  then show "\<forall>p \<in> set t. \<not> eligible now types p" by (simp add: filter_empty_conv)
qed (simp add: select_op_def front_def)

lemma ceil_second_le: "ceil_second b div second_ns \<le> now \<Longrightarrow> b \<le> now * second_ns"
proof -
  assume a: "ceil_second b div second_ns \<le> now"
  have d: "b div second_ns * second_ns + b mod second_ns = b" "0 \<le> b mod second_ns" "b mod second_ns < second_ns"
    by (simp_all add: second_ns_def)
  have "b \<le> ceil_second b div second_ns * second_ns"
  proof (cases "b div second_ns * second_ns = b")
    case False
    then have "ceil_second b = (b div second_ns + 1) * second_ns" by (simp add: ceil_second_def Let_def algebra_simps)
    then show ?thesis using d by (simp add: second_ns_def)
  qed (simp add: ceil_second_def)
  also have "\<dots> \<le> now * second_ns" using a by (intro mult_right_mono) (simp_all add: second_ns_def)
  finally show ?thesis .
qed

section \<open>How often\<close>

text \<open>What an operation may still be run by the pool itself.\<close>

definition owed :: "op \<Rightarrow> nat" where
  "owed p = (case op_status p of
       StatusPending \<Rightarrow> max 1 (nat (op_max_attempts p - op_attempts p))
     | StatusRunning \<Rightarrow> nat (op_max_attempts p - op_attempts p)
     | _ \<Rightarrow> 0)"

definition owed_of :: "string \<Rightarrow> table \<Rightarrow> nat" where
  "owed_of oid t = (case get_op oid t of None \<Rightarrow> 0 | Some p \<Rightarrow> owed p)"

fun hands_out :: "pool \<Rightarrow> act \<Rightarrow> system \<Rightarrow> string list" where
  "hands_out pl (ActClaim w now e) sy =
     (case (worker_at w sy, worker_at w (claim_step pl w now e sy)) of
        (Some (Picked _), Some (Working p)) \<Rightarrow> [op_id p]
      | _ \<Rightarrow> [])"
| "hands_out pl _ sy = []"

primrec runs_of :: "pool \<Rightarrow> act list \<Rightarrow> system \<Rightarrow> string list" where
  "runs_of pl [] sy = []"
| "runs_of pl (a # as) sy = hands_out pl a sy @ runs_of pl as (act_step pl a sy)"

lemma get_op_ack: "get_op i (fst (ack now oid t)) =
    (if i = oid then map_option (\<lambda>p. p\<lparr>op_status := StatusDone, op_finished_at := Some now, op_last_error := []\<rparr>) (get_op i t)
     else get_op i t)"
  using get_op_mem [of i t] by (cases "get_op i t") (auto simp: ack_def get_op_update)

lemma get_op_fail_other: "i \<noteq> oid \<Longrightarrow> get_op i (fail now oid msg retry t) = get_op i t"
  using get_op_mem [of i t] by (cases "get_op i t") (auto simp: fail_def get_op_update)

lemma get_op_fail_same: "get_op oid t = Some p \<Longrightarrow> get_op oid (fail now oid msg retry t) =
    Some (if retry then p\<lparr>op_status := StatusPending, op_last_error := msg, op_started_at := None, op_finished_at := None,
             op_not_before := Some (now + 30)\<rparr>
          else p\<lparr>op_status := StatusFailed, op_last_error := msg, op_started_at := None, op_finished_at := Some now\<rparr>)"
  using get_op_mem [of oid t p] by (auto simp: fail_def get_op_update)

lemma get_op_enqueue:
  assumes "plain_request rq" "get_op i t = Some p" shows "get_op i (fst (enqueue now fresh es rq t)) = Some p"
proof -
  have app: "get_op i (t @ u) = Some p" for u using assms(2) by (induction t) (auto simp: get_op_def split: if_splits)
  show ?thesis by (rule enqueue_cases [OF assms(1), of now fresh es t]) (use assms(2) app in auto)
qed

lemma owed_claimed: "op_status r = StatusPending \<Longrightarrow> Suc (owed (claimed now r)) \<le> owed r"
  by (auto simp: owed_def claimed_def)

lemma owed_step:
  assumes ok: "sys_ok sy" and a: "act_ok a" "a \<noteq> ActRetry oid" and g: "get_op oid (sy_table sy) = Some r"
  shows "\<exists>r'. get_op oid (sy_table (act_step pl a sy)) = Some r' \<and> count_list (hands_out pl a sy) oid + owed r' \<le> owed r"
proof (cases a)
  case (ActPick w now k e)
  then show ?thesis using g by (simp add: pick_step_def split: option.split wstate.split)
next
  case (ActClaim w now e)
  show ?thesis
  proof (cases "\<exists>i t p. worker_at w sy = Some (Picked i) \<and> e = Ran \<and> claim now i (sy_table sy) = (t, Some p)")
    case True
    then obtain i t p where c: "worker_at w sy = Some (Picked i)" "e = Ran" "claim now i (sy_table sy) = (t, Some p)" by blast
    have s: "claim_step pl w now e sy = set_worker w (Working p) (pl_poll pl) (sy\<lparr>sy_table := t\<rparr>)"
      using c by (simp add: claim_step_def)
    have h: "hands_out pl a sy = [op_id p]" using c s ActClaim worker_at_length [OF c(1)] by simp
    obtain q where q: "op_id q = i" "op_status q = StatusPending" "p = claimed now q" "get_op i (sy_table sy) = Some q"
      "get_op i t = Some p" "\<And>j. j \<noteq> i \<Longrightarrow> get_op j t = get_op j (sy_table sy)"
      using claim_Some [OF sys_okD(1) [OF ok] c(3)] by metis
    have "op_id p = i" using q by (simp add: claimed_def)
    then show ?thesis using h s ActClaim g q owed_claimed [of q now] by (cases "i = oid") auto
  next
    case False
    then have "sy_table (claim_step pl w now e sy) = sy_table sy \<and> hands_out pl a sy = []"
      using ActClaim by (auto simp: claim_step_def wait_error_def split: option.split wstate.split engine.split prod.split)
    then show ?thesis using ActClaim g by simp
  qed
next
  case (ActFinish w now err e)
  show ?thesis
  proof (cases "\<exists>p. worker_at w sy = Some (Working p) \<and> e = Ran \<and> op_id p = oid")
    case True
    then obtain p where p: "worker_at w sy = Some (Working p)" "e = Ran" "op_id p = oid" by blast
    have run: "op_status r = StatusRunning" "op_attempts r = op_attempts p" "op_max_attempts r = op_max_attempts p"
      using holds_running [OF sys_okD(1) [OF ok] sys_okD(2) [OF ok p(1)]] get_op_mem [OF g] p(3) by auto
    show ?thesis using ActFinish p g run
      by (auto simp: finish_step_def get_op_ack get_op_fail_same owed_def split: option.split)
  next
    case False
    then have "get_op oid (sy_table (finish_step pl w now err e sy)) = get_op oid (sy_table sy)"
      by (auto simp: finish_step_def get_op_ack get_op_fail_other split: option.split wstate.split)
    then show ?thesis using ActFinish g by simp
  qed
next
  case (ActEnqueue now fresh es rq)
  then show ?thesis using g a(1) get_op_enqueue [of rq] by (simp add: act_ok_def)
next
  case (ActCancel now i)
  then show ?thesis using g by (auto simp: cancel_def Let_def get_op_update owed_def)
next
  case (ActRetry i)
  then have "i \<noteq> op_id r" using a(2) get_op_mem [OF g] by auto
  then show ?thesis using ActRetry g by (auto simp: retry_op_def Let_def get_op_update)
qed

lemma owed_run:
  assumes "sys_ok sy" "list_all act_ok as" "ActRetry oid \<notin> set as" "get_op oid (sy_table sy) = Some r"
  shows "count_list (runs_of pl as sy) oid \<le> owed r"
  using assms
proof (induction as arbitrary: sy r)
  case (Cons a as)
  obtain r' where r': "get_op oid (sy_table (act_step pl a sy)) = Some r'"
    "count_list (hands_out pl a sy) oid + owed r' \<le> owed r"
    using owed_step [OF Cons.prems(1) _ _ Cons.prems(4), of a pl] Cons.prems(2,3) by auto
  have "count_list (runs_of pl as (act_step pl a sy)) oid \<le> owed r'"
    using Cons.IH [OF _ _ _ r'(1)] step_ok [OF Cons.prems(1), of a pl] Cons.prems(2,3) by simp
  then show ?case using r'(2) by simp
qed simp

section \<open>Properties\<close>

text \<open>C29. The pool stops running an operation: whatever the workers, the handlers and the people at the
  queue do, an operation is handed out at most as often as its attempts still allow (once more when
  they are spent and it waits), unless somebody presses retry on it.\<close>
theorem runs_are_bounded:
  assumes "ops_ok t" and "list_all act_ok as" and "list_all act_ok bs" and "ActRetry oid \<notin> set bs"
    and "taken oid (sy_table (run_pool pl as (boot pl n now t)))"
  shows "count_list (runs_of pl bs (run_pool pl as (boot pl n now t))) oid \<le>
    owed_of oid (sy_table (run_pool pl as (boot pl n now t)))"
proof -
  have "sys_ok (run_pool pl as (boot pl n now t))" using assms by (simp add: run_ok boot_ok)
  moreover obtain r where r: "get_op oid (sy_table (run_pool pl as (boot pl n now t))) = Some r"
    using assms(5) get_op_None by fastforce
  ultimately show ?thesis using owed_run assms(3,4) by (simp add: owed_of_def)
qed

text \<open>C30. No operation is worked on twice at a time: two workers never run one operation, and the row of
  an operation a worker runs says running, with the attempt the worker was told.\<close>
theorem one_worker_per_op:
  assumes "ops_ok t" and "list_all act_ok as" and "sy = run_pool pl as (boot pl n now t)"
    and "worker_at w sy = Some (Working p)"
  shows "(\<exists>r \<in> set (sy_table sy). op_id r = op_id p \<and> op_status r = StatusRunning \<and> op_attempts r = op_attempts p) \<and>
    (\<forall>v q. v \<noteq> w \<longrightarrow> worker_at v sy = Some (Working q) \<longrightarrow> op_id q \<noteq> op_id p)"
proof -
  have ok: "sys_ok sy" using assms by (simp add: run_ok boot_ok)
  show ?thesis using sys_okD(2) [OF ok assms(4)] sys_okD(3) [OF ok _ assms(4)] unfolding holds_def by blast
qed

text \<open>A key coalesces and never loses a request: once the table has taken an operation with a key, or
  refused it as a duplicate, exactly one pending operation holds the key.\<close>
theorem one_pending_per_key:
  assumes "ops_ok t" and "list_all act_ok as" and "u = sy_table (run_pool pl as (boot pl n now t))"
    and "plain_request rq" and "rq_type rq \<noteq> []" and "rq_id rq = []" and "rq_dedup_key rq \<noteq> []"
    and "settled es = Ran" and "\<not> taken oid u"
  shows "\<exists>!p. p \<in> set (fst (enqueue now' (Some oid) es rq u)) \<and> op_status p = StatusPending \<and>
    op_dedup_key p = Some (rq_dedup_key rq)"
proof -
  let ?k = "rq_dedup_key rq"
  have "ops_ok u" using assms(1-3) sys_okD(1) [OF run_ok [OF boot_ok]] by simp
  then have "ops_ok (fst (enqueue now' (Some oid) es rq u))" using assms(4) by (rule enqueue_ok)
  moreover have e: "fst (enqueue now' (Some oid) es rq u) =
      (if key_pending ?k u then u else u @ [row_of now' rq oid (Some ?k)])"
    using assms by (simp add: enqueue_def enqueue_deduped_def)
  have "\<exists>p. p \<in> set (fst (enqueue now' (Some oid) es rq u)) \<and> op_status p = StatusPending \<and> op_dedup_key p = Some ?k"
  proof (cases "key_pending ?k u")
    case False
    then show ?thesis unfolding e using row_of_pending [OF assms(4)] by auto
  qed (use e in \<open>auto simp: key_pending_def list_ex_iff\<close>)
  ultimately show ?thesis unfolding ops_ok_def by (metis option.distinct(1))
qed

lemma polled_gets_first:
  assumes "ops_ok t" and "list_all act_ok as" and "sy = run_pool pl as (boot pl n start t)"
    and "worker_at w sy = Some Polling" and "sy' = run_pool pl [ActPick w now k Ran, ActClaim w now Ran] sy"
  shows "(worker_at w sy' = Some Polling \<and> sy_table sy' = sy_table sy \<and>
      (\<forall>p \<in> set (sy_table sy). \<not> eligible now (pl_types pl) p)) \<or>
    (\<exists>r \<in> set (sy_table sy). worker_at w sy' = Some (Working (claimed now r)) \<and> eligible now (pl_types pl) r \<and>
      (\<forall>q \<in> set (sy_table sy). eligible now (pl_types pl) q \<longrightarrow> \<not> ahead q r) \<and>
      (\<forall>rq b key since. r = row_of since rq (op_id r) key \<and> rq_not_before rq = Some b \<longrightarrow> b \<le> now * second_ns))"
proof (cases "select_op now (pl_types pl) k (sy_table sy)")
  case None
  note w = assms(4)
  from None w have "act_step pl (ActPick w now k Ran) sy = set_worker w Polling (pl_poll pl) sy" by (simp add: pick_step_def)
  moreover have "act_step pl (ActClaim w now Ran) (set_worker w Polling (pl_poll pl) sy) = set_worker w Polling (pl_poll pl) sy"
    using worker_at_length [OF w] by (simp add: claim_step_def)
  ultimately show ?thesis using assms(5) worker_at_length [OF w] None [unfolded select_None] by simp
next
  case (Some oid)
  have ok: "sys_ok sy" using assms by (simp add: run_ok boot_ok)
  obtain r where r: "r \<in> set (sy_table sy)" "op_id r = oid" "eligible now (pl_types pl) r"
    "\<And>q. q \<in> set (sy_table sy) \<Longrightarrow> eligible now (pl_types pl) q \<Longrightarrow> \<not> ahead q r"
    using select_Some [OF Some] by blast
  let ?c = "\<lambda>p. op_id p = oid \<and> op_status p = StatusPending"
  have p: "op_status r = StatusPending" using r(3) by (simp add: eligible_def)
  then have n: "rows_affected ?c (sy_table sy) \<noteq> 0" using r by (auto simp: rows_affected_0)
  have g: "get_op oid (sy_table sy) = Some r" using sys_okD(1) [OF ok] r get_op_Some by (simp add: ops_ok_def)
  have "get_op oid (update_where ?c (claimed now) (sy_table sy)) = Some (claimed now r)"
    using g p r(2) by (subst get_op_update) (simp_all add: claimed_def)
  then have c: "claim now oid (sy_table sy) = (update_where ?c (claimed now) (sy_table sy), Some (claimed now r))"
    using n by (simp add: claim_def Let_def)
  let ?sy = "set_worker w (Picked oid) (wk_backoff (sy_workers sy ! w)) sy"
  have "act_step pl (ActPick w now k Ran) sy = ?sy" using assms(4) Some by (simp add: pick_step_def)
  moreover have "worker_at w (act_step pl (ActClaim w now Ran) ?sy) = Some (Working (claimed now r))"
    using worker_at_length [OF assms(4)] c by (simp add: claim_step_def) (simp add: set_worker_def)
  ultimately have "worker_at w sy' = Some (Working (claimed now r))" using assms(5) by simp
  moreover have "b \<le> now * second_ns" if "r = row_of since rq (op_id r) key" "rq_not_before rq = Some b" for rq b key since
  proof -
    have "op_not_before r = Some (ceil_second b div second_ns)" using that by (metis op.select_convs(12) option.simps(9) row_of_def sql_time_def)
    then show ?thesis using r(3) by (intro ceil_second_le) (simp add: eligible_def)
  qed
  ultimately show ?thesis using r by blast
qed

text \<open>A worker that polls gets the operation that is its turn: a pending one whose time has come, of a
  type the pool runs, with none of a higher priority and none older of the same priority - and it comes
  back empty only when there is none. An operation is never handed out before the time its request set.\<close>
theorem best_op_first:
  assumes "ops_ok t" and "list_all act_ok as" and "sy = run_pool pl as (boot pl n start t)"
    and "worker_at w sy = Some Polling" and "sy' = run_pool pl [ActPick w now k Ran, ActClaim w now Ran] sy"
  shows "(worker_at w sy' = Some Polling \<and> sy_table sy' = sy_table sy \<and>
      (\<forall>p \<in> set (sy_table sy). \<not> due now (pl_types pl) p)) \<or>
    (\<exists>r \<in> set (sy_table sy). worker_at w sy' = Some (Working (claimed now r)) \<and> due now (pl_types pl) r \<and>
      (\<forall>q \<in> set (sy_table sy). due now (pl_types pl) q \<longrightarrow>
        op_priority q < op_priority r \<or> op_priority q = op_priority r \<and> op_enqueued_at r \<le> op_enqueued_at q) \<and>
      (\<forall>rq b key since. r = row_of since rq (op_id r) key \<and> rq_not_before rq = Some b \<longrightarrow> b \<le> now * second_ns))"
  using polled_gets_first [OF assms, unfolded due_iff not_ahead] .

text \<open>
  The start recovers what has run for five minutes and nothing younger, and it is the only recovery: an
  operation that was handed out less than five minutes before the process died stays \<open>running\<close> for as
  long as the next one lives, and no worker is given it.
\<close>

definition stranded :: "op \<Rightarrow> system \<Rightarrow> bool" where
  "stranded r sy \<longleftrightarrow> sys_ok sy \<and> r \<in> set (sy_table sy) \<and> op_status r = StatusRunning \<and>
     (\<forall>w p. worker_at w sy = Some (Working p) \<longrightarrow> op_id p \<noteq> op_id r)"

lemma stays_update: "r \<in> set t \<Longrightarrow> \<not> c r \<Longrightarrow> r \<in> set (update_where c f t)"
  unfolding set_update_where by blast

lemma stranded_step:
  assumes "stranded r sy" "act_ok a"
  shows "stranded r (act_step pl a sy) \<and> op_id r \<notin> set (hands_out pl a sy)"
proof -
  have ok: "sys_ok sy" and r: "r \<in> set (sy_table sy)" "op_status r = StatusRunning"
    and no: "\<And>w p. worker_at w sy = Some (Working p) \<Longrightarrow> op_id p \<noteq> op_id r"
    using assms(1) unfolding stranded_def by blast+
  have next_ok: "sys_ok (act_step pl a sy)" using ok assms(2) by (rule step_ok)
  have "r \<in> set (sy_table (act_step pl a sy)) \<and> (\<forall>w p. worker_at w (act_step pl a sy) = Some (Working p) \<longrightarrow> op_id p \<noteq> op_id r) \<and>
    op_id r \<notin> set (hands_out pl a sy)"
  proof (cases a)
    case (ActPick w now k e)
    then show ?thesis using r no
      by (auto simp: pick_step_def wait_error_def split: option.splits wstate.splits if_splits)
  next
    case (ActClaim w now e)
    have c: "fst (claim now i (sy_table sy)) = update_where (\<lambda>p. op_id p = i \<and> op_status p = StatusPending) (claimed now) (sy_table sy) \<or>
      fst (claim now i (sy_table sy)) = sy_table sy" for i by (auto simp: claim_def Let_def)
    have t: "r \<in> set (fst (claim now i (sy_table sy)))" for i
      using c [of i] stays_update [OF r(1), of "\<lambda>p. op_id p = i \<and> op_status p = StatusPending" "claimed now"] r by auto
    have p: "op_id p \<noteq> op_id r" if cl: "claim now i (sy_table sy) = (t, Some p)" for i t p
    proof -
      obtain q where "q \<in> set (sy_table sy)" "op_id q = i" "op_status q = StatusPending" "p = claimed now q"
        using claim_Some [OF sys_okD(1) [OF ok] cl] by metis
      then show ?thesis using distinct_row [of "sy_table sy" q r] sys_okD(1) [OF ok] r
        by (auto simp: claimed_def ops_ok_def)
    qed
    show ?thesis
    proof (cases "\<exists>i u q. worker_at w sy = Some (Picked i) \<and> e = Ran \<and> claim now i (sy_table sy) = (u, Some q)")
      case True
      then obtain i u q where i: "worker_at w sy = Some (Picked i)" "e = Ran" "claim now i (sy_table sy) = (u, Some q)" by blast
      then have "act_step pl a sy = set_worker w (Working q) (pl_poll pl) (sy\<lparr>sy_table := u\<rparr>)"
        using ActClaim by (simp add: claim_step_def)
      then show ?thesis using ActClaim i p [OF i(3)] t [of i] no worker_at_length [OF i(1)] by (auto split: if_splits)
    next
      case False
      then have "(\<exists>b. act_step pl a sy = set_worker w Polling b sy) \<or> act_step pl a sy = sy" "hands_out pl a sy = []"
        using ActClaim by (auto simp: claim_step_def wait_error_def split: option.split wstate.split engine.split prod.split)
      then show ?thesis using r no by (auto split: if_splits)
    qed
  next
    case (ActFinish w now err e)
    show ?thesis
    proof (cases "\<exists>q. worker_at w sy = Some (Working q)")
      case True
      then obtain q where q: "worker_at w sy = Some (Working q)" by blast
      then have "r \<in> set (fst (ack n (op_id q) (sy_table sy)))" "r \<in> set (fail n (op_id q) msg b (sy_table sy))" for n msg b
        using no [OF q] r by (auto simp: ack_def fail_def intro!: stays_update)
      then show ?thesis using ActFinish q no r worker_at_length [OF q] by (auto simp: finish_step_def split: option.splits if_splits)
    next
      case False
      then have "act_step pl a sy = sy" using ActFinish by (auto simp: finish_step_def split: option.split wstate.split)
      then show ?thesis using r no ActFinish by auto
    qed
  next
    case (ActEnqueue now fresh es rq)
    then have "plain_request rq" using assms(2) by (simp add: act_ok_def)
    then have "r \<in> set (fst (enqueue now fresh es rq (sy_table sy)))"
      by (rule enqueue_cases [of rq now fresh es "sy_table sy"]) (use r in auto)
    then show ?thesis using ActEnqueue no by auto
  next
    case (ActCancel now i)
    then show ?thesis using r no by (auto simp: cancel_def Let_def intro!: stays_update)
  next
    case (ActRetry i)
    then show ?thesis using r no by (auto simp: retry_op_def Let_def intro!: stays_update)
  qed
  then show ?thesis using next_ok r unfolding stranded_def by blast
qed

theorem young_orphan_never_runs:
  assumes "ops_ok t" and "r \<in> set t" and "op_status r = StatusRunning" and "op_started_at r = Some s"
    and "now - 300 < s" and "list_all act_ok as"
  shows "r \<in> set (sy_table (run_pool pl as (boot pl n now t))) \<and> op_id r \<notin> set (runs_of pl as (boot pl n now t))"
proof -
  have "\<not> orphan now boot_age r" using assms(4,5) by (simp add: orphan_def boot_age_def second_ns_def)
  then have "r \<in> set (fst (recover_orphans now boot_age t))"
    unfolding recover_orphans_def Let_def fst_conv using assms(2) by (intro stays_update) auto
  then have "stranded r (boot pl n now t)"
    using boot_ok [OF assms(1), of pl n now] assms(3) by (auto simp: stranded_def boot_def worker_at_def split: if_splits)
  moreover have "stranded r sy \<Longrightarrow> list_all act_ok as \<Longrightarrow> stranded r (run_pool pl as sy) \<and> op_id r \<notin> set (runs_of pl as sy)" for sy
    by (induction as arbitrary: sy) (use stranded_step in auto)
  ultimately show ?thesis using assms(6) unfolding stranded_def by blast
qed

section \<open>Samples\<close>

definition scan_pool :: pool where
  "scan_pool = \<lparr>pl_types = [''scan''], pl_poll = 500, pl_max_backoff = 30000\<rparr>"

definition scan_request :: "string \<Rightarrow> int \<Rightarrow> request" where
  "scan_request key prio = \<lparr>rq_id = [], rq_type = ''scan'', rq_payload = [], rq_status = None, rq_priority = prio,
     rq_max_attempts = 2, rq_not_before = Some 7500000000, rq_dedup_key = key\<rparr>"

definition scan_row :: op where
  "scan_row = row_of 5 (scan_request ''k1'' 0) ''a'' (Some ''k1'')"

definition scans :: "act list" where
  "scans = [ActEnqueue 5 (Some ''a'') (\<lambda>_. Ran) (scan_request ''k1'' 0), ActEnqueue 6 (Some ''b'') (\<lambda>_. Ran) (scan_request ''k1'' 0),
     ActEnqueue 6 (Some ''b'') (\<lambda>_. Ran) (scan_request ''k2'' 4), ActPick 0 8 0 Ran, ActPick 1 8 0 Ran, ActClaim 0 8 Ran,
     ActClaim 1 8 Ran]"

lemma scans_ok: "list_all act_ok scans"
  by (simp add: scans_def act_ok_def plain_request_def scan_request_def)

lemma ops_ok_Nil: "ops_ok []"
  by (simp add: ops_ok_def)

definition first_try :: "act list" where
  "first_try = [ActPick 1 9 0 Ran, ActClaim 1 9 Ran, ActFinish 1 10 (Some ''cut'') Ran, ActPick 1 39 0 Ran,
     ActPick 1 40 0 Ran, ActClaim 1 40 Ran, ActFinish 1 41 (Some ''cut'') Ran, ActPick 1 99 0 Ran, ActClaim 1 99 Ran]"

theorem runs_are_bounded_witness:
  "runs_of scan_pool first_try (run_pool scan_pool scans (boot scan_pool 2 0 [])) = [''a'', ''a''] \<and>
   count_list (runs_of scan_pool first_try (run_pool scan_pool scans (boot scan_pool 2 0 []))) ''a'' \<le> 2"
proof -
  have "runs_of scan_pool first_try (run_pool scan_pool scans (boot scan_pool 2 0 [])) = [''a'', ''a'']"
    "taken ''a'' (sy_table (run_pool scan_pool scans (boot scan_pool 2 0 [])))"
    "owed_of ''a'' (sy_table (run_pool scan_pool scans (boot scan_pool 2 0 []))) = 2" by code_simp+
  moreover have "list_all act_ok first_try" "ActRetry ''a'' \<notin> set first_try" by (simp_all add: first_try_def act_ok_def)
  ultimately show ?thesis using runs_are_bounded [OF ops_ok_Nil scans_ok, of first_try "''a''" scan_pool 2 0] by simp
qed

theorem one_worker_per_op_witness:
  "\<exists>r \<in> set (sy_table (run_pool scan_pool scans (boot scan_pool 2 0 []))). op_id r = ''b'' \<and> op_status r = StatusRunning"
proof -
  let ?p = "claimed 8 (row_of 6 (scan_request ''k2'' 4) ''b'' (Some ''k2''))"
  have "worker_at 0 (run_pool scan_pool scans (boot scan_pool 2 0 [])) = Some (Working ?p)" "op_id ?p = ''b''" by code_simp+
  then show ?thesis using one_worker_per_op [OF ops_ok_Nil scans_ok refl, of 0 scan_pool 2 0 ?p] by auto
qed

theorem one_pending_per_key_witness:
  "\<exists>!p. p \<in> set (fst (enqueue 9 (Some ''c'') (\<lambda>k. if k < 3 then Contended else Ran) (scan_request ''k2'' 0)
      (sy_table (run_pool scan_pool scans (boot scan_pool 2 0 []))))) \<and>
    op_status p = StatusPending \<and> op_dedup_key p = Some ''k2''"
proof -
  have "\<not> taken ''c'' (sy_table (run_pool scan_pool scans (boot scan_pool 2 0 [])))"
    "settled (\<lambda>k. if k < 3 then Contended else Ran) = Ran" by code_simp+
  from one_pending_per_key [OF ops_ok_Nil scans_ok refl _ _ _ _ this(2) this(1), of "scan_request ''k2'' 0"]
  show ?thesis by (simp add: plain_request_def scan_request_def)
qed

theorem best_op_first_witness:
  "\<exists>r \<in> set (sy_table (run_pool scan_pool scans (boot scan_pool 2 0 []))).
    worker_at 1 (run_pool scan_pool [ActPick 1 9 0 Ran, ActClaim 1 9 Ran] (run_pool scan_pool scans (boot scan_pool 2 0 []))) =
      Some (Working (claimed 9 r)) \<and> op_id r = ''a''"
proof -
  let ?s = "run_pool scan_pool scans (boot scan_pool 2 0 [])"
  let ?s' = "run_pool scan_pool [ActPick 1 9 0 Ran, ActClaim 1 9 Ran] ?s"
  have w: "worker_at 1 ?s = Some Polling" "worker_at 1 ?s' = Some (Working (claimed 9 scan_row))" "op_id scan_row = ''a''"
    by code_simp+
  from best_op_first [OF ops_ok_Nil scans_ok refl w(1) refl, of 9 0]
  obtain r where r: "r \<in> set (sy_table ?s)" "worker_at 1 ?s' = Some (Working (claimed 9 r))" unfolding w(2) by auto
  have "op_id (claimed 9 p) = op_id p" for p by (simp add: claimed_def)
  from this [of r] this [of scan_row] have "op_id r = ''a''" using r(2) w(2,3) by simp
  then show ?thesis using r by blast
qed

end
