(* ===== verification/Nodes.thy ===== *)
theory Nodes
  imports Syspath
begin

text \<open>
  The rows of the catalogue and what is charged for them: the statements of \<open>db/drivers/sqlite/sqlite.go\<close>
  on \<open>nodes\<close> and on the usage columns of \<open>users\<close>, \<open>db/node_deleted_by_sql.go\<close> and \<open>pathkey\<close>. A table is
  the list of its rows in the order of their ids. Kept of a row are the columns those statements read or
  write, without the backend's own (mime type, etag, times). Whether a statement fails is an argument;
  \<open>md5\<close> is the digest. \<open>nodes.parent_id\<close> refers to \<open>nodes\<close> with ON DELETE CASCADE, \<open>nodes.storage_id\<close>
  to \<open>storages\<close> likewise (\<open>migrations/sqlite/00001_init.sql\<close>).
\<close>

section \<open>Rows\<close>

datatype node_type = NodeTypeFile | NodeTypeDirectory | NodeTypeSymlink

record node =
  nd_id :: int
  nd_storage :: int
  nd_parent :: "int option"
  nd_name :: string
  nd_path :: string
  nd_hash :: string
  nd_key :: string
  nd_type :: node_type
  nd_size :: int
  nd_owner :: "int option"
  nd_actor :: "int option"
  nd_external :: bool
  nd_deleted :: bool
  nd_deleted_by :: "int option"

record usage =
  us_used :: int
  us_quota :: int

record db =
  db_nodes :: "node list"
  db_next :: int
  db_users :: "int \<rightharpoonup> usage"

definition le_bytes :: "int \<Rightarrow> string" where
  "le_bytes i = map (\<lambda>k. char_of (nat (i div 2 ^ (8 * k) mod 256))) [0, 1, 2, 3]"

definition path_key :: "(string \<Rightarrow> string) \<Rightarrow> int \<Rightarrow> string \<Rightarrow> string" where
  "path_key md5 storage p =
     md5 (trim_right (\<lambda>c. c = slash) (path_clean (slash # p)) @ [CHR 0x00] @ le_bytes storage)"

definition get_node :: "int \<Rightarrow> db \<Rightarrow> node option" where
  "get_node i d = find (\<lambda>n. nd_id n = i) (db_nodes d)"

definition update_rows :: "(node \<Rightarrow> bool) \<Rightarrow> (node \<Rightarrow> node) \<Rightarrow> db \<Rightarrow> db" where
  "update_rows c f d = d\<lparr>db_nodes := map (\<lambda>n. if c n then f n else n) (db_nodes d)\<rparr>"

text \<open>An insert, and the read of the new row that answers for it.\<close>

definition insert_node :: "bool \<Rightarrow> bool \<Rightarrow> node \<Rightarrow> db \<Rightarrow> db \<times> node option" where
  "insert_node fails read_fails n d =
     (if fails then (d, None)
      else let row = n\<lparr>nd_id := db_next d, nd_deleted := False, nd_deleted_by := None\<rparr> in
        (d\<lparr>db_nodes := db_nodes d @ [row], db_next := db_next d + 1\<rparr>, if read_fails then None else Some row))"

definition set_meta :: "int \<Rightarrow> int \<Rightarrow> db \<Rightarrow> db" where
  "set_meta i bytes d = update_rows (\<lambda>n. nd_id n = i) (\<lambda>n. n\<lparr>nd_size := bytes\<rparr>) d"

definition set_node_owner :: "int \<Rightarrow> int option \<Rightarrow> db \<Rightarrow> db" where
  "set_node_owner i who d = update_rows (\<lambda>n. nd_id n = i) (\<lambda>n. n\<lparr>nd_owner := who\<rparr>) d"

definition set_node_actor :: "int \<Rightarrow> int option \<Rightarrow> db \<Rightarrow> db" where
  "set_node_actor i who d = update_rows (\<lambda>n. nd_id n = i) (\<lambda>n. n\<lparr>nd_actor := who\<rparr>) d"

definition move_node :: "int \<Rightarrow> int option \<Rightarrow> string \<Rightarrow> string \<Rightarrow> string \<Rightarrow> db \<Rightarrow> db" where
  "move_node i parent name path hash d =
     update_rows (\<lambda>n. nd_id n = i)
       (\<lambda>n. n\<lparr>nd_parent := parent, nd_name := name, nd_path := path, nd_hash := hash,
          nd_key := (if nd_deleted n then nd_key n else path)\<rparr>) d"

text \<open>
  A deleted row takes the rows below it with it. Each round adds the children of what has gone so far; no
  chain of parents is longer than the table (\<open>gone_closed\<close>).
\<close>

definition children_of :: "node list \<Rightarrow> int list \<Rightarrow> int list" where
  "children_of ns ids = map nd_id (filter (\<lambda>n. (case nd_parent n of None \<Rightarrow> False | Some p \<Rightarrow> p \<in> set ids) \<and>
     nd_id n \<notin> set ids) ns)"

primrec gone :: "nat \<Rightarrow> node list \<Rightarrow> int list \<Rightarrow> int list" where
  "gone 0 ns ids = ids"
| "gone (Suc k) ns ids = gone k ns (ids @ children_of ns ids)"

definition delete_rows :: "int list \<Rightarrow> db \<Rightarrow> db" where
  "delete_rows ids d =
     (let out = gone (length (db_nodes d)) (db_nodes d) ids in
      d\<lparr>db_nodes := filter (\<lambda>n. nd_id n \<notin> set out) (db_nodes d)\<rparr>)"

definition delete_node :: "int \<Rightarrow> db \<Rightarrow> db" where
  "delete_node i d = delete_rows [i] d"

definition delete_storage :: "int \<Rightarrow> db \<Rightarrow> db" where
  "delete_storage s d = delete_rows (map nd_id (filter (\<lambda>n. nd_storage n = s) (db_nodes d))) d"

section \<open>Folders into the trash and back\<close>

definition variants_of :: "string \<Rightarrow> string list" where
  "variants_of p =
     (let norm = trim_right (\<lambda>c. c = slash) (path_clean (slash # trim_slash p)) in
      if norm = [] \<or> norm = [slash] then [] else [norm @ [slash], trim_prefix norm [slash] @ [slash]])"

definition subtree_prefix_variants :: "string list \<Rightarrow> string list" where
  "subtree_prefix_variants ps = foldl (\<lambda>out v. if v \<in> set out then out else out @ [v]) [] (concat (map variants_of ps))"

definition subtree_suffix :: "string \<Rightarrow> string list \<Rightarrow> string" where
  "subtree_suffix p pres =
     (case find (\<lambda>pre. has_prefix p pre) pres of None \<Rightarrow> [] | Some pre \<Rightarrow> trim_prefix p pre)"

text \<open>
  The statements of a delete or a restore: the read of the row, its update, the reads below each
  spelling of the folder, the update of each row below.
\<close>

record tree_io =
  ti_read :: bool
  ti_row :: bool
  ti_select :: "string \<Rightarrow> bool"
  ti_child :: "int \<Rightarrow> bool"

definition moves_below :: "tree_io \<Rightarrow> int \<Rightarrow> string list \<Rightarrow> bool \<Rightarrow> node \<Rightarrow> bool" where
  "moves_below io storage pres deleted n \<longleftrightarrow>
     nd_storage n = storage \<and> nd_deleted n = deleted \<and>
     list_ex (\<lambda>pre. \<not> ti_select io pre \<and> has_prefix (nd_path n) pre) pres \<and>
     subtree_suffix (nd_path n) pres \<noteq> [] \<and> \<not> ti_child io (nd_id n)"

definition below_path :: "string \<Rightarrow> string list \<Rightarrow> string \<Rightarrow> string" where
  "below_path base pres p = trim_right (\<lambda>c. c = slash) base @ slash # subtree_suffix p pres"

definition retag_trashed_subtree ::
  "(string \<Rightarrow> string) \<Rightarrow> tree_io \<Rightarrow> int \<Rightarrow> string list \<Rightarrow> string \<Rightarrow> db \<Rightarrow> db" where
  "retag_trashed_subtree md5 io storage olds trash d =
     (let pres = subtree_prefix_variants olds in
      update_rows (moves_below io storage pres False)
        (\<lambda>n. let p = below_path trash pres (nd_path n) in
           n\<lparr>nd_deleted := True, nd_deleted_by := None, nd_path := p, nd_hash := path_key md5 storage p,
             nd_key := nd_path n\<rparr>) d)"

definition restore_trashed_subtree ::
  "(string \<Rightarrow> string) \<Rightarrow> tree_io \<Rightarrow> int \<Rightarrow> string list \<Rightarrow> string \<Rightarrow> db \<Rightarrow> db" where
  "restore_trashed_subtree md5 io storage trash restored d =
     (let pres = subtree_prefix_variants trash in
      update_rows (moves_below io storage pres True)
        (\<lambda>n. let p = below_path restored pres (nd_path n) in
           n\<lparr>nd_deleted := False, nd_deleted_by := None, nd_path := p, nd_hash := path_key md5 storage p, nd_key := p\<rparr>) d)"

definition soft_delete_and_retag ::
  "(string \<Rightarrow> string) \<Rightarrow> tree_io \<Rightarrow> int \<Rightarrow> string \<Rightarrow> string \<Rightarrow> string \<Rightarrow> db \<Rightarrow> db \<times> bool" where
  "soft_delete_and_retag md5 io i trash hash orig d =
     (let row = (if ti_read io then None else get_node i d);
          d1 = update_rows (\<lambda>n. nd_id n = i)
                 (\<lambda>n. n\<lparr>nd_deleted := True, nd_deleted_by := None, nd_parent := None, nd_name := path_base trash,
                    nd_path := trash, nd_hash := hash, nd_key := orig\<rparr>) d
      in if ti_row io then (d, False)
         else case row of
           None \<Rightarrow> (d1, True)
         | Some n \<Rightarrow>
             (if nd_type n = NodeTypeDirectory
              then retag_trashed_subtree md5 io (nd_storage n) [orig, nd_path n] trash d1 else d1, True))"

definition soft_delete_node :: "int \<Rightarrow> db \<Rightarrow> db" where
  "soft_delete_node i d = update_rows (\<lambda>n. nd_id n = i) (\<lambda>n. n\<lparr>nd_deleted := True, nd_deleted_by := None\<rparr>) d"

definition restore_node :: "int \<Rightarrow> db \<Rightarrow> db" where
  "restore_node i d = update_rows (\<lambda>n. nd_id n = i) (\<lambda>n. n\<lparr>nd_deleted := False, nd_deleted_by := None\<rparr>) d"

definition restored_path :: "string \<Rightarrow> string" where
  "restored_path orig =
     (let clean = trim_right (\<lambda>c. c = slash) (path_clean (slash # trim_slash orig))
      in if clean = [] then [slash] else clean)"

definition restore_node_at ::
  "(string \<Rightarrow> string) \<Rightarrow> tree_io \<Rightarrow> int \<Rightarrow> int option \<Rightarrow> string \<Rightarrow> db \<Rightarrow> db \<times> bool" where
  "restore_node_at md5 io i parent orig d =
     (let clean = restored_path orig in
      case (if ti_read io then None else get_node i d) of
        None \<Rightarrow> (d, False)
      | Some n \<Rightarrow>
          if ti_row io then (d, False)
          else let d1 = update_rows (\<lambda>m. nd_id m = i)
                 (\<lambda>m. m\<lparr>nd_deleted := False, nd_deleted_by := None, nd_parent := parent, nd_name := path_base clean,
                    nd_path := clean, nd_hash := path_key md5 (nd_storage n) clean, nd_key := clean\<rparr>) d
               in (if nd_type n = NodeTypeDirectory \<and> nd_path n \<noteq> []
                   then restore_trashed_subtree md5 io (nd_storage n) [nd_path n] clean d1 else d1, True))"

text \<open>Who put it there. The statements are numbered: the read, the row, one for each spelling below.\<close>

fun name_below :: "(nat \<Rightarrow> bool) \<Rightarrow> nat \<Rightarrow> int \<Rightarrow> int option \<Rightarrow> string list \<Rightarrow> db \<Rightarrow> db \<times> bool" where
  "name_below fails k storage who [] d = (d, True)"
| "name_below fails k storage who (pre # ps) d =
     (if fails k then (d, False)
      else name_below fails (Suc k) storage who ps
        (update_rows (\<lambda>n. nd_storage n = storage \<and> nd_deleted n \<and> nd_deleted_by n = None \<and> has_prefix (nd_path n) pre)
          (\<lambda>n. n\<lparr>nd_deleted_by := who\<rparr>) d))"

definition set_node_deleted_by :: "(nat \<Rightarrow> bool) \<Rightarrow> int \<Rightarrow> int option \<Rightarrow> db \<Rightarrow> db \<times> bool" where
  "set_node_deleted_by fails i who d =
     (if fails 0 then (d, False)
      else case find (\<lambda>n. nd_id n = i \<and> nd_deleted n) (db_nodes d) of
        None \<Rightarrow> (d, True)
      | Some n \<Rightarrow>
          if fails 1 then (d, False)
          else let d1 = update_rows (\<lambda>n. nd_id n = i) (\<lambda>n. n\<lparr>nd_deleted_by := who\<rparr>) d in
            if nd_type n \<noteq> NodeTypeDirectory \<or> \<not> in_trash (nd_path n) then (d1, True)
            else name_below fails 2 (nd_storage n) who (subtree_prefix_variants [nd_path n]) d1)"

section \<open>The usage columns\<close>

definition increment_user_usage :: "int \<Rightarrow> int \<Rightarrow> db \<Rightarrow> db" where
  "increment_user_usage u delta d =
     (case db_users d u of
        None \<Rightarrow> d
      | Some w \<Rightarrow>
          d\<lparr>db_users := (db_users d)(u \<mapsto> w\<lparr>us_used := (if us_used w + delta < 0 then 0 else us_used w + delta)\<rparr>)\<rparr>)"

definition set_user_quota :: "int \<Rightarrow> int \<Rightarrow> db \<Rightarrow> db" where
  "set_user_quota u bytes d =
     (case db_users d u of
        None \<Rightarrow> d
      | Some w \<Rightarrow> d\<lparr>db_users := (db_users d)(u \<mapsto> w\<lparr>us_quota := (if bytes < 0 then 0 else bytes)\<rparr>)\<rparr>)"

definition owned_bytes :: "int \<Rightarrow> node list \<Rightarrow> int" where
  "owned_bytes u ns = sum_list (map nd_size (filter (\<lambda>n. nd_owner n = Some u \<and> nd_type n = NodeTypeFile) ns))"

definition recompute_user_usage :: "int \<Rightarrow> db \<Rightarrow> db \<times> int" where
  "recompute_user_usage u d =
     (let total = owned_bytes u (db_nodes d) in
      (case db_users d u of
         None \<Rightarrow> d
       | Some w \<Rightarrow> d\<lparr>db_users := (db_users d)(u \<mapsto> w\<lparr>us_used := total\<rparr>)\<rparr>, total))"

end
