(* ===== verification/TrashRules.thy ===== *)
theory TrashRules
  imports Nodes
begin

text \<open>
  A folder's way through the trash: what goes with it, and that a restore puts every row back where it was.
\<close>

section \<open>Spellings\<close>

text \<open>The column mixes two spellings of a clean path, with the leading slash and without.\<close>

definition spelled :: "string \<Rightarrow> bool" where
  "spelled p \<longleftrightarrow> p = join slash (norm_rel p) \<or> p = slash # join slash (norm_rel p)"

definition spellings :: "string list \<Rightarrow> string list" where
  "spellings ps = [slash # join slash ps @ [slash], join slash ps @ [slash]]"

lemma trim_right_join:
  assumes "\<forall>s \<in> set ps. seg_ok s" "ps \<noteq> []"
  shows "trim_right (\<lambda>c. c = slash) (join slash ps) = join slash ps"
    "trim_right (\<lambda>c. c = slash) (slash # join slash ps) = slash # join slash ps"
proof -
  obtain k c where j: "join slash ps = k @ [c]" "c \<noteq> slash"
    using join_last_ok [OF assms(2,1)] by (cases "join slash ps" rule: rev_cases) auto
  show "trim_right (\<lambda>c. c = slash) (join slash ps) = join slash ps"
    "trim_right (\<lambda>c. c = slash) (slash # join slash ps) = slash # join slash ps"
    using j(2) unfolding j(1) by (simp_all add: trim_right_def)
qed

lemma spelled_trim: "spelled p \<Longrightarrow> norm_rel p \<noteq> [] \<Longrightarrow> trim_right (\<lambda>c. c = slash) p = p"
  unfolding spelled_def using trim_right_join [of "norm_rel p"] norm_rel_ok by metis

lemma variants_norm: "norm_rel p \<noteq> [] \<Longrightarrow> variants_of p = spellings (norm_rel p)"
  unfolding variants_of_def Let_def path_clean_rooted norm_trim_slash
  using trim_right_join(2) [of "norm_rel p"] norm_rel_ok join_eq_Nil [of "norm_rel p"]
  by (auto simp: spellings_def trim_prefix_def has_prefix_def)

lemma subtree_variants: "list_all (\<lambda>p. norm_rel p = ps) qs \<Longrightarrow> qs \<noteq> [] \<Longrightarrow> ps \<noteq> [] \<Longrightarrow>
    subtree_prefix_variants qs = spellings ps"
proof -
  assume a: "list_all (\<lambda>p. norm_rel p = ps) qs" "qs \<noteq> []" "ps \<noteq> []"
  let ?f = "\<lambda>out v. if v \<in> set out then out else out @ [v]"
  have d: "slash # join slash ps @ [slash] \<noteq> join slash ps @ [slash]" by (metis append_Cons length_Cons n_not_Suc_n)
  have more: "foldl ?f (spellings ps) (concat (map variants_of rs)) = spellings ps" if "list_all (\<lambda>p. norm_rel p = ps) rs" for rs
    using that by (induction rs) (use a(3) variants_norm in \<open>auto simp: spellings_def\<close>)
  obtain q rs where q: "qs = q # rs" "norm_rel q = ps" "list_all (\<lambda>p. norm_rel p = ps) rs" using a by (cases qs) auto
  have "foldl ?f [] (variants_of q) = spellings ps" using variants_norm [of q] q(2) a(3) d by (simp add: spellings_def)
  then show ?thesis using more [OF q(3)] by (simp add: subtree_prefix_variants_def q(1))
qed

lemma prefix_join_strict:
  assumes "\<forall>s \<in> set a. seg_ok s" "\<forall>s \<in> set b. seg_ok s" "a \<noteq> []"
  shows "has_prefix (join slash b) (join slash a @ [slash]) \<longleftrightarrow> strict_prefix a b"
proof -
  have "has_prefix (join slash b) (join slash a @ [slash]) \<Longrightarrow> join slash b \<noteq> join slash a"
    by (auto simp: has_prefix_iff prefix_def)
  moreover have "join slash b = join slash a \<longleftrightarrow> a = b" using assms norm_rel_join by metis
  ultimately show ?thesis using prefix_join_slash [OF assms] by (auto simp: strict_prefix_def)
qed

lemma other_spelling:
  assumes "\<forall>s \<in> set a. seg_ok s" "\<forall>s \<in> set b. seg_ok s" "a \<noteq> []"
  shows "\<not> has_prefix (join slash b) (slash # x)" "\<not> has_prefix (slash # y) (join slash a @ z)"
proof -
  show "\<not> has_prefix (join slash b) (slash # x)"
    using join_last_ok [of b] assms(2) by (cases "b = []") (auto simp: has_prefix_iff prefix_def)
  show "\<not> has_prefix (slash # y) (join slash a @ z)"
    using join_last_ok [of a] assms(1,3) by (cases "join slash a") (auto simp: has_prefix_iff prefix_def)
qed

lemma cons_prefix: "has_prefix (x # s) (x # p) \<longleftrightarrow> has_prefix s p"
  by (simp add: has_prefix_iff)

lemma below_segs:
  assumes p: "p = join slash q \<or> p = slash # join slash q" and q: "\<forall>s \<in> set q. seg_ok s"
    and ps: "\<forall>s \<in> set ps. seg_ok s" "ps \<noteq> []"
  shows "list_ex (has_prefix p) (spellings ps) \<longleftrightarrow> strict_prefix ps q"
    and "q = ps @ r \<Longrightarrow> r \<noteq> [] \<Longrightarrow> subtree_suffix p (spellings ps) = join slash r"
proof -
  note strict = prefix_join_strict [OF ps(1) q ps(2)] and other = other_spelling [OF ps(1) q ps(2)]
  show "list_ex (has_prefix p) (spellings ps) \<longleftrightarrow> strict_prefix ps q"
    using p strict other by (auto simp: cons_prefix spellings_def)
  assume r: "q = ps @ r" "r \<noteq> []"
  then have j: "join slash q = join slash ps @ slash # join slash r" using join_append ps(2) by metis
  have "has_prefix (join slash q) (join slash ps @ [slash])" unfolding j by (simp add: has_prefix_def)
  then show "subtree_suffix p (spellings ps) = join slash r"
    using p other by (auto simp: subtree_suffix_def spellings_def cons_prefix trim_prefix_def j)
qed

section \<open>There and back\<close>

definition io_fine :: tree_io where
  "io_fine = \<lparr>ti_read = False, ti_row = False, ti_select = (\<lambda>_. False), ti_child = (\<lambda>_. False)\<rparr>"

definition below :: "int \<Rightarrow> string list \<Rightarrow> node \<Rightarrow> bool" where
  "below st ps n \<longleftrightarrow> nd_storage n = st \<and> strict_prefix ps (norm_rel (nd_path n))"

lemma moves_below_spelled:
  assumes "spelled (nd_path n)" "\<forall>s \<in> set ps. seg_ok s" "ps \<noteq> []"
  shows "moves_below io_fine st (spellings ps) deleted n \<longleftrightarrow> nd_deleted n = deleted \<and> below st ps n"
proof -
  let ?q = "norm_rel (nd_path n)"
  have q: "\<forall>s \<in> set ?q. seg_ok s" using norm_rel_ok by blast
  note b = below_segs [OF assms(1) [unfolded spelled_def] q assms(2,3)]
  have "subtree_suffix (nd_path n) (spellings ps) \<noteq> []" if st: "strict_prefix ps ?q"
  proof -
    obtain r where r: "?q = ps @ r" "r \<noteq> []" using st by (auto simp: strict_prefix_def prefix_def)
    then have "\<forall>s \<in> set r. seg_ok s" using q by auto
    then show ?thesis unfolding b(2) [OF r] using join_eq_Nil r(2) by metis
  qed
  then show ?thesis using b(1) by (auto simp: moves_below_def io_fine_def below_def list_ex_iff)
qed

lemma below_path_spelled:
  assumes "spelled p" "norm_rel p = ps @ r" "r \<noteq> []" "ps \<noteq> []" "spelled base" "norm_rel base \<noteq> []"
  shows "below_path base (spellings ps) p = base @ slash # join slash r"
proof -
  have "\<forall>s \<in> set (ps @ r). seg_ok s" using norm_rel_ok assms(2) by metis
  then show ?thesis
    using below_segs(2) [of p "ps @ r" ps r] assms spelled_trim by (simp add: below_path_def spelled_def)
qed

lemma base_join:
  assumes "spelled base" "r \<noteq> []" "\<forall>s \<in> set r. seg_ok s" "norm_rel base \<noteq> []"
  shows "norm_rel (base @ slash # join slash r) = norm_rel base @ r" "spelled (base @ slash # join slash r)"
proof -
  let ?b = "norm_rel base"
  have ok: "\<forall>s \<in> set (?b @ r). seg_ok s" using assms(3) norm_rel_ok by auto
  have j: "join slash (?b @ r) = join slash ?b @ slash # join slash r" using join_append assms(2,4) by blast
  have "base @ slash # join slash r = join slash (?b @ r) \<or> base @ slash # join slash r = slash # join slash (?b @ r)"
    using assms(1) j by (metis append_Cons spelled_def)
  moreover from this show n: "norm_rel (base @ slash # join slash r) = ?b @ r"
    using norm_rel_join [OF ok] norm_slash(1) by metis
  ultimately show "spelled (base @ slash # join slash r)" by (simp add: spelled_def)
qed

lemma path_base_rooted:
  assumes "\<forall>s \<in> set ps. seg_ok s" "ps \<noteq> []" shows "path_base (slash # join slash ps) = last ps"
proof -
  have "split_on slash (slash # join slash ps) = [] # ps"
    using split_on_append_sep [of slash "[]" "join slash ps"] assms by (simp add: split_join seg_ok_def)
  then show ?thesis using assms by (simp add: path_base_def trim_right_join(2))
qed

lemma restored_path_norm:
  assumes "norm_rel orig \<noteq> []" shows "restored_path orig = slash # join slash (norm_rel orig)"
proof -
  have "\<forall>s \<in> set (norm_rel orig). seg_ok s" using norm_rel_ok by blast
  then show ?thesis using assms
    by (simp add: restored_path_def Let_def path_clean_rooted norm_trim_slash trim_right_join(2))
qed

text \<open>Where a row is once the folder \<open>i\<close> at \<open>ps\<close> has been to the trash and back.\<close>

definition came_back :: "(string \<Rightarrow> string) \<Rightarrow> int \<Rightarrow> int \<Rightarrow> string list \<Rightarrow> int option \<Rightarrow> node \<Rightarrow> node" where
  "came_back md5 i st ps parent n =
     (let p = slash # join slash (norm_rel (nd_path n));
          m = n\<lparr>nd_deleted := False, nd_deleted_by := None, nd_path := p, nd_hash := path_key md5 st p, nd_key := p\<rparr>
      in if nd_id n = i then m\<lparr>nd_parent := parent, nd_name := last ps\<rparr>
         else if below st ps n \<and> \<not> nd_deleted n then m
         else n)"

lemma update_rows_nodes: "db_nodes (update_rows c f d) = map (\<lambda>n. if c n then f n else n) (db_nodes d)"
  by (simp add: update_rows_def)

lemma get_node_found:
  assumes "distinct (map nd_id (db_nodes d))" "n \<in> set (db_nodes d)" shows "get_node (nd_id n) d = Some n"
proof -
  have "distinct (map nd_id ns) \<Longrightarrow> n \<in> set ns \<Longrightarrow> find (\<lambda>m. nd_id m = nd_id n) ns = Some n" for ns by (induction ns) auto
  then show ?thesis using assms by (simp add: get_node_def)
qed

text \<open>A folder of a catalogue whose paths are clean, on its way to a place in the trash nothing else is in.\<close>

definition ready :: "db \<Rightarrow> int \<Rightarrow> node \<Rightarrow> string \<Rightarrow> string \<Rightarrow> bool" where
  "ready d i f trash orig \<longleftrightarrow>
     distinct (map nd_id (db_nodes d)) \<and> get_node i d = Some f \<and> nd_type f = NodeTypeDirectory \<and>
     list_all (\<lambda>n. spelled (nd_path n)) (db_nodes d) \<and>
     norm_rel (nd_path f) \<noteq> [] \<and> norm_rel orig = norm_rel (nd_path f) \<and> spelled trash \<and> norm_rel trash \<noteq> [] \<and>
     list_all (\<lambda>n. nd_storage n = nd_storage f \<longrightarrow> \<not> prefix (norm_rel trash) (norm_rel (nd_path n))) (db_nodes d)"

lemma readyD:
  assumes "ready d i f trash orig"
  shows "distinct (map nd_id (db_nodes d))" "get_node i d = Some f" "nd_type f = NodeTypeDirectory"
    "\<And>n. n \<in> set (db_nodes d) \<Longrightarrow> spelled (nd_path n)" "norm_rel (nd_path f) \<noteq> []"
    "norm_rel orig = norm_rel (nd_path f)" "spelled trash" "norm_rel trash \<noteq> []"
    "\<And>n. n \<in> set (db_nodes d) \<Longrightarrow> nd_storage n = nd_storage f \<Longrightarrow> \<not> prefix (norm_rel trash) (norm_rel (nd_path n))"
    "\<forall>s \<in> set (norm_rel (nd_path f)). seg_ok s" "\<forall>s \<in> set (norm_rel trash). seg_ok s"
    "f \<in> set (db_nodes d)" "nd_id f = i" "\<And>n. n \<in> set (db_nodes d) \<Longrightarrow> nd_id n = i \<Longrightarrow> n = f"
proof -
  show ids: "distinct (map nd_id (db_nodes d))" and f: "get_node i d = Some f" and "nd_type f = NodeTypeDirectory"
    "\<And>n. n \<in> set (db_nodes d) \<Longrightarrow> spelled (nd_path n)" "norm_rel (nd_path f) \<noteq> []"
    "norm_rel orig = norm_rel (nd_path f)" "spelled trash" "norm_rel trash \<noteq> []"
    "\<And>n. n \<in> set (db_nodes d) \<Longrightarrow> nd_storage n = nd_storage f \<Longrightarrow> \<not> prefix (norm_rel trash) (norm_rel (nd_path n))"
    using assms by (simp_all add: ready_def list_all_iff)
  show "\<forall>s \<in> set (norm_rel (nd_path f)). seg_ok s" "\<forall>s \<in> set (norm_rel trash). seg_ok s" using norm_rel_ok by blast+
  show "f \<in> set (db_nodes d)" "nd_id f = i" using f by (auto simp: get_node_def find_Some_iff)
  show "\<And>n. n \<in> set (db_nodes d) \<Longrightarrow> nd_id n = i \<Longrightarrow> n = f" using get_node_found [OF ids] f by fastforce
qed

definition put_away :: "string \<Rightarrow> string \<Rightarrow> string \<Rightarrow> node \<Rightarrow> node" where
  "put_away trash hash orig n = n\<lparr>nd_deleted := True, nd_deleted_by := None, nd_parent := None,
     nd_name := path_base trash, nd_path := trash, nd_hash := hash, nd_key := orig\<rparr>"

definition carried :: "(string \<Rightarrow> string) \<Rightarrow> int \<Rightarrow> string list \<Rightarrow> string \<Rightarrow> node \<Rightarrow> node" where
  "carried md5 st ps trash n = (let p = below_path trash (spellings ps) (nd_path n) in
     n\<lparr>nd_deleted := True, nd_deleted_by := None, nd_path := p, nd_hash := path_key md5 st p, nd_key := nd_path n\<rparr>)"

definition away :: "(string \<Rightarrow> string) \<Rightarrow> int \<Rightarrow> int \<Rightarrow> string list \<Rightarrow> string \<Rightarrow> string \<Rightarrow> string \<Rightarrow> node \<Rightarrow> node" where
  "away md5 i st ps trash hash orig n =
     (if nd_id n = i then put_away trash hash orig n
      else if below st ps n \<and> \<not> nd_deleted n then carried md5 st ps trash n else n)"

lemma trashed:
  assumes r: "ready d i f trash orig"
  shows "db_nodes (fst (soft_delete_and_retag md5 io_fine i trash hash orig d)) =
    map (away md5 i (nd_storage f) (norm_rel (nd_path f)) trash hash orig) (db_nodes d)"
proof -
  note rd = readyD [OF r]
  let ?ps = "norm_rel (nd_path f)" and ?st = "nd_storage f"
  have v: "subtree_prefix_variants [orig, nd_path f] = spellings ?ps" using rd(5,6) by (intro subtree_variants) simp_all
  let ?mv = "moves_below io_fine ?st (spellings ?ps) False" and ?pa = "put_away trash hash orig" and ?ca = "carried md5 ?st ?ps trash"
  have one: "(if ?mv m then ?ca m else m) = away md5 i ?st ?ps trash hash orig n"
    if n: "n \<in> set (db_nodes d)" and m: "m = (if nd_id n = i then ?pa n else n)" for n m
  proof (cases "nd_id n = i")
    case True
    then have "\<not> ?mv m" using m by (simp add: moves_below_def put_away_def)
    then show ?thesis using True m by (simp add: away_def)
  next
    case False
    then have "?mv m \<longleftrightarrow> below ?st ?ps n \<and> \<not> nd_deleted n"
      using m moves_below_spelled [OF rd(4) [OF n] rd(10,5), of ?st False] by auto
    then show ?thesis using False m by (simp add: away_def)
  qed
  have "db_nodes (fst (soft_delete_and_retag md5 io_fine i trash hash orig d)) =
    map (\<lambda>m. if ?mv m then ?ca m else m) (map (\<lambda>n. if nd_id n = i then ?pa n else n) (db_nodes d))"
    using rd(2,3) v by (simp add: soft_delete_and_retag_def Let_def retag_trashed_subtree_def update_rows_nodes
      put_away_def carried_def) (simp add: io_fine_def put_away_def carried_def retag_trashed_subtree_def v Let_def update_rows_nodes)
  also have "\<dots> = map (away md5 i ?st ?ps trash hash orig) (db_nodes d)" using one by simp
  finally show ?thesis .
qed

lemma away_id: "nd_id (away md5 i st ps trash hash orig n) = nd_id n"
  by (simp add: away_def put_away_def carried_def Let_def)

lemma back_again:
  fixes md5 :: "string \<Rightarrow> string" and hash :: string
  assumes r: "ready d i f trash orig" and n: "n \<in> set (db_nodes d)" and i: "nd_id n \<noteq> i"
  defines "st \<equiv> nd_storage f" and "ps \<equiv> norm_rel (nd_path f)" and "ts \<equiv> norm_rel trash"
  defines "m \<equiv> away md5 i st ps trash hash orig n" and "p \<equiv> below_path (slash # join slash ps) (spellings ts)"
  shows "(if moves_below io_fine st (spellings ts) True m
      then m\<lparr>nd_deleted := False, nd_deleted_by := None, nd_path := p (nd_path m), nd_hash := path_key md5 st (p (nd_path m)),
        nd_key := p (nd_path m)\<rparr> else m) = came_back md5 i st ps parent n"
proof -
  note rd = readyD [OF r, folded st_def ps_def ts_def]
  show ?thesis
  proof (cases "below st ps n \<and> \<not> nd_deleted n")
    case True
    obtain x where x: "norm_rel (nd_path n) = ps @ x" "x \<noteq> []"
      using True by (auto simp: below_def strict_prefix_def prefix_def)
    have xs: "\<forall>s \<in> set x. seg_ok s" using norm_rel_ok [of _ "nd_path n"] x(1) by simp
    have m: "m = carried md5 st ps trash n" using True i by (simp add: m_def away_def)
    have mp: "nd_path m = trash @ slash # join slash x"
      unfolding m carried_def Let_def using below_path_spelled [OF rd(4) [OF n] x rd(5,7) rd(8) [unfolded ts_def]] by simp
    note nm = base_join [OF rd(7) x(2) xs rd(8) [unfolded ts_def], folded ts_def mp]
    have st: "nd_storage m = st" "nd_deleted m" using True by (simp_all add: m carried_def Let_def below_def)
    then have "moves_below io_fine st (spellings ts) True m"
      using moves_below_spelled [OF nm(2) rd(11,8), of st True] nm(1) x(2) by (simp add: below_def strict_prefix_def)
    moreover have "p (nd_path m) = slash # join slash (norm_rel (nd_path n))"
    proof -
      have "spelled (slash # join slash ps)" "norm_rel (slash # join slash ps) \<noteq> []"
        using rd(5,10) by (simp_all add: spelled_def norm_slash(1) norm_rel_join)
      from below_path_spelled [OF nm(2) nm(1) x(2) rd(8) this]
      show ?thesis unfolding p_def x(1) using join_append [OF rd(5) x(2)] by simp
    qed
    ultimately show ?thesis using True i by (simp add: m carried_def came_back_def Let_def)
  next
    case False
    then have m: "m = n" using i by (auto simp: m_def away_def)
    have "\<not> below st ts n" using rd(9) [OF n] by (auto simp: below_def strict_prefix_def)
    then have "\<not> moves_below io_fine st (spellings ts) True m"
      using moves_below_spelled [OF rd(4) [OF n] rd(11,8), of st True] m by simp
    then show ?thesis using False i m by (auto simp: came_back_def Let_def)
  qed
qed

text \<open>C27. What the trash took comes back: deleting a folder takes every live row below it along, so that none of
  them stays listed; restoring it where it was gives every one of them its path, name, folder, owner and
  size again - in the spelling with the slash -, puts the folder under the parent the caller looked up, and
  changes no other row of the catalogue, one trashed earlier from the same folder included.\<close>
theorem trash_and_back:
  assumes "ready d i f trash orig"
    and "d1 = fst (soft_delete_and_retag md5 io_fine i trash hash orig d)"
    and "d2 = fst (restore_node_at md5 io_fine i parent orig d1)"
  shows "(\<forall>n \<in> set (db_nodes d). below (nd_storage f) (norm_rel (nd_path f)) n \<or> nd_id n = i \<longrightarrow>
      (\<exists>m \<in> set (db_nodes d1). nd_id m = nd_id n \<and> nd_deleted m)) \<and>
    db_nodes d2 = map (came_back md5 i (nd_storage f) (norm_rel (nd_path f)) parent) (db_nodes d)"
proof
  note rd = readyD [OF assms(1)]
  let ?st = "nd_storage f" and ?ps = "norm_rel (nd_path f)" and ?ts = "norm_rel trash"
  let ?aw = "away md5 i ?st ?ps trash hash orig"
  have d1: "db_nodes d1 = map ?aw (db_nodes d)" unfolding assms(2) by (rule trashed [OF assms(1)])
  show "\<forall>n \<in> set (db_nodes d). below ?st ?ps n \<or> nd_id n = i \<longrightarrow> (\<exists>m \<in> set (db_nodes d1). nd_id m = nd_id n \<and> nd_deleted m)"
  proof (intro ballI impI)
    fix n assume n: "n \<in> set (db_nodes d)" "below ?st ?ps n \<or> nd_id n = i"
    then have "nd_deleted (?aw n)" by (auto simp: away_def put_away_def carried_def Let_def)
    then show "\<exists>m \<in> set (db_nodes d1). nd_id m = nd_id n \<and> nd_deleted m" using n(1) away_id unfolding d1 by auto
  qed
  have ids1: "distinct (map nd_id (db_nodes d1))" using rd(1) unfolding d1 by (simp add: comp_def away_id)
  have g: "get_node i d1 = Some (?aw f)"
    using get_node_found [OF ids1, of "?aw f"] rd(12,13) by (simp add: d1 away_id)
  have af: "?aw f = put_away trash hash orig f" using rd(13) by (simp add: away_def)
  have trash: "trash \<noteq> []" using rd(8) by auto
  have v: "subtree_prefix_variants [trash] = spellings ?ts" using rd(8) by (intro subtree_variants) simp_all
  have clean: "restored_path orig = slash # join slash ?ps" using restored_path_norm rd(5,6) by metis
  define p where "p = below_path (slash # join slash ?ps) (spellings ?ts)"
  define home where "home = (\<lambda>m :: node. m\<lparr>nd_deleted := False, nd_deleted_by := None, nd_parent := parent, nd_name := last ?ps,
     nd_path := slash # join slash ?ps, nd_hash := path_key md5 ?st (slash # join slash ?ps), nd_key := slash # join slash ?ps\<rparr>)"
  define up where "up = (\<lambda>m :: node. m\<lparr>nd_deleted := False, nd_deleted_by := None, nd_path := p (nd_path m),
     nd_hash := path_key md5 ?st (p (nd_path m)), nd_key := p (nd_path m)\<rparr>)"
  let ?mv = "moves_below io_fine ?st (spellings ?ts) True"
  have "db_nodes d2 = map (\<lambda>m. if ?mv m then up m else m) (map (\<lambda>m. if nd_id m = i then home m else m) (db_nodes d1))"
    unfolding assms(3) restore_node_at_def Let_def clean io_fine_def [symmetric] g
    using rd(3,5,10) trash af v
    by (simp add: put_away_def restore_trashed_subtree_def update_rows_nodes home_def up_def p_def path_base_rooted Let_def io_fine_def)
  also have "\<dots> = map (came_back md5 i ?st ?ps parent) (db_nodes d)"
  proof -
    have "(if ?mv m then up m else m) = came_back md5 i ?st ?ps parent n"
      if n: "n \<in> set (db_nodes d)" and m: "m = (if nd_id (?aw n) = i then home (?aw n) else ?aw n)" for n m
    proof (cases "nd_id n = i")
      case True
      then have "n = f" "m = home (put_away trash hash orig f)" using rd(14) n m af by (simp_all add: away_id)
      moreover from this have "\<not> ?mv m" by (simp add: moves_below_def home_def)
      ultimately show ?thesis using rd(13) by (simp add: came_back_def Let_def home_def put_away_def)
    next
      case False
      then have "m = ?aw n" using m by (simp add: away_id)
      then show ?thesis using back_again [where hash = hash and parent = parent, OF assms(1) n False]
        by (simp only: up_def p_def)
    qed
    then show ?thesis unfolding d1 by simp
  qed
  finally show "db_nodes d2 = map (came_back md5 i ?st ?ps parent) (db_nodes d)" .
qed

section \<open>A sample\<close>

definition row :: "int \<Rightarrow> string \<Rightarrow> node_type \<Rightarrow> int \<Rightarrow> int option \<Rightarrow> bool \<Rightarrow> node" where
  "row i p t b who gone_already = \<lparr>nd_id = i, nd_storage = 1, nd_parent = None, nd_name = path_base p, nd_path = p,
     nd_hash = path_key (\<lambda>s. s) 1 p, nd_key = p, nd_type = t, nd_size = b, nd_owner = who, nd_actor = None,
     nd_external = False, nd_deleted = gone_already, nd_deleted_by = None\<rparr>"

definition docs :: db where
  "docs = \<lparr>db_nodes = [row 1 ''/docs'' NodeTypeDirectory 0 (Some 7) False, row 2 ''/docs/a'' NodeTypeFile 10 (Some 7) False,
       row 3 ''docs/b/c'' NodeTypeFile 5 (Some 8) False, row 4 ''/docs/old'' NodeTypeFile 2 None True,
       row 5 ''/docs.txt'' NodeTypeFile 1 (Some 8) False],
     db_next = 6, db_users = [7 \<mapsto> \<lparr>us_used = 10, us_quota = 20\<rparr>, 8 \<mapsto> \<lparr>us_used = 6, us_quota = 0\<rparr>]\<rparr>"

lemma docs_ready: "ready docs 1 (row 1 ''/docs'' NodeTypeDirectory 0 (Some 7) False) ''.trash/9/docs'' ''/docs''"
  unfolding ready_def by code_simp

theorem trash_and_back_witness:
  "map (\<lambda>n. (nd_path n, nd_deleted n)) (db_nodes (fst (restore_node_at (\<lambda>s. s) io_fine 1 None ''/docs''
     (fst (soft_delete_and_retag (\<lambda>s. s) io_fine 1 ''.trash/9/docs'' [] ''/docs'' docs))))) =
   [(''/docs'', False), (''/docs/a'', False), (''/docs/b/c'', False), (''/docs/old'', True), (''/docs.txt'', False)]"
  unfolding conjunct2 [OF trash_and_back [OF docs_ready refl refl]] by code_simp

end
