(* ===== verification/Quota.thy ===== *)
theory Quota
  imports Nodes
begin

text \<open>
  Whose bytes a file is: \<open>internal/quota/service.go\<close>, which reads and moves a person's usage, and
  \<open>internal/quotastore/store.go\<close>, the store every write goes through, which names the owner and the last
  actor of a row and keeps the usage in step with the rows. What a context carries is a record; which of
  an operation's statements fail is another. Sizes are integers, as the columns hold them; the one sum the
  code makes of two of them before it compares is taken in 64 bits (\<open>check_can_write\<close>).
\<close>

section \<open>Who acts\<close>

record ctx =
  cx_owner :: "int option"
  cx_actor :: "int option"
  cx_user :: "int option"
  cx_external :: bool

definition owner_from :: "ctx \<Rightarrow> int" where
  "owner_from c =
     (case cx_owner c of Some v \<Rightarrow> v | None \<Rightarrow> (case cx_user c of Some u \<Rightarrow> u | None \<Rightarrow> 0))"

definition actor_from :: "ctx \<Rightarrow> int" where
  "actor_from c =
     (case cx_actor c of Some v \<Rightarrow> v | None \<Rightarrow> if cx_external c then 0 else owner_from c)"

definition explicit_actor_from :: "ctx \<Rightarrow> int" where
  "explicit_actor_from c = (case cx_actor c of Some v \<Rightarrow> if v > 0 then v else 0 | None \<Rightarrow> 0)"

definition ptr :: "int \<Rightarrow> int option" where
  "ptr i = (if i \<le> 0 then None else Some i)"

definition same_id :: "int option \<Rightarrow> int option \<Rightarrow> bool" where
  "same_id a b \<longleftrightarrow>
     (case a of None \<Rightarrow> b = None | Some x \<Rightarrow> (case b of None \<Rightarrow> False | Some y \<Rightarrow> x = y))"

section \<open>The service\<close>

datatype quota_error = ErrQuotaExceeded | ErrFileTooLarge | ErrUserNotFound | ErrStore

definition lookup_usage :: "bool \<Rightarrow> int \<Rightarrow> db \<Rightarrow> quota_error + int \<times> int" where
  "lookup_usage fails u d =
     (if fails then Inl ErrStore
      else case db_users d u of None \<Rightarrow> Inl ErrUserNotFound | Some w \<Rightarrow> Inr (us_used w, us_quota w))"

definition check_can_write :: "bool \<Rightarrow> int \<Rightarrow> int \<Rightarrow> db \<Rightarrow> quota_error option" where
  "check_can_write fails u bytes d =
     (if u \<le> 0 \<or> bytes \<le> 0 then None
      else case lookup_usage fails u d of
        Inl e \<Rightarrow> if e = ErrUserNotFound then None else Some e
      | Inr (used, limit) \<Rightarrow>
          if limit \<le> 0 then None
          else if wrap64 (used + bytes) > limit then Some ErrQuotaExceeded
          else None)"

text \<open>What the permission loader answers for the account: nothing it could read, or the limit the rules set.\<close>

datatype loaded = LoadFailed | MaxUpload "int option"

definition check_file_size :: "bool \<Rightarrow> loaded \<Rightarrow> int \<Rightarrow> int \<Rightarrow> db \<Rightarrow> quota_error option" where
  "check_file_size user_fails l u bytes d =
     (if u \<le> 0 \<or> bytes \<le> 0 then None
      else if user_fails \<or> db_users d u = None then None
      else case l of
        LoadFailed \<Rightarrow> Some ErrStore
      | MaxUpload None \<Rightarrow> None
      | MaxUpload (Some m) \<Rightarrow> if bytes > m then Some ErrFileTooLarge else None)"

definition check_file :: "bool \<Rightarrow> loaded \<Rightarrow> bool \<Rightarrow> int \<Rightarrow> int \<Rightarrow> int \<Rightarrow> db \<Rightarrow> quota_error option" where
  "check_file user_fails l fails u file_size bytes d =
     (case check_file_size user_fails l u file_size d of
        Some e \<Rightarrow> Some e
      | None \<Rightarrow> check_can_write fails u bytes d)"

definition add_usage :: "bool \<Rightarrow> int \<Rightarrow> int \<Rightarrow> db \<Rightarrow> db" where
  "add_usage fails u bytes d = (if u \<le> 0 \<or> bytes = 0 \<or> fails then d else increment_user_usage u bytes d)"

definition sub_usage :: "bool \<Rightarrow> int \<Rightarrow> int \<Rightarrow> db \<Rightarrow> db" where
  "sub_usage fails u bytes d = (if u \<le> 0 \<or> bytes = 0 \<or> fails then d else increment_user_usage u (- bytes) d)"

definition recompute :: "bool \<Rightarrow> bool \<Rightarrow> int \<Rightarrow> db \<Rightarrow> db \<times> (quota_error + int)" where
  "recompute fails write_fails u d =
     (if u \<le> 0 then (d, Inr 0)
      else case lookup_usage fails u d of
        Inl e \<Rightarrow> (d, Inl e)
      | Inr _ \<Rightarrow>
          if write_fails then (d, Inl ErrStore)
          else (fst (recompute_user_usage u d), Inr (snd (recompute_user_usage u d))))"

definition set_quota :: "bool \<Rightarrow> bool \<Rightarrow> int \<Rightarrow> int \<Rightarrow> db \<Rightarrow> db \<times> quota_error option" where
  "set_quota fails write_fails u bytes d =
     (case lookup_usage fails u d of
        Inl e \<Rightarrow> (d, Some e)
      | Inr _ \<Rightarrow> if write_fails then (d, Some ErrStore) else (set_user_quota u bytes d, None))"

record snapshot =
  sn_used :: int
  sn_quota :: int
  sn_unlimited :: bool

definition get_quota :: "bool \<Rightarrow> int \<Rightarrow> db \<Rightarrow> quota_error + snapshot" where
  "get_quota fails u d =
     (case lookup_usage fails u d of
        Inl e \<Rightarrow> Inl e
      | Inr (used, limit) \<Rightarrow> Inr \<lparr>sn_used = used, sn_quota = limit, sn_unlimited = limit \<le> 0\<rparr>)"

section \<open>The store\<close>

text \<open>The statements of one operation that fail: the read of the row, the write, the read back of an insert,
  the statement on the usage, the one on the owner, the one that names the actor.\<close>

record store_io =
  si_read :: bool
  si_write :: bool
  si_back :: bool
  si_count :: bool
  si_owner :: bool
  si_stamp :: "nat \<Rightarrow> bool"
  si_tree :: tree_io

definition charge :: "store_io \<Rightarrow> int \<Rightarrow> int \<Rightarrow> db \<Rightarrow> db" where
  "charge io u delta d =
     (if u \<le> 0 \<or> delta = 0 then d
      else if delta > 0 then add_usage (si_count io) u delta d
      else sub_usage (si_count io) u (- delta) d)"

definition stamped :: "ctx \<Rightarrow> node \<Rightarrow> node" where
  "stamped c n =
     n\<lparr>nd_owner := (if owner_from c > 0 \<or> nd_owner n = None then ptr (owner_from c) else nd_owner n),
       nd_actor := (if actor_from c > 0 \<or> nd_actor n = None then ptr (actor_from c) else nd_actor n),
       nd_external := (nd_external n \<or> cx_external c)\<rparr>"

definition create_node :: "store_io \<Rightarrow> ctx \<Rightarrow> node \<Rightarrow> db \<Rightarrow> db \<times> node option" where
  "create_node io c n d =
     (case insert_node (si_write io) (si_back io) (stamped c n) d of
        (d1, None) \<Rightarrow> (d1, None)
      | (d1, Some row) \<Rightarrow>
          (if owner_from c > 0 \<and> nd_type row = NodeTypeFile then charge io (owner_from c) (nd_size row) d1 else d1,
           Some row))"

definition stamp_actor :: "store_io \<Rightarrow> node \<Rightarrow> int option \<Rightarrow> db \<Rightarrow> db" where
  "stamp_actor io before who d =
     (if same_id (nd_actor before) who \<or> si_stamp io 0 then d else set_node_actor (nd_id before) who d)"

text \<open>An overwrite, given the row as it was read before the update.\<close>

definition update_from :: "node option \<Rightarrow> store_io \<Rightarrow> ctx \<Rightarrow> int \<Rightarrow> int \<Rightarrow> db \<Rightarrow> db \<times> bool" where
  "update_from before io c i bytes d =
     (if si_write io then (d, False)
      else let d1 = set_meta i bytes d in
        (case before of
           None \<Rightarrow> d1
         | Some b \<Rightarrow>
             if nd_type b \<noteq> NodeTypeFile then d1
             else let d2 = stamp_actor io b (ptr (actor_from c)) d1 in
               (case nd_owner b of
                  Some u \<Rightarrow> charge io u (bytes - nd_size b) d2
                | None \<Rightarrow>
                    if owner_from c \<le> 0 \<or> si_owner io then d2
                    else charge io (owner_from c) bytes (set_node_owner i (Some (owner_from c)) d2)),
         True))"

definition update_node_meta :: "store_io \<Rightarrow> ctx \<Rightarrow> int \<Rightarrow> int \<Rightarrow> db \<Rightarrow> db \<times> bool" where
  "update_node_meta io c i bytes d = update_from (if si_read io then None else get_node i d) io c i bytes d"

definition stamp_actor_by_id :: "store_io \<Rightarrow> ctx \<Rightarrow> int \<Rightarrow> db \<Rightarrow> db" where
  "stamp_actor_by_id io c i d =
     (case ptr (actor_from c) of
        None \<Rightarrow> d
      | Some a \<Rightarrow> if si_stamp io 0 then d else set_node_actor i (Some a) d)"

definition stamp_deleted_by :: "store_io \<Rightarrow> ctx \<Rightarrow> int \<Rightarrow> db \<Rightarrow> db" where
  "stamp_deleted_by io c i d =
     (case ptr (actor_from c) of
        None \<Rightarrow> d
      | Some a \<Rightarrow> fst (set_node_deleted_by (si_stamp io) i (Some a) d))"

definition move_by :: "store_io \<Rightarrow> ctx \<Rightarrow> int \<Rightarrow> int option \<Rightarrow> string \<Rightarrow> string \<Rightarrow> string \<Rightarrow> db \<Rightarrow> db \<times> bool" where
  "move_by io c i parent name path hash d =
     (if si_write io then (d, False)
      else (stamp_actor_by_id io c i (move_node i parent name path hash d), True))"

definition restore_by :: "store_io \<Rightarrow> ctx \<Rightarrow> int \<Rightarrow> db \<Rightarrow> db \<times> bool" where
  "restore_by io c i d =
     (if si_write io then (d, False) else (stamp_actor_by_id io c i (restore_node i d), True))"

definition restore_at_by ::
  "(string \<Rightarrow> string) \<Rightarrow> store_io \<Rightarrow> ctx \<Rightarrow> int \<Rightarrow> int option \<Rightarrow> string \<Rightarrow> db \<Rightarrow> db \<times> bool" where
  "restore_at_by md5 io c i parent orig d =
     (case restore_node_at md5 (si_tree io) i parent orig d of
        (d1, False) \<Rightarrow> (d1, False)
      | (d1, True) \<Rightarrow> (stamp_actor_by_id io c i d1, True))"

definition trash_by ::
  "(string \<Rightarrow> string) \<Rightarrow> store_io \<Rightarrow> ctx \<Rightarrow> int \<Rightarrow> string \<Rightarrow> string \<Rightarrow> string \<Rightarrow> db \<Rightarrow> db \<times> bool" where
  "trash_by md5 io c i trash hash orig d =
     (case soft_delete_and_retag md5 (si_tree io) i trash hash orig d of
        (d1, False) \<Rightarrow> (d1, False)
      | (d1, True) \<Rightarrow> (stamp_deleted_by io c i d1, True))"

definition soft_delete_by :: "store_io \<Rightarrow> ctx \<Rightarrow> int \<Rightarrow> db \<Rightarrow> db \<times> bool" where
  "soft_delete_by io c i d =
     (if si_write io then (d, False) else (stamp_deleted_by io c i (soft_delete_node i d), True))"

text \<open>Purges of one row are serialised on one of 64 locks, so the read and the delete are one step.\<close>

definition purge_lock :: "int \<Rightarrow> nat" where
  "purge_lock i = nat (i mod 2 ^ 64 mod 64)"

definition hard_delete_node :: "store_io \<Rightarrow> int \<Rightarrow> db \<Rightarrow> db \<times> bool" where
  "hard_delete_node io i d =
     (let before = (if si_read io then None else get_node i d);
          owner = (case before of
                     None \<Rightarrow> None
                   | Some b \<Rightarrow> if nd_type b = NodeTypeFile \<and> \<not> si_owner io then nd_owner b else None)
      in if si_write io then (d, False)
         else (case (owner, before) of
                 (Some u, Some b) \<Rightarrow> charge io u (- nd_size b) (delete_node i d)
               | _ \<Rightarrow> delete_node i d,
               True))"

section \<open>Histories\<close>

datatype store_op =
    OpCreate store_io ctx node
  | OpUpdate store_io ctx int int
  | OpMove store_io ctx int "int option" string string string
  | OpTrash store_io ctx int string string string
  | OpSoftDelete store_io ctx int
  | OpRestore store_io ctx int
  | OpRestoreAt store_io ctx int "int option" string
  | OpPurge store_io int
  | OpRecompute bool bool int
  | OpSetQuota bool bool int int

fun op_step :: "(string \<Rightarrow> string) \<Rightarrow> store_op \<Rightarrow> db \<Rightarrow> db" where
  "op_step md5 (OpCreate io c n) d = fst (create_node io c n d)"
| "op_step md5 (OpUpdate io c i bytes) d = fst (update_node_meta io c i bytes d)"
| "op_step md5 (OpMove io c i parent name path hash) d = fst (move_by io c i parent name path hash d)"
| "op_step md5 (OpTrash io c i trash hash orig) d = fst (trash_by md5 io c i trash hash orig d)"
| "op_step md5 (OpSoftDelete io c i) d = fst (soft_delete_by io c i d)"
| "op_step md5 (OpRestore io c i) d = fst (restore_by io c i d)"
| "op_step md5 (OpRestoreAt io c i parent orig) d = fst (restore_at_by md5 io c i parent orig d)"
| "op_step md5 (OpPurge io i) d = fst (hard_delete_node io i d)"
| "op_step md5 (OpRecompute f g u) d = fst (recompute f g u d)"
| "op_step md5 (OpSetQuota f g u bytes) d = fst (set_quota f g u bytes d)"

primrec run_ops :: "(string \<Rightarrow> string) \<Rightarrow> store_op list \<Rightarrow> db \<Rightarrow> db" where
  "run_ops md5 [] d = d"
| "run_ops md5 (x # xs) d = run_ops md5 xs (op_step md5 x d)"

end
