(* ===== verification/QuotaRules.thy ===== *)
theory QuotaRules
  imports Quota TrashRules
begin

text \<open>
  The identity of the accounts - a person's usage is the sum of the files the rows say are theirs,
  the trash included - kept by every operation; the ceiling; and a folder's way through the trash.
\<close>

section \<open>Weights\<close>

named_theorems books_simps

definition weight :: "int \<Rightarrow> node \<Rightarrow> int" where
  "weight u n = (if nd_owner n = Some u \<and> nd_type n = NodeTypeFile then nd_size n else 0)"

lemma owned_weight: "owned_bytes u ns = sum_list (map (weight u) ns)"
  by (induction ns) (auto simp: owned_bytes_def weight_def)

definition charged :: "node \<Rightarrow> int \<times> int option \<times> node_type \<times> int" where
  "charged n = (nd_id n, nd_owner n, nd_type n, nd_size n)"

definition same_books :: "db \<Rightarrow> db \<Rightarrow> bool" where
  "same_books d d' \<longleftrightarrow> map charged (db_nodes d') = map charged (db_nodes d) \<and> db_users d' = db_users d \<and> db_next d' = db_next d"

lemma same_books_refl [simp]: "same_books d d"
  by (simp add: same_books_def)

lemma same_books_trans: "same_books d e \<Longrightarrow> same_books e f \<Longrightarrow> same_books d f"
  by (simp add: same_books_def)

lemma same_books_update [intro]: "(\<And>n. charged (f n) = charged n) \<Longrightarrow> same_books d (update_rows c f d)"
  by (simp add: same_books_def update_rows_def)

definition rows_ok :: "db \<Rightarrow> bool" where
  "rows_ok d \<longleftrightarrow> distinct (map nd_id (db_nodes d)) \<and>
     (\<forall>n \<in> set (db_nodes d). nd_id n < db_next d \<and> 0 \<le> nd_size n \<and> (\<forall>u. nd_owner n = Some u \<longrightarrow> 0 < u))"

definition balanced :: "db \<Rightarrow> bool" where
  "balanced d \<longleftrightarrow> (\<forall>u w. db_users d u = Some w \<longrightarrow> us_used w = owned_bytes u (db_nodes d))"

lemma map_charged:
  assumes "\<And>n. f n = g (charged n)" "map charged ns = map charged ms" shows "map f ns = map f ms"
proof -
  have "map f xs = map g (map charged xs)" for xs using assms(1) by simp
  then show ?thesis using assms(2) by metis
qed

lemma owned_charged:
  assumes "map charged ns = map charged ms" shows "owned_bytes u ns = owned_bytes u ms"
proof -
  have "map (weight u) ns = map (weight u) ms"
    by (rule map_charged [of _ "\<lambda>(i, who, t, b). if who = Some u \<and> t = NodeTypeFile then b else 0", OF _ assms])
      (simp add: weight_def charged_def)
  then show ?thesis by (simp add: owned_weight)
qed

lemma same_books_rows:
  assumes "same_books d d'" "rows_ok d" shows "rows_ok d'"
proof -
  have m: "map charged (db_nodes d') = map charged (db_nodes d)" "db_next d' = db_next d" using assms(1) by (simp_all add: same_books_def)
  define P where "P = (\<lambda>n :: node. nd_id n < db_next d \<and> 0 \<le> nd_size n \<and> (\<forall>u. nd_owner n = Some u \<longrightarrow> 0 < u))"
  have i: "map nd_id (db_nodes d') = map nd_id (db_nodes d)"
    by (rule map_charged [of _ fst, OF _ m(1)]) (simp add: charged_def)
  have p: "map P (db_nodes d') = map P (db_nodes d)"
    by (rule map_charged [of _ "\<lambda>(i, who, t, b). i < db_next d \<and> 0 \<le> b \<and> (\<forall>u. who = Some u \<longrightarrow> 0 < u)", OF _ m(1)])
      (simp add: charged_def P_def)
  have e: "(\<forall>n \<in> set ns. P n) \<longleftrightarrow> False \<notin> set (map P ns)" for ns by (induction ns) auto
  have "(\<forall>n \<in> set (db_nodes d'). P n) \<longleftrightarrow> (\<forall>n \<in> set (db_nodes d). P n)" unfolding e p ..
  moreover have "\<forall>n \<in> set (db_nodes d). P n" using assms(2) by (simp add: rows_ok_def P_def)
  ultimately have "\<forall>n \<in> set (db_nodes d'). P n" by blast
  then show ?thesis using assms(2) i m(2) by (simp add: rows_ok_def P_def)
qed

lemma same_books_balanced: "same_books d d' \<Longrightarrow> balanced d \<Longrightarrow> balanced d'"
  using owned_charged [of "db_nodes d'" "db_nodes d"] by (simp add: same_books_def balanced_def)

section \<open>The operations that charge nothing\<close>

lemma same_books_quiet:
  "same_books d (move_node i parent name path hash d)" "same_books d (soft_delete_node i d)" "same_books d (restore_node i d)"
  "same_books d (set_node_actor i who d)" "same_books d (retag_trashed_subtree md5 ti s olds trash d)"
  "same_books d (restore_trashed_subtree md5 ti s olds trash d)"
  unfolding move_node_def soft_delete_node_def restore_node_def set_node_actor_def retag_trashed_subtree_def
    restore_trashed_subtree_def Let_def by (auto simp: charged_def)

lemma same_books_name_below: "same_books d (fst (name_below fails k s who ps d))"
proof (induction fails k s who ps d rule: name_below.induct)
  case (2 fails k s who pre ps d)
  show ?case
  proof (cases "fails k")
    case False
    have "same_books d (update_rows (\<lambda>n. nd_storage n = s \<and> nd_deleted n \<and> nd_deleted_by n = None \<and> has_prefix (nd_path n) pre)
          (\<lambda>n. n\<lparr>nd_deleted_by := who\<rparr>) d)" by (auto simp: charged_def)
    from same_books_trans [OF this "2.IH" [OF False]] show ?thesis using False by simp
  qed simp
qed simp

lemma same_books_deleted_by: "same_books d (fst (set_node_deleted_by fails i who d))"
proof -
  have u: "same_books d (update_rows (\<lambda>n. nd_id n = i) (\<lambda>n. n\<lparr>nd_deleted_by := who\<rparr>) d)" by (auto simp: charged_def)
  show ?thesis using u same_books_trans [OF u same_books_name_below]
    by (simp add: set_node_deleted_by_def Let_def split: option.split)
qed

lemma same_books_stamps:
  "same_books d (stamp_actor io b who d)" "same_books d (stamp_actor_by_id io c i d)" "same_books d (stamp_deleted_by io c i d)"
  using same_books_quiet(4) same_books_deleted_by
  by (auto simp: stamp_actor_def stamp_actor_by_id_def stamp_deleted_by_def split: option.split)

lemma same_books_retag: "same_books d (fst (soft_delete_and_retag md5 ti i trash hash orig d))"
proof -
  let ?d1 = "update_rows (\<lambda>n. nd_id n = i) (\<lambda>n. n\<lparr>nd_deleted := True, nd_deleted_by := None, nd_parent := None,
    nd_name := path_base trash, nd_path := trash, nd_hash := hash, nd_key := orig\<rparr>) d"
  have "same_books d ?d1" by (auto simp: charged_def)
  then show ?thesis using same_books_trans [OF _ same_books_quiet(5)]
    by (auto simp: soft_delete_and_retag_def Let_def split: option.split)
qed

lemma same_books_restore_at: "same_books d (fst (restore_node_at md5 ti i parent orig d))"
proof -
  have "same_books d (update_rows (\<lambda>m. nd_id m = i) (\<lambda>m. m\<lparr>nd_deleted := False, nd_deleted_by := None,
    nd_parent := parent, nd_name := nm, nd_path := p, nd_hash := hs, nd_key := k\<rparr>) d)" for nm p hs k
    by (auto simp: charged_def)
  then show ?thesis using same_books_trans [OF _ same_books_quiet(6)]
    by (auto simp: restore_node_at_def Let_def split: option.split)
qed

lemma same_books_ops:
  "same_books d (fst (move_by io c i parent name path hash d))" "same_books d (fst (restore_by io c i d))"
  "same_books d (fst (soft_delete_by io c i d))"
  "same_books d (fst (restore_at_by md5 io c i parent orig d))" "same_books d (fst (trash_by md5 io c i trash hash orig d))"
proof -
  show "same_books d (fst (move_by io c i parent name path hash d))" "same_books d (fst (restore_by io c i d))"
    "same_books d (fst (soft_delete_by io c i d))"
    using same_books_trans [OF same_books_quiet(1) same_books_stamps(2)] same_books_trans [OF same_books_quiet(3) same_books_stamps(2)]
      same_books_trans [OF same_books_quiet(2) same_books_stamps(3)]
    by (simp_all add: move_by_def restore_by_def soft_delete_by_def)
  show "same_books d (fst (restore_at_by md5 io c i parent orig d))"
    using same_books_restore_at [of d md5 "si_tree io" i parent orig] same_books_trans [OF _ same_books_stamps(2)]
    by (auto simp: restore_at_by_def split: prod.split bool.split)
  show "same_books d (fst (trash_by md5 io c i trash hash orig d))"
    using same_books_retag [of d md5 "si_tree io" i trash hash orig] same_books_trans [OF _ same_books_stamps(3)]
    by (auto simp: trash_by_def split: prod.split bool.split)
qed

section \<open>The operations that charge\<close>

lemma charge_rows [simp]: "db_nodes (charge io u delta d) = db_nodes d" "db_next (charge io u delta d) = db_next d"
  by (simp_all add: charge_def add_usage_def sub_usage_def increment_user_usage_def split: option.split)

lemma rows_ok_charge [simp]: "rows_ok (charge io u delta d) \<longleftrightarrow> rows_ok d"
  by (simp add: rows_ok_def)

lemma owned_nonneg: "rows_ok d \<Longrightarrow> 0 \<le> owned_bytes u (db_nodes d)"
  unfolding owned_weight by (intro sum_list_nonneg) (auto simp: weight_def rows_ok_def)

definition used_of :: "int \<Rightarrow> db \<Rightarrow> int option" where
  "used_of u d = map_option us_used (db_users d u)"

lemma balanced_iff: "balanced d \<longleftrightarrow> (\<forall>u x. used_of u d = Some x \<longrightarrow> x = owned_bytes u (db_nodes d))"
  by (auto simp: balanced_def used_of_def)

lemma charge_used:
  assumes "0 < u" "\<not> si_count io"
  shows "used_of v (charge io u delta d) =
    map_option (\<lambda>x. if v = u \<and> delta \<noteq> 0 then max 0 (x + delta) else x) (used_of v d)"
  using assms
  by (cases "db_users d v"; cases "v = u")
    (auto simp: charge_def add_usage_def sub_usage_def increment_user_usage_def used_of_def split: option.split)

text \<open>The rows have moved by \<open>delta\<close> for one person, and that is what is charged.\<close>

lemma charge_balances:
  assumes "balanced d" "db_users d' = db_users d" "rows_ok d'" "0 < u" "\<not> si_count io"
    and "\<And>v. owned_bytes v (db_nodes d') = owned_bytes v (db_nodes d) + (if v = u then delta else 0)"
  shows "balanced (charge io u delta d')"
proof -
  have "0 \<le> owned_bytes u (db_nodes d) + delta" using owned_nonneg [OF assms(3), of u] assms(6) [of u] by simp
  moreover have "x = owned_bytes v (db_nodes d)" if "used_of v d' = Some x" for v x
    using assms(1,2) that by (simp add: balanced_iff used_of_def)
  ultimately show ?thesis unfolding balanced_iff charge_rows assms(6) charge_used [OF assms(4,5)] by auto
qed

lemma get_node_Some: "get_node i d = Some n \<Longrightarrow> n \<in> set (db_nodes d) \<and> nd_id n = i"
  by (auto simp: get_node_def find_Some_iff)

lemma get_node_None: "get_node i d = None \<longleftrightarrow> i \<notin> nd_id ` set (db_nodes d)"
  by (auto simp: get_node_def find_None_iff)

lemma weights_update_one:
  "distinct (map nd_id ns) \<Longrightarrow> n \<in> set ns \<Longrightarrow> nd_id n = i \<Longrightarrow>
    sum_list (map (weight u) (map (\<lambda>m. if nd_id m = i then f m else m) ns)) =
    sum_list (map (weight u) ns) - weight u n + weight u (f n)"
proof (induction ns)
  case (Cons a ns)
  show ?case
  proof (cases "a = n")
    case True
    have "nd_id m \<noteq> i" if "m \<in> set ns" for m using Cons.prems True that by (metis distinct.simps(2) image_eqI list.simps(9) set_map)
    then have "map (\<lambda>m. if nd_id m = i then f m else m) ns = ns" by (intro map_idI) simp
    then show ?thesis using True Cons.prems by simp
  next
    case False
    then have "nd_id a \<noteq> i" "n \<in> set ns" using Cons.prems by auto
    then show ?thesis using Cons.IH Cons.prems by simp
  qed
qed simp

lemma owned_update_one:
  assumes "rows_ok d" "get_node i d = Some n"
  shows "owned_bytes u (db_nodes (update_rows (\<lambda>m. nd_id m = i) f d)) = owned_bytes u (db_nodes d) - weight u n + weight u (f n)"
  using assms get_node_Some [OF assms(2)] weights_update_one
  by (simp add: owned_weight update_rows_def rows_ok_def)

lemma rows_ok_update_one:
  assumes "rows_ok d" "\<And>n. nd_id (f n) = nd_id n" "\<And>n. 0 \<le> nd_size n \<Longrightarrow> 0 \<le> nd_size (f n)"
    "\<And>n u. (\<And>v. nd_owner n = Some v \<Longrightarrow> 0 < v) \<Longrightarrow> nd_owner (f n) = Some u \<Longrightarrow> 0 < u"
  shows "rows_ok (update_rows c f d)"
proof -
  have "map nd_id (db_nodes (update_rows c f d)) = map nd_id (db_nodes d)"
    by (simp add: update_rows_def assms(2))
  moreover have "nd_id n < db_next d \<and> 0 \<le> nd_size n \<and> (\<forall>u. nd_owner n = Some u \<longrightarrow> 0 < u)"
    if n: "n \<in> set (db_nodes (update_rows c f d))" for n
  proof -
    obtain m where m: "m \<in> set (db_nodes d)" "n = (if c m then f m else m)" using n by (auto simp: update_rows_def)
    then have "nd_id m < db_next d \<and> 0 \<le> nd_size m \<and> (\<forall>u. nd_owner m = Some u \<longrightarrow> 0 < u)" using assms(1) by (simp add: rows_ok_def)
    then show ?thesis using m(2) assms(2) assms(3) [of m] assms(4) [of m] by (cases "c m") auto
  qed
  ultimately show ?thesis using assms(1) by (simp add: rows_ok_def) (simp add: update_rows_def)
qed

lemma get_node_update:
  assumes "\<And>n. nd_id (f n) = nd_id n"
  shows "get_node i (update_rows c f d) = map_option (\<lambda>n. if c n then f n else n) (get_node i d)"
proof -
  have "find (\<lambda>n. nd_id n = i) (map (\<lambda>n. if c n then f n else n) ns) =
    map_option (\<lambda>n. if c n then f n else n) (find (\<lambda>n. nd_id n = i) ns)" for ns by (induction ns) (auto simp: assms)
  then show ?thesis by (simp add: get_node_def update_rows_def)
qed

lemma weight_simps [simp]:
  "weight u (n\<lparr>nd_actor := a\<rparr>) = weight u n"
  "weight u (n\<lparr>nd_size := b\<rparr>) = (if nd_owner n = Some u \<and> nd_type n = NodeTypeFile then b else 0)"
  by (simp_all add: weight_def)

lemma owned_append: "owned_bytes u (ns @ ms) = owned_bytes u ns + owned_bytes u ms"
  by (simp add: owned_weight)

definition books :: "db \<Rightarrow> bool" where
  "books d \<longleftrightarrow> rows_ok d \<and> balanced d"

lemma books_same: "same_books d d' \<Longrightarrow> books d \<Longrightarrow> books d'"
  using same_books_rows same_books_balanced unfolding books_def by blast

lemma ptr_pos: "ptr i = Some u \<longleftrightarrow> u = i \<and> 0 < i"
  by (auto simp: ptr_def)

lemma create_books:
  assumes "books d" "0 \<le> nd_size n" "nd_owner n = None" "\<not> si_count io" "\<not> si_back io"
  shows "books (fst (create_node io c n d))"
proof (cases "si_write io")
  case False
  let ?row = "(stamped c n)\<lparr>nd_id := db_next d, nd_deleted := False, nd_deleted_by := None\<rparr>"
  let ?d = "d\<lparr>db_nodes := db_nodes d @ [?row], db_next := db_next d + 1\<rparr>"
  have o: "nd_owner ?row = ptr (owner_from c)" "nd_size ?row = nd_size n" "nd_type ?row = nd_type n"
    using assms(3) by (simp_all add: stamped_def)
  have ids: "distinct (map nd_id (db_nodes d))" "\<And>m. m \<in> set (db_nodes d) \<Longrightarrow> nd_id m < db_next d"
    "\<And>m. m \<in> set (db_nodes d) \<Longrightarrow> 0 \<le> nd_size m \<and> (\<forall>u. nd_owner m = Some u \<longrightarrow> 0 < u)"
    using assms(1) by (simp_all add: books_def rows_ok_def)
  have rows: "rows_ok ?d" unfolding rows_ok_def
  proof (intro conjI ballI)
    show "distinct (map nd_id (db_nodes ?d))" using ids(1,2) by fastforce
    show "nd_id m < db_next ?d" "0 \<le> nd_size m" "\<forall>u. nd_owner m = Some u \<longrightarrow> 0 < u" if "m \<in> set (db_nodes ?d)" for m
      using that ids(2,3) [of m] assms(2) o ptr_pos by auto
  qed
  have w: "owned_bytes v (db_nodes ?d) = owned_bytes v (db_nodes d) + weight v ?row" for v
    by (simp add: owned_weight)
  have res: "fst (create_node io c n d) = (if 0 < owner_from c \<and> nd_type n = NodeTypeFile
      then charge io (owner_from c) (nd_size n) ?d else ?d)"
    using False assms(5) o by (simp add: create_node_def insert_node_def Let_def)
  show ?thesis
  proof (cases "0 < owner_from c \<and> nd_type n = NodeTypeFile")
    case True
    have "weight v ?row = (if v = owner_from c then nd_size n else 0)" for v
      using True o by (auto simp: weight_def ptr_def)
    then have "balanced (charge io (owner_from c) (nd_size n) ?d)"
      using True assms(1,4) rows w by (intro charge_balances [of d]) (simp_all add: books_def)
    then show ?thesis using True rows by (simp add: res books_def)
  next
    case False
    then have "weight v ?row = 0" for v using o by (auto simp: weight_def ptr_def)
    then have "balanced ?d" using assms(1) w by (simp add: books_def balanced_def)
    then show ?thesis unfolding res if_not_P [OF False] books_def using rows by blast
  qed
qed (use assms in \<open>simp add: create_node_def insert_node_def\<close>)

lemma stamp_weights:
  "owned_bytes u (db_nodes (stamp_actor io b who d)) = owned_bytes u (db_nodes d)"
  "rows_ok (stamp_actor io b who d) \<longleftrightarrow> rows_ok d" "db_users (stamp_actor io b who d) = db_users d"
proof -
  have sb: "same_books d (stamp_actor io b who d)" by (rule same_books_stamps)
  then show "owned_bytes u (db_nodes (stamp_actor io b who d)) = owned_bytes u (db_nodes d)"
    "db_users (stamp_actor io b who d) = db_users d"
    using owned_charged unfolding same_books_def by metis+
  have "same_books (stamp_actor io b who d) d" using sb by (simp add: same_books_def)
  then show "rows_ok (stamp_actor io b who d) \<longleftrightarrow> rows_ok d" using sb same_books_rows by blast
qed

lemma set_meta_rows:
  assumes "rows_ok d" "0 \<le> bytes" shows "rows_ok (set_meta i bytes d)"
  unfolding set_meta_def by (rule rows_ok_update_one) (use assms in auto)

lemma set_meta_users [simp]: "db_users (set_meta i bytes d) = db_users d" "db_users (set_node_owner i who d) = db_users d"
  by (simp_all add: set_meta_def set_node_owner_def update_rows_def)

lemma set_meta_weight:
  assumes "rows_ok d" "get_node i d = Some b"
  shows "owned_bytes u (db_nodes (set_meta i bytes d)) = owned_bytes u (db_nodes d) +
    (if nd_owner b = Some u \<and> nd_type b = NodeTypeFile then bytes - nd_size b else 0)"
  unfolding set_meta_def owned_update_one [OF assms] by (simp add: weight_def)

lemma update_missing:
  assumes "get_node i d = None" shows "update_rows (\<lambda>n. nd_id n = i) f d = d"
proof -
  have "map (\<lambda>n. if nd_id n = i then f n else n) (db_nodes d) = db_nodes d"
    using assms by (intro map_idI) (auto simp: get_node_None)
  then show ?thesis by (simp add: update_rows_def)
qed

lemma owner_pos: "rows_ok d \<Longrightarrow> n \<in> set (db_nodes d) \<Longrightarrow> nd_owner n = Some u \<Longrightarrow> 0 < u"
  by (simp add: rows_ok_def)

lemma get_node_stamp:
  assumes "get_node i d = Some b" "nd_id before = i"
  obtains b' where "get_node i (stamp_actor io before who d) = Some b'" "nd_owner b' = nd_owner b" "nd_type b' = nd_type b"
    "nd_size b' = nd_size b"
proof (cases "same_id (nd_actor before) who \<or> si_stamp io 0")
  case True
  then show ?thesis using that assms(1) by (simp add: stamp_actor_def)
next
  case False
  have "get_node i (stamp_actor io before who d) = Some (if nd_id b = i then b\<lparr>nd_actor := who\<rparr> else b)"
    using False assms by (simp add: stamp_actor_def set_node_actor_def get_node_update)
  then show ?thesis using that get_node_Some [OF assms(1)] by simp
qed

lemma update_books:
  assumes "books d" "0 \<le> bytes" "\<not> si_read io" "\<not> si_count io"
  shows "books (fst (update_node_meta io c i bytes d))"
proof (cases "si_write io")
  case False
  have ok: "rows_ok d" "balanced d" using assms(1) by (simp_all add: books_def)
  show ?thesis
  proof (cases "get_node i d")
    case None
    then show ?thesis using False assms by (simp add: update_node_meta_def update_from_def set_meta_def update_missing)
  next
    case (Some b)
    let ?d1 = "set_meta i bytes d"
    let ?d2 = "stamp_actor io b (ptr (actor_from c)) ?d1"
    let ?res = "fst (update_node_meta io c i bytes d)"
    have r1: "rows_ok ?d1" "rows_ok ?d2" using set_meta_rows [OF ok(1) assms(2)] stamp_weights(2) by simp_all
    note w1 = set_meta_weight [OF ok(1) Some]
    have w2: "owned_bytes v (db_nodes ?d2) = owned_bytes v (db_nodes d) +
        (if nd_owner b = Some v \<and> nd_type b = NodeTypeFile then bytes - nd_size b else 0)" for v
      by (simp add: stamp_weights(1) w1)
    have u2: "db_users ?d2 = db_users d" by (simp add: stamp_weights(3))
    have res: "?res = (if nd_type b \<noteq> NodeTypeFile then ?d1
        else case nd_owner b of Some u \<Rightarrow> charge io u (bytes - nd_size b) ?d2
             | None \<Rightarrow> if owner_from c \<le> 0 \<or> si_owner io then ?d2
                       else charge io (owner_from c) bytes (set_node_owner i (Some (owner_from c)) ?d2))"
      using False assms(3) Some by (simp add: update_node_meta_def update_from_def Let_def)
    have plain: "books e" if "rows_ok e" "db_users e = db_users d" "\<And>v. owned_bytes v (db_nodes e) = owned_bytes v (db_nodes d)" for e
      using that ok(2) by (simp add: books_def balanced_def)
    consider "nd_type b \<noteq> NodeTypeFile" | u where "nd_type b = NodeTypeFile" "nd_owner b = Some u"
      | "nd_type b = NodeTypeFile" "nd_owner b = None" "owner_from c \<le> 0 \<or> si_owner io"
      | "nd_type b = NodeTypeFile" "nd_owner b = None" "0 < owner_from c" "\<not> si_owner io" by (cases "nd_owner b") force+
    then show ?thesis
    proof cases
      case 1
      then show ?thesis using plain [OF r1(1)] w1 res by simp
    next
      case (2 u)
      have "0 < u" using owner_pos [OF ok(1)] get_node_Some [OF Some] 2(2) by blast
      then have "balanced (charge io u (bytes - nd_size b) ?d2)"
        using ok(2) u2 r1(2) assms(4) w2 2 by (intro charge_balances [of d]) auto
      then show ?thesis using 2 r1(2) res by (simp add: books_def)
    next
      case 3
      then show ?thesis using plain [OF r1(2) u2] w2 res by simp
    next
      case 4
      let ?d3 = "set_node_owner i (Some (owner_from c)) ?d2"
      have g: "get_node i ?d1 = Some (b\<lparr>nd_size := bytes\<rparr>)" "nd_id b = i"
        using Some get_node_Some [OF Some] by (simp_all add: set_meta_def get_node_update)
      obtain b' where b': "get_node i ?d2 = Some b'" "nd_owner b' = None" "nd_type b' = NodeTypeFile" "nd_size b' = bytes"
        by (rule get_node_stamp [OF g, of io "ptr (actor_from c)"]) (use that 4 in simp)
      have r3: "rows_ok ?d3" unfolding set_node_owner_def by (rule rows_ok_update_one) (use r1(2) 4 in auto)
      have "owned_bytes v (db_nodes ?d3) = owned_bytes v (db_nodes d) + (if v = owner_from c then bytes else 0)" for v
        unfolding set_node_owner_def owned_update_one [OF r1(2) b'(1)] using b' w2 [of v] 4 by (auto simp: weight_def)
      then have "balanced (charge io (owner_from c) bytes ?d3)"
        using ok(2) u2 r3 assms(4) 4 by (intro charge_balances [of d]) auto
      then show ?thesis using 4 r3 res by (simp add: books_def)
    qed
  qed
qed (use assms in \<open>simp add: update_node_meta_def update_from_def\<close>)

section \<open>Deleting rows\<close>

definition leaf :: "int \<Rightarrow> db \<Rightarrow> bool" where
  "leaf i d \<longleftrightarrow> list_all (\<lambda>n. nd_parent n \<noteq> Some i) (db_nodes d)"

lemma gone_leaf: "leaf i d \<Longrightarrow> gone k (db_nodes d) [i] = [i]"
proof (induction k)
  case (Suc k)
  have "children_of (db_nodes d) [i] = []"
    using Suc.prems by (auto simp: children_of_def leaf_def list_all_iff filter_empty_conv split: option.split)
  then show ?case using Suc by simp
qed simp

lemma delete_leaf: "leaf i d \<Longrightarrow> delete_node i d = d\<lparr>db_nodes := filter (\<lambda>n. nd_id n \<noteq> i) (db_nodes d)\<rparr>"
  by (simp add: delete_node_def delete_rows_def gone_leaf)

lemma delete_rows_ok: "rows_ok d \<Longrightarrow> rows_ok (delete_rows ids d)"
  by (auto simp: rows_ok_def delete_rows_def Let_def distinct_map_filter)

lemma weights_remove:
  "distinct (map nd_id ns) \<Longrightarrow> n \<in> set ns \<Longrightarrow> nd_id n = i \<Longrightarrow>
    sum_list (map (weight u) (filter (\<lambda>m. nd_id m \<noteq> i) ns)) = sum_list (map (weight u) ns) - weight u n"
proof (induction ns)
  case (Cons a ns)
  show ?case
  proof (cases "a = n")
    case True
    have "nd_id m \<noteq> i" if "m \<in> set ns" for m using Cons.prems True that by (metis distinct.simps(2) image_eqI list.simps(9) set_map)
    then have "filter (\<lambda>m. nd_id m \<noteq> i) ns = ns" by (simp add: filter_id_conv)
    then show ?thesis using True Cons.prems by simp
  next
    case False
    then have "nd_id a \<noteq> i" "n \<in> set ns" using Cons.prems by auto
    then show ?thesis using Cons.IH Cons.prems by simp
  qed
qed simp

lemma delete_users [simp]: "db_users (delete_rows ids d) = db_users d"
  by (simp add: delete_rows_def Let_def)

lemma purge_books:
  assumes "books d" "leaf i d" "\<not> si_read io" "\<not> si_owner io" "\<not> si_count io"
  shows "books (fst (hard_delete_node io i d))"
proof (cases "si_write io")
  case False
  have ok: "rows_ok d" "balanced d" using assms(1) by (simp_all add: books_def)
  have r: "rows_ok (delete_node i d)" by (simp add: delete_node_def delete_rows_ok ok(1))
  have u: "db_users (delete_node i d) = db_users d" by (simp add: delete_node_def)
  show ?thesis
  proof (cases "get_node i d")
    case None
    then have "filter (\<lambda>n. nd_id n \<noteq> i) (db_nodes d) = db_nodes d" by (intro filter_True) (auto simp: get_node_None)
    then have "delete_node i d = d" by (simp add: delete_leaf [OF assms(2)])
    then show ?thesis using False None assms by (simp add: hard_delete_node_def Let_def split: option.split)
  next
    case (Some b)
    have w: "owned_bytes v (db_nodes (delete_node i d)) = owned_bytes v (db_nodes d) - weight v b" for v
      using weights_remove get_node_Some [OF Some] ok(1) by (simp add: delete_leaf [OF assms(2)] owned_weight rows_ok_def)
    show ?thesis
    proof (cases "nd_type b = NodeTypeFile \<and> nd_owner b \<noteq> None")
      case True
      then obtain o' where o: "nd_owner b = Some o'" by blast
      have "0 < o'" using owner_pos [OF ok(1)] get_node_Some [OF Some] o by blast
      then have "balanced (charge io o' (- nd_size b) (delete_node i d))"
        using ok(2) u r assms(5) w o True by (intro charge_balances [of d]) (auto simp: weight_def)
      then show ?thesis using False Some True o assms r by (simp add: hard_delete_node_def Let_def books_def)
    next
      case none: False
      then have "weight v b = 0" for v by (auto simp: weight_def)
      then have "books (delete_node i d)" using r u w ok(2) by (simp add: books_def balanced_def)
      moreover have "fst (hard_delete_node io i d) = delete_node i d"
        using False Some none assms by (auto simp: hard_delete_node_def Let_def split: option.split)
      ultimately show ?thesis by simp
    qed
  qed
qed (use assms in \<open>simp add: hard_delete_node_def\<close>)

text \<open>The fuel of \<open>gone\<close> is enough: what is left names no parent among what has gone.\<close>

lemma gone_le: "set ids \<subseteq> set (gone k ns ids)"
  by (induction k arbitrary: ids) fastforce+

lemma children_subset: "set (children_of ns ids) \<subseteq> nd_id ` set ns"
  by (auto simp: children_of_def)

lemma children_new: "set (children_of ns ids) \<inter> set ids = {}"
  by (auto simp: children_of_def)

lemma gone_stable: "children_of ns ids = [] \<Longrightarrow> gone k ns ids = ids"
  by (induction k) simp_all

lemma gone_grows:
  "children_of ns (gone k ns ids) = [] \<or> card (set (gone k ns ids) - set ids) \<ge> k \<and> set (gone k ns ids) - set ids \<subseteq> nd_id ` set ns"
proof (induction k arbitrary: ids)
  case (Suc k)
  show ?case
  proof (cases "children_of ns ids = []")
    case True
    then show ?thesis by (simp add: gone_stable)
  next
    case False
    let ?c = "children_of ns ids" and ?g = "gone k ns (ids @ children_of ns ids)"
    obtain x where x: "x \<in> set ?c" using False by (cases ?c) auto
    have sub: "set (ids @ ?c) \<subseteq> set ?g" by (rule gone_le)
    have "insert x (set ?g - set (ids @ ?c)) \<subseteq> set ?g - set ids" "x \<notin> set ?g - set (ids @ ?c)"
      using x sub children_new [of ns ids] by auto
    then have "Suc (card (set ?g - set (ids @ ?c))) \<le> card (set ?g - set ids)"
      by (metis List.finite_set card_insert_disjoint card_mono finite_Diff)
    moreover have "set ?g - set ids \<subseteq> (set ?g - set (ids @ ?c)) \<union> nd_id ` set ns" using children_subset by fastforce
    ultimately show ?thesis using Suc.IH [of "ids @ ?c"] by auto
  qed
qed simp

lemma gone_closed:
  assumes "n \<in> set ns" "nd_parent n = Some p" "p \<in> set (gone (length ns) ns ids)"
  shows "nd_id n \<in> set (gone (length ns) ns ids)"
proof (rule ccontr)
  let ?g = "gone (length ns) ns ids"
  assume out: "nd_id n \<notin> set ?g"
  then have "nd_id n \<in> set (children_of ns ?g)" using assms by (auto simp: children_of_def)
  then have "length ns \<le> card (set ?g - set ids)" "set ?g - set ids \<subseteq> nd_id ` set ns - {nd_id n}"
    using gone_grows [of ns "length ns" ids] out by auto
  then have "length ns \<le> card (nd_id ` set ns - {nd_id n})" by (meson card_mono finite_Diff finite_imageI List.finite_set le_trans)
  also have "\<dots> < card (nd_id ` set ns)" using assms(1) by (intro card_Diff1_less) auto
  also have "\<dots> \<le> length ns" by (metis card_length length_map set_map)
  finally show False by simp
qed

section \<open>Histories\<close>

fun op_ok :: "store_op \<Rightarrow> db \<Rightarrow> bool" where
  "op_ok (OpCreate io c n) d \<longleftrightarrow> \<not> si_count io \<and> \<not> si_back io \<and> 0 \<le> nd_size n \<and> nd_owner n = None"
| "op_ok (OpUpdate io c i bytes) d \<longleftrightarrow> \<not> si_count io \<and> \<not> si_read io \<and> 0 \<le> bytes"
| "op_ok (OpPurge io i) d \<longleftrightarrow> \<not> si_count io \<and> \<not> si_read io \<and> \<not> si_owner io \<and> leaf i d"
| "op_ok _ d \<longleftrightarrow> True"

fun ops_counted :: "(string \<Rightarrow> string) \<Rightarrow> store_op list \<Rightarrow> db \<Rightarrow> bool" where
  "ops_counted md5 [] d \<longleftrightarrow> True"
| "ops_counted md5 (x # xs) d \<longleftrightarrow> op_ok x d \<and> ops_counted md5 xs (op_step md5 x d)"

lemma recompute_books: "books d \<Longrightarrow> books (fst (recompute f g u d))"
  by (auto simp: recompute_def lookup_usage_def recompute_user_usage_def books_def rows_ok_def balanced_def Let_def split: option.split)

lemma set_quota_books: "books d \<Longrightarrow> books (fst (set_quota f g u bytes d))"
  by (auto simp: set_quota_def lookup_usage_def set_user_quota_def books_def rows_ok_def balanced_def split: option.split)

lemma step_books: "books d \<Longrightarrow> op_ok x d \<Longrightarrow> books (op_step md5 x d)"
  using books_same [OF same_books_ops(1)] books_same [OF same_books_ops(2)] books_same [OF same_books_ops(3)]
    books_same [OF same_books_ops(4)] books_same [OF same_books_ops(5)]
  by (cases x) (simp_all add: create_books update_books purge_books recompute_books set_quota_books)

lemma run_books: "books d \<Longrightarrow> ops_counted md5 xs d \<Longrightarrow> books (run_ops md5 xs d)"
  by (induction xs arbitrary: d) (simp_all add: step_books)

text \<open>C26. A person's usage is what the rows say: after any sequence of creations, overwrites, moves, deletes into
  the trash, restores, purges, recounts and quota changes, whichever of their own statements failed,
  \<open>usage_bytes\<close> is the sum of the sizes of the files that person owns, trashed ones included - as long as
  the statements that count ran and no purged row still had rows below it.\<close>
theorem usage_is_the_sum:
  assumes "books d" and "ops_counted md5 xs d" and "db_users (run_ops md5 xs d) u = Some w"
  shows "us_used w = owned_bytes u (db_nodes (run_ops md5 xs d))"
  using run_books [OF assms(1,2)] assms(3) by (simp add: books_def balanced_def)

lemma create_owned:
  assumes "0 \<le> nd_size n"
  shows "owned_bytes u (db_nodes (fst (create_node io c n d))) \<le> owned_bytes u (db_nodes d) + nd_size n"
proof -
  have "nd_size (stamped c n) = nd_size n" by (simp add: stamped_def)
  then show ?thesis using assms
    by (auto simp: create_node_def insert_node_def Let_def owned_weight weight_def)
qed

text \<open>What a write adds to the bytes a person is charged for: a new file its size; an overwrite of the
  person's own file what it grows by, of a file nobody owns its whole size, of another's nothing.\<close>

fun grows :: "int \<Rightarrow> store_op \<Rightarrow> db \<Rightarrow> int" where
  "grows u (OpCreate io c n) d = nd_size n"
| "grows u (OpUpdate io c i bytes) d =
     (case get_node i d of
        None \<Rightarrow> 0
      | Some b \<Rightarrow> if nd_type b \<noteq> NodeTypeFile then 0
          else if nd_owner b = Some u then bytes - nd_size b
          else if nd_owner b = None then bytes else 0)"
| "grows u _ d = 0"

lemma update_owned:
  assumes "rows_ok d" "0 \<le> bytes" "\<not> si_read io" "\<not> si_write io"
  shows "owned_bytes u (db_nodes (fst (update_node_meta io c i bytes d))) \<le> owned_bytes u (db_nodes d) + grows u (OpUpdate io c i bytes) d"
proof (cases "get_node i d")
  case None
  then show ?thesis using assms by (simp add: update_node_meta_def update_from_def set_meta_def update_missing)
next
  case (Some b)
  let ?d1 = "set_meta i bytes d"
  let ?d2 = "stamp_actor io b (ptr (actor_from c)) ?d1"
  have r2: "rows_ok ?d2" using set_meta_rows [OF assms(1,2)] stamp_weights(2) by simp
  have w1: "owned_bytes u (db_nodes ?d1) = owned_bytes u (db_nodes d) +
      (if nd_owner b = Some u \<and> nd_type b = NodeTypeFile then bytes - nd_size b else 0)"
    by (rule set_meta_weight [OF assms(1) Some])
  have "owned_bytes u (db_nodes (set_node_owner i (Some v) ?d2)) \<le> owned_bytes u (db_nodes d) + bytes"
    if none: "nd_owner b = None" for v
  proof -
    have g: "get_node i ?d1 = Some (b\<lparr>nd_size := bytes\<rparr>)" "nd_id b = i"
      using Some get_node_Some [OF Some] by (simp_all add: set_meta_def get_node_update)
    obtain b' where b': "get_node i ?d2 = Some b'" "nd_owner b' = None" "nd_size b' = bytes"
      by (rule get_node_stamp [OF g, of io "ptr (actor_from c)"]) (use that none in simp)
    show ?thesis unfolding set_node_owner_def owned_update_one [OF r2 b'(1)]
      using b' w1 none assms(2) by (simp add: weight_def stamp_weights(1))
  qed
  then show ?thesis using w1 assms(2-4) Some
    by (auto simp: update_node_meta_def update_from_def Let_def stamp_weights(1) split: option.split)
qed

lemma write_grows:
  assumes "rows_ok d" "op_ok x d" "(\<exists>io c n. x = OpCreate io c n) \<or> (\<exists>io c i bytes. x = OpUpdate io c i bytes \<and> \<not> si_write io)"
  shows "owned_bytes u (db_nodes (op_step md5 x d)) \<le> owned_bytes u (db_nodes d) + grows u x d"
  using assms(3)
proof (elim disjE exE)
  fix io c n assume "x = OpCreate io c n"
  then show ?thesis using create_owned [of n u io c d] assms(2) by simp
next
  fix io c i bytes assume "x = OpUpdate io c i bytes \<and> \<not> si_write io"
  then show ?thesis using update_owned [OF assms(1), of bytes io u c i] assms(2) by simp
qed

text \<open>C28. The ceiling holds, one write at a time: when the check of a person passed for a number of bytes
  that is at least what the write adds to that person's charge - its whole size, what an overwrite
  grows by, or more, as with uploads still open - then the write leaves the usage at or below the
  quota, unless it was above already. The sum of usage and checked bytes is taken to fit in 64
  bits (a larger one wraps and passes: \<open>huge_size_passes\<close>); between the check and the write nothing
  else is charged to that person.\<close>
theorem checked_writes_keep_the_ceiling:
  assumes "books d" and "db_users d u = Some w" and "0 < us_quota w" and "0 < u" and "us_used w + add < 2 ^ 63"
    and "check_file user_fails l False u file_size add d = None" and "grows u x d \<le> add" and "op_ok x d"
    and "(\<exists>io c n. x = OpCreate io c n) \<or> (\<exists>io c i bytes. x = OpUpdate io c i bytes \<and> \<not> si_write io)"
    and "db_users (op_step md5 x d) u = Some w'"
  shows "us_used w' \<le> max (us_used w) (us_quota w)"
proof -
  have "owned_bytes u (db_nodes (op_step md5 x d)) \<le> owned_bytes u (db_nodes d) + add"
    using write_grows [OF _ assms(8,9), of u md5] assms(1,7) by (force simp: books_def)
  then have le: "us_used w' \<le> us_used w + add"
    using assms(1,2) step_books [OF assms(1,8)] assms(10) by (simp add: books_def balanced_def)
  have used: "0 \<le> us_used w" using assms(1,2) owned_nonneg by (simp add: books_def balanced_def)
  show ?thesis
  proof (cases "0 < add")
    case True
    have "check_can_write False u add d = None" using assms(6) by (simp add: check_file_def split: option.splits)
    then have "us_used w + add \<le> us_quota w"
      using True used assms(2-5) wrap64_small [of "us_used w + add"]
      by (simp add: check_can_write_def lookup_usage_def split: if_splits)
    then show ?thesis using le by simp
  qed (use le in simp)
qed

section \<open>What the books do not hold against\<close>

text \<open>A storage that is deleted takes its rows along past the store: what they were charged stays charged.\<close>

lemma deleted_storage_stays_charged:
  "owned_bytes 7 (db_nodes (delete_storage 1 docs)) = 0 \<and>
   map_option us_used (db_users (delete_storage 1 docs) 7) = Some 10"
  by code_simp

text \<open>Two overwrites of one file that both read the row before either wrote it charge its old size twice.\<close>

definition io_plain :: store_io where
  "io_plain = \<lparr>si_read = False, si_write = False, si_back = False, si_count = False, si_owner = False, si_stamp = (\<lambda>_. False),
     si_tree = io_fine\<rparr>"

definition by_user :: "int \<Rightarrow> ctx" where
  "by_user u = \<lparr>cx_owner = None, cx_actor = None, cx_user = Some u, cx_external = False\<rparr>"

lemma overlapping_overwrites_drift:
  "let before = get_node 2 docs;
       d = fst (update_from before io_plain (by_user 7) 2 30 (fst (update_from before io_plain (by_user 7) 2 20 docs)))
   in owned_bytes 7 (db_nodes d) = 30 \<and> map_option us_used (db_users d 7) = Some 40"
  by code_simp

text \<open>The check asks the writer, the owner is charged: an account at its ceiling is lifted over it by another.\<close>

lemma overwrite_asks_the_writer:
  "check_file False (MaxUpload None) False 8 100 100 docs = None \<and>
   map_option us_used (db_users (fst (update_node_meta io_plain (by_user 8) 2 100 docs)) 7) = Some 100 \<and>
   map_option us_quota (db_users docs 7) = Some 20"
  by code_simp

text \<open>Some writers are checked for what the file grows by only (\<open>checkWriteQuota\<close>: the new size less the
  catalogued one), but a file nobody owns is charged whole to who overwrites it: the account passes
  its ceiling of 20.\<close>

definition unowned :: db where
  "unowned = docs\<lparr>db_nodes := [row 6 ''/free'' NodeTypeFile 30 None False], db_users := [7 \<mapsto> \<lparr>us_used = 0, us_quota = 20\<rparr>]\<rparr>"

lemma unowned_overwrite_passes:
  "check_file False (MaxUpload None) False 7 31 (31 - 30) unowned = None \<and>
   map_option us_used (db_users (fst (update_node_meta io_plain (by_user 7) 6 31 unowned)) 7) = Some 31"
  by code_simp

text \<open>A size so large that the sum wraps is within every quota.\<close>

lemma huge_size_passes:
  assumes "db_users d u = Some w" "0 < us_used w" "us_used w < 2 ^ 62"
  shows "check_can_write False u (2 ^ 63 - 1) d = None"
proof -
  have "us_used w + (2 ^ 63 - 1) + 2 ^ 63 = (us_used w - 1) + 2 ^ 64" by simp
  then have "(us_used w + (2 ^ 63 - 1) + 2 ^ 63) mod 2 ^ 64 = (us_used w - 1) mod 2 ^ 64" by (metis mod_add_self2)
  also have "\<dots> = us_used w - 1" using assms(2,3) by (intro mod_pos_pos_trivial) simp_all
  finally have "wrap64 (us_used w + (2 ^ 63 - 1)) < 0" using assms(3) unfolding wrap64_def by simp
  then show ?thesis using assms(1) by (simp add: check_can_write_def lookup_usage_def)
qed

section \<open>Samples\<close>

lemma docs_books: "books docs"
proof -
  have "distinct (map nd_id (db_nodes docs))" "list_all (\<lambda>n. nd_id n < db_next docs \<and> 0 \<le> nd_size n \<and>
      (case nd_owner n of None \<Rightarrow> True | Some u \<Rightarrow> 0 < u)) (db_nodes docs)" by code_simp+
  moreover from this have "\<forall>n \<in> set (db_nodes docs). \<forall>u. nd_owner n = Some u \<longrightarrow> 0 < u" by (auto simp: list_all_iff split: option.splits)
  moreover have "owned_bytes 7 (db_nodes docs) = 10 \<and> owned_bytes 8 (db_nodes docs) = 6" by code_simp
  ultimately show ?thesis by (auto simp: books_def rows_ok_def balanced_def list_all_iff docs_def)
qed

definition day :: "store_op list" where
  "day = [OpCreate io_plain (by_user 7) (row 0 ''/new'' NodeTypeFile 4 None False), OpUpdate io_plain (by_user 8) 2 12,
     OpTrash io_plain (by_user 7) 1 ''.trash/9/docs'' [] ''/docs'', OpUpdate (io_plain\<lparr>si_write := True\<rparr>) (by_user 7) 5 99,
     OpPurge io_plain 3, OpSetQuota False False 8 50]"

theorem usage_is_the_sum_witness:
  "map_option us_used (db_users (run_ops (\<lambda>s. s) day docs) 7) = Some 16 \<and>
   (\<exists>w. db_users (run_ops (\<lambda>s. s) day docs) 8 = Some w \<and> us_used w = 1 \<and>
     us_used w = owned_bytes 8 (db_nodes (run_ops (\<lambda>s. s) day docs)))"
proof -
  have c: "ops_counted (\<lambda>s. s) day docs" by code_simp
  have r: "db_users (run_ops (\<lambda>s. s) day docs) 8 = Some \<lparr>us_used = 1, us_quota = 50\<rparr>"
    "map_option us_used (db_users (run_ops (\<lambda>s. s) day docs) 7) = Some 16" by code_simp+
  show ?thesis using usage_is_the_sum [OF docs_books c r(1)] r by auto
qed

theorem checked_writes_keep_the_ceiling_witness:
  "\<exists>w'. db_users (op_step (\<lambda>s. s) (OpUpdate io_plain (by_user 7) 2 20) docs) 7 = Some w' \<and> us_used w' \<le> 20"
proof -
  let ?x = "OpUpdate io_plain (by_user 7) 2 20"
  have w: "db_users docs 7 = Some \<lparr>us_used = 10, us_quota = 20\<rparr>" "op_ok ?x docs" "grows 7 ?x docs \<le> 10"
    "check_file False (MaxUpload (Some 20)) False 7 20 10 docs = None" "\<not> si_write io_plain"
    "db_users (op_step (\<lambda>s. s) ?x docs) 7 = Some \<lparr>us_used = 20, us_quota = 20\<rparr>" by code_simp+
  have x: "\<exists>io c i bytes. ?x = OpUpdate io c i bytes \<and> \<not> si_write io" using w(5) by blast
  from checked_writes_keep_the_ceiling [OF docs_books w(1) _ _ _ w(4,3,2) disjI2 [OF x] w(6)]
  show ?thesis using w(6) by simp
qed

end
