(* ===== verification/Filecache.thy ===== *)
theory Filecache
  imports Complex_Main Syspath
begin

text \<open>
  \<open>internal/filecache\<close>: a local cache of file bodies under one ceiling (\<open>filecache.go\<close>, \<open>meter.go\<close>). The state
  holds the registry, the files in the cache directory with their lengths, and the entries handed out; a
  slot and an entry that points to it are joined by the slot's number. Every operation is the region its
  mutex guards; a fetch runs between \<open>start_or_get\<close> and \<open>finish_fill\<close>, which publishes the file as well.
  Times are nanoseconds, a measured rate is a rational number, sums of sizes are \<open>int64\<close> and wrap. The order
  in which Go walks a map is the order of the list of slots.
\<close>

section \<open>Names\<close>

definition quote_mark :: "char \<Rightarrow> bool" where
  "quote_mark c \<longleftrightarrow> c = CHR 0x22 \<or> c = CHR 0x27"

definition trim_quotes :: "string \<Rightarrow> string" where
  "trim_quotes s = trim_right quote_mark (dropWhile quote_mark s)"

text \<open>The time is None for Go's zero time; \<open>Unix\<close> rounds down.\<close>

definition cache_signature :: "string \<Rightarrow> int \<Rightarrow> int option \<Rightarrow> string" where
  "cache_signature etag bytes mtime =
     (let e = trim_quotes etag in
      if e \<noteq> [] then CHR ''e'' # e
      else if bytes \<le> 0 \<and> mtime = None then []
      else CHR ''s'' # format_int bytes @ ''-m'' @
        format_int (case mtime of None \<Rightarrow> -62135596800 | Some t \<Rightarrow> t div 1000000000))"

definition cache_key :: "(string \<Rightarrow> string) \<Rightarrow> int \<Rightarrow> string \<Rightarrow> string" where
  "cache_key sha_hex node sig =
     (if node \<le> 0 \<or> sig = [] then [] else format_int node @ CHR ''-'' # List.take 16 (sha_hex sig))"

text \<open>\<open>^(\d+)-([0-9a-f]{16})\.bin$\<close>, and the key in front of the extension.\<close>

definition entry_key :: "string \<Rightarrow> string option" where
  "entry_key name =
     (let d = takeWhile is_digit name; r = dropWhile is_digit name in
      if d \<noteq> [] \<and> length r = 21 \<and> r ! 0 = CHR ''-'' \<and> list_all is_hex (List.take 16 (drop 1 r)) \<and> drop 17 r = ''.bin''
      then Some (List.take (length name - 4) name) else None)"

section \<open>The registry\<close>

record slot =
  sl_key :: string
  sl_ident :: nat
  sl_size :: int
  sl_used :: int
  sl_pin :: "int option"
  sl_refs :: nat
  sl_filling :: bool
  sl_written :: int

record cache =
  fc_on :: bool
  fc_min :: int
  fc_max :: int
  fc_pin_ttl :: int
  fc_slow :: int
  fc_slots :: "slot list"
  fc_total :: int
  fc_fails :: "(string \<times> int) list"
  fc_files :: "string \<rightharpoonup> int"
  fc_handles :: "(nat \<times> bool) list"
  fc_next :: nat

record config =
  cf_dir :: string
  cf_min_size :: int
  cf_max_bytes :: int
  cf_slow :: int
  cf_pin_ttl :: int

definition default_min_size :: int where "default_min_size = 64 * 2 ^ 20"
definition default_max_bytes :: int where "default_max_bytes = 20 * 2 ^ 30"
definition default_pin_ttl :: int where "default_pin_ttl = 60 * 1000000000"
definition default_slow :: int where "default_slow = 10 * 2 ^ 20"
definition fail_cooldown :: int where "fail_cooldown = 30 * 1000000000"

definition in_use :: "int \<Rightarrow> slot \<Rightarrow> bool" where
  "in_use now s \<longleftrightarrow> sl_refs s > 0 \<or> (case sl_pin s of None \<Rightarrow> False | Some p \<Rightarrow> now < p)"

definition find_slot :: "string \<Rightarrow> cache \<Rightarrow> slot option" where
  "find_slot key c = find (\<lambda>s. sl_key s = key) (fc_slots c)"

definition update_slot :: "nat \<Rightarrow> (slot \<Rightarrow> slot) \<Rightarrow> cache \<Rightarrow> cache" where
  "update_slot i f c = c\<lparr>fc_slots := map (\<lambda>s. if sl_ident s = i then f s else s) (fc_slots c)\<rparr>"

definition remove_slot :: "slot \<Rightarrow> cache \<Rightarrow> cache" where
  "remove_slot s c =
     c\<lparr>fc_slots := filter (\<lambda>t. sl_key t \<noteq> sl_key s) (fc_slots c), fc_total := wrap64 (fc_total c - sl_size s)\<rparr>"

text \<open>What a start finds in the directory: a name, whether it is a folder, and size and time unless they could
  not be read. A broken fill's file is removed, whatever is not an entry is left alone.\<close>

record dir_entry =
  de_name :: string
  de_folder :: bool
  de_info :: "(int \<times> int) option"

definition load_entry :: "int \<Rightarrow> cache \<Rightarrow> dir_entry \<Rightarrow> cache" where
  "load_entry now c e =
     (if de_folder e \<or> length (de_name e) > 5 \<and> List.take 5 (de_name e) = ''.tmp-'' then c
      else case (entry_key (de_name e), de_info e) of
        (Some key, Some (bytes, mtime)) \<Rightarrow>
          c\<lparr>fc_slots := fc_slots c @ [\<lparr>sl_key = key, sl_ident = fc_next c, sl_size = bytes,
              sl_used = (if mtime > now then now else mtime), sl_pin = None, sl_refs = 0, sl_filling = False,
              sl_written = 0\<rparr>],
            fc_total := wrap64 (fc_total c + bytes), fc_files := (fc_files c)(key \<mapsto> bytes), fc_next := fc_next c + 1\<rparr>
      | _ \<Rightarrow> c)"

definition new_cache :: "config \<Rightarrow> int \<Rightarrow> dir_entry list option \<Rightarrow> cache" where
  "new_cache cfg now dir =
     (let pick = (\<lambda>v d. if v \<le> 0 then d else v);
          c = \<lparr>fc_on = (cf_dir cfg \<noteq> []), fc_min = pick (cf_min_size cfg) default_min_size,
            fc_max = pick (cf_max_bytes cfg) default_max_bytes, fc_pin_ttl = pick (cf_pin_ttl cfg) default_pin_ttl,
            fc_slow = pick (cf_slow cfg) default_slow, fc_slots = [], fc_total = 0, fc_fails = [],
            fc_files = Map.empty, fc_handles = [], fc_next = 0\<rparr>
      in if \<not> fc_on c then c
         else case dir of None \<Rightarrow> c | Some es \<Rightarrow> foldl (load_entry now) c es)"

section \<open>Reading\<close>

definition acquire :: "int \<Rightarrow> string \<Rightarrow> cache \<Rightarrow> cache \<times> nat option" where
  "acquire now key c =
     (if \<not> fc_on c \<or> key = [] then (c, None)
      else case find_slot key c of
        None \<Rightarrow> (c, None)
      | Some s \<Rightarrow>
          if sl_filling s then (c, None)
          else (update_slot (sl_ident s) (\<lambda>s. s\<lparr>sl_refs := sl_refs s + 1, sl_used := now\<rparr>)
                  (c\<lparr>fc_handles := fc_handles c @ [(sl_ident s, False)]\<rparr>),
                Some (length (fc_handles c))))"

definition release :: "nat \<Rightarrow> cache \<Rightarrow> cache" where
  "release h c =
     (if h < length (fc_handles c) \<and> \<not> snd (fc_handles c ! h)
      then update_slot (fst (fc_handles c ! h)) (\<lambda>s. if sl_refs s > 0 then s\<lparr>sl_refs := sl_refs s - 1\<rparr> else s)
             (c\<lparr>fc_handles := (fc_handles c)[h := (fst (fc_handles c ! h), True)]\<rparr>)
      else c)"

definition ready :: "int \<Rightarrow> string \<Rightarrow> cache \<Rightarrow> cache \<times> bool" where
  "ready now key c =
     (if \<not> fc_on c \<or> key = [] then (c, False)
      else case find_slot key c of
        None \<Rightarrow> (c, False)
      | Some s \<Rightarrow>
          if sl_filling s then (c, False)
          else (update_slot (sl_ident s) (\<lambda>s. s\<lparr>sl_used := now, sl_pin := Some (now + fc_pin_ttl c)\<rparr>) c, True))"

definition filling :: "string \<Rightarrow> cache \<Rightarrow> nat option" where
  "filling key c =
     (if \<not> fc_on c \<or> key = [] then None
      else case find_slot key c of None \<Rightarrow> None | Some s \<Rightarrow> if sl_filling s then Some (sl_ident s) else None)"

text \<open>The window a ranged read of an entry gives: None for the error, else where it starts and what is left.\<close>

definition range_window :: "int \<Rightarrow> int \<Rightarrow> int \<Rightarrow> (int \<times> int) option" where
  "range_window bytes off len =
     (if off < 0 then None
      else let left = max 0 (bytes - off) in Some (off, if len \<ge> 0 then min len left else left))"

definition percent :: "int \<Rightarrow> int \<Rightarrow> int" where
  "percent bytes written =
     (if bytes \<le> 0 then 0
      else let p = wrap64 (written * 100) div bytes in if p > 99 then 99 else if p < 0 then 0 else p)"

section \<open>Eviction\<close>

text \<open>\<open>fails\<close> names the files the system refuses to remove.\<close>

definition fits :: "int \<Rightarrow> cache \<Rightarrow> bool" where
  "fits need c \<longleftrightarrow> wrap64 (fc_total c + need) \<le> fc_max c"

fun evict_victims :: "(string \<Rightarrow> bool) \<Rightarrow> int \<Rightarrow> slot list \<Rightarrow> cache \<Rightarrow> cache" where
  "evict_victims fails need [] c = c"
| "evict_victims fails need (s # ss) c =
     (if fits need c then c
      else if fails (sl_key s) then evict_victims fails need ss c
      else evict_victims fails need ss (remove_slot s (c\<lparr>fc_files := (fc_files c)(sl_key s := None)\<rparr>)))"

definition evict :: "int \<Rightarrow> (string \<Rightarrow> bool) \<Rightarrow> int \<Rightarrow> cache \<Rightarrow> cache \<times> bool" where
  "evict now fails need c =
     (if fits need c then (c, True)
      else if need > fc_max c then (c, False)
      else let victims = stable_sort (\<lambda>s t. sl_used s < sl_used t)
                           (filter (\<lambda>s. \<not> (sl_filling s \<or> in_use now s)) (fc_slots c));
               c' = evict_victims fails need victims c
           in (c', fits need c'))"

definition drop_slot :: "int \<Rightarrow> (string \<Rightarrow> bool) \<Rightarrow> string \<Rightarrow> cache \<Rightarrow> cache \<times> bool" where
  "drop_slot now fails key c =
     (if \<not> fc_on c \<or> key = [] then (c, False)
      else case find_slot key c of
        None \<Rightarrow> (c, False)
      | Some s \<Rightarrow>
          if sl_filling s \<or> in_use now s then (c, False)
          else if fails key then (c, False)
          else (remove_slot s (c\<lparr>fc_files := (fc_files c)(key := None)\<rparr>), True))"

section \<open>Filling\<close>

datatype started = Started nat | Joined nat | Cached | NoRoom

definition start_or_get :: "int \<Rightarrow> (string \<Rightarrow> bool) \<Rightarrow> string \<Rightarrow> int \<Rightarrow> cache \<Rightarrow> cache \<times> started" where
  "start_or_get now fails key bytes c =
     (if \<not> fc_on c \<or> key = [] then (c, NoRoom)
      else if bytes \<le> 0 then (c, NoRoom)
      else case find_slot key c of
        Some s \<Rightarrow>
          if sl_filling s then (c, Joined (sl_ident s))
          else (update_slot (sl_ident s) (\<lambda>s. s\<lparr>sl_used := now\<rparr>) c, Cached)
      | None \<Rightarrow>
          let until = map_of (fc_fails c) key in
          if (case until of None \<Rightarrow> False | Some t \<Rightarrow> now < t) then (c, NoRoom)
          else let c0 = c\<lparr>fc_fails := filter (\<lambda>kt. fst kt \<noteq> key) (fc_fails c)\<rparr>;
                   (c1, room) = evict now fails bytes c0
               in if \<not> room then (c1, NoRoom)
                  else (c1\<lparr>fc_slots := fc_slots c1 @ [\<lparr>sl_key = key, sl_ident = fc_next c1, sl_size = bytes,
                            sl_used = now, sl_pin = None, sl_refs = 1, sl_filling = True, sl_written = 0\<rparr>],
                          fc_total := wrap64 (fc_total c1 + bytes), fc_next := fc_next c1 + 1\<rparr>,
                        Started (fc_next c1)))"

definition write_chunk :: "nat \<Rightarrow> int \<Rightarrow> cache \<Rightarrow> cache" where
  "write_chunk i n c = update_slot i (\<lambda>s. if n > 0 then s\<lparr>sl_written := sl_written s + n\<rparr> else s) c"

definition prune_failures :: "int \<Rightarrow> cache \<Rightarrow> cache" where
  "prune_failures now c =
     (if length (fc_fails c) < 64 then c else c\<lparr>fc_fails := filter (\<lambda>kt. \<not> snd kt < now) (fc_fails c)\<rparr>)"

text \<open>How the fetch ended: an error of its own, or so many bytes copied and the file renamed or not.\<close>

datatype fetched = FetchFailed | Copied int bool

definition fetch_ok :: "int \<Rightarrow> fetched \<Rightarrow> bool" where
  "fetch_ok bytes r \<longleftrightarrow> (case r of FetchFailed \<Rightarrow> False | Copied n renamed \<Rightarrow> n = bytes \<and> renamed)"

definition finish_fill :: "int \<Rightarrow> nat \<Rightarrow> fetched \<Rightarrow> cache \<Rightarrow> cache" where
  "finish_fill now i r c =
     (case find (\<lambda>s. sl_ident s = i \<and> sl_filling s) (fc_slots c) of
        None \<Rightarrow> c
      | Some s \<Rightarrow>
          if fetch_ok (sl_size s) r
          then update_slot i (\<lambda>s. s\<lparr>sl_filling := False, sl_refs := (if sl_refs s > 0 then sl_refs s - 1 else sl_refs s),
                 sl_used := now\<rparr>) (c\<lparr>fc_files := (fc_files c)(sl_key s \<mapsto> sl_size s)\<rparr>)
          else let c1 = prune_failures now (remove_slot s c)
               in c1\<lparr>fc_fails := (sl_key s, now + fail_cooldown) # filter (\<lambda>kt. fst kt \<noteq> sl_key s) (fc_fails c1)\<rparr>)"

section \<open>When it is worth it\<close>

definition slow_storage :: "rat \<Rightarrow> nat \<Rightarrow> bool \<Rightarrow> cache \<Rightarrow> bool" where
  "slow_storage bps samples operator_slow c \<longleftrightarrow>
     (if samples \<ge> 3 \<and> bps \<ge> of_int (wrap64 (2 * fc_slow c)) then False
      else if operator_slow then True
      else samples \<ge> 3 \<and> bps < of_int (fc_slow c))"

definition qualifies :: "rat \<Rightarrow> nat \<Rightarrow> int \<Rightarrow> bool \<Rightarrow> cache \<Rightarrow> bool" where
  "qualifies bps samples bytes operator_slow c \<longleftrightarrow>
     (if \<not> fc_on c \<or> bytes < fc_min c then False else slow_storage bps samples operator_slow c)"

section \<open>Histories\<close>

datatype cache_act =
    Acquire int string
  | Release nat
  | Ready int string
  | Start int "string \<Rightarrow> bool" string int
  | Chunk nat int
  | Finish int nat fetched
  | Drop int "string \<Rightarrow> bool" string

fun cache_step :: "cache_act \<Rightarrow> cache \<Rightarrow> cache" where
  "cache_step (Acquire now key) c = fst (acquire now key c)"
| "cache_step (Release h) c = release h c"
| "cache_step (Ready now key) c = fst (ready now key c)"
| "cache_step (Start now fails key bytes) c = fst (start_or_get now fails key bytes c)"
| "cache_step (Chunk i n) c = write_chunk i n c"
| "cache_step (Finish now i r) c = finish_fill now i r c"
| "cache_step (Drop now fails key) c = fst (drop_slot now fails key c)"

primrec run_cache :: "cache_act list \<Rightarrow> cache \<Rightarrow> cache" where
  "run_cache [] c = c"
| "run_cache (a # as) c = run_cache as (cache_step a c)"

end
