(* ===== verification/FilecacheRules.thy ===== *)
theory FilecacheRules
  imports Filecache
begin

text \<open>
  What the cache promises: the ceiling holds with the fills under way counted in, an entry somebody reads
  or was just promised stays, and a key written by one process is an entry to the next.
\<close>

section \<open>The registry in order\<close>

definition opens :: "(nat \<times> bool) list \<Rightarrow> nat \<Rightarrow> nat" where
  "opens hs i = length (filter (\<lambda>h. h = (i, False)) hs)"

definition slot_ok :: "(nat \<times> bool) list \<Rightarrow> nat \<Rightarrow> slot \<Rightarrow> bool" where
  "slot_ok hs n s \<longleftrightarrow> sl_ident s < n \<and> 0 \<le> sl_size s \<and>
     sl_refs s = opens hs (sl_ident s) + (if sl_filling s then 1 else 0) \<and> (sl_filling s \<longrightarrow> opens hs (sl_ident s) = 0)"

definition slots_ok :: "slot list \<Rightarrow> (nat \<times> bool) list \<Rightarrow> nat \<Rightarrow> (string \<rightharpoonup> int) \<Rightarrow> bool" where
  "slots_ok ss hs n files \<longleftrightarrow> distinct (map sl_key ss) \<and> distinct (map sl_ident ss) \<and> (\<forall>s \<in> set ss. slot_ok hs n s) \<and>
     (\<forall>h \<in> set hs. fst h < n \<and> (\<not> snd h \<longrightarrow> fst h \<in> sl_ident ` set ss)) \<and>
     (\<forall>k b. files k = Some b \<longleftrightarrow> (\<exists>s \<in> set ss. sl_key s = k \<and> \<not> sl_filling s \<and> sl_size s = b))"

definition cache_ok :: "cache \<Rightarrow> bool" where
  "cache_ok c \<longleftrightarrow> slots_ok (fc_slots c) (fc_handles c) (fc_next c) (fc_files c) \<and>
     fc_total c = sum_list (map sl_size (fc_slots c)) \<and> fc_total c < 2 ^ 62 \<and> 0 < fc_max c \<and> fc_max c < 2 ^ 62"

lemma cache_okD:
  assumes "cache_ok c"
  shows "slots_ok (fc_slots c) (fc_handles c) (fc_next c) (fc_files c)" "fc_total c = sum_list (map sl_size (fc_slots c))"
    "fc_total c < 2 ^ 62" "0 < fc_max c" "fc_max c < 2 ^ 62"
  using assms unfolding cache_ok_def by blast+

lemma slots_okD:
  assumes "slots_ok ss hs n files"
  shows "distinct (map sl_key ss)" "distinct (map sl_ident ss)" "\<And>s. s \<in> set ss \<Longrightarrow> slot_ok hs n s"
    "\<And>h. h \<in> set hs \<Longrightarrow> fst h < n" "\<And>h. h \<in> set hs \<Longrightarrow> \<not> snd h \<Longrightarrow> fst h \<in> sl_ident ` set ss"
    "\<And>k b. files k = Some b \<longleftrightarrow> (\<exists>s \<in> set ss. sl_key s = k \<and> \<not> sl_filling s \<and> sl_size s = b)"
  using assms unfolding slots_ok_def by blast+

lemma slot_unique:
  assumes "slots_ok ss hs n files" "s \<in> set ss" "t \<in> set ss" "sl_key s = sl_key t \<or> sl_ident s = sl_ident t"
  shows "s = t"
  using assms slots_okD(1,2) [OF assms(1)] by (auto simp: distinct_map inj_on_def)

lemma opens_pos: "0 < opens hs i \<longleftrightarrow> (i, False) \<in> set hs"
  by (auto simp: opens_def filter_empty_conv)

text \<open>Changes that leave key, number, size and state of every slot, and give it the references it should have.\<close>

lemma map_slots_ok:
  assumes ok: "slots_ok ss hs n files"
    and f: "\<And>s. sl_key (f s) = sl_key s \<and> sl_ident (f s) = sl_ident s \<and> sl_size (f s) = sl_size s \<and> sl_filling (f s) = sl_filling s"
    and r: "\<And>s. s \<in> set ss \<Longrightarrow> slot_ok hs' n (f s)"
    and h: "\<And>h. h \<in> set hs' \<Longrightarrow> fst h < n \<and> (\<not> snd h \<longrightarrow> fst h \<in> sl_ident ` set ss)"
  shows "slots_ok (map f ss) hs' n files"
proof -
  have m: "map sl_key (map f ss) = map sl_key ss" "map sl_ident (map f ss) = map sl_ident ss" using f by simp_all
  then have "sl_ident ` set (map f ss) = sl_ident ` set ss" by (metis set_map)
  then show ?thesis unfolding slots_ok_def m using slots_okD [OF ok] f r h by (auto simp: image_iff)
qed

lemma map_sizes:
  assumes "\<And>s. sl_size (f s) = sl_size s" shows "sum_list (map sl_size (map f ss)) = sum_list (map sl_size ss)"
  using assms by (simp add: comp_def)

text \<open>A change of the slots with number \<open>i\<close> that keeps all of them in order keeps the cache in order.\<close>

lemma update_slot_ok:
  assumes c: "cache_ok c"
    and f: "\<And>s. sl_key (f s) = sl_key s \<and> sl_ident (f s) = sl_ident s \<and> sl_size (f s) = sl_size s \<and> sl_filling (f s) = sl_filling s"
    and r: "\<And>s. s \<in> set (fc_slots c) \<Longrightarrow> slot_ok hs (fc_next c) (if sl_ident s = i then f s else s)"
    and h: "\<And>h. h \<in> set hs \<Longrightarrow> fst h < fc_next c \<and> (\<not> snd h \<longrightarrow> fst h \<in> sl_ident ` set (fc_slots c))"
  shows "cache_ok (update_slot i f (c\<lparr>fc_handles := hs\<rparr>))"
proof -
  let ?f = "\<lambda>s. if sl_ident s = i then f s else s"
  have "slots_ok (map ?f (fc_slots c)) hs (fc_next c) (fc_files c)"
    by (rule map_slots_ok [OF cache_okD(1) [OF c]]) (use f r h in auto)
  moreover have "sum_list (map sl_size (map ?f (fc_slots c))) = sum_list (map sl_size (fc_slots c))"
    by (rule map_sizes) (use f in simp)
  ultimately show ?thesis using cache_okD [OF c] unfolding cache_ok_def update_slot_def by simp
qed

lemma touch_ok:
  assumes c: "cache_ok c" and f: "\<And>s. sl_key (f s) = sl_key s \<and> sl_ident (f s) = sl_ident s \<and> sl_size (f s) = sl_size s \<and>
     sl_filling (f s) = sl_filling s \<and> sl_refs (f s) = sl_refs s"
  shows "cache_ok (update_slot i f c)"
proof -
  have "cache_ok (update_slot i f (c\<lparr>fc_handles := fc_handles c\<rparr>))"
    by (rule update_slot_ok [OF c]) (use f slots_okD(3-5) [OF cache_okD(1) [OF c]] in \<open>auto simp: slot_ok_def\<close>)
  then show ?thesis by simp
qed

lemma find_slot_Some: "find_slot key c = Some s \<Longrightarrow> s \<in> set (fc_slots c) \<and> sl_key s = key"
  by (auto simp: find_slot_def find_Some_iff)

lemma find_slot_None: "find_slot key c = None \<longleftrightarrow> key \<notin> sl_key ` set (fc_slots c)"
  by (auto simp: find_slot_def find_None_iff)

lemma find_slot_mem: "cache_ok c \<Longrightarrow> s \<in> set (fc_slots c) \<Longrightarrow> find_slot (sl_key s) c = Some s"
  using slot_unique [OF cache_okD(1)] find_slot_Some find_slot_None by (metis imageI not_None_eq)

lemma opens_append: "opens (hs @ [(i, False)]) j = opens hs j + (if j = i then 1 else 0)"
  by (simp add: opens_def)

lemma acquire_ok:
  assumes c: "cache_ok c" shows "cache_ok (fst (acquire now key c))"
proof (cases "\<exists>s. fc_on c \<and> key \<noteq> [] \<and> find_slot key c = Some s \<and> \<not> sl_filling s")
  case True
  then obtain s where s: "fc_on c" "key \<noteq> []" "find_slot key c = Some s" "\<not> sl_filling s" by blast
  note ok = cache_okD(1) [OF c] and m = find_slot_Some [OF s(3)]
  have "cache_ok (update_slot (sl_ident s) (\<lambda>s. s\<lparr>sl_refs := sl_refs s + 1, sl_used := now\<rparr>)
      (c\<lparr>fc_handles := fc_handles c @ [(sl_ident s, False)]\<rparr>))"
  proof (rule update_slot_ok [OF c])
    fix t assume t: "t \<in> set (fc_slots c)"
    have "sl_ident t = sl_ident s \<Longrightarrow> t = s" using slot_unique [OF ok t] m by blast
    then show "slot_ok (fc_handles c @ [(sl_ident s, False)]) (fc_next c)
        (if sl_ident t = sl_ident s then t\<lparr>sl_refs := sl_refs t + 1, sl_used := now\<rparr> else t)"
      using slots_okD(3) [OF ok t] s(4) by (auto simp: slot_ok_def opens_append)
  qed (use slots_okD(3-5) [OF ok] m in \<open>auto simp: slot_ok_def\<close>)
  then show ?thesis using s by (simp add: acquire_def)
qed (use c in \<open>auto simp: acquire_def split: option.split\<close>)

lemma opens_close:
  assumes "h < length hs" "hs ! h = (i, False)"
  shows "opens hs j = opens (hs[h := (i, True)]) j + (if j = i then 1 else 0)"
proof -
  have a: "hs = List.take h hs @ (i, False) # drop (Suc h) hs" using assms by (metis id_take_nth_drop)
  have b: "hs[h := (i, True)] = List.take h hs @ (i, True) # drop (Suc h) hs" using assms(1) by (simp add: upd_conv_take_nth_drop)
  show ?thesis unfolding b by (subst a) (simp add: opens_def)
qed

lemma release_ok:
  assumes c: "cache_ok c" shows "cache_ok (release h c)"
proof (cases "h < length (fc_handles c) \<and> \<not> snd (fc_handles c ! h)")
  case True
  then obtain i where h: "h < length (fc_handles c)" "fc_handles c ! h = (i, False)" by (metis (full_types) surj_pair snd_conv)
  note ok = cache_okD(1) [OF c] and o = opens_close [OF h]
  have "cache_ok (update_slot i (\<lambda>s. if sl_refs s > 0 then s\<lparr>sl_refs := sl_refs s - 1\<rparr> else s)
      (c\<lparr>fc_handles := (fc_handles c)[h := (i, True)]\<rparr>))"
  proof (rule update_slot_ok [OF c])
    fix g assume "g \<in> set ((fc_handles c)[h := (i, True)])"
    then consider "g = (i, True)" | "g \<in> set (fc_handles c)" using set_update_subset_insert by fastforce
    then show "fst g < fc_next c \<and> (\<not> snd g \<longrightarrow> fst g \<in> sl_ident ` set (fc_slots c))"
    proof cases
      case 1
      have "(i, False) \<in> set (fc_handles c)" using h nth_mem by metis
      then show ?thesis using slots_okD(4) [OF ok, of "(i, False)"] 1 by simp
    qed (use slots_okD(4,5) [OF ok] in blast)
  next
    fix s assume s: "s \<in> set (fc_slots c)"
    show "slot_ok ((fc_handles c)[h := (i, True)]) (fc_next c)
        (if sl_ident s = i then if sl_refs s > 0 then s\<lparr>sl_refs := sl_refs s - 1\<rparr> else s else s)"
    proof (cases "sl_ident s = i")
      case True
      then show ?thesis using slots_okD(3) [OF ok s] o [of i] unfolding slot_ok_def by simp
    next
      case False
      then show ?thesis using slots_okD(3) [OF ok s] o [of "sl_ident s"] unfolding slot_ok_def by simp
    qed
  qed auto
  then show ?thesis using h by (simp add: release_def)
qed (use c in \<open>auto simp: release_def\<close>)

lemma ready_ok: "cache_ok c \<Longrightarrow> cache_ok (fst (ready now key c))"
  by (auto simp: ready_def intro!: touch_ok split: option.split)

lemma write_chunk_ok: "cache_ok c \<Longrightarrow> cache_ok (write_chunk i n c)"
  unfolding write_chunk_def by (rule touch_ok) auto

section \<open>Slots that come and go\<close>

lemma total_nonneg: "cache_ok c \<Longrightarrow> 0 \<le> fc_total c"
  unfolding cache_okD(2) by (rule sum_list_nonneg) (use slots_okD(3) [OF cache_okD(1)] in \<open>auto simp: slot_ok_def\<close>)

lemma sum_filter_key:
  fixes f :: "'a \<Rightarrow> int"
  assumes "distinct (map k ss)" "s \<in> set ss"
  shows "sum_list (map f (filter (\<lambda>t. k t \<noteq> k s) ss)) = sum_list (map f ss) - f s"
  using assms
proof (induction ss)
  case (Cons a ss)
  show ?case
  proof (cases "a = s")
    case True
    then have "k t \<noteq> k s" if "t \<in> set ss" for t using Cons.prems that by (metis distinct.simps(2) image_eqI list.set_map list.simps(9))
    then have "filter (\<lambda>t. k t \<noteq> k s) ss = ss" by (simp add: filter_id_conv)
    then show ?thesis using True by simp
  next
    case False
    then have "k a \<noteq> k s" using Cons.prems by (auto simp: image_iff)
    then show ?thesis using Cons False by simp
  qed
qed simp

lemma sizes_nonneg:
  assumes c: "cache_ok c" and s: "s \<in> set (fc_slots c)"
  shows "0 \<le> sl_size s \<and> sl_size s \<le> fc_total c"
proof -
  note ok = cache_okD(1) [OF c]
  have p: "0 \<le> sl_size t" if "t \<in> set (fc_slots c)" for t using slots_okD(3) [OF ok that] by (simp add: slot_ok_def)
  have "0 \<le> sum_list (map sl_size (filter (\<lambda>t. sl_key t \<noteq> sl_key s) (fc_slots c)))"
    by (rule sum_list_nonneg) (use p in auto)
  then show ?thesis using sum_filter_key [OF slots_okD(1) [OF ok] s, of sl_size] p [OF s] by (simp add: cache_okD(2) [OF c])
qed

lemma remove_ok:
  assumes c: "cache_ok c" and s: "s \<in> set (fc_slots c)" and o: "opens (fc_handles c) (sl_ident s) = 0"
  shows "cache_ok (remove_slot s (c\<lparr>fc_files := (fc_files c)(sl_key s := None)\<rparr>))"
proof -
  let ?ss = "filter (\<lambda>t. sl_key t \<noteq> sl_key s) (fc_slots c)"
  note ok = cache_okD(1) [OF c]
  have i: "(i, False) \<in> set (fc_handles c) \<Longrightarrow> i \<in> sl_ident ` set ?ss" for i
  proof -
    assume h: "(i, False) \<in> set (fc_handles c)"
    then have n: "i \<noteq> sl_ident s" using o opens_pos [of "fc_handles c" i] by auto
    obtain t where t: "t \<in> set (fc_slots c)" "sl_ident t = i" using slots_okD(5) [OF ok h] by auto
    then have "sl_key t \<noteq> sl_key s" using slot_unique [OF ok t(1) s] n by auto
    then show ?thesis using t by auto
  qed
  have "slots_ok ?ss (fc_handles c) (fc_next c) ((fc_files c)(sl_key s := None))"
    unfolding slots_ok_def
  proof (intro conjI ballI allI)
    show "distinct (map sl_key ?ss)" "distinct (map sl_ident ?ss)"
      using slots_okD(1,2) [OF ok] by (simp_all add: distinct_map_filter)
  next
    fix k b
    show "((fc_files c)(sl_key s := None)) k = Some b \<longleftrightarrow>
        (\<exists>t \<in> set ?ss. sl_key t = k \<and> \<not> sl_filling t \<and> sl_size t = b)"
      using slots_okD(6) [OF ok, of k b] by auto
  qed (use slots_okD(3-5) [OF ok] i in auto)
  moreover have "sum_list (map sl_size ?ss) = fc_total c - sl_size s"
    using sum_filter_key [OF slots_okD(1) [OF ok] s] by (simp add: cache_okD(2) [OF c])
  moreover have "wrap64 (fc_total c - sl_size s) = fc_total c - sl_size s"
    using sizes_nonneg [OF c s] cache_okD(3) [OF c] by (intro wrap64_small) auto
  ultimately show ?thesis using cache_okD [OF c] sizes_nonneg [OF c s]
    unfolding cache_ok_def remove_slot_def by simp
qed

lemma opens_new: "cache_ok c \<Longrightarrow> opens (fc_handles c) (fc_next c) = 0"
  using slots_okD(4) [OF cache_okD(1)] opens_pos by (metis fst_conv less_irrefl neq0_conv)

lemma add_ok:
  assumes c: "cache_ok c" and key: "sl_key s \<notin> sl_key ` set (fc_slots c)" and i: "sl_ident s = fc_next c"
    and b: "0 \<le> sl_size s" "fc_total c + sl_size s < 2 ^ 62" and r: "sl_refs s = (if sl_filling s then 1 else 0)"
    and c': "c' = c\<lparr>fc_slots := fc_slots c @ [s], fc_total := wrap64 (fc_total c + sl_size s),
      fc_files := (if sl_filling s then fc_files c else (fc_files c)(sl_key s \<mapsto> sl_size s)), fc_next := fc_next c + 1\<rparr>"
  shows "cache_ok c'"
proof -
  note ok = cache_okD(1) [OF c]
  have no: "fc_files c (sl_key s) = None" using slots_okD(6) [OF ok, of "sl_key s"] key by (metis imageI not_None_eq)
  have t: "slot_ok (fc_handles c) (Suc (fc_next c)) s" using opens_new [OF c] i b r by (simp add: slot_ok_def)
  have ts: "x \<in> set (fc_slots c) \<Longrightarrow> slot_ok (fc_handles c) (Suc (fc_next c)) x" for x
    using slots_okD(3) [OF ok] by (fastforce simp: slot_ok_def)
  have f: "fc_next c \<notin> sl_ident ` set (fc_slots c)" using slots_okD(3) [OF ok] by (fastforce simp: slot_ok_def)
  have "slots_ok (fc_slots c') (fc_handles c') (fc_next c') (fc_files c')"
    unfolding slots_ok_def c'
  proof (intro conjI ballI allI)
    fix k b
    show "fc_files (c\<lparr>fc_slots := fc_slots c @ [s], fc_total := wrap64 (fc_total c + sl_size s),
      fc_files := (if sl_filling s then fc_files c else (fc_files c)(sl_key s \<mapsto> sl_size s)), fc_next := fc_next c + 1\<rparr>) k = Some b
      \<longleftrightarrow> (\<exists>x \<in> set (fc_slots (c\<lparr>fc_slots := fc_slots c @ [s], fc_total := wrap64 (fc_total c + sl_size s),
      fc_files := (if sl_filling s then fc_files c else (fc_files c)(sl_key s \<mapsto> sl_size s)), fc_next := fc_next c + 1\<rparr>)).
         sl_key x = k \<and> \<not> sl_filling x \<and> sl_size x = b)"
      using slots_okD(6) [OF ok, of k b] key no by (auto simp: image_iff)
  qed (use slots_okD [OF ok] key f i t ts in \<open>auto simp: less_Suc_eq image_iff\<close>)
  moreover have "wrap64 (fc_total c + sl_size s) = fc_total c + sl_size s"
    using total_nonneg [OF c] b by (intro wrap64_small) auto
  ultimately show ?thesis using cache_okD [OF c] b unfolding cache_ok_def c' by simp
qed

text \<open>What an operation may do to the slots it finds: it keeps their number, key and size, or removes them.\<close>

definition slots_from :: "cache \<Rightarrow> cache \<Rightarrow> bool" where
  "slots_from c c' \<longleftrightarrow> fc_next c \<le> fc_next c' \<and>
     (\<forall>s \<in> set (fc_slots c'). sl_ident s < fc_next c \<longrightarrow>
        (\<exists>t \<in> set (fc_slots c). sl_ident t = sl_ident s \<and> sl_key t = sl_key s \<and> sl_size t = sl_size s))"

lemma slots_from_refl [simp]: "slots_from c c"
  by (auto simp: slots_from_def)

lemma slots_from_update:
  assumes "\<And>s. sl_key (f s) = sl_key s \<and> sl_ident (f s) = sl_ident s \<and> sl_size (f s) = sl_size s"
    "fc_slots c' = fc_slots c" "fc_next c' = fc_next c"
  shows "slots_from c (update_slot i f c')"
  using assms by (auto simp: slots_from_def update_slot_def)

text \<open>The victims \<open>evict\<close> goes through, and what is left of the cache while it does.\<close>

definition frame_of :: "cache \<Rightarrow> int \<times> nat \<times> (nat \<times> bool) list \<times> bool \<times> int" where
  "frame_of c = (fc_max c, fc_next c, fc_handles c, fc_on c, fc_pin_ttl c)"

definition shrinks :: "slot list \<Rightarrow> cache \<Rightarrow> cache \<Rightarrow> bool" where
  "shrinks vs c c' \<longleftrightarrow> cache_ok c' \<and> fc_total c' \<le> fc_total c \<and> frame_of c' = frame_of c \<and>
     (\<forall>s. s \<in> set (fc_slots c') \<longrightarrow> s \<in> set (fc_slots c)) \<and>
     (\<forall>s. s \<in> set (fc_slots c) \<longrightarrow> s \<notin> set vs \<longrightarrow> s \<in> set (fc_slots c'))"

lemma shrinks_refl: "cache_ok c \<Longrightarrow> shrinks vs c c"
  by (simp add: shrinks_def)

lemma removed_slots:
  assumes "cache_ok c" "s \<in> set (fc_slots c)"
  shows "t \<in> set (fc_slots (remove_slot s (c\<lparr>fc_files := fs\<rparr>))) \<longleftrightarrow> t \<in> set (fc_slots c) \<and> t \<noteq> s"
  using slot_unique [OF cache_okD(1) [OF assms(1)] _ assms(2)] assms(2) by (auto simp: remove_slot_def)

lemma removed_rest:
  assumes c: "cache_ok c" "s \<in> set (fc_slots c)"
  shows "fc_total (remove_slot s (c\<lparr>fc_files := fs\<rparr>)) = fc_total c - sl_size s" "fc_max (remove_slot s (c\<lparr>fc_files := fs\<rparr>)) = fc_max c"
    "fc_next (remove_slot s (c\<lparr>fc_files := fs\<rparr>)) = fc_next c" "fc_handles (remove_slot s (c\<lparr>fc_files := fs\<rparr>)) = fc_handles c"
    "fc_on (remove_slot s (c\<lparr>fc_files := fs\<rparr>)) = fc_on c" "fc_pin_ttl (remove_slot s (c\<lparr>fc_files := fs\<rparr>)) = fc_pin_ttl c"
  using wrap64_small [of "fc_total c - sl_size s"] sizes_nonneg [OF c] cache_okD(3) [OF c(1)]
  by (auto simp: remove_slot_def)

lemma remove_shrinks:
  assumes c: "cache_ok c" "s \<in> set (fc_slots c)" and o: "opens (fc_handles c) (sl_ident s) = 0"
  shows "shrinks [s] c (remove_slot s (c\<lparr>fc_files := (fc_files c)(sl_key s := None)\<rparr>))"
  unfolding shrinks_def frame_of_def using remove_ok [OF c o] removed_rest [OF c] removed_slots [OF c] sizes_nonneg [OF c] by simp

lemma shrinks_trans:
  assumes "shrinks vs c c'" "shrinks ws c' c''" shows "shrinks (vs @ ws) c c''"
proof -
  have "frame_of c'' = frame_of c" using assms unfolding shrinks_def by argo
  moreover have "fc_total c'' \<le> fc_total c" using assms unfolding shrinks_def by (meson order_trans)
  ultimately show ?thesis using assms unfolding shrinks_def set_append by blast
qed

lemma shrinks_more: "shrinks vs c c' \<Longrightarrow> set vs \<subseteq> set ws \<Longrightarrow> shrinks ws c c'"
  unfolding shrinks_def by blast

lemma victims_shrink:
  assumes "cache_ok c" "\<forall>v \<in> set vs. v \<in> set (fc_slots c) \<and> opens (fc_handles c) (sl_ident v) = 0" "distinct (map sl_key vs)"
  shows "shrinks vs c (evict_victims fails need vs c)"
  using assms
proof (induction vs arbitrary: c)
  case Nil
  then show ?case by (simp add: shrinks_refl)
next
  case (Cons v vs)
  let ?c = "remove_slot v (c\<lparr>fc_files := (fc_files c)(sl_key v := None)\<rparr>)"
  have s: "shrinks [v] c ?c" by (rule remove_shrinks) (use Cons.prems in auto)
  have "w \<in> set vs \<Longrightarrow> w \<in> set (fc_slots ?c) \<and> opens (fc_handles ?c) (sl_ident w) = 0" for w
    using Cons.prems removed_slots [of c v ] removed_rest(4) [of c v] by (force simp: image_iff)
  then have "shrinks vs ?c (evict_victims fails need vs ?c)"
    by (intro Cons.IH) (use Cons.prems(3) s in \<open>auto simp: shrinks_def simp del: fun_upd_apply\<close>)
  from shrinks_trans [OF s this] have go: "shrinks (v # vs) c (evict_victims fails need vs ?c)" by simp
  have skip: "shrinks (v # vs) c (evict_victims fails need vs c)"
    by (rule shrinks_more [OF Cons.IH [OF Cons.prems(1)]]) (use Cons.prems(2,3) in auto)
  have "evict_victims fails need (v # vs) c \<in> {c, evict_victims fails need vs c, evict_victims fails need vs ?c}" by simp
  then show ?case using go skip shrinks_refl [OF Cons.prems(1)] by (metis empty_iff insert_iff)
qed

definition victims_of :: "int \<Rightarrow> cache \<Rightarrow> slot list" where
  "victims_of now c = stable_sort (\<lambda>s t. sl_used s < sl_used t) (filter (\<lambda>s. \<not> (sl_filling s \<or> in_use now s)) (fc_slots c))"

lemma set_victims: "v \<in> set (victims_of now c) \<longleftrightarrow> v \<in> set (fc_slots c) \<and> \<not> sl_filling v \<and> \<not> in_use now v"
  by (auto simp: victims_of_def)

lemma idle_not_open: "cache_ok c \<Longrightarrow> s \<in> set (fc_slots c) \<Longrightarrow> \<not> in_use now s \<Longrightarrow> opens (fc_handles c) (sl_ident s) = 0"
  using slots_okD(3) [OF cache_okD(1)] by (fastforce simp: slot_ok_def in_use_def)

lemma distinct_victims: "cache_ok c \<Longrightarrow> distinct (map sl_key (victims_of now c))"
proof -
  assume c: "cache_ok c"
  let ?fs = "filter (\<lambda>s. \<not> (sl_filling s \<or> in_use now s)) (fc_slots c)"
  have "distinct (map sl_key ?fs)" using slots_okD(1) [OF cache_okD(1) [OF c]] by (simp add: distinct_map_filter)
  moreover have "mset (map sl_key (victims_of now c)) = mset (map sl_key ?fs)" unfolding victims_of_def mset_map by simp
  ultimately show ?thesis by (metis mset_eq_imp_distinct_iff)
qed

lemma evict_unfold:
  "evict now fails need c = (if fits need c then (c, True) else if need > fc_max c then (c, False)
     else (let c' = evict_victims fails need (victims_of now c) c in (c', fits need c')))"
  by (simp add: evict_def victims_of_def fits_def)

lemma evict_shrinks: "cache_ok c \<Longrightarrow> shrinks (victims_of now c) c (fst (evict now fails need c))"
  using victims_shrink [of c "victims_of now c" fails need] distinct_victims shrinks_refl set_victims idle_not_open
  by (simp add: evict_unfold Let_def) blast

lemma evict_fits: "snd (evict now fails need c) \<longleftrightarrow> fits need (fst (evict now fails need c)) \<and> (fits need c \<or> need \<le> fc_max c)"
  by (auto simp: evict_unfold Let_def)

section \<open>Every operation keeps the order and the ceiling\<close>

lemma shrinksD:
  assumes "shrinks vs c c'"
  shows "cache_ok c'" "fc_total c' \<le> fc_total c" "fc_max c' = fc_max c" "fc_next c' = fc_next c" "fc_handles c' = fc_handles c"
    "fc_on c' = fc_on c" "fc_pin_ttl c' = fc_pin_ttl c"
    "\<And>s. s \<in> set (fc_slots c') \<Longrightarrow> s \<in> set (fc_slots c)"
    "\<And>s. s \<in> set (fc_slots c) \<Longrightarrow> s \<notin> set vs \<Longrightarrow> s \<in> set (fc_slots c')"
  using assms unfolding shrinks_def frame_of_def by blast+

lemma shrinks_slots_from: "shrinks vs c c' \<Longrightarrow> slots_from c c'"
  using shrinksD(4,8) unfolding slots_from_def by (metis order_refl)

text \<open>The promise of one step: order, the ceiling, and no slot renamed.\<close>

definition good_step :: "cache \<Rightarrow> cache \<Rightarrow> bool" where
  "good_step c c' \<longleftrightarrow> cache_ok c' \<and> fc_total c' \<le> max (fc_total c) (fc_max c) \<and> fc_max c' = fc_max c \<and>
     fc_pin_ttl c' = fc_pin_ttl c \<and> fc_on c' = fc_on c \<and> slots_from c c'"

lemma good_refl: "cache_ok c \<Longrightarrow> good_step c c"
  by (simp add: good_step_def)

lemma good_shrinks: "shrinks vs c c' \<Longrightarrow> good_step c c'"
  using shrinksD [of vs c c'] shrinks_slots_from unfolding good_step_def by (simp add: le_max_iff_disj)

lemma good_update:
  assumes "cache_ok (update_slot i f c')" "\<And>s. sl_key (f s) = sl_key s \<and> sl_ident (f s) = sl_ident s \<and> sl_size (f s) = sl_size s"
    "fc_slots c' = fc_slots c" "fc_next c' = fc_next c" "fc_total c' = fc_total c" "fc_max c' = fc_max c"
    "fc_pin_ttl c' = fc_pin_ttl c" "fc_on c' = fc_on c"
  shows "good_step c (update_slot i f c')"
  using assms slots_from_update [OF assms(2-4)] unfolding good_step_def by (simp add: update_slot_def)

lemma acquire_good: "cache_ok c \<Longrightarrow> good_step c (fst (acquire now key c))"
  using acquire_ok [of c now key]
  by (auto simp: acquire_def intro: good_refl good_update split: option.split_asm option.split if_splits)

lemma release_good: "cache_ok c \<Longrightarrow> good_step c (release h c)"
  using release_ok [of c h] by (auto simp: release_def intro: good_refl good_update split: if_splits)

lemma ready_good: "cache_ok c \<Longrightarrow> good_step c (fst (ready now key c))"
  using ready_ok [of c now key]
  by (auto simp: ready_def intro: good_refl good_update split: option.split_asm option.split if_splits)

lemma write_chunk_good: "cache_ok c \<Longrightarrow> good_step c (write_chunk i n c)"
  using write_chunk_ok [of c i n] unfolding write_chunk_def by (auto intro: good_update)

lemma drop_shrinks: "cache_ok c \<Longrightarrow> \<exists>vs. shrinks vs c (fst (drop_slot now fails key c)) \<and> (\<forall>v \<in> set vs. \<not> sl_filling v \<and> \<not> in_use now v)"
proof (cases "\<exists>s. fc_on c \<and> key \<noteq> [] \<and> find_slot key c = Some s \<and> \<not> sl_filling s \<and> \<not> in_use now s \<and> \<not> fails key")
  case True
  assume c: "cache_ok c"
  obtain s where s: "fc_on c" "key \<noteq> []" "find_slot key c = Some s" "\<not> sl_filling s" "\<not> in_use now s" "\<not> fails key"
    using True by blast
  note m = find_slot_Some [OF s(3)]
  have "shrinks [s] c (fst (drop_slot now fails key c))"
    using remove_shrinks [OF c _ idle_not_open [OF c _ s(5)]] m s by (simp add: drop_slot_def)
  then show ?thesis using s by (intro exI [of _ "[s]"]) simp
next
  case False
  assume "cache_ok c"
  then show ?thesis using False shrinks_refl by (intro exI [of _ "[]"]) (auto simp: drop_slot_def split: option.split)
qed

lemma fails_ok: "cache_ok c \<Longrightarrow> cache_ok (c\<lparr>fc_fails := fs\<rparr>)"
  by (simp add: cache_ok_def)

lemma start_cases:
  assumes "fst (start_or_get now fails key bytes c) = c'"
  obtains "c' = c"
  | s where "find_slot key c = Some s" "c' = update_slot (sl_ident s) (\<lambda>s. s\<lparr>sl_used := now\<rparr>) c"
  | "c' = fst (evict now fails bytes (c\<lparr>fc_fails := filter (\<lambda>kt. fst kt \<noteq> key) (fc_fails c)\<rparr>))"
  | c1 where "0 < bytes" "find_slot key c = None" "c1 = fst (evict now fails bytes (c\<lparr>fc_fails := filter (\<lambda>kt. fst kt \<noteq> key) (fc_fails c)\<rparr>))"
      "fits bytes c1" "c' = c1\<lparr>fc_slots := fc_slots c1 @ [\<lparr>sl_key = key, sl_ident = fc_next c1, sl_size = bytes, sl_used = now,
        sl_pin = None, sl_refs = 1, sl_filling = True, sl_written = 0\<rparr>], fc_total := wrap64 (fc_total c1 + bytes), fc_next := fc_next c1 + 1\<rparr>"
proof -
  let ?c0 = "c\<lparr>fc_fails := filter (\<lambda>kt. fst kt \<noteq> key) (fc_fails c)\<rparr>"
  obtain c1 room where e: "evict now fails bytes ?c0 = (c1, room)" by force
  then have r: "room \<Longrightarrow> fits bytes c1" using evict_fits [of now fails bytes ?c0] by simp
  show thesis
  proof (cases "find_slot key c")
    case (Some s)
    then have "c' = c \<or> c' = update_slot (sl_ident s) (\<lambda>s. s\<lparr>sl_used := now\<rparr>) c"
      using assms by (simp add: start_or_get_def split: if_split_asm)
    then show ?thesis using that(1,2) Some by blast
  next
    case None
    let ?new = "c1\<lparr>fc_slots := fc_slots c1 @ [\<lparr>sl_key = key, sl_ident = fc_next c1, sl_size = bytes, sl_used = now,
        sl_pin = None, sl_refs = 1, sl_filling = True, sl_written = 0\<rparr>], fc_total := wrap64 (fc_total c1 + bytes), fc_next := fc_next c1 + 1\<rparr>"
    have "c' = c \<or> c' = c1 \<or> 0 < bytes \<and> room \<and> c' = ?new"
      using assms None e by (simp add: start_or_get_def Let_def split: if_split_asm)
    then show ?thesis using that(1,3,4) None e r by auto
  qed
qed

lemma fits_small: "cache_ok c \<Longrightarrow> 0 < bytes \<Longrightarrow> bytes < 2 ^ 62 \<Longrightarrow> fits bytes c \<longleftrightarrow> fc_total c + bytes \<le> fc_max c"
  using total_nonneg [of c] cache_okD(3) [of c] wrap64_small [of "fc_total c + bytes"] by (auto simp: fits_def)

lemma start_good:
  assumes c: "cache_ok c" and b: "bytes < 2 ^ 62"
  shows "good_step c (fst (start_or_get now fails key bytes c))"
proof -
  let ?c0 = "c\<lparr>fc_fails := filter (\<lambda>kt. fst kt \<noteq> key) (fc_fails c)\<rparr>"
  let ?c1 = "fst (evict now fails bytes ?c0)"
  have e: "shrinks (victims_of now ?c0) ?c0 ?c1" by (rule evict_shrinks [OF fails_ok [OF c]])
  have g: "good_step c ?c1" using good_shrinks [OF e] by (simp add: good_step_def slots_from_def)
  show ?thesis
  proof (rule start_cases [OF refl])
    fix s assume "fst (start_or_get now fails key bytes c) = update_slot (sl_ident s) (\<lambda>s. s\<lparr>sl_used := now\<rparr>) c"
    then show ?thesis using good_update [OF touch_ok [OF c, of "\<lambda>s. s\<lparr>sl_used := now\<rparr>" "sl_ident s"]] by simp
  next
    fix c1 :: cache
    let ?s = "\<lparr>sl_key = key, sl_ident = fc_next c1, sl_size = bytes, sl_used = now, sl_pin = None, sl_refs = 1,
      sl_filling = True, sl_written = 0\<rparr>"
    assume a: "0 < bytes" "find_slot key c = None" "c1 = ?c1" "fits bytes c1"
      "fst (start_or_get now fails key bytes c) = c1\<lparr>fc_slots := fc_slots c1 @ [?s], fc_total := wrap64 (fc_total c1 + bytes), fc_next := fc_next c1 + 1\<rparr>"
    note d = shrinksD [OF e, folded a(3)]
    have t: "fc_total c1 + bytes \<le> fc_max c1" using fits_small [OF d(1) a(1) b] a(4) by blast
    then have w: "wrap64 (fc_total c1 + bytes) = fc_total c1 + bytes"
      using total_nonneg [OF d(1)] a(1) cache_okD(5) [OF d(1)] by (intro wrap64_small) auto
    have "cache_ok (fst (start_or_get now fails key bytes c))"
    proof (rule add_ok [OF d(1), of ?s])
      show "sl_key ?s \<notin> sl_key ` set (fc_slots c1)" using a(2) d(8) by (auto simp: find_slot_None)
      show "fc_total c1 + sl_size ?s < 2 ^ 62" using t cache_okD(5) [OF d(1)] by simp
    qed (use a in auto)
    then show ?thesis using a(5) t w d(3,4,6,7) g a(3) unfolding good_step_def slots_from_def by auto
  qed (use good_refl [OF c] g in auto)
qed

lemma fill_slot:
  assumes c: "cache_ok c" and s: "find (\<lambda>s. sl_ident s = i \<and> sl_filling s) (fc_slots c) = Some s"
  shows "s \<in> set (fc_slots c)" "sl_ident s = i" "sl_filling s" "opens (fc_handles c) i = 0" "sl_refs s = 1" "fc_files c (sl_key s) = None"
proof -
  note ok = cache_okD(1) [OF c]
  show s1: "s \<in> set (fc_slots c)" and "sl_ident s = i" and "sl_filling s" using s by (auto simp: find_Some_iff)
  then show "opens (fc_handles c) i = 0" "sl_refs s = 1" using slots_okD(3) [OF ok s1] by (auto simp: slot_ok_def)
  show "fc_files c (sl_key s) = None"
    using slots_okD(6) [OF ok, of "sl_key s"] slot_unique [OF ok _ s1] \<open>sl_filling s\<close> by (metis not_None_eq)
qed

lemma published_ok:
  assumes c: "cache_ok c" and s: "find (\<lambda>s. sl_ident s = i \<and> sl_filling s) (fc_slots c) = Some s"
    and f: "\<And>t. sl_key (f t) = sl_key t \<and> sl_ident (f t) = sl_ident t \<and> sl_size (f t) = sl_size t \<and> \<not> sl_filling (f t)
      \<and> sl_refs (f t) = sl_refs t - 1"
  shows "cache_ok (update_slot i f (c\<lparr>fc_files := (fc_files c)(sl_key s \<mapsto> sl_size s)\<rparr>))"
proof -
  let ?f = "\<lambda>t. if sl_ident t = i then f t else t"
  note ok = cache_okD(1) [OF c] and fs = fill_slot [OF c s]
  have m: "map sl_key (map ?f (fc_slots c)) = map sl_key (fc_slots c)" "map sl_ident (map ?f (fc_slots c)) = map sl_ident (fc_slots c)"
    using f by simp_all
  then have mi: "sl_ident ` set (map ?f (fc_slots c)) = sl_ident ` set (fc_slots c)" by (metis set_map)
  have u: "t \<in> set (fc_slots c) \<Longrightarrow> sl_ident t = i \<or> sl_key t = sl_key s \<Longrightarrow> t = s" for t
    using slot_unique [OF ok _ fs(1)] fs(2) by auto
  have so: "slot_ok (fc_handles c) (fc_next c) (?f t)" if "t \<in> set (fc_slots c)" for t
    using slots_okD(3) [OF ok that] u [OF that] f [of s] fs by (auto simp: slot_ok_def)
  have "slots_ok (map ?f (fc_slots c)) (fc_handles c) (fc_next c) ((fc_files c)(sl_key s \<mapsto> sl_size s))"
    unfolding slots_ok_def m mi
  proof (intro conjI ballI allI)
    fix k b
    have "(\<exists>t \<in> set (map ?f (fc_slots c)). sl_key t = k \<and> \<not> sl_filling t \<and> sl_size t = b) \<longleftrightarrow>
        (\<exists>t \<in> set (fc_slots c). sl_key t = k \<and> (t = s \<or> \<not> sl_filling t) \<and> sl_size t = b)"
      unfolding set_map bex_simps(7) by (rule bex_cong [OF refl]) (use f u fs(2) in auto)
    then show "((fc_files c)(sl_key s \<mapsto> sl_size s)) k = Some b \<longleftrightarrow>
        (\<exists>t \<in> set (map ?f (fc_slots c)). sl_key t = k \<and> \<not> sl_filling t \<and> sl_size t = b)"
      using slots_okD(6) [OF ok, of k b] u fs(1) by auto
  next
    fix x assume "x \<in> set (map ?f (fc_slots c))"
    then obtain t where t: "t \<in> set (fc_slots c)" "x = ?f t" by auto
    show "slot_ok (fc_handles c) (fc_next c) x" unfolding t(2) by (rule so [OF t(1)])
  qed (use slots_okD(1,2,4,5) [OF ok] in auto)
  moreover have "sum_list (map sl_size (map ?f (fc_slots c))) = sum_list (map sl_size (fc_slots c))"
    by (rule map_sizes) (use f in simp)
  ultimately show ?thesis using cache_okD [OF c] unfolding cache_ok_def update_slot_def by simp
qed

lemma finish_good:
  assumes c: "cache_ok c" shows "good_step c (finish_fill now i r c)"
proof (cases "find (\<lambda>s. sl_ident s = i \<and> sl_filling s) (fc_slots c)")
  case (Some s)
  note fs = fill_slot [OF c Some]
  show ?thesis
  proof (cases "fetch_ok (sl_size s) r")
    case True
    let ?f = "\<lambda>s. s\<lparr>sl_filling := False, sl_refs := (if sl_refs s > 0 then sl_refs s - 1 else sl_refs s), sl_used := now\<rparr>"
    have "cache_ok (update_slot i ?f (c\<lparr>fc_files := (fc_files c)(sl_key s \<mapsto> sl_size s)\<rparr>))" by (rule published_ok [OF c Some]) simp
    from good_update [OF this, of c] show ?thesis using True Some by (simp add: finish_fill_def)
  next
    case False
    have "(fc_files c)(sl_key s := None) = fc_files c" using fs(6) by auto
    then have "good_step c (remove_slot s c)"
      using good_shrinks [OF remove_shrinks [OF c fs(1)]] fs(2,4) by simp
    then show ?thesis using False Some
      by (simp add: finish_fill_def Let_def good_step_def cache_ok_def prune_failures_def slots_from_def)
  qed
qed (simp add: finish_fill_def good_refl [OF c])

text \<open>Sizes of what is asked for below 2^62, as every length of a file is.\<close>

fun act_small :: "cache_act \<Rightarrow> bool" where
  "act_small (Start now fails key bytes) = (bytes < 2 ^ 62)"
| "act_small a = True"

lemma step_good: "cache_ok c \<Longrightarrow> act_small a \<Longrightarrow> good_step c (cache_step a c)"
  using drop_shrinks good_shrinks
  by (cases a) (auto simp: acquire_good release_good ready_good start_good write_chunk_good finish_good, blast)

lemma run_good:
  assumes "cache_ok c" "list_all act_small as"
  shows "cache_ok (run_cache as c)" "fc_total (run_cache as c) \<le> max (fc_total c) (fc_max c)" "fc_max (run_cache as c) = fc_max c"
proof -
  have "cache_ok (run_cache as c) \<and> fc_total (run_cache as c) \<le> max (fc_total c) (fc_max c) \<and> fc_max (run_cache as c) = fc_max c"
    using assms
  proof (induction as arbitrary: c)
    case (Cons a as)
    then have g: "good_step c (cache_step a c)" by (simp add: step_good)
    then show ?case using Cons.IH [of "cache_step a c"] Cons.prems unfolding good_step_def by force
  qed simp
  then show "cache_ok (run_cache as c)" "fc_total (run_cache as c) \<le> max (fc_total c) (fc_max c)" "fc_max (run_cache as c) = fc_max c"
    by blast+
qed

section \<open>A start\<close>

lemma entry_key_name: "entry_key n = Some key \<Longrightarrow> n = key @ ''.bin'' \<and> key \<noteq> []"
proof -
  assume e: "entry_key n = Some key"
  let ?d = "takeWhile is_digit n" and ?r = "dropWhile is_digit n"
  have f: "?d \<noteq> []" "length ?r = 21" "drop 17 ?r = ''.bin''" "key = List.take (length n - 4) n"
    using e by (auto simp: entry_key_def Let_def split: if_split_asm)
  have n: "n = ?d @ ?r" by simp
  then have l: "length n = length ?d + 21" using f(2) by (metis length_append)
  have "drop (length n - 4) n = drop (length ?d + 17) (?d @ ?r)" unfolding l by (simp add: add.commute)
  also have "\<dots> = drop 17 ?r" unfolding drop_append by simp
  finally have "n = key @ ''.bin''" using f(3,4) by (metis append_take_drop_id)
  moreover have "length key = length ?d + 17" using f(4) l by simp
  ultimately show ?thesis by force
qed

definition listing_ok :: "dir_entry list \<Rightarrow> bool" where
  "listing_ok es \<longleftrightarrow> distinct (map de_name es) \<and> list_all (\<lambda>e. case de_info e of None \<Rightarrow> True | Some (b, t) \<Rightarrow> 0 \<le> b) es \<and>
     sum_list (map (\<lambda>e. case de_info e of None \<Rightarrow> 0 | Some (b, t) \<Rightarrow> b) es) < 2 ^ 62"

lemma load_good:
  assumes "cache_ok c" "list_all (\<lambda>e. case de_info e of None \<Rightarrow> True | Some (b, t) \<Rightarrow> 0 \<le> b) es" "distinct (map de_name es)"
    "fc_total c + sum_list (map (\<lambda>e. case de_info e of None \<Rightarrow> 0 | Some (b, t) \<Rightarrow> b) es) < 2 ^ 62"
    "\<forall>s \<in> set (fc_slots c). sl_key s @ ''.bin'' \<notin> de_name ` set es" "fc_handles c = []"
  shows "cache_ok (foldl (load_entry now) c es) \<and> fc_max (foldl (load_entry now) c es) = fc_max c
    \<and> fc_handles (foldl (load_entry now) c es) = []"
  using assms
proof (induction es arbitrary: c)
  case (Cons e es)
  have rest: "0 \<le> sum_list (map (\<lambda>e. case de_info e of None \<Rightarrow> 0 | Some (b, t) \<Rightarrow> b) es)"
    by (rule sum_list_nonneg) (use Cons.prems(2) in \<open>fastforce simp: list_all_iff split: option.splits\<close>)
  have one: "0 \<le> (case de_info e of None \<Rightarrow> 0 | Some (b, t) \<Rightarrow> b)" using Cons.prems(2) by (auto split: option.splits)
  show ?case
  proof (cases "\<exists>key bytes mtime. load_entry now c e \<noteq> c \<and> entry_key (de_name e) = Some key \<and> de_info e = Some (bytes, mtime)")
    case False
    then have "load_entry now c e = c" by (auto simp: load_entry_def split: option.split prod.split)
    then show ?thesis using Cons.IH [OF Cons.prems(1)] Cons.prems one by simp
  next
    case True
    then obtain key bytes mtime where k: "load_entry now c e \<noteq> c" "entry_key (de_name e) = Some key" "de_info e = Some (bytes, mtime)" by blast
    let ?s = "\<lparr>sl_key = key, sl_ident = fc_next c, sl_size = bytes, sl_used = (if mtime > now then now else mtime), sl_pin = None,
      sl_refs = 0, sl_filling = False, sl_written = 0\<rparr>"
    let ?c = "load_entry now c e"
    have c': "?c = c\<lparr>fc_slots := fc_slots c @ [?s], fc_total := wrap64 (fc_total c + bytes), fc_files := (fc_files c)(key \<mapsto> bytes), fc_next := fc_next c + 1\<rparr>"
      using k by (auto simp: load_entry_def split: if_split_asm)
    have name: "de_name e = key @ ''.bin''" using entry_key_name [OF k(2)] by blast
    have small: "0 \<le> bytes" "fc_total c + bytes < 2 ^ 62" using Cons.prems(4) rest one k(3) by auto
    have w: "wrap64 (fc_total c + bytes) = fc_total c + bytes"
      using total_nonneg [OF Cons.prems(1)] small by (intro wrap64_small) auto
    have "cache_ok ?c"
      by (rule add_ok [OF Cons.prems(1), of ?s]) (use Cons.prems(5) name small c' in \<open>auto simp: image_iff\<close>)
    moreover have "\<forall>s \<in> set (fc_slots ?c). sl_key s @ ''.bin'' \<notin> de_name ` set es"
      using Cons.prems(3,5) name unfolding c' by auto
    moreover have "fc_total ?c = fc_total c + bytes" "fc_max ?c = fc_max c" "fc_handles ?c = []"
      using Cons.prems(6) w unfolding c' by simp_all
    ultimately show ?thesis using Cons.IH [of ?c] Cons.prems(2-4) k(3) by (simp add: add.assoc)
  qed
qed simp

lemma new_cache_ok:
  assumes "cf_max_bytes cfg < 2 ^ 62" "case dir of None \<Rightarrow> True | Some es \<Rightarrow> listing_ok es"
  shows "cache_ok (new_cache cfg now dir)"
proof -
  have e: "cache_ok \<lparr>fc_on = a, fc_min = b, fc_max = m, fc_pin_ttl = d, fc_slow = e, fc_slots = [], fc_total = 0, fc_fails = [],
      fc_files = Map.empty, fc_handles = [], fc_next = 0\<rparr>" if "0 < m" "m < 2 ^ 62" for a b d e m
    using that by (simp add: cache_ok_def slots_ok_def)
  let ?c = "\<lparr>fc_on = (cf_dir cfg \<noteq> []), fc_min = (if cf_min_size cfg \<le> 0 then default_min_size else cf_min_size cfg),
    fc_max = (if cf_max_bytes cfg \<le> 0 then default_max_bytes else cf_max_bytes cfg),
    fc_pin_ttl = (if cf_pin_ttl cfg \<le> 0 then default_pin_ttl else cf_pin_ttl cfg),
    fc_slow = (if cf_slow cfg \<le> 0 then default_slow else cf_slow cfg), fc_slots = [], fc_total = 0, fc_fails = [],
    fc_files = Map.empty, fc_handles = [], fc_next = 0\<rparr>"
  have n: "new_cache cfg now dir = (if cf_dir cfg = [] then ?c else case dir of None \<Rightarrow> ?c | Some es \<Rightarrow> foldl (load_entry now) ?c es)"
    by (simp add: new_cache_def Let_def)
  have c: "cache_ok ?c" by (rule e) (use assms(1) in \<open>auto simp: default_max_bytes_def\<close>)
  have "cache_ok (foldl (load_entry now) ?c es)" if "listing_ok es" for es
    by (rule load_good [OF c, THEN conjunct1]) (use that in \<open>simp_all add: listing_ok_def\<close>)
  then show ?thesis using c assms(2) unfolding n by (auto split: option.split)
qed

section \<open>What is held stays\<close>

lemma step_handles:
  assumes c: "cache_ok c" and h: "h < length (fc_handles c)" "fc_handles c ! h = (i, False)" and a: "a \<noteq> Release h"
  shows "h < length (fc_handles (cache_step a c)) \<and> fc_handles (cache_step a c) ! h = (i, False)"
proof (cases a)
  case (Start now fails key bytes)
  let ?c0 = "c\<lparr>fc_fails := filter (\<lambda>kt. fst kt \<noteq> key) (fc_fails c)\<rparr>"
  have "fc_handles (fst (evict now fails bytes ?c0)) = fc_handles c"
    using shrinksD(5) [OF evict_shrinks [OF fails_ok [OF c]]] by simp
  then have "fc_handles (cache_step a c) = fc_handles c"
    unfolding Start cache_step.simps by - (rule start_cases [OF refl, of now fails key bytes c], auto simp: update_slot_def)
  then show ?thesis using h by simp
next
  case (Drop now fails key)
  then have "fc_handles (cache_step a c) = fc_handles c" using drop_shrinks [OF c, of now fails key] shrinksD(5) by auto
  then show ?thesis using h by simp
next
  case (Finish now j r)
  then have "fc_handles (cache_step a c) = fc_handles c"
    by (simp add: finish_fill_def update_slot_def remove_slot_def prune_failures_def Let_def split: option.split)
  then show ?thesis using h by simp
next
  case (Release g)
  then show ?thesis using h a by (auto simp: release_def update_slot_def)
qed (use h in \<open>auto simp: acquire_def ready_def write_chunk_def update_slot_def nth_append split: option.split\<close>)

definition held :: "nat \<Rightarrow> nat \<Rightarrow> string \<Rightarrow> int \<Rightarrow> cache \<Rightarrow> bool" where
  "held h i key b c \<longleftrightarrow> h < length (fc_handles c) \<and> fc_handles c ! h = (i, False) \<and>
     (\<exists>s \<in> set (fc_slots c). sl_ident s = i \<and> sl_key s = key \<and> sl_size s = b)"

lemma held_step:
  assumes c: "cache_ok c" and a: "act_small a" "a \<noteq> Release h" and held: "held h i key b c"
  shows "held h i key b (cache_step a c)"
proof -
  let ?c = "cache_step a c"
  have hs: "h < length (fc_handles c)" "fc_handles c ! h = (i, False)" using held by (simp_all add: held_def)
  obtain s where s: "s \<in> set (fc_slots c)" "sl_ident s = i" "sl_key s = key" "sl_size s = b" using held by (auto simp: held_def)
  have g: "cache_ok ?c" "slots_from c ?c" using step_good [OF c a(1)] by (simp_all add: good_step_def)
  note hs' = step_handles [OF c hs a(2)]
  then have "(i, False) \<in> set (fc_handles ?c)" by (metis nth_mem)
  then obtain t where t: "t \<in> set (fc_slots ?c)" "sl_ident t = i" using slots_okD(5) [OF cache_okD(1) [OF g(1)]] by fastforce
  have "i < fc_next c" using slots_okD(4) [OF cache_okD(1) [OF c]] hs nth_mem by fastforce
  then obtain u where u: "u \<in> set (fc_slots c)" "sl_ident u = i" "sl_key u = sl_key t" "sl_size u = sl_size t"
    using g(2) t unfolding slots_from_def by metis
  then have "u = s" using slot_unique [OF cache_okD(1) [OF c] u(1) s(1)] s(2) by simp
  then show ?thesis using hs' t u s unfolding held_def by auto
qed

lemma held_run:
  "cache_ok c \<Longrightarrow> list_all act_small as \<Longrightarrow> Release h \<notin> set as \<Longrightarrow> held h i key b c \<Longrightarrow> held h i key b (run_cache as c)"
proof (induction as arbitrary: c)
  case (Cons a as)
  then show ?case using held_step [of c a h i key b] step_good [of c a] unfolding good_step_def by auto
qed simp

lemma held_file: "cache_ok c \<Longrightarrow> held h i key b c \<Longrightarrow> fc_files c key = Some b"
proof -
  assume c: "cache_ok c" and held: "held h i key b c"
  obtain s where s: "s \<in> set (fc_slots c)" "sl_ident s = i" "sl_key s = key" "sl_size s = b" using held by (auto simp: held_def)
  have "(i, False) \<in> set (fc_handles c)" using held nth_mem unfolding held_def by metis
  then have "\<not> sl_filling s" using slots_okD(3) [OF cache_okD(1) [OF c] s(1)] opens_pos [of "fc_handles c" i] s(2)
    by (simp add: slot_ok_def)
  then show ?thesis using slots_okD(6) [OF cache_okD(1) [OF c]] s by auto
qed

text \<open>The promise of \<open>Ready\<close>: a finished entry with a pin that lasts at least until \<open>p\<close>.\<close>

definition promised :: "string \<Rightarrow> int \<Rightarrow> int \<Rightarrow> cache \<Rightarrow> bool" where
  "promised key b p c \<longleftrightarrow> (\<exists>s \<in> set (fc_slots c). sl_key s = key \<and> sl_size s = b \<and> \<not> sl_filling s \<and>
     (\<exists>q. sl_pin s = Some q \<and> p \<le> q))"

fun act_within :: "int \<Rightarrow> int \<Rightarrow> cache_act \<Rightarrow> bool" where
  "act_within lo hi (Acquire t key) = (lo \<le> t \<and> t < hi)"
| "act_within lo hi (Ready t key) = (lo \<le> t \<and> t < hi)"
| "act_within lo hi (Start t fails key bytes) = (lo \<le> t \<and> t < hi)"
| "act_within lo hi (Finish t i r) = (lo \<le> t \<and> t < hi)"
| "act_within lo hi (Drop t fails key) = (lo \<le> t \<and> t < hi)"
| "act_within lo hi (Release h) = True"
| "act_within lo hi (Chunk i n) = True"

lemma promised_update:
  assumes "promised key b p c" "fc_slots c' = fc_slots c"
    "\<And>s. s \<in> set (fc_slots c) \<Longrightarrow> sl_key s = key \<Longrightarrow> \<not> sl_filling s \<Longrightarrow> sl_ident s = i \<Longrightarrow>
       sl_key (f s) = key \<and> sl_size (f s) = sl_size s \<and> \<not> sl_filling (f s) \<and>
       (\<forall>q. sl_pin s = Some q \<longrightarrow> p \<le> q \<longrightarrow> (\<exists>r. sl_pin (f s) = Some r \<and> p \<le> r))"
  shows "promised key b p (update_slot i f c')"
proof -
  obtain s q where s: "s \<in> set (fc_slots c)" "sl_key s = key" "sl_size s = b" "\<not> sl_filling s" "sl_pin s = Some q" "p \<le> q"
    using assms(1) unfolding promised_def by blast
  let ?s = "if sl_ident s = i then f s else s"
  have "?s \<in> set (fc_slots (update_slot i f c'))" using s(1) assms(2) by (auto simp: update_slot_def)
  moreover have "sl_key ?s = key \<and> sl_size ?s = b \<and> \<not> sl_filling ?s \<and> (\<exists>q. sl_pin ?s = Some q \<and> p \<le> q)"
    using assms(3) [of s] s by auto
  ultimately show ?thesis unfolding promised_def by blast
qed

lemma promised_shrinks:
  assumes "promised key b p c" "shrinks vs c c'" "\<forall>v \<in> set vs. \<not> in_use t v" "t < p"
  shows "promised key b p c'"
proof -
  obtain s q where s: "s \<in> set (fc_slots c)" "sl_key s = key" "sl_size s = b" "\<not> sl_filling s" "sl_pin s = Some q" "p \<le> q"
    using assms(1) unfolding promised_def by blast
  have "in_use t s" using s assms(4) by (simp add: in_use_def)
  then have "s \<in> set (fc_slots c')" using shrinksD(9) [OF assms(2) s(1)] assms(3) by blast
  then show ?thesis using s unfolding promised_def by blast
qed

lemma promised_start:
  assumes c: "cache_ok c" and p: "promised key b p c" and t: "t < p"
  shows "promised key b p (fst (start_or_get t fails k bytes c))"
proof -
  let ?c0 = "c\<lparr>fc_fails := filter (\<lambda>kt. fst kt \<noteq> k) (fc_fails c)\<rparr>"
  have e: "promised key b p (fst (evict t fails bytes ?c0))"
    by (rule promised_shrinks [OF _ evict_shrinks [OF fails_ok [OF c]] _ t]) (use p set_victims in \<open>auto simp: promised_def\<close>)
  show ?thesis
  proof (rule start_cases [OF refl, of t fails k bytes c])
    fix s assume "fst (start_or_get t fails k bytes c) = update_slot (sl_ident s) (\<lambda>s. s\<lparr>sl_used := t\<rparr>) c"
    then show ?thesis using promised_update [OF p refl, of "sl_ident s" "\<lambda>s. s\<lparr>sl_used := t\<rparr>"] by auto
  qed (use p e in \<open>auto simp: promised_def\<close>)
qed

lemma promised_finish:
  assumes c: "cache_ok c" and p: "promised key b p c"
  shows "promised key b p (finish_fill t i r c)"
proof (cases "find (\<lambda>s. sl_ident s = i \<and> sl_filling s) (fc_slots c)")
  case (Some s)
  note fs = fill_slot [OF c Some]
  have ne: "sl_ident u \<noteq> i \<and> sl_key u \<noteq> sl_key s" if "u \<in> set (fc_slots c)" "\<not> sl_filling u" for u
    using slot_unique [OF cache_okD(1) [OF c] that(1) fs(1)] fs(2,3) that(2) by metis
  show ?thesis
  proof (cases "fetch_ok (sl_size s) r")
    case True
    have "promised key b p (update_slot i (\<lambda>s. s\<lparr>sl_filling := False, sl_refs := (if sl_refs s > 0 then sl_refs s - 1 else sl_refs s),
        sl_used := t\<rparr>) (c\<lparr>fc_files := (fc_files c)(sl_key s \<mapsto> sl_size s)\<rparr>))"
      by (rule promised_update [OF p]) (use ne in auto)
    then show ?thesis using True Some by (simp add: finish_fill_def)
  next
    case False
    have "promised key b p (remove_slot s c)" using p ne unfolding promised_def remove_slot_def by fastforce
    then show ?thesis using False Some
      by (simp add: finish_fill_def Let_def promised_def prune_failures_def)
  qed
qed (simp add: finish_fill_def p)

lemma promised_ready:
  "promised key b p c \<Longrightarrow> p \<le> t + fc_pin_ttl c \<Longrightarrow> promised key b p (fst (ready t k c))"
  by (auto simp: ready_def intro: promised_update split: option.split)

lemma promised_step:
  assumes c: "cache_ok c" and p: "promised key b p c" and a: "act_within lo p a" "p \<le> lo + fc_pin_ttl c"
  shows "promised key b p (cache_step a c)"
proof (cases a)
  case (Acquire t k)
  have "promised key b p (update_slot j (\<lambda>s. s\<lparr>sl_refs := sl_refs s + 1, sl_used := t\<rparr>) (c\<lparr>fc_handles := hs\<rparr>))" for j hs
    by (rule promised_update [OF p]) auto
  then show ?thesis using p Acquire by (simp add: acquire_def split: option.split)
next
  case (Release h)
  have "promised key b p (update_slot j (\<lambda>s. if sl_refs s > 0 then s\<lparr>sl_refs := sl_refs s - 1\<rparr> else s) (c\<lparr>fc_handles := hs\<rparr>))" for j hs
    by (rule promised_update [OF p]) auto
  then show ?thesis using p Release by (simp add: release_def)
next
  case (Chunk i n)
  have "promised key b p (update_slot i (\<lambda>s. if n > 0 then s\<lparr>sl_written := sl_written s + n\<rparr> else s) c)"
    by (rule promised_update [OF p]) auto
  then show ?thesis using Chunk by (simp add: write_chunk_def)
next
  case (Drop t fails k)
  then show ?thesis using drop_shrinks [OF c, of t fails k] promised_shrinks [OF p, of _ _ t] a(1) by auto
qed (use a promised_start [OF c p] promised_finish [OF c p] promised_ready [OF p] in auto)

lemma promised_run:
  assumes "cache_ok c" "list_all act_small as" "list_all (act_within lo p) as" "promised key b p c" "p \<le> lo + fc_pin_ttl c"
  shows "promised key b p (run_cache as c) \<and> fc_on (run_cache as c) = fc_on c"
  using assms
proof (induction as arbitrary: c)
  case (Cons a as)
  have g: "good_step c (cache_step a c)" using Cons.prems by (simp add: step_good)
  then show ?case using Cons.IH [of "cache_step a c"] Cons.prems promised_step [of c key b p lo a]
    unfolding good_step_def by simp
qed simp

section \<open>Properties\<close>

definition disk_bytes :: "cache \<Rightarrow> int" where
  "disk_bytes c = (\<Sum>k \<in> dom (fc_files c). the (fc_files c k))"

text \<open>The temporary files of the fetches that run lie in the same directory: their lengths, and what they hold beyond
  the size the fetch declared (nothing stops a body that is longer, only its end is compared).\<close>

definition temp_bytes :: "cache \<Rightarrow> int" where
  "temp_bytes c = sum_list (map sl_written (filter sl_filling (fc_slots c)))"

definition overrun :: "cache \<Rightarrow> int" where
  "overrun c = sum_list (map (\<lambda>s. max 0 (sl_written s - sl_size s)) (filter sl_filling (fc_slots c)))"

lemma disk_is_published:
  assumes c: "cache_ok c"
  shows "finite (dom (fc_files c))" "disk_bytes c = sum_list (map sl_size (filter (\<lambda>s. \<not> sl_filling s) (fc_slots c)))"
proof -
  note ok = cache_okD(1) [OF c]
  let ?rs = "filter (\<lambda>s. \<not> sl_filling s) (fc_slots c)"
  have d: "dom (fc_files c) = sl_key ` set ?rs" using slots_okD(6) [OF ok] by (force simp: dom_def)
  have inj: "inj_on sl_key (set ?rs)" and dist: "distinct ?rs"
    using slots_okD(1) [OF ok] by (auto simp: distinct_map inj_on_def)
  have v: "s \<in> set ?rs \<Longrightarrow> the (fc_files c (sl_key s)) = sl_size s" for s
    using slots_okD(6) [OF ok, of "sl_key s" "sl_size s"] by auto
  have "disk_bytes c = (\<Sum>s \<in> set ?rs. the (fc_files c (sl_key s)))"
    unfolding disk_bytes_def d by (rule sum.reindex [OF inj, unfolded comp_def])
  also have "\<dots> = (\<Sum>s \<in> set ?rs. sl_size s)" using v by (intro sum.cong) auto
  also have "\<dots> = sum_list (map sl_size ?rs)" using dist by (simp add: sum_list_distinct_conv_sum_set)
  finally show "disk_bytes c = sum_list (map sl_size ?rs)" .
  show "finite (dom (fc_files c))" by (simp add: d)
qed

lemma published_and_filling:
  "sum_list (map sl_size (filter (\<lambda>s. \<not> sl_filling s) ss)) + sum_list (map sl_written (filter sl_filling ss))
     \<le> sum_list (map sl_size ss) + sum_list (map (\<lambda>s. max 0 (sl_written s - sl_size s)) (filter sl_filling ss))"
  by (induction ss) auto

lemma published_within:
  "\<forall>s \<in> set ss. 0 \<le> sl_size s \<Longrightarrow> sum_list (map sl_size (filter P ss)) \<le> sum_list (map sl_size ss)"
  by (induction ss) auto

lemma disk_within: "cache_ok c \<Longrightarrow> disk_bytes c \<le> fc_total c \<and> disk_bytes c + temp_bytes c \<le> fc_total c + overrun c"
  using slots_okD(3) [OF cache_okD(1)]
  by (simp add: disk_is_published(2) temp_bytes_def overrun_def published_and_filling published_within cache_okD(2) slot_ok_def)

text \<open>C31. The ceiling holds: from a start over any directory, through any reads, promises, fills, failures and evictions
  (with a ceiling and declared sizes below 2^62 bytes, so that no \<open>int64\<close> sum wraps), what the cache counts is the sum
  of its slots and never passes the ceiling, or what the directory held at the start when that was more. The published
  entries take no more than that, and with the temporary files of the fetches that run, the cache's files take no more
  than that and what those fetches have copied beyond the size they declared.\<close>

theorem cache_keeps_its_ceiling:
  assumes "cf_max_bytes cfg < 2 ^ 62" "case dir of None \<Rightarrow> True | Some es \<Rightarrow> listing_ok es" "list_all act_small acts"
  shows "let c0 = new_cache cfg now dir; c = run_cache acts c0 in
    fc_total c = sum_list (map sl_size (fc_slots c)) \<and> fc_total c \<le> max (fc_total c0) (fc_max c0) \<and>
    disk_bytes c \<le> fc_total c \<and> disk_bytes c + temp_bytes c \<le> fc_total c + overrun c"
proof -
  note ok = new_cache_ok [OF assms(1,2), of now] and run = run_good [OF ok assms(3)]
  show ?thesis using run(2) cache_okD(2) [OF run(1)] disk_within [OF run(1)] by (simp add: Let_def)
qed

lemma updated_mem: "s \<in> set (fc_slots c) \<Longrightarrow> fc_slots c' = fc_slots c \<Longrightarrow> f s \<in> set (fc_slots (update_slot (sl_ident s) f c'))"
  by (auto simp: update_slot_def)

lemma acquired:
  assumes "cache_ok c" "snd (acquire t key c) = Some h"
  obtains i b where "held h i key b (fst (acquire t key c))" "fc_files c key = Some b"
proof -
  obtain s where s: "fc_on c" "key \<noteq> []" "find_slot key c = Some s" "\<not> sl_filling s" "h = length (fc_handles c)"
    using assms(2) by (auto simp: acquire_def split: if_split_asm option.split_asm)
  note m = find_slot_Some [OF s(3)]
  have "fst (acquire t key c) = update_slot (sl_ident s) (\<lambda>s. s\<lparr>sl_refs := sl_refs s + 1, sl_used := t\<rparr>)
      (c\<lparr>fc_handles := fc_handles c @ [(sl_ident s, False)]\<rparr>)" using s by (simp add: acquire_def)
  then have "held h (sl_ident s) key (sl_size s) (fst (acquire t key c))"
    using bexI [OF _ updated_mem [of s c "c\<lparr>fc_handles := fc_handles c @ [(sl_ident s, False)]\<rparr>" "\<lambda>s. s\<lparr>sl_refs := sl_refs s + 1, sl_used := t\<rparr>"],
      of "\<lambda>u. sl_ident u = sl_ident s \<and> sl_key u = key \<and> sl_size u = sl_size s"] m s(5)
    unfolding held_def by (simp add: update_slot_def)
  moreover have "fc_files c key = Some (sl_size s)" using slots_okD(6) [OF cache_okD(1) [OF assms(1)]] m s(4) by blast
  ultimately show thesis by (rule that)
qed

lemma made_ready:
  assumes "cache_ok c" "snd (ready t key c)"
  obtains b where "promised key b (t + fc_pin_ttl c) (fst (ready t key c))" "fc_on c" "key \<noteq> []"
proof -
  obtain s where s: "fc_on c" "key \<noteq> []" "find_slot key c = Some s" "\<not> sl_filling s"
    using assms(2) by (auto simp: ready_def split: if_split_asm option.split_asm)
  note m = find_slot_Some [OF s(3)]
  have "fst (ready t key c) = update_slot (sl_ident s) (\<lambda>s. s\<lparr>sl_used := t, sl_pin := Some (t + fc_pin_ttl c)\<rparr>) c"
    using s by (simp add: ready_def)
  then have "promised key (sl_size s) (t + fc_pin_ttl c) (fst (ready t key c))"
    using bexI [OF _ updated_mem [OF _ refl, of s c "\<lambda>s. s\<lparr>sl_used := t, sl_pin := Some (t + fc_pin_ttl c)\<rparr>"],
      of "\<lambda>u. sl_key u = key \<and> sl_size u = sl_size s \<and> \<not> sl_filling u \<and> (\<exists>q. sl_pin u = Some q \<and> t + fc_pin_ttl c \<le> q)"] m s(4)
    unfolding promised_def by simp
  then show thesis using s(1,2) by (rule that)
qed

lemma promised_opens:
  assumes "cache_ok c" "promised key b p c" "fc_on c" "key \<noteq> []" shows "\<exists>h. snd (acquire u key c) = Some h"
proof -
  obtain s where "s \<in> set (fc_slots c)" "sl_key s = key" "\<not> sl_filling s" using assms(2) by (auto simp: promised_def)
  then show ?thesis using find_slot_mem [OF assms(1)] assms(3,4) by (auto simp: acquire_def)
qed

text \<open>C32. What somebody reads stays: an entry that was handed out keeps its file, with its length, until it is released,
  whatever reads, fills, failures and evictions come in between.\<close>

theorem open_entries_stay:
  assumes "cf_max_bytes cfg < 2 ^ 62" "case dir of None \<Rightarrow> True | Some es \<Rightarrow> listing_ok es" "list_all act_small before"
    "list_all act_small later" "c = run_cache before (new_cache cfg now dir)" "snd (acquire t key c) = Some h" "Release h \<notin> set later"
  shows "\<exists>b. fc_files c key = Some b \<and> fc_files (run_cache later (fst (acquire t key c))) key = Some b"
proof -
  have ok: "cache_ok c" using run_good(1) [OF new_cache_ok [OF assms(1,2)] assms(3)] assms(5) by simp
  obtain i b where h: "held h i key b (fst (acquire t key c))" "fc_files c key = Some b" by (rule acquired [OF ok assms(6)])
  have "cache_ok (fst (acquire t key c))" by (rule acquire_ok [OF ok])
  from held_file [OF run_good(1) [OF this assms(4)] held_run [OF this assms(4,7) h(1)]] show ?thesis using h(2) by blast
qed

text \<open>C33. What was promised stays as well: a key that was said to be ready can be opened for as long as the promise
  runs, however much is filled and evicted in that time.\<close>

theorem promises_last:
  assumes "cf_max_bytes cfg < 2 ^ 62" "case dir of None \<Rightarrow> True | Some es \<Rightarrow> listing_ok es" "list_all act_small before"
    "list_all act_small later" "c = run_cache before (new_cache cfg now dir)" "snd (ready t key c)"
    "list_all (act_within t (t + fc_pin_ttl c)) later"
  shows "\<exists>h. snd (acquire u key (run_cache later (fst (ready t key c)))) = Some h"
proof -
  have ok: "cache_ok c" using run_good(1) [OF new_cache_ok [OF assms(1,2)] assms(3)] assms(5) by simp
  obtain b where p: "promised key b (t + fc_pin_ttl c) (fst (ready t key c))" "fc_on c" "key \<noteq> []"
    by (rule made_ready [OF ok assms(6)])
  have r: "cache_ok (fst (ready t key c))" "fc_on (fst (ready t key c)) = fc_on c" "fc_pin_ttl (fst (ready t key c)) = fc_pin_ttl c"
    using ready_good [OF ok] by (simp_all add: good_step_def)
  have "promised key b (t + fc_pin_ttl c) (run_cache later (fst (ready t key c))) \<and> fc_on (run_cache later (fst (ready t key c))) = fc_on c"
    using promised_run [OF r(1) assms(4,7) p(1)] r(2,3) by simp
  then show ?thesis using promised_opens [OF run_good(1) [OF r(1) assms(4)]] p(2,3) by blast
qed

section \<open>Names and room\<close>

text \<open>A key that was made for a file is the name of an entry at the next start.\<close>

lemma hex_16: "list_all is_hex h \<Longrightarrow> length h = 64 \<Longrightarrow> length (List.take 16 h) = 16 \<and> list_all is_hex (List.take 16 h)"
  by (simp add: list_all_iff) (meson in_set_takeD)

theorem keys_survive_restarts:
  assumes "0 < node" "sig \<noteq> []" "list_all is_hex (sha_hex sig)" "length (sha_hex sig) = 64"
  shows "entry_key (cache_key sha_hex node sig @ ''.bin'') = Some (cache_key sha_hex node sig)"
proof -
  let ?d = "digits (nat node)" and ?h = "List.take 16 (sha_hex sig)"
  have h: "length ?h = 16" "list_all is_hex ?h" using hex_16 [OF assms(3,4)] by blast+
  have d: "?d \<noteq> []" "\<forall>c \<in> set ?d. is_digit c" using digits_props [of "nat node"] by (auto simp: list_all_iff)
  have k: "cache_key sha_hex node sig = ?d @ CHR ''-'' # ?h" using assms(1,2) by (simp add: cache_key_def format_int_def)
  have m: "\<not> is_digit (CHR ''-'')" by (simp add: is_digit_def)
  have t: "takeWhile is_digit (?d @ CHR ''-'' # ?h @ ''.bin'') = ?d" "dropWhile is_digit (?d @ CHR ''-'' # ?h @ ''.bin'') = CHR ''-'' # ?h @ ''.bin''"
    using d(2) m by (simp_all add: takeWhile_append2 dropWhile_append2)
  have "drop 17 (CHR ''-'' # ?h @ ''.bin'') = ''.bin''" "List.take 16 (drop 1 (CHR ''-'' # ?h @ ''.bin'')) = ?h"
    using h(1) assms(4) by simp_all
  moreover have "List.take (length (?d @ CHR ''-'' # ?h @ ''.bin'') - 4) (?d @ CHR ''-'' # ?h @ ''.bin'') = ?d @ CHR ''-'' # ?h"
    using assms(4) by simp
  ultimately show ?thesis unfolding entry_key_def k using t d(1) h by (simp del: take_append drop_append)
qed

text \<open>Room is refused only when what is in use leaves none: with nothing that the system keeps from being removed,
  \<open>evict\<close> succeeds exactly if the need fits beside what is being filled, read or promised.\<close>

lemma victims_room:
  assumes "cache_ok c" "\<forall>v \<in> set vs. v \<in> set (fc_slots c) \<and> opens (fc_handles c) (sl_ident v) = 0" "distinct (map sl_key vs)"
    "0 < need" "need < 2 ^ 62"
  shows "fits need (evict_victims (\<lambda>k. False) need vs c) \<longleftrightarrow> fc_total c + need \<le> fc_max c + sum_list (map sl_size vs)"
  using assms
proof (induction vs arbitrary: c)
  case Nil
  then show ?case by (simp add: fits_small)
next
  case (Cons v vs)
  let ?c = "remove_slot v (c\<lparr>fc_files := (fc_files c)(sl_key v := None)\<rparr>)"
  have v: "v \<in> set (fc_slots c)" "opens (fc_handles c) (sl_ident v) = 0" using Cons.prems(2) by auto
  have vs: "w \<in> set vs \<Longrightarrow> w \<in> set (fc_slots ?c) \<and> opens (fc_handles ?c) (sl_ident w) = 0" for w
    using Cons.prems removed_slots [of c v ] removed_rest(4) [of c v] by (force simp: image_iff)
  have ih: "fits need (evict_victims (\<lambda>k. False) need vs ?c) \<longleftrightarrow> fc_total ?c + need \<le> fc_max ?c + sum_list (map sl_size vs)"
    by (rule Cons.IH [OF remove_ok [OF Cons.prems(1) v]]) (use vs Cons.prems(3-5) in auto)
  have pos: "0 \<le> sum_list (map sl_size (v # vs))"
    by (rule sum_list_nonneg) (use Cons.prems(2) sizes_nonneg [OF Cons.prems(1)] in auto)
  show ?case
  proof (cases "fits need c")
    case True
    then show ?thesis using pos fits_small [OF Cons.prems(1,4,5)] by simp
  next
    case False
    then have "evict_victims (\<lambda>k. False) need (v # vs) c = evict_victims (\<lambda>k. False) need vs ?c" by simp
    then show ?thesis using ih removed_rest(1,2) [OF Cons.prems(1) v(1)] by (simp del: evict_victims.simps) linarith
  qed
qed

lemma sum_list_filter_split:
  "sum_list (map f (filter P ss)) + sum_list (map f (filter (\<lambda>s. \<not> P s) ss)) = (sum_list (map f ss) :: int)"
  by (induction ss) auto

theorem room_unless_in_use:
  assumes "cache_ok c" "0 < need" "need < 2 ^ 62"
  shows "snd (evict now (\<lambda>k. False) need c) \<longleftrightarrow>
    need + sum_list (map sl_size (filter (\<lambda>s. sl_filling s \<or> in_use now s) (fc_slots c))) \<le> fc_max c"
proof -
  let ?P = "\<lambda>s. sl_filling s \<or> in_use now s" and ?vs = "victims_of now c"
  have pos: "0 \<le> sum_list (map sl_size (filter P (fc_slots c)))" for P
    by (rule sum_list_nonneg) (use sizes_nonneg [OF assms(1)] in auto)
  have "sum_list (map sl_size ?vs) = sum_mset (image_mset sl_size (mset ?vs))" by (metis mset_map sum_mset_sum_list)
  also have "\<dots> = sum_list (map sl_size (filter (\<lambda>s. \<not> ?P s) (fc_slots c)))"
    unfolding victims_of_def mset_stable_sort by (metis mset_map sum_mset_sum_list)
  finally have vs: "fc_total c = sum_list (map sl_size (filter ?P (fc_slots c))) + sum_list (map sl_size ?vs)"
    using sum_list_filter_split [of sl_size ?P "fc_slots c"] by (simp add: cache_okD(2) [OF assms(1)])
  have room: "fits need (evict_victims (\<lambda>k. False) need ?vs c) \<longleftrightarrow> fc_total c + need \<le> fc_max c + sum_list (map sl_size ?vs)"
    by (rule victims_room [OF assms(1) _ distinct_victims [OF assms(1)] assms(2,3)])
      (use set_victims idle_not_open [OF assms(1)] in auto)
  have "0 \<le> sum_list (map sl_size ?vs)" by (rule sum_list_nonneg) (use sizes_nonneg [OF assms(1)] set_victims in auto)
  then show ?thesis
    using room vs pos [of ?P] fits_small [OF assms] by (auto simp: evict_unfold Let_def)
qed

text \<open>A copy under way is not stopped at the size it was declared with: an object that grew is written on to the end, and
  only then found out, so the bytes on disk pass what the cache counts, and its ceiling, by as much as it grew.\<close>

theorem growing_object_passes_the_ceiling:
  assumes "s \<in> set (fc_slots c)" "sl_filling s" "0 < n"
  shows "fc_total (write_chunk (sl_ident s) n c) = fc_total c \<and>
    (\<exists>t \<in> set (fc_slots (write_chunk (sl_ident s) n c)). sl_key t = sl_key s \<and> sl_filling t \<and> sl_size t = sl_size s \<and>
      sl_written t = sl_written s + n)"
proof
  let ?f = "\<lambda>s. if n > 0 then s\<lparr>sl_written := sl_written s + n\<rparr> else s"
  have "?f s \<in> set (fc_slots (write_chunk (sl_ident s) n c))"
    unfolding write_chunk_def by (rule updated_mem [OF assms(1) refl])
  then show "\<exists>t \<in> set (fc_slots (write_chunk (sl_ident s) n c)). sl_key t = sl_key s \<and> sl_filling t \<and> sl_size t = sl_size s \<and>
      sl_written t = sl_written s + n"
    by (rule bexI [rotated]) (use assms in simp)
qed (simp add: write_chunk_def update_slot_def)

section \<open>A cache of a hundred bytes\<close>

definition small_config :: config where
  "small_config = \<lparr>cf_dir = ''/c'', cf_min_size = 1, cf_max_bytes = 100, cf_slow = 1, cf_pin_ttl = 10\<rparr>"

definition key_a :: string where "key_a = ''7-00000000000000aa''"
definition key_b :: string where "key_b = ''8-00000000000000bb''"

definition small_listing :: "dir_entry list" where
  "small_listing = [\<lparr>de_name = key_a @ ''.bin'', de_folder = False, de_info = Some (60, 3)\<rparr>,
     \<lparr>de_name = ''.tmp-1'', de_folder = False, de_info = Some (5, 3)\<rparr>]"

definition small_cache :: cache where
  "small_cache = new_cache small_config 20 (Some small_listing)"

lemma listing_sample: "listing_ok small_listing"
  by (simp add: listing_ok_def small_listing_def key_a_def)

lemma small_facts:
  "cf_max_bytes small_config < 2 ^ 62" "case Some small_listing of None \<Rightarrow> True | Some es \<Rightarrow> listing_ok es"
  using listing_sample by (simp_all add: small_config_def)

lemma entry_a: "entry_key (key_a @ ''.bin'') = Some key_a"
  by (simp add: entry_key_def key_a_def is_digit_def is_hex_def)

lemma small_cache_value: "small_cache = \<lparr>fc_on = True, fc_min = 1, fc_max = 100, fc_pin_ttl = 10, fc_slow = 1,
    fc_slots = [\<lparr>sl_key = key_a, sl_ident = 0, sl_size = 60, sl_used = 3, sl_pin = None, sl_refs = 0, sl_filling = False, sl_written = 0\<rparr>],
    fc_total = 60, fc_fails = [], fc_files = [key_a \<mapsto> 60], fc_handles = [], fc_next = 1\<rparr>"
  by (simp add: small_cache_def new_cache_def small_config_def small_listing_def load_entry_def entry_a Let_def wrap64_def)
    (simp add: key_a_def)

text \<open>A fill of 60 bytes beside the 60 that are there: the old entry goes, unless somebody reads it.\<close>

definition fill_b :: "cache_act list" where
  "fill_b = [Start 21 (\<lambda>k. False) key_b 60, Chunk 1 60, Finish 22 1 (Copied 60 True)]"

lemma fill_b_small: "list_all act_small fill_b"
  by (simp add: fill_b_def)

lemma b_not_a: "key_b \<noteq> key_a" "key_a \<noteq> key_b" "key_a \<noteq> []" "key_b \<noteq> []"
  by (simp_all add: key_a_def key_b_def)

lemmas cache_eval = small_cache_value fill_b_def start_or_get_def evict_def find_slot_def in_use_def fits_def wrap64_def
  stable_sort_def remove_slot_def update_slot_def write_chunk_def finish_fill_def fetch_ok_def acquire_def ready_def
  b_not_a

text \<open>In the middle of that fill the directory holds the temporary file as well.\<close>

lemma cache_keeps_its_ceiling_witness:
  "fc_total (run_cache fill_b small_cache) = 60 \<and> disk_bytes (run_cache fill_b small_cache) \<le> 60 \<and>
   fc_files (run_cache fill_b small_cache) key_b = Some 60 \<and> fc_files (run_cache fill_b small_cache) key_a = None \<and>
   temp_bytes (run_cache (List.take 1 fill_b @ [Chunk 1 40]) small_cache) = 40 \<and>
   disk_bytes (run_cache (List.take 1 fill_b @ [Chunk 1 40]) small_cache) + 40 \<le> 60"
proof -
  let ?mid = "run_cache (List.take 1 fill_b @ [Chunk 1 40]) small_cache"
  have v: "fc_total (run_cache fill_b small_cache) = 60" "fc_files (run_cache fill_b small_cache) key_b = Some 60"
    "fc_files (run_cache fill_b small_cache) key_a = None" by (simp_all add: cache_eval)
  have m: "fc_total ?mid = 60" "temp_bytes ?mid = 40" "overrun ?mid = 0"
    by (simp_all add: cache_eval temp_bytes_def overrun_def)
  have "list_all act_small (List.take 1 fill_b @ [Chunk 1 40])" by (simp add: fill_b_def)
  from cache_keeps_its_ceiling [OF small_facts this, where now = 20, folded small_cache_def]
  have "disk_bytes ?mid + 40 \<le> 60" using m by (simp add: Let_def)
  then show ?thesis
    using cache_keeps_its_ceiling [OF small_facts fill_b_small, where now = 20, folded small_cache_def] v m by (simp add: Let_def)
qed

lemma open_entries_stay_witness:
  "fc_files (run_cache fill_b (fst (acquire 21 key_a small_cache))) key_a = Some 60 \<and>
   fc_files (run_cache fill_b (fst (acquire 21 key_a small_cache))) key_b = None"
proof -
  have s: "snd (acquire 21 key_a small_cache) = Some 0" by (simp add: cache_eval)
  have "\<exists>b. fc_files small_cache key_a = Some b \<and> fc_files (run_cache fill_b (fst (acquire 21 key_a small_cache))) key_a = Some b"
    by (rule open_entries_stay [OF small_facts _ fill_b_small _ s, where before = "[]" and now = 20])
      (simp_all add: small_cache_def fill_b_def)
  moreover have "fc_files (run_cache fill_b (fst (acquire 21 key_a small_cache))) key_b = None" by (simp add: cache_eval)
  ultimately show ?thesis by (simp add: small_cache_value)
qed

lemma promises_last_witness:
  "\<exists>h. snd (acquire 30 key_a (run_cache fill_b (fst (ready 20 key_a small_cache)))) = Some h"
proof (rule promises_last [OF small_facts _ fill_b_small, where before = "[]" and now = 20])
  show "small_cache = run_cache [] (new_cache small_config 20 (Some small_listing))" by (simp add: small_cache_def)
qed (simp_all add: cache_eval)

end
