(* ===== verification/Confine.thy ===== *)
theory Confine
  imports Syspath
begin

text \<open>
  \<open>internal/confine\<close>: a caller that is confined to one folder of one storage, by the \<open>root:\<close> scope of its token or
  by a header, and the middleware that holds a request to it. A path is read as the package reads it; the other
  reading, in which a backslash separates, is the one a storage on a Windows host has. JSON is \<open>encoding/json\<close>'s: its
  decoder and encoder are the arguments \<open>dec\<close> and \<open>enc\<close>, what lies between them is modelled on the decoded value.
  A body is its bytes and whether reading breaks off after them with an error.
\<close>

section \<open>Roots\<close>

record root =
  rt_adapter :: string
  rt_rel :: string

definition scheme_sep :: string where "scheme_sep = ''://''"

definition split_raw :: "string \<Rightarrow> string \<times> string" where
  "split_raw raw = (case index_of raw scheme_sep of
     Some i \<Rightarrow> (List.take i raw, drop (i + 3) raw) | None \<Rightarrow> ([], raw))"

definition clean_root_rel :: "string \<Rightarrow> string" where
  "clean_root_rel rel = (let rel = clean_slash rel in if rel = ''.'' then [] else rel)"

definition split_path :: "string \<Rightarrow> string \<times> string" where
  "split_path raw = (let (a, rel) = split_raw raw in (a, clean_root_rel rel))"

definition contains :: "root \<Rightarrow> root \<Rightarrow> bool" where
  "contains r c \<longleftrightarrow>
     (if rt_adapter r \<noteq> rt_adapter c then False
      else if rt_rel r = [] then True
      else rt_rel c = rt_rel r \<or> has_prefix (rt_rel c) (rt_rel r @ ''/''))"

abbreviation backslash :: char where "backslash \<equiv> CHR 0x5C"

definition fold_backslash :: "string \<Rightarrow> string" where
  "fold_backslash s = map (\<lambda>c. if c = backslash then slash else c) s"

definition held_both_ways :: "root \<Rightarrow> string \<Rightarrow> string \<Rightarrow> bool" where
  "held_both_ways r adapter p =
     (let rel = snd (split_raw p) in
      if backslash \<notin> set rel then True
      else contains r \<lparr>rt_adapter = adapter, rt_rel = clean_root_rel (fold_backslash rel)\<rparr>)"

definition parse_root :: "string \<Rightarrow> root option" where
  "parse_root raw0 =
     (let raw = trim_space raw0 in
      if raw = [] then None
      else let (a, rel) = split_path raw in
        if a = [] then None else Some \<lparr>rt_adapter = a, rt_rel = rel\<rparr>)"

definition root_string :: "root \<Rightarrow> string" where
  "root_string r = rt_adapter r @ scheme_sep @ rt_rel r"

definition within_root :: "root \<Rightarrow> string \<Rightarrow> string \<Rightarrow> bool" where
  "within_root r adapter rel =
     (let p = adapter @ scheme_sep @ rel; c = snd (split_path p) in
      contains r \<lparr>rt_adapter = adapter, rt_rel = c\<rparr> \<and> held_both_ways r adapter p)"

definition holds :: "root \<Rightarrow> string \<Rightarrow> bool" where
  "holds r p =
     (let (a0, rel) = split_path p; a = (if a0 = [] then rt_adapter r else a0) in
      contains r \<lparr>rt_adapter = a, rt_rel = rel\<rparr> \<and> held_both_ways r a p)"

definition enforce :: "root \<Rightarrow> string \<Rightarrow> string option" where
  "enforce r p =
     (let (a0, rel0) = split_path p; a = (if a0 = [] then rt_adapter r else a0) in
      if a \<noteq> rt_adapter r then None
      else let rel = (if rel0 = [] then rt_rel r else rel0) in
        if \<not> contains r \<lparr>rt_adapter = a, rt_rel = rel\<rparr> \<or> \<not> held_both_ways r a p then None
        else if rel = [] then Some (a @ scheme_sep) else Some (a @ scheme_sep @ rel))"

section \<open>Whose root\<close>

definition scope_prefix :: string where "scope_prefix = ''root:''"

definition scope_root :: "string \<Rightarrow> root option" where
  "scope_root s0 =
     (let s = trim_space s0 in
      if has_prefix s scope_prefix then parse_root (trim_prefix s scope_prefix) else None)"

text \<open>The middleware keeps the last root a token's list names, the surfaces beside it take the first.\<close>

definition last_root :: "string option \<Rightarrow> root option" where
  "last_root scopes = (case scopes of None \<Rightarrow> None
     | Some l \<Rightarrow> foldl (\<lambda>acc s. case scope_root s of Some r \<Rightarrow> Some r | None \<Rightarrow> acc) None (split_on (CHR '','') l))"

fun first_of :: "string list \<Rightarrow> root option" where
  "first_of [] = None"
| "first_of (s # ss) = (case scope_root s of Some r \<Rightarrow> Some r | None \<Rightarrow> first_of ss)"

definition root_from_token :: "string option \<Rightarrow> root option" where
  "root_from_token scopes = (case scopes of None \<Rightarrow> None | Some l \<Rightarrow> first_of (split_on (CHR '','') l))"

fun protocol_first :: "string list \<Rightarrow> root option" where
  "protocol_first [] = None"
| "protocol_first (s0 # ss) =
     (let s = trim_space s0 in
      if \<not> has_prefix s scope_prefix then protocol_first ss
      else case parse_root (trim_space (trim_prefix s scope_prefix)) of Some r \<Rightarrow> Some r | None \<Rightarrow> protocol_first ss)"

definition protocol_root :: "string option \<Rightarrow> root option" where
  "protocol_root scopes = (case scopes of None \<Rightarrow> None | Some l \<Rightarrow> protocol_first (split_on (CHR '','') l))"

datatype confine_error = ErrOutOfRoot | ErrBadBody | ErrBodyTooLarge

definition from_request :: "string option \<Rightarrow> string \<Rightarrow> confine_error + root option" where
  "from_request scopes header =
     (let token = last_root scopes; hdr = trim_space header in
      if hdr = [] then Inr token
      else case parse_root hdr of
        None \<Rightarrow> Inr token
      | Some h \<Rightarrow>
          (case token of
             Some t \<Rightarrow> if \<not> contains t h \<or> \<not> held_both_ways t (rt_adapter h) hdr then Inl ErrOutOfRoot else Inr (Some h)
           | None \<Rightarrow> Inr (Some h)))"

definition caller_root :: "root option \<Rightarrow> string option \<Rightarrow> root option" where
  "caller_root stashed scopes = (case stashed of Some r \<Rightarrow> Some r | None \<Rightarrow> root_from_token scopes)"

section \<open>Bodies\<close>

datatype json = JNull | JBool bool | JNum string | JStr string | JArr "json list" | JObj "(string \<times> json) list"

text \<open>\<open>strings.EqualFold\<close> with a word of ASCII letters: Unicode folds two code points to one of them, U+017F to s and
  U+212A to k.\<close>

fun fold_key :: "string \<Rightarrow> string" where
  "fold_key [] = []"
| "fold_key (a # s) =
     (case s of
        b # t \<Rightarrow>
          if a = CHR 0xC5 \<and> b = CHR 0xBF then CHR ''s'' # fold_key t
          else (case t of
            c # u \<Rightarrow> if a = CHR 0xE2 \<and> b = CHR 0x84 \<and> c = CHR 0xAA then CHR ''k'' # fold_key u
                    else lower_byte a # fold_key s
          | [] \<Rightarrow> lower_byte a # fold_key s)
      | [] \<Rightarrow> [lower_byte a])"

definition equal_fold :: "string \<Rightarrow> string \<Rightarrow> bool" where
  "equal_fold k word \<longleftrightarrow> fold_key k = map lower_byte word"

definition one_of :: "string \<Rightarrow> string list \<Rightarrow> bool" where
  "one_of k keys \<longleftrightarrow> list_ex (equal_fold k) keys"

definition rewritten_keys :: "string list" where "rewritten_keys = [''path'', ''item'', ''target'', ''sourceDir'']"
definition rewritten_list_keys :: "string list" where "rewritten_list_keys = [''source'', ''paths'']"
definition rewritten_item_keys :: "(string \<times> string) list" where "rewritten_item_keys = [(''items'', ''path'')]"
definition checked_keys :: "string list" where "checked_keys = [''dest'', ''target_dir'']"
definition checked_list_keys :: "string list" where "checked_list_keys = [''sources'']"
definition checked_item_keys :: "(string \<times> string) list" where "checked_item_keys = [(''files'', ''source'')]"

definition item_field :: "string \<Rightarrow> (string \<times> string) list \<Rightarrow> string option" where
  "item_field k keys = map_option snd (find (\<lambda>kf. equal_fold k (fst kf)) keys)"

text \<open>Every element through a step that may refuse.\<close>

fun each :: "('a \<Rightarrow> 'a option) \<Rightarrow> 'a list \<Rightarrow> 'a list option" where
  "each f [] = Some []"
| "each f (x # xs) = (case f x of None \<Rightarrow> None | Some y \<Rightarrow> (case each f xs of None \<Rightarrow> None | Some ys \<Rightarrow> Some (y # ys)))"

definition rewrite_text :: "root \<Rightarrow> json \<Rightarrow> json option" where
  "rewrite_text r v = (case v of JStr s \<Rightarrow> map_option JStr (enforce r s) | _ \<Rightarrow> Some v)"

definition check_text :: "root \<Rightarrow> json \<Rightarrow> json option" where
  "check_text r v = (case v of JStr s \<Rightarrow> if s \<noteq> [] \<and> \<not> holds r s then None else Some v | _ \<Rightarrow> Some v)"

definition in_list :: "(json \<Rightarrow> json option) \<Rightarrow> json \<Rightarrow> json option" where
  "in_list f v = (case v of JArr vs \<Rightarrow> map_option JArr (each f vs) | _ \<Rightarrow> Some v)"

definition in_field :: "string \<Rightarrow> (json \<Rightarrow> json option) \<Rightarrow> json \<Rightarrow> json option" where
  "in_field field f v = (case v of
     JObj m \<Rightarrow> map_option JObj (each (\<lambda>(k, w). if equal_fold k field then map_option (Pair k) (f w) else Some (k, w)) m)
   | _ \<Rightarrow> Some v)"

definition confine_value :: "root \<Rightarrow> string \<Rightarrow> json \<Rightarrow> json option" where
  "confine_value r key v =
     (if one_of key rewritten_keys then (if v = JStr [] then Some v else rewrite_text r v)
      else if one_of key rewritten_list_keys then in_list (rewrite_text r) v
      else if one_of key checked_keys then check_text r v
      else if one_of key checked_list_keys then in_list (check_text r) v
      else case item_field key rewritten_item_keys of
        Some field \<Rightarrow> in_list (in_field field (rewrite_text r)) v
      | None \<Rightarrow>
          (case item_field key checked_item_keys of
             Some field \<Rightarrow> in_list (in_field field (check_text r)) v
           | None \<Rightarrow> Some v))"

definition confine_object :: "root \<Rightarrow> (string \<times> json) list \<Rightarrow> (string \<times> json) list option" where
  "confine_object r m = each (\<lambda>(k, v). map_option (Pair k) (confine_value r k v)) m"

definition json_space :: "char \<Rightarrow> bool" where
  "json_space c \<longleftrightarrow> c = CHR 0x20 \<or> c = CHR 0x09 \<or> c = CHR 0x0A \<or> c = CHR 0x0D"

definition begins_object :: "string \<Rightarrow> bool" where
  "begins_object body = (case dropWhile json_space body of [] \<Rightarrow> False | c # _ \<Rightarrow> c = CHR ''{'')"

definition confine_body ::
  "(string \<Rightarrow> (string \<times> json) list option) \<Rightarrow> ((string \<times> json) list \<Rightarrow> string option) \<Rightarrow> root \<Rightarrow> string \<Rightarrow> confine_error + string" where
  "confine_body dec enc r body =
     (if \<not> begins_object body then Inr body
      else case dec body of None \<Rightarrow> Inl ErrBadBody
        | Some m \<Rightarrow>
            (case confine_object r m of None \<Rightarrow> Inl ErrOutOfRoot
             | Some m' \<Rightarrow> (case enc m' of None \<Rightarrow> Inl ErrBadBody | Some b \<Rightarrow> Inr (trim_suffix b [CHR 0x0A]))))"

definition max_body :: nat where "max_body = 8 * 2 ^ 20"

text \<open>The leading white space, byte by byte: None when the body ends in it, else how many bytes were read.\<close>

fun lead :: "bool \<Rightarrow> nat \<Rightarrow> string \<Rightarrow> confine_error + nat option" where
  "lead broken n [] = (if broken then Inl ErrBadBody else Inr None)"
| "lead broken n (b # bs) =
     (if \<not> json_space b then Inr (Some (n + 1))
      else if n + 1 > max_body then Inl ErrBodyTooLarge
      else lead broken (n + 1) bs)"

definition hold_request_body ::
  "(string \<Rightarrow> (string \<times> json) list option) \<Rightarrow> ((string \<times> json) list \<Rightarrow> string option) \<Rightarrow> root \<Rightarrow> string \<times> bool
     \<Rightarrow> confine_error + string \<times> bool" where
  "hold_request_body dec enc r bb =
     (let (body, broken) = bb in
      case lead broken 0 body of
        Inl e \<Rightarrow> Inl e
      | Inr None \<Rightarrow> Inr bb
      | Inr (Some n) \<Rightarrow>
          if body ! (n - 1) \<noteq> CHR ''{'' then Inr bb
          else if broken \<and> length body < max_body + 1 then Inl ErrBadBody
          else if length (List.take (max_body + 1) body) > max_body then Inl ErrBodyTooLarge
          else (case confine_body dec enc r body of Inl e \<Rightarrow> Inl e | Inr nb \<Rightarrow> Inr (nb, False)))"

section \<open>The middleware\<close>

record request =
  rq_method :: string
  rq_raw_path :: string
  rq_url_path :: string
  rq_scopes :: "string option"
  rq_header :: string
  rq_path :: "string list option"
  rq_body :: "(string \<times> bool) option"

definition raw_body_routes :: "(string \<times> string list) list" where
  "raw_body_routes =
     [(''PUT'', [''api'', ''files'', ''upload'', ''*'']),
      (''PUT'', [''api'', ''files'', ''plugins'', ''ui'', ''*'', ''*'', ''save'']),
      (''PUT'', [''api'', ''files'', ''e2e'', ''vault'', ''pack'']),
      (''PUT'', [''api'', ''files'', ''e2e'', ''vault'', ''index''])]"

definition raw_body :: "request \<Rightarrow> bool" where
  "raw_body rq =
     (let p = (if rq_raw_path rq = [] then rq_url_path rq else rq_raw_path rq) in
      if \<not> has_prefix p ''/'' then False
      else let segs = split_on slash (drop 1 p) in
        list_ex (\<lambda>(method, path). rq_method rq = method \<and> length segs = length path \<and>
          list_all2 (\<lambda>s want. s \<noteq> [] \<and> (want = ''*'' \<or> s = want)) segs path) raw_body_routes)"

datatype answer = Refused nat confine_error | Passed request "root option"

definition refusal :: "confine_error \<Rightarrow> answer" where
  "refusal e = (case e of ErrBodyTooLarge \<Rightarrow> Refused 413 e | ErrBadBody \<Rightarrow> Refused 400 e | ErrOutOfRoot \<Rightarrow> Refused 403 e)"

definition hold_query :: "root \<Rightarrow> request \<Rightarrow> confine_error + request" where
  "hold_query r rq = (case rq_path rq of None \<Rightarrow> Inr rq
     | Some ps \<Rightarrow> (case enforce r (case ps of [] \<Rightarrow> [] | p # _ \<Rightarrow> p) of
         None \<Rightarrow> Inl ErrOutOfRoot | Some np \<Rightarrow> Inr (rq\<lparr>rq_path := Some [np]\<rparr>)))"

definition middleware ::
  "(string \<Rightarrow> (string \<times> json) list option) \<Rightarrow> ((string \<times> json) list \<Rightarrow> string option) \<Rightarrow> request \<Rightarrow> answer" where
  "middleware dec enc rq =
     (case from_request (rq_scopes rq) (rq_header rq) of
        Inl e \<Rightarrow> Refused 403 e
      | Inr None \<Rightarrow> Passed rq None
      | Inr (Some r) \<Rightarrow>
          (case hold_query r rq of
             Inl e \<Rightarrow> Refused 403 e
           | Inr rq1 \<Rightarrow>
               (case rq_body rq1 of
                  None \<Rightarrow> Passed rq1 (Some r)
                | Some bb \<Rightarrow>
                    if raw_body rq1 then Passed rq1 (Some r)
                    else case hold_request_body dec enc r bb of
                      Inl e \<Rightarrow> refusal e
                    | Inr bb' \<Rightarrow> Passed (rq1\<lparr>rq_body := Some bb'\<rparr>) (Some r))))"

text \<open>How a handler of the AI surface reads a path, which does not pass through the middleware: a path that names no
  storage is taken inside the root.\<close>

definition ai_path :: "string option \<Rightarrow> string \<Rightarrow> confine_error + string" where
  "ai_path scopes p =
     (case root_from_token scopes of
        None \<Rightarrow> Inr p
      | Some r \<Rightarrow>
          (let q = (if index_of p scheme_sep \<noteq> None then p
                    else let rel = trim_slash p; base = root_string r in
                      if rel = [] then base else trim_right (\<lambda>c. c = slash) base @ slash # rel)
           in case enforce r q of None \<Rightarrow> Inl ErrOutOfRoot | Some np \<Rightarrow> Inr np))"

end
