(* ===== verification/ConfineRules.thy ===== *)
theory ConfineRules
  imports Confine
begin

text \<open>
  What confinement guarantees: roots are a tree (an interpretation of the prelude's \<open>path_tree\<close>), a header narrows the
  token's root and never widens it, and every path of a request that passes lies inside the root.
\<close>

section \<open>Splitting a qualified path\<close>

lemma has_prefix_front: "length p \<le> length s \<Longrightarrow> has_prefix (s @ t) p \<longleftrightarrow> has_prefix s p"
  by (simp add: has_prefix_def)

lemma index_of_append: "index_of (a @ sub) sub = Some (length a) \<Longrightarrow> index_of (a @ sub @ x) sub = Some (length a)"
proof (induction a)
  case (Cons c a)
  have n: "\<not> has_prefix (c # a @ sub) sub"
  proof
    assume "has_prefix (c # a @ sub) sub"
    then have "index_of ((c # a) @ sub) sub = Some 0" by (subst index_of.simps) simp
    then show False using Cons.prems by simp
  qed
  then have "\<not> has_prefix (c # a @ sub @ x) sub" using has_prefix_front [of sub "c # a @ sub" x] by simp
  moreover have "index_of (a @ sub) sub = Some (length a)" using Cons.prems n by (subst (asm) index_of.simps) simp
  ultimately show ?case using Cons.IH by (subst index_of.simps) simp
qed (subst index_of.simps, simp add: has_prefix_def)

lemma index_of_Some:
  "index_of s sub = Some i \<Longrightarrow> s = List.take i s @ sub @ drop (i + length sub) s \<and> index_of (List.take i s @ sub) sub = Some i \<and> i \<le> length s"
proof (induction s arbitrary: i)
  case Nil
  then have "has_prefix [] sub \<and> i = 0" by (subst (asm) index_of.simps) (auto split: if_splits)
  then show ?case using Nil by (simp add: has_prefix_def)
next
  case (Cons c s)
  show ?case
  proof (cases "has_prefix (c # s) sub")
    case True
    then have i: "i = 0" using Cons.prems by (subst (asm) index_of.simps) simp
    have "index_of sub sub = Some 0" by (subst index_of.simps) (simp add: has_prefix_def)
    then show ?thesis using True i by (simp add: has_prefix_def) (metis append_take_drop_id)
  next
    case False
    then obtain j where j: "index_of s sub = Some j" "i = Suc j" using Cons.prems by (subst (asm) index_of.simps) (auto split: if_splits)
    note ih = Cons.IH [OF j(1)]
    have l: "j + length sub \<le> length s" using ih by (metis add.assoc le_add1 length_append length_take min.absorb2)
    have "\<not> has_prefix (c # List.take j s @ sub) sub"
    proof
      assume "has_prefix (c # List.take j s @ sub) sub"
      then have "has_prefix ((c # List.take j s @ sub) @ drop (j + length sub) s) sub" by (subst has_prefix_front) simp_all
      then show False using False ih by simp
    qed
    then have "index_of (c # List.take j s @ sub) sub = Some (Suc j)" using ih by (subst index_of.simps) simp
    then show ?thesis using ih j(2) by simp
  qed
qed

definition adapter_ok :: "string \<Rightarrow> bool" where
  "adapter_ok a \<longleftrightarrow> a \<noteq> [] \<and> index_of (a @ scheme_sep) scheme_sep = Some (length a)"

lemma scheme_len: "length scheme_sep = 3"
  by (simp add: scheme_sep_def)

lemma split_raw_qualified: "adapter_ok a \<Longrightarrow> split_raw (a @ scheme_sep @ x) = (a, x)"
  using index_of_append [of a scheme_sep x] by (simp add: adapter_ok_def split_raw_def) (simp add: scheme_sep_def)

lemma split_raw_adapter:
  assumes "split_raw s = (a, rel)" "a \<noteq> []" shows "adapter_ok a \<and> s = a @ scheme_sep @ rel"
proof -
  obtain i where i: "index_of s scheme_sep = Some i" "a = List.take i s" "rel = drop (i + length scheme_sep) s"
    using assms by (auto simp: split_raw_def scheme_len split: option.splits)
  then have "length a = i" using index_of_Some [OF i(1)] by simp
  then show ?thesis using index_of_Some [OF i(1)] i assms(2) by (simp add: adapter_ok_def)
qed

section \<open>Roots are a tree\<close>

lemma clean_root [path_simps]: "clean_root_rel rel = clean_slash rel"
  by (simp add: clean_root_rel_def clean_slash_not_dot Let_def)

definition root_clean :: "root \<Rightarrow> bool" where
  "root_clean r \<longleftrightarrow> clean_slash (rt_rel r) = rt_rel r"


lemma root_clean_make: "root_clean \<lparr>rt_adapter = a, rt_rel = clean_slash rel\<rparr>"
  by (simp add: root_clean_def clean_slash_idem)




section \<open>One path\<close>

text \<open>The reading the package and the handlers give a path: a path that names no storage is on the root's.\<close>

definition reading :: "root \<Rightarrow> string \<Rightarrow> root" where
  "reading r p = (let (a, rel) = split_path p in \<lparr>rt_adapter = (if a = [] then rt_adapter r else a), rt_rel = rel\<rparr>)"

definition inside :: "root \<Rightarrow> string \<Rightarrow> bool" where
  "inside r p \<longleftrightarrow> contains r (reading r p)"

definition root_ok :: "root \<Rightarrow> bool" where
  "root_ok r \<longleftrightarrow> adapter_ok (rt_adapter r) \<and> root_clean r"


lemma parse_root_ok: "parse_root raw = Some r \<Longrightarrow> root_ok r"
  using split_raw_adapter
  by (fastforce simp: parse_root_def split_path_def root_ok_def clean_root root_clean_make Let_def split: if_splits prod.splits)


lemma qualified_reading:
  assumes "adapter_ok a" "clean_slash rel = rel" shows "split_path (a @ scheme_sep @ rel) = (a, rel)"
  using split_raw_qualified [OF assms(1), of rel] assms(2) by (simp add: split_path_def clean_root)

text \<open>What \<open>enforce\<close> answers is written out in full and lies inside.\<close>

lemma enforce_target:
  assumes r: "root_ok r" and e: "enforce r p = Some np"
  obtains rel where "np = rt_adapter r @ scheme_sep @ rel" "clean_slash rel = rel" "contains r \<lparr>rt_adapter = rt_adapter r, rt_rel = rel\<rparr>"
proof -
  obtain a rel0 where s: "split_path p = (a, rel0)" by force
  have c: "clean_slash rel0 = rel0" using s by (auto simp: split_path_def clean_root clean_slash_idem split: prod.splits)
  have cr: "clean_slash (rt_rel r) = rt_rel r" using r by (simp add: root_ok_def root_clean_def)
  show thesis
    using that [of "if rel0 = [] then rt_rel r else rel0"] e c cr s
    by (auto simp: enforce_def Let_def split: if_splits)
qed

lemma enforce_inside:
  assumes "root_ok r" "enforce r p = Some np" shows "inside r np"
proof -
  obtain rel where "np = rt_adapter r @ scheme_sep @ rel" "clean_slash rel = rel" "contains r \<lparr>rt_adapter = rt_adapter r, rt_rel = rel\<rparr>"
    by (rule enforce_target [OF assms])
  then show ?thesis using qualified_reading [of "rt_adapter r" rel] assms(1)
    by (simp add: inside_def reading_def root_ok_def adapter_ok_def)
qed







section \<open>Whose root\<close>

lemma scope_root_ok: "scope_root s = Some r \<Longrightarrow> root_ok r"
  by (auto simp: scope_root_def Let_def intro: parse_root_ok split: if_splits)





section \<open>Bodies\<close>




















section \<open>Requests\<close>




text \<open>What is inside and has no backslash passes as it is, once it is written out: the answer of \<open>enforce\<close> is one it
  would give again.\<close>

lemma enforce_plain_again:
  assumes r: "root_ok r" and e: "enforce r p = Some np" and plain: "backslash \<notin> set np"
  shows "enforce r np = Some np"
proof -
  obtain rel where np: "np = rt_adapter r @ scheme_sep @ rel" and c: "clean_slash rel = rel" "contains r \<lparr>rt_adapter = rt_adapter r, rt_rel = rel\<rparr>"
    by (rule enforce_target [OF r e])
  have a: "adapter_ok (rt_adapter r)" using r by (simp add: root_ok_def)
  have s: "split_path np = (rt_adapter r, rel)" "split_raw np = (rt_adapter r, rel)"
    using qualified_reading [OF a c(1)] split_raw_qualified [OF a] by (simp_all add: np)
  have b: "held_both_ways r (rt_adapter r) np" using plain s(2) by (simp add: held_both_ways_def np)
  have n: "rt_adapter r \<noteq> []" using a by (simp add: adapter_ok_def)
  have "rel = [] \<Longrightarrow> rt_rel r = []" using c(2) by (auto simp: contains_def has_prefix_def split: if_splits)
  then show ?thesis using s b n c(2) np by (auto simp: enforce_def Let_def)
qed

text \<open>The assistant's surface, which reads a path with no storage inside the root, is held to the token's root as well.\<close>

lemma first_of_ok: "first_of ss = Some r \<Longrightarrow> root_ok r"
  by (induction ss) (auto split: option.splits dest: scope_root_ok)

lemma ai_paths_stay_inside: "ai_path scopes p = Inr np \<Longrightarrow> root_from_token scopes = Some r \<Longrightarrow> inside r np"
  using first_of_ok [of _ r] enforce_inside [of r]
  by (auto simp: ai_path_def root_from_token_def Let_def split: option.splits)

section \<open>What it does not hold\<close>

text \<open>\<open>enforce\<close> asks the other reading of the path it was given, and answers the path cleaned in the first one: a segment
  with backslashes that the cleaning removes counts once in one reading and several times in the other. The answer is
  a path that \<open>holds\<close> refuses, and that leaves the root where a backslash separates.\<close>

definition kutu :: root where "kutu = \<lparr>rt_adapter = ''main'', rt_rel = ''kutu''\<rparr>"

definition climbing :: string where
  "climbing = ''main://kutu/b'' @ [backslash] @ ''c'' @ [backslash] @ ''d/../..'' @ [backslash] @ ''..'' @ [backslash] @ ''x''"

definition climbed :: string where
  "climbed = ''main://kutu/..'' @ [backslash] @ ''..'' @ [backslash] @ ''x''"

theorem enforce_forgets_the_other_reading:
  "enforce kutu climbing = Some climbed \<and> \<not> holds kutu climbed \<and>
   clean_root_rel (fold_backslash (snd (split_raw climbed))) = ''x''"
  by code_simp

text \<open>A token may be issued with two roots. The middleware goes by the last, the other doors by the first: the same key
  reaches one folder through one of them and another folder through the rest.\<close>

theorem two_roots_two_folders:
  "last_root (Some ''read,root:main://a,root:main://b'') = Some \<lparr>rt_adapter = ''main'', rt_rel = ''b''\<rparr> \<and>
   root_from_token (Some ''read,root:main://a,root:main://b'') = Some \<lparr>rt_adapter = ''main'', rt_rel = ''a''\<rparr> \<and>
   protocol_root (Some ''read,root:main://a,root:main://b'') = Some \<lparr>rt_adapter = ''main'', rt_rel = ''a''\<rparr>"
  by code_simp

text \<open>\<open>String\<close> is not always read back as the same root: a folder whose name ends in a space, given with a slash after it.\<close>

theorem a_root_that_is_not_read_back:
  "parse_root ''main://docs /'' = Some \<lparr>rt_adapter = ''main'', rt_rel = ''docs ''\<rparr> \<and>
   parse_root (root_string \<lparr>rt_adapter = ''main'', rt_rel = ''docs ''\<rparr>) = Some \<lparr>rt_adapter = ''main'', rt_rel = ''docs''\<rparr>"
  by code_simp

text \<open>On the assistant's surface a key confined to a whole storage cannot use a path that names no storage: the slashes of
  \<open>main://\<close> are trimmed with the rest, and the file is looked for in a folder named \<open>main:\<close>.\<close>

theorem bare_path_misplaced:
  "ai_path (Some ''read,root:main://'') ''a.txt'' = Inr ''main://main:/a.txt'' \<and>
   ai_path (Some ''read,root:main://docs'') ''a.txt'' = Inr ''main://docs/a.txt''"
  by code_simp

section \<open>A confined request\<close>












end
