(* ===== verification/Scopes.thy ===== *)
theory Scopes
  imports Confine
begin

text \<open>
  What an API key may do: the list of its entries (\<open>tokenperm/tokenperm.go\<close>, \<open>auth/drivers/apitoken\<close>), how a list is
  read, checked and written when a key is issued, and who counts as an administrator (\<open>auth/token_grants.go\<close>). \<open>uni\<close>
  are Unicode's case tables (\<open>to_lower\<close>). A missing token is None.
\<close>

section \<open>Levels\<close>

datatype level = LvNone | LvRead | LvReadWrite

definition level_rank :: "level \<Rightarrow> nat" where
  "level_rank l = (case l of LvRead \<Rightarrow> 1 | LvReadWrite \<Rightarrow> 2 | LvNone \<Rightarrow> 0)"

definition level_covers :: "level \<Rightarrow> level \<Rightarrow> bool" where
  "level_covers l need \<longleftrightarrow> level_rank l \<ge> level_rank need"

definition level_text :: "level \<Rightarrow> string" where
  "level_text l = (case l of LvNone \<Rightarrow> ''none'' | LvRead \<Rightarrow> ''read'' | LvReadWrite \<Rightarrow> ''rw'')"

record perm_def =
  pd_key :: string
  pd_levels :: "level list"
  pd_default :: level
  pd_superadmin :: bool

definition comments :: string where "comments = ''comments''"

definition catalogue :: "perm_def list" where
  "catalogue = [\<lparr>pd_key = comments, pd_levels = [LvRead, LvReadWrite], pd_default = LvRead, pd_superadmin = False\<rparr>]"

definition lookup_perm :: "string \<Rightarrow> perm_def option" where
  "lookup_perm key = find (\<lambda>d. pd_key d = key) catalogue"

definition need_text :: "string \<Rightarrow> level \<Rightarrow> string" where
  "need_text key l = (case l of LvReadWrite \<Rightarrow> key @ '':write'' | LvRead \<Rightarrow> key @ '':read'' | LvNone \<Rightarrow> key)"

definition parse_level :: "(string \<Rightarrow> string) \<Rightarrow> string \<Rightarrow> level option" where
  "parse_level uni s =
     (let t = to_lower uni (trim_space s) in
      if t = ''none'' then Some LvNone
      else if t = ''read'' then Some LvRead
      else if t = ''rw'' \<or> t = ''write'' then Some LvReadWrite
      else None)"

text \<open>None: not a permission; else its key and the level, None for one it does not have.\<close>

definition parse_entry :: "(string \<Rightarrow> string) \<Rightarrow> string \<Rightarrow> (string \<times> level option) option" where
  "parse_entry uni entry0 =
     (let entry = trim_space entry0 in
      case index_byte entry (CHR '':'') of
        None \<Rightarrow> None
      | Some i \<Rightarrow>
          if i = 0 then None
          else case lookup_perm (List.take i entry) of
            None \<Rightarrow> None
          | Some d \<Rightarrow>
              (case parse_level uni (drop (i + 1) entry) of
                 None \<Rightarrow> Some (pd_key d, None)
               | Some l \<Rightarrow> if l \<in> set (pd_levels d) then Some (pd_key d, Some l) else Some (pd_key d, None)))"

abbreviation comma :: char where "comma \<equiv> CHR '',''"

definition named :: "(string \<Rightarrow> string) \<Rightarrow> string \<Rightarrow> (string \<rightharpoonup> level)" where
  "named uni scopes = foldl (\<lambda>out e. case parse_entry uni e of
       Some (key, Some l) \<Rightarrow>
         (case out key of Some prev \<Rightarrow> if level_rank prev \<le> level_rank l then out else out(key \<mapsto> l) | None \<Rightarrow> out(key \<mapsto> l))
     | _ \<Rightarrow> out) Map.empty (split_on comma scopes)"

definition level_in :: "(string \<Rightarrow> string) \<Rightarrow> string \<Rightarrow> string \<Rightarrow> level" where
  "level_in uni scopes key =
     (case lookup_perm key of None \<Rightarrow> LvNone
      | Some d \<Rightarrow>
          if trim_space scopes = [] then LvNone
          else case named uni scopes key of Some l \<Rightarrow> l | None \<Rightarrow> pd_default d)"

definition levels_in :: "(string \<Rightarrow> string) \<Rightarrow> string \<Rightarrow> (string \<times> level) list" where
  "levels_in uni scopes = map (\<lambda>d. (pd_key d, level_in uni scopes (pd_key d))) catalogue"

definition canonical :: "(string \<rightharpoonup> level) \<Rightarrow> string list" where
  "canonical levels = concat (map (\<lambda>d. case levels (pd_key d) of
       None \<Rightarrow> []
     | Some l \<Rightarrow> if l = pd_default d \<or> l \<notin> set (pd_levels d) then [] else [pd_key d @ CHR '':'' # level_text l]) catalogue)"

definition replace_levels :: "(string \<Rightarrow> string) \<Rightarrow> string \<Rightarrow> (string \<rightharpoonup> level) \<Rightarrow> string" where
  "replace_levels uni scopes changes =
     (let l0 = map_of (map (\<lambda>d. (pd_key d, pd_default d)) catalogue);
          l1 = l0 ++ named uni scopes;
          l2 = (\<lambda>k. case changes k of Some l \<Rightarrow> if lookup_perm k \<noteq> None then Some l else l1 k | None \<Rightarrow> l1 k);
          keep = filter (\<lambda>e. e \<noteq> [] \<and> parse_entry uni e = None) (map trim_space (split_on comma scopes))
      in join comma (keep @ canonical l2))"

section \<open>Issuing a key\<close>

definition valid_scopes :: "string list" where
  "valid_scopes = [''read'', ''write'', ''delete'', ''mcp'', ''admin'']"

definition valid_scope :: "(string \<Rightarrow> string) \<Rightarrow> string \<Rightarrow> bool" where
  "valid_scope uni s =
     (if s \<in> set valid_scopes then True
      else if has_prefix s scope_prefix then parse_root (trim_prefix s scope_prefix) \<noteq> None
      else case parse_entry uni s of Some (key, l) \<Rightarrow> l \<noteq> None | None \<Rightarrow> False)"

datatype issue_error = UnknownScope string | ConflictingLevels string | ScopesRequired

fun issue_loop :: "(string \<Rightarrow> string) \<Rightarrow> string list \<Rightarrow> string list \<Rightarrow> string list \<Rightarrow> (string \<rightharpoonup> level) \<Rightarrow> string list
    \<Rightarrow> issue_error + string list \<times> string list \<times> (string \<rightharpoonup> level)" where
  "issue_loop uni seen got roots levels [] = Inr (got, roots, levels)"
| "issue_loop uni seen got roots levels (p0 # ps) =
     (let p = trim_space p0 in
      if p = [] \<or> p \<in> set seen then issue_loop uni seen got roots levels ps
      else if \<not> valid_scope uni p then Inl (UnknownScope p)
      else if has_prefix p scope_prefix then issue_loop uni (p # seen) got (roots @ [p]) levels ps
      else case parse_entry uni p of
        Some (key, lo) \<Rightarrow>
          (let l = (case lo of Some l \<Rightarrow> l | None \<Rightarrow> LvNone) in
           if (case levels key of Some prev \<Rightarrow> prev \<noteq> l | None \<Rightarrow> False) then Inl (ConflictingLevels key)
           else issue_loop uni (p # seen) got roots (levels(key \<mapsto> l)) ps)
      | None \<Rightarrow> issue_loop uni (p # seen) (p # got) roots levels ps)"

definition parse_issued :: "(string \<Rightarrow> string) \<Rightarrow> string \<Rightarrow> issue_error + string list \<times> string list \<times> string list" where
  "parse_issued uni raw =
     (case issue_loop uni [] [] [] Map.empty (split_on comma raw) of
        Inl e \<Rightarrow> Inl e
      | Inr (got, roots, levels) \<Rightarrow>
          (let verbs = filter (\<lambda>v. v \<in> set got) valid_scopes in
           if verbs = [] then Inl ScopesRequired else Inr (verbs, roots, canonical levels)))"

definition join_scopes :: "string list \<Rightarrow> string list \<Rightarrow> string list \<Rightarrow> string" where
  "join_scopes verbs roots perms = join comma (verbs @ roots @ perms)"

section \<open>What a key grants\<close>

definition has_scope :: "string option \<Rightarrow> string \<Rightarrow> bool" where
  "has_scope tok want =
     (case tok of None \<Rightarrow> False
      | Some scopes \<Rightarrow>
          if trim_space scopes = [] then False
          else list_ex (\<lambda>s. trim_space s = want) (split_on comma scopes))"

definition perm_level :: "(string \<Rightarrow> string) \<Rightarrow> string option \<Rightarrow> string \<Rightarrow> level" where
  "perm_level uni tok key = (case tok of None \<Rightarrow> LvNone | Some scopes \<Rightarrow> level_in uni scopes key)"

definition token_is_confined :: "string option \<Rightarrow> bool" where
  "token_is_confined tok =
     (case tok of None \<Rightarrow> False
      | Some scopes \<Rightarrow> list_ex (\<lambda>s. has_prefix (trim_space s) scope_prefix) (split_on comma scopes))"

definition token_may_administer :: "string option \<Rightarrow> bool" where
  "token_may_administer tok \<longleftrightarrow> tok \<noteq> None \<and> has_scope tok ''admin'' \<and> \<not> token_is_confined tok"

text \<open>The caller: whether the account is there and an administrator, and the token the request came with.\<close>

definition caller_may_administer :: "bool \<Rightarrow> string option \<Rightarrow> bool" where
  "caller_may_administer account_admin tok =
     (if \<not> account_admin then False else tok = None \<or> token_may_administer tok)"

definition admin_refusal :: "string option \<Rightarrow> string" where
  "admin_refusal tok =
     (if tok = None then ''forbidden''
      else if token_is_confined tok then ''a token confined to a folder (root: scope) cannot use account-wide admin routes''
      else if \<not> has_scope tok ''admin'' then ''token missing scope: admin''
      else ''forbidden'')"

definition require_admin_token :: "string option \<Rightarrow> string option" where
  "require_admin_token tok =
     (if \<not> token_may_administer tok
      then Some (if tok = None then ''token missing scope: admin'' else admin_refusal tok) else None)"

end
