(* ===== verification/ScopesRules.thy ===== *)
theory ScopesRules
  imports Scopes
begin

text \<open>
  A key that was issued is read back as it was asked for, and issuing the stored list again changes nothing; the readers
  of its folder agree where it names at most one root, and do not otherwise.
\<close>

section \<open>Entries\<close>

definition entries :: "string \<Rightarrow> string set" where
  "entries raw = {trim_space e |e. e \<in> set (split_on comma raw)} - {[]}"

definition is_root :: "string \<Rightarrow> bool" where
  "is_root p \<longleftrightarrow> has_prefix p scope_prefix"

lemma entry_no_comma: "p \<in> entries raw \<Longrightarrow> comma \<notin> set p"
  using split_on_no_sep set_trim_space unfolding entries_def by fast

lemma verb_facts:
  assumes "v \<in> set valid_scopes"
  shows "trim_space v = v" "v \<noteq> []" "comma \<notin> set v" "\<not> is_root v" "parse_entry uni v = None" "valid_scope uni v"
proof -
  show t: "trim_space v = v" by (rule trim_space_ascii) (use assms in \<open>auto simp: valid_scopes_def\<close>)
  show "v \<noteq> []" "comma \<notin> set v" "\<not> is_root v" "valid_scope uni v"
    using assms by (auto simp: valid_scopes_def is_root_def has_prefix_def scope_prefix_def valid_scope_def)
  have "CHR '':'' \<notin> set v" using assms by (auto simp: valid_scopes_def)
  then show "parse_entry uni v = None" using t by (simp add: parse_entry_def index_byte_None)
qed

lemma root_no_perm: "is_root p \<Longrightarrow> trim_space p = p \<Longrightarrow> parse_entry uni p = None"
proof -
  assume r: "is_root p" and t: "trim_space p = p"
  obtain x where x: "p = ''root'' @ CHR '':'' # x" using r by (auto simp: is_root_def has_prefix_iff scope_prefix_def prefix_def)
  have "index_byte p (CHR '':'') = Some 4" unfolding x using index_byte_append [of "CHR '':''" "''root''" x] by simp
  moreover have "List.take 4 p = ''root''" by (simp add: x)
  ultimately show ?thesis using t by (simp add: parse_entry_def lookup_perm_def catalogue_def comments_def)
qed

lemma parse_entry_trim: "parse_entry uni (trim_space e) = parse_entry uni e"
  by (simp add: parse_entry_def)

lemma parse_entry_key: "parse_entry uni e = Some (key, lo) \<Longrightarrow> key = comments \<and> (case lo of None \<Rightarrow> True | Some l \<Rightarrow> l = LvRead \<or> l = LvReadWrite)"
  by (auto simp: parse_entry_def lookup_perm_def catalogue_def Let_def split: option.splits if_splits)

lemma valid_cases:
  assumes "valid_scope uni p" "trim_space p = p"
  obtains "p \<in> set valid_scopes" "\<not> is_root p" "parse_entry uni p = None"
  | r where "is_root p" "p \<notin> set valid_scopes" "parse_root (trim_prefix p scope_prefix) = Some r" "parse_entry uni p = None"
  | l where "\<not> is_root p" "p \<notin> set valid_scopes" "parse_entry uni p = Some (comments, Some l)"
proof (cases "p \<in> set valid_scopes")
  case True
  then show ?thesis using that(1) verb_facts(4,5) [OF True] by metis
next
  case nv: False
  show ?thesis
  proof (cases "is_root p")
    case True
    then show ?thesis using that(2) nv assms root_no_perm [OF True assms(2)] by (auto simp: valid_scope_def is_root_def)
  next
    case False
    then obtain k lo where k: "parse_entry uni p = Some (k, lo)" "lo \<noteq> None"
      using nv assms(1) by (auto simp: valid_scope_def is_root_def split: option.splits)
    then show ?thesis using that(3) nv False parse_entry_key [OF k(1)] by auto
  qed
qed

text \<open>The entry that is written for a level.\<close>

lemma comments_entry: "parse_entry uni ''comments:rw'' = Some (comments, Some LvReadWrite)"
proof -
  have t: "trim_space ''comments:rw'' = ''comments:rw''" "trim_space ''rw'' = ''rw''" by (rule trim_space_ascii, auto)+
  have i: "index_byte ''comments:rw'' (CHR '':'') = Some 8" using index_byte_append [of "CHR '':''" comments "''rw''"] by (simp add: comments_def)
  show ?thesis using t i
    by (simp add: parse_entry_def lookup_perm_def catalogue_def comments_def parse_level_def to_lower_def lower_byte_def)
qed

section \<open>Reading a list that was asked for\<close>

definition fresh :: "string list \<Rightarrow> string list \<Rightarrow> string list" where
  "fresh seen ps = filter (\<lambda>p. p \<noteq> [] \<and> p \<notin> set seen) (map trim_space ps)"

lemma fresh_Cons:
  "fresh seen (p # ps) = (if trim_space p = [] \<or> trim_space p \<in> set seen then fresh seen ps else trim_space p # fresh seen ps)"
  by (simp add: fresh_def)

lemma fresh_seen: "fresh (q # seen) ps = filter (\<lambda>p. p \<noteq> q) (fresh seen ps)"
  by (auto simp: fresh_def intro: filter_cong)

lemma find_append: "find P (xs @ ys) = (case find P xs of None \<Rightarrow> find P ys | Some x \<Rightarrow> Some x)"
  by (induction xs) auto

lemma find_skip: "\<not> P q \<Longrightarrow> find P (filter (\<lambda>p. p \<noteq> q) xs) = find P xs"
  by (induction xs) auto

definition loop_ok :: "(string \<Rightarrow> string) \<Rightarrow> string list \<Rightarrow> string list \<Rightarrow> string list \<Rightarrow> (string \<rightharpoonup> level) \<Rightarrow> string list \<Rightarrow>
    string list \<times> string list \<times> (string \<rightharpoonup> level) \<Rightarrow> bool" where
  "loop_ok uni seen got roots levels ps res \<longleftrightarrow> (case res of (g, r, l) \<Rightarrow>
     (\<forall>p \<in> set (fresh seen ps). valid_scope uni p) \<and>
     set g = set got \<union> (set (fresh seen ps) \<inter> set valid_scopes) \<and>
     (\<exists>x. r = roots @ x \<and> distinct x \<and> set x = {p \<in> set (fresh seen ps). is_root p} \<and>
        find is_root (fresh seen ps) = (case x of [] \<Rightarrow> None | p # _ \<Rightarrow> Some p)) \<and>
     (\<forall>lv. l comments = Some lv \<longleftrightarrow> levels comments = Some lv \<or>
        (\<exists>p \<in> set (fresh seen ps). parse_entry uni p = Some (comments, Some lv))))"

lemma issue_loop_ok: "issue_loop uni seen got roots levels ps = Inr res \<Longrightarrow> loop_ok uni seen got roots levels ps res"
proof (induction ps arbitrary: seen got roots levels)
  case Nil
  then show ?case by (auto simp: loop_ok_def fresh_def)
next
  case (Cons p0 ps)
  let ?p = "trim_space p0"
  show ?case
  proof (cases "?p = [] \<or> ?p \<in> set seen")
    case True
    then have "issue_loop uni seen got roots levels ps = Inr res" using Cons.prems by (simp add: Let_def)
    from Cons.IH [OF this] True show ?thesis by (simp add: loop_ok_def fresh_Cons)
  next
    case new: False
    then have v: "valid_scope uni ?p" using Cons.prems by (auto simp: Let_def split: if_splits)
    have F: "fresh seen (p0 # ps) = ?p # fresh seen ps" using new by (simp add: fresh_Cons)
    have S: "set (fresh (?p # seen) ps) = set (fresh seen ps) - {?p}" by (auto simp: fresh_seen)
    obtain g r l where res: "res = (g, r, l)" by (metis surj_pair)
    show ?thesis
    proof (rule valid_cases [OF v trim_space_idem])
      assume a: "?p \<in> set valid_scopes" "\<not> is_root ?p" "parse_entry uni ?p = None"
      then have "issue_loop uni (?p # seen) (?p # got) roots levels ps = Inr res"
        using Cons.prems new v by (simp add: Let_def is_root_def)
      from Cons.IH [OF this] show ?thesis using a v
        unfolding loop_ok_def res F prod.case S by (auto simp: fresh_seen find_skip)
    next
      fix x assume a: "is_root ?p" "?p \<notin> set valid_scopes" "parse_root (trim_prefix ?p scope_prefix) = Some x" "parse_entry uni ?p = None"
      then have "issue_loop uni (?p # seen) got (roots @ [?p]) levels ps = Inr res"
        using Cons.prems new v by (simp add: Let_def is_root_def)
      note ih = Cons.IH [OF this, unfolded loop_ok_def res prod.case]
      then obtain y where y: "r = roots @ ?p # y" "distinct y" "set y = {p \<in> set (fresh (?p # seen) ps). is_root p}" by auto
      then have "r = roots @ (?p # y) \<and> distinct (?p # y) \<and> set (?p # y) = {p \<in> set (fresh seen (p0 # ps)). is_root p} \<and>
          find is_root (fresh seen (p0 # ps)) = (case ?p # y of [] \<Rightarrow> None | p # _ \<Rightarrow> Some p)"
        using a unfolding F S by auto
      moreover have "set g = set got \<union> (set (fresh seen (p0 # ps)) \<inter> set valid_scopes)" using ih a(2) unfolding F S by auto
      ultimately show ?thesis using ih v a(4) unfolding loop_ok_def res prod.case F S by auto
    next
      fix lv assume a: "\<not> is_root ?p" "?p \<notin> set valid_scopes" "parse_entry uni ?p = Some (comments, Some lv)"
      then have "issue_loop uni (?p # seen) got roots (levels(comments \<mapsto> lv)) ps = Inr res" "levels comments = None \<or> levels comments = Some lv"
        using Cons.prems new v by (auto simp: Let_def is_root_def split: if_splits option.splits)
      note ih = Cons.IH [OF this(1)] and prev = this(2)
      from ih show ?thesis using a v prev
        unfolding loop_ok_def res F prod.case S by (auto simp: fresh_seen find_skip)
    qed
  qed
qed

section \<open>The readers of a list\<close>

lemma canonical_eq: "canonical l = (if l comments = Some LvReadWrite then [''comments:rw''] else [])"
  by (auto simp: canonical_def catalogue_def comments_def level_text_def split: option.split level.split)

lemma named_comments:
  assumes "\<And>lv. x = Some lv \<longleftrightarrow> (\<exists>e \<in> set (split_on comma scopes). parse_entry uni e = Some (comments, Some lv))"
  shows "named uni scopes comments = x"
proof -
  let ?f = "\<lambda>out e. case parse_entry uni e of
       Some (key, Some l) \<Rightarrow>
         (case out key of Some prev \<Rightarrow> if level_rank prev \<le> level_rank l then out else out(key \<mapsto> l) | None \<Rightarrow> out(key \<mapsto> l))
     | _ \<Rightarrow> out"
  have go: "foldl ?f out es comments = (if (\<exists>e \<in> set es. \<exists>lv. parse_entry uni e = Some (comments, Some lv)) then x else out comments)"
    if "\<forall>e \<in> set es. \<forall>lv. parse_entry uni e = Some (comments, Some lv) \<longrightarrow> x = Some lv" "out comments = None \<or> out comments = x" for out es
    using that
  proof (induction es arbitrary: out)
    case (Cons e es)
    show ?case
    proof (cases "\<exists>lv. parse_entry uni e = Some (comments, Some lv)")
      case True
      then obtain lv where lv: "parse_entry uni e = Some (comments, Some lv)" "x = Some lv" using Cons.prems(1) by auto
      then have o: "?f out e comments = x" using Cons.prems(2) by (auto split: option.split)
      then have "foldl ?f (?f out e) es comments = x" using Cons.IH [of "?f out e"] Cons.prems(1) by (simp split: if_splits)
      then show ?thesis using lv(1) by auto
    next
      case False
      then have "?f out e = out" using parse_entry_key [of uni e] by (auto split: option.split)
      then show ?thesis using Cons.IH [of out] Cons.prems False by auto
    qed
  qed simp
  have "named uni scopes comments =
      (if (\<exists>e \<in> set (split_on comma scopes). \<exists>lv. parse_entry uni e = Some (comments, Some lv)) then x else None)"
    unfolding named_def by (subst go) (use assms in \<open>blast, simp, simp\<close>)
  moreover have "(\<exists>e \<in> set (split_on comma scopes). \<exists>lv. parse_entry uni e = Some (comments, Some lv)) \<longleftrightarrow> x \<noteq> None"
  proof (cases x)
    case (Some a)
    then show ?thesis using assms [of a] by auto
  qed (use assms in auto)
  ultimately show ?thesis by (cases x) auto
qed

lemma split_subset: "e \<in> set (split_on c s) \<Longrightarrow> set e \<subseteq> set s"
proof (induction s arbitrary: e)
  case (Cons x s)
  obtain y ys where "split_on c s = y # ys" by (metis list.exhaust split_on_nonempty)
  then show ?case using Cons by (auto split: if_splits) blast+
qed simp

lemma verb_not_blank:
  assumes "v \<in> set valid_scopes" "v \<in> set (fresh [] (split_on comma s))" shows "trim_space s \<noteq> []"
proof -
  obtain e where e: "e \<in> set (split_on comma s)" "v = trim_space e" using assms(2) by (auto simp: fresh_def)
  obtain c where c: "c \<in> set v" "visible_char c"
  proof
    show "hd v \<in> set v" "visible_char (hd v)" using assms(1) by (auto simp: valid_scopes_def visible_char_def)
  qed
  then have "c \<in> set s" using set_trim_space [of e] split_subset [OF e(1)] e(2) by auto
  then show ?thesis using trim_space_keeps [OF _ c(2)] by fastforce
qed

lemma has_scope_verb: "v \<in> set valid_scopes \<Longrightarrow> has_scope (Some s) v \<longleftrightarrow> v \<in> set (fresh [] (split_on comma s))"
  using verb_not_blank [of v s] verb_facts(2) [of v]
  by (auto simp: has_scope_def fresh_def list_ex_iff image_iff)

lemma first_of_find:
  assumes "\<forall>p \<in> set (fresh [] ss). valid_scope uni p"
  shows "first_of ss = (case find is_root (fresh [] ss) of None \<Rightarrow> None | Some p \<Rightarrow> parse_root (trim_prefix p scope_prefix))
    \<and> (first_of ss = None \<longleftrightarrow> find is_root (fresh [] ss) = None)"
  using assms
proof (induction ss)
  case (Cons s ss)
  show ?case
  proof (cases "trim_space s = []")
    case True
    then have "first_of (s # ss) = first_of ss" "fresh [] (s # ss) = fresh [] ss"
      by (simp_all add: fresh_Cons scope_root_def has_prefix_def scope_prefix_def)
    then show ?thesis using Cons by metis
  next
    case False
    then have f: "fresh [] (s # ss) = trim_space s # fresh [] ss" by (simp add: fresh_Cons)
    then have "valid_scope uni (trim_space s)" using Cons.prems by simp
    then show ?thesis
    proof (rule valid_cases [OF _ trim_space_idem])
    qed (use Cons f in \<open>auto simp: scope_root_def is_root_def\<close>)
  qed
qed (simp add: fresh_def)

lemma root_not_blank: "\<not> is_root []"
  by (simp add: is_root_def has_prefix_def scope_prefix_def)

lemma confined_find: "token_is_confined (Some s) \<longleftrightarrow> find is_root (fresh [] (split_on comma s)) \<noteq> None"
  using root_not_blank unfolding token_is_confined_def is_root_def [symmetric] option.case
  by (auto simp: find_None_iff fresh_def list_ex_iff) (metis root_not_blank)

lemma level_in_comments:
  "level_in uni s key = (if key \<noteq> comments \<or> trim_space s = [] then LvNone
     else case named uni s comments of Some l \<Rightarrow> l | None \<Rightarrow> LvRead)"
  by (auto simp: level_in_def lookup_perm_def catalogue_def split: option.split)

section \<open>The stored list\<close>

definition plain_entry :: "string \<Rightarrow> bool" where
  "plain_entry p \<longleftrightarrow> trim_space p = p \<and> p \<noteq> [] \<and> comma \<notin> set p"

lemma fresh_plain: "\<forall>p \<in> set es. plain_entry p \<Longrightarrow> fresh [] es = es"
  by (induction es) (auto simp: fresh_def plain_entry_def)

lemma loop_verbs:
  "distinct vs \<Longrightarrow> set vs \<subseteq> set valid_scopes \<Longrightarrow> set vs \<inter> set seen = {} \<Longrightarrow>
   issue_loop uni seen got roots lv (vs @ rest) = issue_loop uni (rev vs @ seen) (rev vs @ got) roots lv rest"
proof (induction vs arbitrary: seen got)
  case (Cons v vs)
  have v: "v \<in> set valid_scopes" using Cons.prems by simp
  have "issue_loop uni seen got roots lv ((v # vs) @ rest) = issue_loop uni (v # seen) (v # got) roots lv (vs @ rest)"
    using verb_facts [OF v] Cons.prems(3) by (simp add: is_root_def)
  then show ?case using Cons by simp
qed simp

lemma loop_roots:
  "distinct rs \<Longrightarrow> \<forall>p \<in> set rs. plain_entry p \<and> is_root p \<and> valid_scope uni p \<Longrightarrow> set rs \<inter> set seen = {} \<Longrightarrow>
   issue_loop uni seen got roots lv (rs @ rest) = issue_loop uni (rev rs @ seen) got (roots @ rs) lv rest"
proof (induction rs arbitrary: seen roots)
  case (Cons p rs)
  have "issue_loop uni seen got roots lv ((p # rs) @ rest) = issue_loop uni (p # seen) got (roots @ [p]) lv (rs @ rest)"
    using Cons.prems by (simp add: plain_entry_def is_root_def)
  then show ?case using Cons by simp
qed simp

section \<open>From the list that was asked for to the list that is stored\<close>

text \<open>What issuing makes of a list, with the levels \<open>l\<close> it found in it.\<close>

definition issued :: "(string \<Rightarrow> string) \<Rightarrow> string \<Rightarrow> string list \<Rightarrow> string list \<Rightarrow> string list \<Rightarrow> level option \<Rightarrow> bool" where
  "issued uni raw verbs roots perms l \<longleftrightarrow> (let es = fresh [] (split_on comma raw) in
     verbs \<noteq> [] \<and> distinct verbs \<and> set verbs = set es \<inter> set valid_scopes \<and> filter (\<lambda>v. v \<in> set verbs) valid_scopes = verbs \<and>
     distinct roots \<and> set roots = {p \<in> set es. is_root p} \<and>
     find is_root es = (case roots of [] \<Rightarrow> None | p # _ \<Rightarrow> Some p) \<and> (\<forall>p \<in> set es. valid_scope uni p) \<and>
     (\<forall>lv. l = Some lv \<longleftrightarrow> (\<exists>e \<in> set (split_on comma raw). parse_entry uni e = Some (comments, Some lv))) \<and>
     perms = (if l = Some LvReadWrite then [''comments:rw''] else []))"

lemma fresh_parse: "(\<exists>e \<in> set (fresh [] es). parse_entry uni e = Some (comments, Some lv)) \<longleftrightarrow>
    (\<exists>e \<in> set es. parse_entry uni e = Some (comments, Some lv))"
proof -
  have "parse_entry uni [] = None" by (simp add: parse_entry_def trim_space_plain space_len_def space_len_right_def index_byte_simps)
  then show ?thesis using parse_entry_trim [of uni] unfolding fresh_def by (auto simp: image_iff) (metis option.distinct(1))+
qed

lemma parse_issued_facts:
  assumes "parse_issued uni raw = Inr (verbs, roots, perms)" obtains l where "issued uni raw verbs roots perms l"
proof -
  let ?es = "split_on comma raw"
  obtain g l where loop: "issue_loop uni [] [] [] Map.empty ?es = Inr (g, roots, l)"
    and out: "verbs = filter (\<lambda>v. v \<in> set g) valid_scopes" "verbs \<noteq> []" "perms = canonical l"
    using assms by (auto simp: parse_issued_def Let_def split: sum.splits if_splits)
  note ok = issue_loop_ok [OF loop, unfolded loop_ok_def prod.case append_Nil]
  have v: "distinct verbs" "set verbs = set (fresh [] ?es) \<inter> set valid_scopes" "filter (\<lambda>v. v \<in> set verbs) valid_scopes = verbs"
    using ok unfolding out(1) by (auto simp: valid_scopes_def)
  have "l comments = Some lv \<longleftrightarrow> (\<exists>e \<in> set ?es. parse_entry uni e = Some (comments, Some lv))" for lv
    using ok fresh_parse [of ?es uni lv] by auto
  then show thesis using that [of "l comments"] ok out(2,3) v unfolding issued_def Let_def canonical_eq by blast
qed

lemma issuedD:
  assumes "issued uni raw verbs roots perms l"
  shows "verbs \<noteq> []" "distinct verbs" "set verbs = set (fresh [] (split_on comma raw)) \<inter> set valid_scopes"
    "filter (\<lambda>v. v \<in> set verbs) valid_scopes = verbs" "distinct roots" "set roots = {p \<in> set (fresh [] (split_on comma raw)). is_root p}"
    "find is_root (fresh [] (split_on comma raw)) = (case roots of [] \<Rightarrow> None | p # _ \<Rightarrow> Some p)"
    "\<forall>p \<in> set (fresh [] (split_on comma raw)). valid_scope uni p"
    "\<And>lv. l = Some lv \<longleftrightarrow> (\<exists>e \<in> set (split_on comma raw). parse_entry uni e = Some (comments, Some lv))"
    "perms = (if l = Some LvReadWrite then [''comments:rw''] else [])"
  using assms unfolding issued_def Let_def by blast+

text \<open>The one permission entry that is ever stored.\<close>

lemma comments_rw:
  "plain_entry ''comments:rw''" "\<not> is_root ''comments:rw''" "valid_scope uni ''comments:rw''" "''comments:rw'' \<notin> set valid_scopes"
proof -
  show "plain_entry ''comments:rw''" unfolding plain_entry_def by (intro conjI trim_space_ascii) auto
  show n: "\<not> is_root ''comments:rw''" by (simp add: is_root_def has_prefix_def scope_prefix_def)
  then show "valid_scope uni ''comments:rw''" using comments_entry [of uni] by (simp add: valid_scope_def is_root_def)
  show "''comments:rw'' \<notin> set valid_scopes" by (simp add: valid_scopes_def)
qed

lemma stored_roots:
  assumes "issued uni raw verbs roots perms l"
  shows "\<forall>p \<in> set roots. plain_entry p \<and> is_root p \<and> valid_scope uni p" "set roots \<inter> set verbs = {}"
proof -
  note d = issuedD [OF assms]
  have "plain_entry p" if "p \<in> set (fresh [] (split_on comma raw))" for p
    using that entry_no_comma [of p raw] by (auto simp: plain_entry_def fresh_def entries_def)
  then show "\<forall>p \<in> set roots. plain_entry p \<and> is_root p \<and> valid_scope uni p" using d(6,8) by auto
  then show "set roots \<inter> set verbs = {}" using d(3) verb_facts(4) by blast
qed

lemma stored_split:
  assumes "issued uni raw verbs roots perms l"
  shows "split_on comma (join_scopes verbs roots perms) = verbs @ roots @ perms" "fresh [] (verbs @ roots @ perms) = verbs @ roots @ perms"
proof -
  note d = issuedD [OF assms]
  have "plain_entry v" if "v \<in> set valid_scopes" for v using verb_facts [OF that] by (simp add: plain_entry_def)
  then have plain: "\<forall>p \<in> set (verbs @ roots @ perms). plain_entry p"
    using d(3,10) stored_roots(1) [OF assms] comments_rw(1) by (auto split: if_splits)
  then show "split_on comma (join_scopes verbs roots perms) = verbs @ roots @ perms"
    using d(1) unfolding join_scopes_def by (intro split_join) (auto simp: plain_entry_def)
  show "fresh [] (verbs @ roots @ perms) = verbs @ roots @ perms" by (rule fresh_plain [OF plain])
qed

lemma stored_again:
  assumes "issued uni raw verbs roots perms l"
  shows "parse_issued uni (join_scopes verbs roots perms) = Inr (verbs, roots, perms)"
proof -
  note d = issuedD [OF assms] and rs = stored_roots [OF assms]
  have "issue_loop uni [] [] [] Map.empty (verbs @ roots @ perms) = issue_loop uni (rev roots @ rev verbs) (rev verbs) roots Map.empty perms"
    using loop_verbs [OF d(2), of "[]" uni "[]" "[]" Map.empty "roots @ perms"] d(3) rs
      loop_roots [OF d(5) rs(1), of "rev verbs" "rev verbs" "[]" Map.empty perms] by simp
  also have "\<dots> = Inr (rev verbs, roots, if perms = [] then Map.empty else [comments \<mapsto> LvReadWrite])"
  proof (cases "perms = []")
    case False
    then have "perms = [''comments:rw'']" "''comments:rw'' \<notin> set (rev roots @ rev verbs)"
      using d(3,10) rs(1) comments_rw(2,4) by (auto split: if_splits)
    then show ?thesis using comments_rw(1,2) comments_rw(3) [of uni] comments_entry [of uni] by (simp add: plain_entry_def is_root_def)
  qed simp
  finally show ?thesis using d(1,4,10) stored_split(1) [OF assms] by (auto simp: parse_issued_def canonical_eq split: if_splits)
qed

lemma stored_verbs:
  assumes "issued uni raw verbs roots perms l" "v \<in> set valid_scopes"
  shows "has_scope (Some (join_scopes verbs roots perms)) v \<longleftrightarrow> v \<in> set verbs" "has_scope (Some raw) v \<longleftrightarrow> v \<in> set verbs"
proof -
  note d = issuedD [OF assms(1)]
  have "v \<notin> set roots" "v \<notin> set perms"
    using stored_roots(1) [OF assms(1)] verb_facts(4) [OF assms(2)] d(10) comments_rw(4) assms(2) by (auto split: if_splits)
  then show "has_scope (Some (join_scopes verbs roots perms)) v \<longleftrightarrow> v \<in> set verbs"
    using has_scope_verb [OF assms(2)] stored_split [OF assms(1)] by simp
  show "has_scope (Some raw) v \<longleftrightarrow> v \<in> set verbs" using has_scope_verb [OF assms(2)] d(3) assms(2) by simp
qed

lemma stored_root:
  assumes "issued uni raw verbs roots perms l"
  shows "root_from_token (Some (join_scopes verbs roots perms)) = root_from_token (Some raw)"
    "token_is_confined (Some raw) \<longleftrightarrow> root_from_token (Some raw) \<noteq> None"
proof -
  note d = issuedD [OF assms] and rs = stored_roots(1) [OF assms] and sp = stored_split [OF assms]
  have "find is_root verbs = None" "find is_root perms = None"
    using d(3,10) verb_facts(4) comments_rw(2) by (auto simp: find_None_iff split: if_splits)
  then have fi: "find is_root (fresh [] (verbs @ roots @ perms)) = find is_root (fresh [] (split_on comma raw))"
    unfolding sp(2) d(7) using rs by (cases roots) (simp_all add: find_append)
  have va: "\<forall>p \<in> set (fresh [] (verbs @ roots @ perms)). valid_scope uni p"
    unfolding sp(2) using d(3,10) verb_facts(6) rs comments_rw(3) by (auto split: if_splits)
  show "root_from_token (Some (join_scopes verbs roots perms)) = root_from_token (Some raw)"
    "token_is_confined (Some raw) \<longleftrightarrow> root_from_token (Some raw) \<noteq> None"
    unfolding root_from_token_def option.case sp(1) confined_find using first_of_find [OF d(8)] first_of_find [OF va] fi by metis+
qed

lemma stored_level:
  assumes "issued uni raw verbs roots perms l"
  shows "perm_level uni (Some (join_scopes verbs roots perms)) key = perm_level uni (Some raw) key"
proof -
  note d = issuedD [OF assms] and rs = stored_roots(1) [OF assms] and sp = stored_split [OF assms]
  let ?st = "join_scopes verbs roots perms"
  have none: "parse_entry uni p = None" if "p \<in> set verbs \<or> p \<in> set roots" for p
    using that d(3) verb_facts(5) rs root_no_perm by (auto simp: plain_entry_def)
  have "(\<exists>e \<in> set perms. parse_entry uni e = Some (comments, Some lv)) \<longleftrightarrow> l = Some LvReadWrite \<and> LvReadWrite = lv" for lv
    using d(10) comments_entry [of uni] by simp
  then have "(\<exists>e \<in> set (split_on comma ?st). parse_entry uni e = Some (comments, Some lv)) \<longleftrightarrow> l = Some LvReadWrite \<and> LvReadWrite = lv" for lv
    unfolding sp(1) set_append using none by (metis Un_iff option.distinct(1))
  then have st: "named uni ?st comments = (if l = Some LvReadWrite then Some LvReadWrite else None)" by (intro named_comments) auto
  have ra: "named uni raw comments = l" by (rule named_comments) (rule d(9))
  have two: "l = None \<or> l = Some LvRead \<or> l = Some LvReadWrite"
  proof (cases l)
    case (Some lv)
    then obtain e where "parse_entry uni e = Some (comments, Some lv)" using d(9) [of lv] by blast
    then show ?thesis using parse_entry_key [of uni e] Some by simp
  qed simp
  have "hd verbs \<in> set verbs" using d(1) by simp
  then obtain v where v: "v \<in> set verbs" "v \<in> set valid_scopes" unfolding d(3) by blast
  then have "v \<in> set (fresh [] (split_on comma ?st))" "v \<in> set (fresh [] (split_on comma raw))" unfolding sp using d(3) by simp_all
  then have blank: "trim_space ?st \<noteq> []" "trim_space raw \<noteq> []" using verb_not_blank [OF v(2)] by blast+
  show ?thesis unfolding perm_level_def option.case level_in_comments st ra using blank two by auto
qed

text \<open>The readers of a root: the protocol servers find the first one as the assistant's surface does; the middleware, which
  keeps the last, finds the same one where the list names no two.\<close>

lemma protocol_first: "protocol_first ss = first_of ss"
  by (induction ss) (auto simp: scope_root_def parse_root_def Let_def split: option.split)

lemma protocol_is_first: "protocol_root scopes = root_from_token scopes"
  by (simp add: protocol_root_def root_from_token_def protocol_first split: option.split)

lemma last_is_kept:
  "\<forall>s \<in> set ss. scope_root s \<noteq> None \<longrightarrow> scope_root s = Some r \<Longrightarrow>
    foldl (\<lambda>acc s. case scope_root s of Some r \<Rightarrow> Some r | None \<Rightarrow> acc) (Some r) ss = Some r"
  by (induction ss) (auto split: option.split)

lemma last_is_first:
  "\<forall>s \<in> set ss. scope_root s \<noteq> None \<longrightarrow> scope_root s = x \<Longrightarrow>
    foldl (\<lambda>acc s. case scope_root s of Some r \<Rightarrow> Some r | None \<Rightarrow> acc) None ss = first_of ss"
proof (induction ss)
  case (Cons s ss)
  show ?case
  proof (cases "scope_root s")
    case (Some r)
    then have "\<forall>t \<in> set ss. scope_root t \<noteq> None \<longrightarrow> scope_root t = Some r" using Cons.prems by auto
    from last_is_kept [OF this] show ?thesis using Some by simp
  qed (use Cons in simp)
qed simp

lemma one_root_one_folder:
  assumes "issued uni raw verbs roots perms l" "length roots \<le> 1"
  shows "last_root (Some raw) = root_from_token (Some raw)"
proof -
  have r: "trim_space s \<in> set roots" if "s \<in> set (split_on comma raw)" "scope_root s \<noteq> None" for s
  proof -
    have "is_root (trim_space s)" using that(2) by (auto simp: scope_root_def is_root_def Let_def split: if_splits)
    moreover from this have "trim_space s \<noteq> []" by (auto simp: is_root_def has_prefix_def scope_prefix_def)
    ultimately show ?thesis using issuedD(6) [OF assms(1)] that(1) by (auto simp: fresh_def)
  qed
  have "scope_root s = scope_root (hd roots)" if "s \<in> set (split_on comma raw)" "scope_root s \<noteq> None" for s
  proof -
    have "trim_space s = hd roots" using r [OF that] assms(2) by (cases roots) auto
    then show ?thesis by (metis scope_root_def trim_space_idem)
  qed
  then show ?thesis using last_is_first [of "split_on comma raw" "scope_root (hd roots)"] by (simp add: last_root_def root_from_token_def)
qed

text \<open>C35. A key reads back as it was asked for: what the stored list grants is exactly what the list that was asked for
  says - the verbs, no administration that was not named, the same levels - and issuing the stored list again stores it
  again. The assistant's surface and the protocol servers read the same folder out of both; the middleware reads that
  folder too, out of both, where the list names at most one root. A key that carries a root is a key confined to a
  folder that can be read.\<close>

theorem issued_keys_read_back:
  assumes "parse_issued uni raw = Inr (verbs, roots, perms)" "stored = join_scopes verbs roots perms"
  shows "parse_issued uni stored = Inr (verbs, roots, perms) \<and> verbs \<noteq> [] \<and>
    (\<forall>v \<in> set valid_scopes. (has_scope (Some stored) v \<longleftrightarrow> v \<in> set verbs) \<and> has_scope (Some raw) v = has_scope (Some stored) v) \<and>
    root_from_token (Some stored) = root_from_token (Some raw) \<and>
    protocol_root (Some stored) = root_from_token (Some raw) \<and> protocol_root (Some raw) = root_from_token (Some raw) \<and>
    (length roots \<le> 1 \<longrightarrow>
       last_root (Some stored) = root_from_token (Some raw) \<and> last_root (Some raw) = root_from_token (Some raw)) \<and>
    (token_is_confined (Some raw) \<longleftrightarrow> root_from_token (Some stored) \<noteq> None) \<and>
    (\<forall>key. perm_level uni (Some stored) key = perm_level uni (Some raw) key)"
proof -
  obtain l where l: "issued uni raw verbs roots perms l" by (rule parse_issued_facts [OF assms(1)])
  obtain l' where l': "issued uni stored verbs roots perms l'" unfolding assms(2) by (rule parse_issued_facts [OF stored_again [OF l]])
  show ?thesis using one_root_one_folder [OF l] one_root_one_folder [OF l']
    unfolding assms(2) protocol_is_first
    using stored_again [OF l] issuedD(1) [OF l] stored_verbs [OF l] stored_root [OF l] stored_level [OF l] by simp
qed

section \<open>A key\<close>

definition asked :: string where
  "asked = ''write, read,root:main://docs , comments:WRITE,read''"

lemma asked_issued: "parse_issued id asked = Inr ([''read'', ''write''], [''root:main://docs''], [''comments:rw''])"
  by code_simp

lemma issued_keys_read_back_witness:
  "has_scope (Some ''read,write,root:main://docs,comments:rw'') ''write'' \<and>
   \<not> has_scope (Some ''read,write,root:main://docs,comments:rw'') ''admin'' \<and>
   last_root (Some ''read,write,root:main://docs,comments:rw'') = root_from_token (Some asked) \<and>
   perm_level id (Some ''read,write,root:main://docs,comments:rw'') comments = perm_level id (Some asked) comments"
proof -
  have j: "''read,write,root:main://docs,comments:rw'' = join_scopes [''read'', ''write''] [''root:main://docs''] [''comments:rw'']"
    by (simp add: join_scopes_def)
  show ?thesis using issued_keys_read_back [OF asked_issued j] by (simp add: valid_scopes_def)
qed

text \<open>Nothing keeps a list to one root: a key may be issued with two, and the doors then disagree about its folder.\<close>

theorem two_roots_are_issued:
  "parse_issued id ''read,root:main://a,root:main://b'' = Inr ([''read''], [''root:main://a'', ''root:main://b''], []) \<and>
   last_root (Some ''read,root:main://a,root:main://b'') \<noteq> root_from_token (Some ''read,root:main://a,root:main://b'')"
  by code_simp

text \<open>With two, writing the list out anew moves the folder the middleware finds: an entry that is repeated is stored once.\<close>

theorem issuing_moves_the_folder:
  "let asked = ''read,root:m://a,root:m://b,root:m://a''; stored = ''read,root:m://a,root:m://b'' in
   parse_issued id asked = Inr ([''read''], [''root:m://a'', ''root:m://b''], []) \<and>
   join_scopes [''read''] [''root:m://a'', ''root:m://b''] [] = stored \<and>
   last_root (Some asked) = Some \<lparr>rt_adapter = ''m'', rt_rel = ''a''\<rparr> \<and>
   last_root (Some stored) = Some \<lparr>rt_adapter = ''m'', rt_rel = ''b''\<rparr>"
  by code_simp

text \<open>A confined key is never an administrator's, whatever account it belongs to.\<close>

lemma confined_keys_do_not_administer:
  "token_is_confined tok \<Longrightarrow> \<not> caller_may_administer acc tok \<and> require_admin_token tok \<noteq> None"
  by (auto simp: caller_may_administer_def token_may_administer_def require_admin_token_def token_is_confined_def split: option.splits)

end
