(* ===== verification/Spec2Isabelle.thy ===== *)
theory Spec2Isabelle
  imports Prelude GoStrings PathMatch Netip Clientip Netguard Syspath Perm PermModel PermResolve
    PermRules Acl AclRules Writegate Vaultlock VaultlockRules Davlock DavlockRules Share
    ShareRules SyncPlan SyncEngine SyncRules SyncSafety SyncPass SyncQuiet Identity
    IdentityRules Dbsetting Loginguard LoginguardRules Rowgate RowgateRules Queue QueueRules
    Nodes TrashRules Quota QuotaRules Filecache FilecacheRules Confine ConfineRules Scopes
    ScopesRules
begin

text \<open>
  A verification development of the filex server's decision logic.

  filex is a file server: people reach the same storages through the web, WebDAV, SFTP, FTPS, S3
  and a synchronising desktop client. Everything that decides - who may do what, what is locked,
  what a public link still gives, what a synchronisation does next - is plain Go under
  \<open>src/backend/internal\<close>, called from handlers and protocol servers that only carry bytes. That
  logic is what is modelled here; the handlers, SQL text, protocols and drivers are not.

  \<^bold>\<open>How the parts meet.\<close> A write first passes \<open>writegate\<close>, which asks \<open>syspath\<close> for the names filex
  keeps for itself, \<open>acl\<close> for the paths an app froze and whether the path lies in an encrypted
  vault. Whether the account may do it at all is \<open>acl.Set\<close>: grants give a level, the role caps
  it, and \<open>perm\<close> decides the single permission in three layers (override, rules of the role and
  the groups, presets), with folder conditions matched by \<open>path.Match\<close>. WebDAV's own locks are
  \<open>davlock\<close>'s; a vault's index is written under \<open>vaultlock\<close>, a row moved by compare-and-set.
  Public links (\<open>share\<close>) carry their own life, caps and PIN gate. \<open>filesync\<close> plans and carries out
  the synchronisation of one folder. What changes a storage in two steps and what
  compares the catalogue with it keep apart through \<open>rowgate\<close>. A password at any door passes \<open>loginguard\<close> first, which counts
  under the address \<open>clientip\<close> finds, with settings of \<open>dbsetting\<close>. A request filex itself
  sends to a name somebody gave it passes \<open>netguard\<close>.

  \<^bold>\<open>Theories.\<close> All paths are below \<open>src/backend/internal\<close>; a definition carries the name of its Go
  function in the spelling of HOL (\<open>LockWithin\<close> is \<open>lock_within\<close>), a struct is a record with a
  short prefix on its fields.
  \<^item> \<open>Prelude\<close>: named collections, facts on lists and options, the stable sort, the interface
    \<open>path_tree\<close>. \<open>GoStrings\<close>, \<open>PathMatch\<close>, \<open>Netip\<close>: what the code calls of Go's \<open>strings\<close>, \<open>net\<close>, \<open>net/netip\<close>
    and \<open>path\<close>. A Go string is the list of its bytes.
  \<^item> \<open>Syspath\<close>: \<open>syspath/syspath.go\<close>. The internal directories, their verbs, drafts and work copies;
    \<open>refused_by\<close> is the predicate every gate uses.
  \<^item> \<open>Perm\<close>, \<open>PermModel\<close>, \<open>PermResolve\<close>, \<open>PermRules\<close>: \<open>perm/*.go\<close> with the rows of \<open>model/permission.go\<close>
    and \<open>model/group.go\<close>. The 64-bit set over the catalogue; rules, roles, groups and patterns; the
    layered decision (\<open>decide\<close>, \<open>resolve\<close>, \<open>can\<close>, \<open>can_at\<close>); what patterns denote, which role wins.
  \<^item> \<open>Acl\<close>, \<open>AclRules\<close>: \<open>acl/acl.go\<close> with \<open>model/grant.go\<close>, \<open>user.go\<close>, \<open>storage.go\<close>, \<open>app_plugin.go\<close>. The
    per-request set, effective level, locks, what is seen, blocked types.
  \<^item> \<open>Writegate\<close>: \<open>writegate/writegate.go\<close>, over the interface \<open>frozen_paths\<close> that \<open>acl\<close> provides.
  \<^item> \<open>Vaultlock\<close>, \<open>VaultlockRules\<close>: \<open>vaultlock/vaultlock.go\<close>, \<open>model/vault.go\<close>,
    \<open>db/vault_lock_sql.go\<close>, \<open>db/query_rows.go\<close>. Each operation is a function from row to row (\<open>take_step\<close>, \<open>renew_step\<close>,
    \<dots>) that \<open>mutate\<close> applies by compare-and-set; histories are \<open>vl_reach\<close>.
  \<^item> \<open>Davlock\<close>, \<open>DavlockRules\<close>: \<open>davlock/davlock.go\<close>. The table, and its file as it is read back: JSON text keeps
    UTF-8 as it is and puts U+FFFD for every other byte (\<open>json_text\<close>); histories are \<open>dav_reach\<close>.
  \<^item> \<open>Share\<close>, \<open>ShareRules\<close>: \<open>share/*.go\<close>, \<open>model/share.go\<close> and the counters' SQL.
  \<^item> \<open>SyncPlan\<close>, \<open>SyncEngine\<close>: \<open>filesync/plan.go\<close>, \<open>hold.go\<close>, \<open>engine.go\<close>, \<open>ledger.go\<close> and the name
    helpers of \<open>snapshot.go\<close> and \<open>targeted.go\<close>. \<open>SyncRules\<close>, \<open>SyncSafety\<close>, \<open>SyncPass\<close>, \<open>SyncQuiet\<close>: what
    the plan, one action and a whole pass guarantee.
  \<^item> \<open>Clientip\<close>: \<open>clientip/clientip.go\<close>. Trusted sets, and which address a request came from.
  \<^item> \<open>Netguard\<close>: \<open>netguard/netguard.go\<close>. Which addresses an outbound request may reach.
  \<^item> \<open>Dbsetting\<close>: \<open>dbsetting/*.go\<close>. Settings of the three kinds: seeded, resolved, validated.
  \<^item> \<open>Loginguard\<close>, \<open>LoginguardRules\<close>: \<open>loginguard/*.go\<close> with \<open>model/login_throttle.go\<close> and
    \<open>db/login_throttle_sql.go\<close>. The counters in memory and in the table; what guessing costs.
  \<^item> \<open>Identity\<close>, \<open>IdentityRules\<close>: \<open>identity/*.go\<close>, \<open>identitystore/store.go\<close>. Login names: the rule, the lookup, how
    they are claimed, and the addresses made up from them.
  \<^item> \<open>Rowgate\<close>, \<open>RowgateRules\<close>: \<open>rowgate/*.go\<close>. The gate of a storage; each region under its mutex is a function on
    it, the goroutines a list of what each is doing, a schedule a list of \<open>act\<close>s; the invariant is \<open>gate_inv\<close>.
  \<^item> \<open>Queue\<close>, \<open>QueueRules\<close>: \<open>queue/driver.go\<close>, \<open>worker.go\<close>, \<open>drivers/sqlite\<close> and the start in \<open>server.go\<close>. The
    table of operations, the workers over it; the invariant is \<open>sys_ok\<close>, what an operation may still run \<open>owed\<close>.
  \<^item> \<open>Nodes\<close>, \<open>TrashRules\<close>: the rows of the catalogue in \<open>db/drivers/sqlite/sqlite.go\<close> with
    \<open>db/node_deleted_by_sql.go\<close> and \<open>pathkey\<close>; a folder into the trash and back.
  \<^item> \<open>Quota\<close>, \<open>QuotaRules\<close>: \<open>quota/service.go\<close>, \<open>quotastore/store.go\<close>. Who a write is charged to; histories are
    lists of \<open>store_op\<close>s, the invariant is \<open>books\<close>.
  \<^item> \<open>Filecache\<close>, \<open>FilecacheRules\<close>: \<open>filecache/*.go\<close>. Local copies of slow files under one ceiling; histories are
    lists of \<open>cache_act\<close>s, the invariant is \<open>cache_ok\<close>.
  \<^item> \<open>Confine\<close>, \<open>ConfineRules\<close>: \<open>confine/confine.go\<close>. The folder a key or a header confines a request to; the
    middleware as a function from request to answer.
  \<^item> \<open>Scopes\<close>, \<open>ScopesRules\<close>: \<open>tokenperm\<close>, \<open>auth/drivers/apitoken\<close>, \<open>auth/token_grants.go\<close>. The list of what a key
    may do, how it is issued and read.

  \<^bold>\<open>What the lemma groups show.\<close> Every component has lemmas on what its functions answer on each
  branch, an invariant with one preservation lemma per operation where it keeps state
  (\<open>vl_inv\<close>, \<open>table_ok\<close>, \<open>dav_inv\<close>, \<open>within_caps\<close>, \<open>tree_ok\<close>, \<open>quiet_inv\<close>), and the properties
  C1-C40, each with a sample on which it was evaluated. Three interfaces are stated once as locales
  and interpreted on the code's own definitions: \<open>path_tree\<close> (a path and what is below it; the clean
  paths of \<open>acl\<close>, the names of \<open>davlock\<close>, the fences of \<open>rowgate\<close>, the roots of \<open>confine\<close>), \<open>frozen_paths\<close> (what \<open>writegate\<close> asks of \<open>acl\<close>), \<open>cas_table\<close>
  (the compare-and-set row of \<open>vaultlock\<close>).

  \<^bold>\<open>State, time, concurrency.\<close> State is passed explicitly. A clock reading is an argument:
  nanoseconds (\<open>nanos\<close>) or milliseconds (\<open>millis\<close>). An operation under a mutex is one step; where the
  code gives the lock up in between, or another process may write the same row, what the others do
  is an argument of the step: the turns of \<open>mutate\<close>, the environment of \<open>apply_action\<close> (other people's
  saves before its request, after a conflict's fetch and before its last upload). The checks of the
  sign-in limiter, the comparison and the count after it are separate events over the attempts under
  way. A statement of the vault lock's table may fail, or be carried out with its answer lost
  (\<open>sql_answer\<close>); elsewhere a write that answers an error is one that wrote nothing.

  \<^bold>\<open>Bounds and fuel.\<close> Nothing runs on fuel that is not the code's own. \<open>mutate\<close> tries
  \<open>cas_tries\<close> times as the code does and then answers contention. \<open>free_side_name\<close> tries the code's
  \<open>max_side_names\<close> names. The scanners of \<open>GoStrings\<close>, \<open>PathMatch\<close>, \<open>SyncPlan\<close> and \<open>Netip\<close> end because
  the rest of the string gets shorter; their termination is proved. Counters, sizes and times are
  \<open>int\<close>: the code holds them in 64 bits and no modelled operation comes near the limit, except the
  permission set and network addresses, which is a word of its width.

  \<^bold>\<open>Parameters.\<close> Code outside the repository is an argument: password hashing, sealing, SHA-256, the
  MAC of the unlock cookie, random tokens, JSON objects (\<open>encoding/json\<close> between bytes and values), Unicode's case tables beyond ASCII, the clock, the answers
  of disk, server and database (including that they fail). A property that needs one of their
  documented laws has it as a hypothesis, met by a concrete function in the property's witness.

  \<^bold>\<open>Not modelled.\<close> HTTP handlers and protocol servers (they parse, call what is modelled, and write
  answers); SQL drivers, except the statements the modelled components rely on; storage
  drivers, mounts, search, thumbnails, previews, office editing, mail and notifications (I/O); the
  WebAssembly and plugin hosts; the formats of end-to-end encryption; the loader that reads
  permission rows; in \<open>filesync\<close> the directory walks, the single-file and targeted passes and the
  time-based checkpoints; audit rows and logging everywhere.
\<close>

end
